(* ===== verification/Prelude.thy ===== *)
theory Prelude
  imports "HOL-Library.Word" "HOL-Library.Code_Target_Nat"
begin

text \<open>
  What the components share: the names of the machine types, the result type of fallible
  operations, the saturating and wrapping arithmetic of the Rust standard library on 64-bit
  integers, powers of two, and the little-endian byte strings of the wire and header formats.

  Conventions of the development.
  \<^item> A \<open>Result<T, E>\<close> is a value of \<open>'e + 'a\<close>: \<open>Inl e\<close> is \<open>Err(e)\<close>, \<open>Inr x\<close> is \<open>Ok(x)\<close>; the
    operator \<open>?\<close> is \<open>rbind\<close>.
  \<^item> Unsigned counts, sizes and indices that the code never lets wrap are \<open>nat\<close>; \<open>as u32\<close> is
    written \<open>mod 2 ^ 32\<close>. Words whose bits are packed, hashed or compared as bit patterns are
    \<open>'n word\<close>.
  \<^item> Signed 64-bit stamps are \<open>int\<close>; every operation of the code that wraps or saturates on
    them says so (\<open>sat_i64\<close>, \<open>wrap_u64\<close>).
\<close>

unbundle bit_operations_syntax

type_synonym u8 = "8 word"
type_synonym u16 = "16 word"
type_synonym u32 = "32 word"
type_synonym u64 = "64 word"

named_theorems arith_defs \<open>definitions of the bounded arithmetic\<close>

subsection \<open>Results\<close>

fun rbind :: "'e + 'a \<Rightarrow> ('a \<Rightarrow> 'e + 'b) \<Rightarrow> 'e + 'b" where
  "rbind (Inl e) f = Inl e"
| "rbind (Inr x) f = f x"

definition ok_or :: "'a option \<Rightarrow> 'e \<Rightarrow> 'e + 'a" where
  "ok_or m e = (case m of None \<Rightarrow> Inl e | Some x \<Rightarrow> Inr x)"

fun ok :: "'e + 'a \<Rightarrow> 'a option" where
  "ok (Inl e) = None"
| "ok (Inr x) = Some x"

lemma ok_or_simps [simp]: "ok_or None e = Inl e" "ok_or (Some x) e = Inr x"
  by (simp_all add: ok_or_def)

lemma rbind_Inr_iff: "rbind m f = Inr y \<longleftrightarrow> (\<exists>x. m = Inr x \<and> f x = Inr y)"
  by (cases m) auto

lemma rbind_Inl_iff: "rbind m f = Inl e \<longleftrightarrow> m = Inl e \<or> (\<exists>x. m = Inr x \<and> f x = Inl e)"
  by (cases m) auto

lemma rbind_split: "P (rbind m f) \<longleftrightarrow> (\<forall>e. m = Inl e \<longrightarrow> P (Inl e)) \<and> (\<forall>x. m = Inr x \<longrightarrow> P (f x))"
  by (cases m) auto

lemma rbind_split_asm:
  "P (rbind m f) \<longleftrightarrow> \<not> (\<exists>e. m = Inl e \<and> \<not> P (Inl e)) \<and> \<not> (\<exists>x. m = Inr x \<and> \<not> P (f x))"
  by (cases m) auto

lemmas rbind_splits = rbind_split rbind_split_asm
lemmas rbind_iffs = rbind_Inr_iff rbind_Inl_iff

lemma ok_or_Inr_iff [simp]: "ok_or m e = Inr x \<longleftrightarrow> m = Some x"
  by (cases m) auto

lemma ok_or_Inl_iff [simp]: "ok_or m e = Inl e' \<longleftrightarrow> m = None \<and> e' = e"
  by (cases m) auto

subsection \<open>64-bit integers written over \<open>int\<close>\<close>

definition i64_min :: int where "i64_min = - (2 ^ 63)"
definition i64_max :: int where "i64_max = 2 ^ 63 - 1"

definition in_i64 :: "int \<Rightarrow> bool" where
  "in_i64 x \<longleftrightarrow> i64_min \<le> x \<and> x \<le> i64_max"

text \<open>The result of a saturating operation whose exact value is \<open>x\<close>.\<close>

definition sat_i64 :: "int \<Rightarrow> int" where
  "sat_i64 x = max i64_min (min i64_max x)"

definition sat_u32 :: "nat \<Rightarrow> nat" where
  "sat_u32 n = min n (2 ^ 32 - 1)"

text \<open>\<open>as u64\<close> of a signed value, and the wrap of \<open>wrapping_sub\<close>.\<close>

definition wrap_u64 :: "int \<Rightarrow> nat" where
  "wrap_u64 x = nat (x mod 2 ^ 64)"

declare i64_min_def [arith_defs] i64_max_def [arith_defs] in_i64_def [arith_defs]
  sat_i64_def [arith_defs] wrap_u64_def [arith_defs]

lemma sat_i64_in [simp]: "in_i64 (sat_i64 x)"
  by (simp add: arith_defs)

lemma sat_i64_id [simp]: "in_i64 x \<Longrightarrow> sat_i64 x = x"
  by (auto simp: arith_defs)

lemma sat_i64_mono: "x \<le> y \<Longrightarrow> sat_i64 x \<le> sat_i64 y"
  by (auto simp: arith_defs)

lemma sat_i64_pos: "0 < x \<Longrightarrow> 0 < sat_i64 x"
  by (auto simp: arith_defs)

lemma sat_i64_nonneg: "0 \<le> x \<Longrightarrow> 0 \<le> sat_i64 x"
  by (auto simp: arith_defs)

lemma sat_i64_nonpos: "x \<le> 0 \<Longrightarrow> sat_i64 x \<le> 0"
  by (auto simp: arith_defs)

text \<open>Two stamps that are both \<open>i64\<close> are less than \<open>2 ^ 64\<close> apart, so the wrapping
  difference is the exact one.\<close>

lemma wrap_u64_diff: "in_i64 a \<Longrightarrow> in_i64 b \<Longrightarrow> a \<le> b \<Longrightarrow> int (wrap_u64 (b - a)) = b - a"
  by (simp add: arith_defs)

subsection \<open>Powers of two\<close>

text \<open>\<open>is_power_of_two\<close> of the standard library: exactly one bit is set.\<close>

fun is_power_of_two :: "nat \<Rightarrow> bool" where
  "is_power_of_two n =
     (if n = 0 then False else if n = 1 then True else even n \<and> is_power_of_two (n div 2))"

declare is_power_of_two.simps [simp del]

lemma is_power_of_two_0_1 [simp]: "\<not> is_power_of_two 0" "is_power_of_two 1" "is_power_of_two (Suc 0)"
  by (simp_all add: is_power_of_two.simps [of 0] is_power_of_two.simps [of "Suc 0"])

lemma is_power_of_two_iff: "is_power_of_two n \<longleftrightarrow> (\<exists>k. n = 2 ^ k)"
proof (induction n rule: is_power_of_two.induct)
  case (1 n)
  show ?case
  proof (cases "n \<le> 1")
    case True
    then show ?thesis
      by (auto simp: is_power_of_two.simps [of n] le_Suc_eq intro: exI [of _ 0])
  next
    case False
    then have eq: "is_power_of_two n \<longleftrightarrow> even n \<and> (\<exists>k. n div 2 = 2 ^ k)"
      using "1.IH" by (subst is_power_of_two.simps) auto
    also have "\<dots> \<longleftrightarrow> (\<exists>k. n = 2 ^ k)"
    proof
      assume "even n \<and> (\<exists>k. n div 2 = 2 ^ k)"
      then obtain k where "n = 2 * 2 ^ k" by (auto elim!: evenE)
      then have "n = 2 ^ Suc k" by simp
      then show "\<exists>k. n = 2 ^ k" ..
    next
      assume "\<exists>k. n = 2 ^ k"
      then obtain k where k: "n = 2 ^ k" ..
      with False obtain j where "k = Suc j" by (cases k) auto
      with k show "even n \<and> (\<exists>k. n div 2 = 2 ^ k)" by auto
    qed
    finally show ?thesis .
  qed
qed

lemma is_power_of_two_pos: "is_power_of_two n \<Longrightarrow> 0 < n"
  by (auto simp: is_power_of_two_iff)

text \<open>\<open>next_pow2\<close> of \<open>layout.rs\<close> and \<open>arena_view.rs\<close>: double from 1 until not below \<open>n\<close>.\<close>

function next_pow2_loop :: "nat \<Rightarrow> nat \<Rightarrow> nat" where
  "next_pow2_loop p n = (if 0 < p \<and> p < n then next_pow2_loop (2 * p) n else p)"
  by pat_completeness auto
termination
  by (relation "measure (\<lambda>(p, n). n - p)") auto

declare next_pow2_loop.simps [simp del]

definition next_pow2 :: "nat \<Rightarrow> nat" where
  "next_pow2 n = next_pow2_loop 1 n"

lemma next_pow2_loop_pow:
  "is_power_of_two p \<Longrightarrow> is_power_of_two (next_pow2_loop p n)"
proof (induction p n rule: next_pow2_loop.induct)
  case (1 p n)
  from "1.prems" obtain k where k: "p = 2 ^ k" by (auto simp: is_power_of_two_iff)
  then have "is_power_of_two (2 * p)"
    by (auto simp: is_power_of_two_iff intro: exI [of _ "Suc k"])
  with "1.IH" "1.prems" show ?case by (subst next_pow2_loop.simps) auto
qed

lemma next_pow2_loop_ge: "0 < p \<Longrightarrow> n \<le> next_pow2_loop p n"
proof (induction p n rule: next_pow2_loop.induct)
  case (1 p n)
  then show ?case by (cases "p < n") (auto simp: next_pow2_loop.simps [of p n])
qed

lemma next_pow2_loop_le: "0 < p \<Longrightarrow> p \<le> 2 * n - 1 \<Longrightarrow> next_pow2_loop p n \<le> 2 * n - 1"
proof (induction p n rule: next_pow2_loop.induct)
  case (1 p n)
  show ?case
  proof (cases "p < n")
    case True
    with "1.prems" have g: "0 < p \<and> p < n" and "0 < 2 * p" and "2 * p \<le> 2 * n - 1" by linarith+
    then have "next_pow2_loop (2 * p) n \<le> 2 * n - 1" by (rule "1.IH")
    with True "1.prems" show ?thesis by (subst next_pow2_loop.simps) simp
  next
    case False
    with "1.prems" show ?thesis by (subst next_pow2_loop.simps) simp
  qed
qed

lemma next_pow2_pow [simp]: "is_power_of_two (next_pow2 n)"
  by (simp add: next_pow2_def next_pow2_loop_pow)

lemma next_pow2_ge: "n \<le> next_pow2 n"
  by (simp add: next_pow2_def next_pow2_loop_ge)

lemma next_pow2_lt: "0 < n \<Longrightarrow> next_pow2 n < 2 * n"
  using next_pow2_loop_le [of 1 n] by (cases n) (auto simp: next_pow2_def)

lemma next_pow2_pos [simp]: "0 < next_pow2 n"
  using next_pow2_pow is_power_of_two_pos by blast

text \<open>Masking a logical index with \<open>capacity - 1\<close> is reduction modulo a power of two.\<close>

lemma mask_eq_mod:
  assumes "is_power_of_two c"
  shows "(i :: nat) AND (c - 1) = i mod c"
proof -
  from assms obtain k where "c = 2 ^ k" by (auto simp: is_power_of_two_iff)
  then have "c - 1 = mask k" by (simp add: mask_eq_exp_minus_1)
  then show ?thesis
    using \<open>c = 2 ^ k\<close> by (simp flip: take_bit_eq_mask add: take_bit_eq_mod) 
qed

text \<open>Two indices less than a period apart with the same residue are equal.\<close>

lemma unat_and_mask: "unat (x AND mask n :: 'a :: len word) = unat x mod 2 ^ n"
  by (simp add: take_bit_eq_mask [symmetric] unsigned_take_bit_eq flip: take_bit_eq_mod)

lemma mod_window_inj:
  assumes "(i :: nat) mod c = j mod c" "i \<le> j" "j < i + c"
  shows "i = j"
proof -
  from assms have "(j - i) mod c = 0" by (metis mod_eq_dvd_iff_nat mod_0_imp_dvd dvd_imp_mod_0)
  moreover have "j - i < c" using assms by simp
  ultimately show ?thesis using assms(2) by simp
qed

subsection \<open>Little-endian byte strings\<close>

fun le_bytes :: "nat \<Rightarrow> nat \<Rightarrow> u8 list" where
  "le_bytes 0 n = []"
| "le_bytes (Suc k) n = word_of_nat (n mod 256) # le_bytes k (n div 256)"

fun le_val :: "u8 list \<Rightarrow> nat" where
  "le_val [] = 0"
| "le_val (b # bs) = unat b + 256 * le_val bs"

lemma length_le_bytes [simp]: "length (le_bytes k n) = k"
  by (induction k arbitrary: n) auto

lemma unat_byte: "unat (word_of_nat (n mod 256) :: u8) = n mod 256"
  by (simp add: unat_of_nat)

lemma le_val_le_bytes: "le_val (le_bytes k n) = n mod 256 ^ k"
proof (induction k arbitrary: n)
  case 0
  then show ?case by simp
next
  case (Suc k)
  have "n mod 256 + 256 * (n div 256 mod 256 ^ k) = n mod (256 * 256 ^ k)"
    by (simp add: mod_mult2_eq)
  with Suc show ?case by (simp add: unat_byte del: of_nat_mod)
qed

lemma le_val_bound: "le_val bs < 256 ^ length bs"
proof (induction bs)
  case Nil
  then show ?case by simp
next
  case (Cons b bs)
  have "unat b < 256" using unsigned_less [of b] by simp
  with Cons show ?case by simp
qed

lemma le_bytes_le_val: "le_bytes (length bs) (le_val bs) = bs"
proof (induction bs)
  case Nil
  then show ?case by simp
next
  case (Cons b bs)
  have "unat b < 256" using unsigned_less [of b] by simp
  with Cons show ?case by simp
qed

end
