(* ===== verification/Core_Types.thy ===== *)
theory Core_Types
  imports Prelude
begin

text \<open>
  The identities and errors of \<open>tf_tree_core/src/error.rs\<close>. A \<open>FrameId\<close> is a non-zero index into
  the frame table, an \<open>EdgeId\<close> an index into the edge table; both are \<open>nat\<close>. Constructors that two
  error types share carry the name of their type.
\<close>

type_synonym frame_id = nat
type_synonym edge_id = nat

definition frame_id_new :: "nat \<Rightarrow> frame_id option" where
  "frame_id_new index = (if index = 0 then None else Some index)"

datatype lookup_error =
    UnknownFrame (uf_hash: u64)
  | Disconnected (dc_target: frame_id) (dc_source: frame_id) (dc_cut_at: frame_id)
  | TreeTooDeep (td_depth: nat)
  | NoData edge_id
  | Extrapolation (ex_edge: edge_id) (ex_requested: int) (ex_oldest: int) (ex_newest: int)
  | SlotRecycled edge_id
  | SlotContended edge_id
  | TopologyChanged (tc_plan: u64) (tc_current: u64)
  | TimeDomainMismatch (tm_expected: nat) (tm_got: nat)
  | MixedTimeDomains (mx_edge: edge_id) (mx_expected: nat) (mx_got: nat)
  | UnknownEdge edge_id
  | FrameOutOfRange frame_id
  | BufferTooSmall (bs_need: nat) (bs_got: nat)
  | WrongElementType
  | LookupChildDetached
  | MissingEdge frame_id
  | DerivativesUnavailable (du_edge: edge_id) (du_interp: nat)
  | NoSegment edge_id

datatype push_error =
    NonMonotonicStamp (nm_edge: edge_id) (nm_last: int) (nm_got: int)
  | ClaimRevoked edge_id
  | PushChildDetached

datatype claim_error = EdgeAlreadyClaimed (owner_slot: nat)

datatype frame_error =
    FrameHashCollision u64
  | FrameCapacityExceeded
  | InternContended
  | FrameChildDetached
  | ReadOnly

datatype topology_error =
    WouldCreateCycle frame_id
  | TopologyCapacityExceeded
  | TopologyUnknownFrame nat

lemma frame_id_new_Some [simp]: "frame_id_new i = Some f \<longleftrightarrow> i = f \<and> 0 < f"
  by (auto simp: frame_id_new_def)

end
