(* ===== verification/Pose.thy ===== *)
theory Pose
  imports Prelude Complex_Main
begin

text \<open>
  The rigid transforms of \<open>tf_tree_math\<close>: \<open>quat.rs\<close> (Hamilton quaternions, scalar first),
  \<open>iso3.rs\<close> (\<open>Vec3\<close>, \<open>Iso3\<close>, the exponential and logarithm of SE(3)), \<open>twist.rs\<close> (body twists
  and the adjoint), \<open>dualquat.rs\<close> (the screw power) and \<open>interp.rs\<close> (ScLerp and LERP/SLERP).

  An \<open>f64\<close> is a real number here: rounding, infinities and NaN are not modelled, so a theorem
  says what the formulas of the code compute before rounding. The routines of \<open>libm\<close> are the
  real functions they document. Where the code offers a delegated and a native body (the
  \<open>helicoid\<close> feature), the native body is the one modelled; the other is third-party code.

  Record fields carry a prefix (\<open>qw\<close> for \<open>Quat::w\<close>, \<open>vx\<close> for \<open>Vec3::x\<close>, \<open>iq\<close> and \<open>it\<close> for
  \<open>Iso3::q\<close> and \<open>Iso3::t\<close>), since record selectors are global names.
\<close>

named_theorems pose_defs \<open>definitions of the pose algebra\<close>

subsection \<open>Vectors\<close>

record vec3 =
  vx :: real
  vy :: real
  vz :: real

definition vec3_new :: "real \<Rightarrow> real \<Rightarrow> real \<Rightarrow> vec3" where
  [pose_defs]: "vec3_new a b c = \<lparr>vx = a, vy = b, vz = c\<rparr>"

definition vec3_ZERO :: vec3 where
  [pose_defs]: "vec3_ZERO = vec3_new 0 0 0"

definition vec3_add :: "vec3 \<Rightarrow> vec3 \<Rightarrow> vec3" where
  [pose_defs]: "vec3_add a b = vec3_new (vx a + vx b) (vy a + vy b) (vz a + vz b)"

definition vec3_sub :: "vec3 \<Rightarrow> vec3 \<Rightarrow> vec3" where
  [pose_defs]: "vec3_sub a b = vec3_new (vx a - vx b) (vy a - vy b) (vz a - vz b)"

definition vec3_scale :: "vec3 \<Rightarrow> real \<Rightarrow> vec3" where
  [pose_defs]: "vec3_scale a k = vec3_new (vx a * k) (vy a * k) (vz a * k)"

definition vec3_dot :: "vec3 \<Rightarrow> vec3 \<Rightarrow> real" where
  [pose_defs]: "vec3_dot a b = vx a * vx b + vy a * vy b + vz a * vz b"

definition vec3_cross :: "vec3 \<Rightarrow> vec3 \<Rightarrow> vec3" where
  [pose_defs]: "vec3_cross a b =
     vec3_new (vy a * vz b - vz a * vy b) (vz a * vx b - vx a * vz b) (vx a * vy b - vy a * vx b)"

definition vec3_norm_squared :: "vec3 \<Rightarrow> real" where
  [pose_defs]: "vec3_norm_squared a = vec3_dot a a"

definition vec3_norm :: "vec3 \<Rightarrow> real" where
  "vec3_norm a = sqrt (vec3_norm_squared a)"

subsection \<open>Quaternions\<close>

record quat =
  qw :: real
  qx :: real
  qy :: real
  qz :: real

definition quat_new :: "real \<Rightarrow> real \<Rightarrow> real \<Rightarrow> real \<Rightarrow> quat" where
  [pose_defs]: "quat_new a b c d = \<lparr>qw = a, qx = b, qy = c, qz = d\<rparr>"

definition quat_IDENTITY :: quat where
  [pose_defs]: "quat_IDENTITY = quat_new 1 0 0 0"

definition conjugate :: "quat \<Rightarrow> quat" where
  [pose_defs]: "conjugate q = quat_new (qw q) (- qx q) (- qy q) (- qz q)"

definition quat_norm_squared :: "quat \<Rightarrow> real" where
  [pose_defs]: "quat_norm_squared q = qw q * qw q + qx q * qx q + qy q * qy q + qz q * qz q"

definition quat_norm :: "quat \<Rightarrow> real" where
  "quat_norm q = sqrt (quat_norm_squared q)"

definition quat_normalize :: "quat \<Rightarrow> quat" where
  "quat_normalize q =
     (let n = quat_norm q
      in if n < 1 / 10 ^ 300 then q
         else let inv = 1 / n in quat_new (qw q * inv) (qx q * inv) (qy q * inv) (qz q * inv))"

definition quat_dot :: "quat \<Rightarrow> quat \<Rightarrow> real" where
  [pose_defs]: "quat_dot a b = qw a * qw b + qx a * qx b + qy a * qy b + qz a * qz b"

definition quat_neg :: "quat \<Rightarrow> quat" where
  [pose_defs]: "quat_neg q = quat_new (- qw q) (- qx q) (- qy q) (- qz q)"

definition quat_scale :: "quat \<Rightarrow> real \<Rightarrow> quat" where
  [pose_defs]: "quat_scale q k = quat_new (qw q * k) (qx q * k) (qy q * k) (qz q * k)"

definition quat_add :: "quat \<Rightarrow> quat \<Rightarrow> quat" where
  [pose_defs]: "quat_add a b = quat_new (qw a + qw b) (qx a + qx b) (qy a + qy b) (qz a + qz b)"

definition quat_sub :: "quat \<Rightarrow> quat \<Rightarrow> quat" where
  [pose_defs]: "quat_sub a b = quat_new (qw a - qw b) (qx a - qx b) (qy a - qy b) (qz a - qz b)"

definition quat_vector :: "quat \<Rightarrow> vec3" where
  [pose_defs]: "quat_vector q = vec3_new (qx q) (qy q) (qz q)"

definition quat_from_pure :: "vec3 \<Rightarrow> quat" where
  [pose_defs]: "quat_from_pure v = quat_new 0 (vx v) (vy v) (vz v)"

definition rotate_native :: "quat \<Rightarrow> vec3 \<Rightarrow> vec3" where
  [pose_defs]: "rotate_native q v =
     (let u = quat_vector q; t = vec3_scale (vec3_cross u v) 2
      in vec3_add (vec3_add v (vec3_scale t (qw q))) (vec3_cross u t))"

abbreviation qrotate :: "quat \<Rightarrow> vec3 \<Rightarrow> vec3" where
  "qrotate \<equiv> rotate_native"

definition quat_mul :: "quat \<Rightarrow> quat \<Rightarrow> quat" where
  [pose_defs]: "quat_mul a b = quat_new
     (qw a * qw b - qx a * qx b - qy a * qy b - qz a * qz b)
     (qw a * qx b + qx a * qw b + qy a * qz b - qz a * qy b)
     (qw a * qy b - qx a * qz b + qy a * qw b + qz a * qx b)
     (qw a * qz b + qx a * qy b - qy a * qx b + qz a * qw b)"

text \<open>The doc's invariant of the unchecked constructors: unit norm (exact here).\<close>

definition unit_quat :: "quat \<Rightarrow> bool" where
  "unit_quat q \<longleftrightarrow> quat_norm_squared q = 1"

subsection \<open>Rigid transforms and twists\<close>

record iso3 =
  iq :: quat
  it :: vec3

definition iso3_new :: "quat \<Rightarrow> vec3 \<Rightarrow> iso3" where
  [pose_defs]: "iso3_new q t = \<lparr>iq = q, it = t\<rparr>"

definition iso3_IDENTITY :: iso3 where
  [pose_defs]: "iso3_IDENTITY = iso3_new quat_IDENTITY vec3_ZERO"

definition iso3_inverse :: "iso3 \<Rightarrow> iso3" where
  [pose_defs]: "iso3_inverse a =
     (let qi = conjugate (iq a); ti = vec3_scale (qrotate qi (it a)) (-1) in iso3_new qi ti)"

definition iso3_mul_inv :: "iso3 \<Rightarrow> iso3 \<Rightarrow> iso3" where
  [pose_defs]: "iso3_mul_inv a b =
     (let q = quat_mul (iq a) (conjugate (iq b)); t = vec3_sub (it a) (qrotate q (it b))
      in iso3_new q t)"

definition iso3_normalized :: "iso3 \<Rightarrow> iso3" where
  "iso3_normalized a = iso3_new (quat_normalize (iq a)) (it a)"

text \<open>\<open>to_bits\<close> and \<open>from_bits\<close>: the slot order of the seven words. A word is the bit pattern
  of an \<open>f64\<close>, a bijection of the standard library, so it stands for the number itself here.\<close>

definition to_bits :: "iso3 \<Rightarrow> real list" where
  "to_bits a = [qw (iq a), qx (iq a), qy (iq a), qz (iq a), vx (it a), vy (it a), vz (it a)]"

definition from_bits :: "real list \<Rightarrow> iso3" where
  "from_bits ws = iso3_new (quat_new (ws ! 0) (ws ! 1) (ws ! 2) (ws ! 3))
                           (vec3_new (ws ! 4) (ws ! 5) (ws ! 6))"

definition iso3_mul :: "iso3 \<Rightarrow> iso3 \<Rightarrow> iso3" where
  [pose_defs]: "iso3_mul a b =
     (let q = quat_mul (iq a) (iq b); t = vec3_add (it a) (qrotate (iq a) (it b)) in iso3_new q t)"

definition inv_mul :: "iso3 \<Rightarrow> iso3 \<Rightarrow> iso3" where
  [pose_defs]: "inv_mul a b =
     (let qi = conjugate (iq a); q = quat_mul qi (iq b);
          t = qrotate qi (vec3_sub (it b) (it a))
      in iso3_new q t)"

definition unit_iso :: "iso3 \<Rightarrow> bool" where
  "unit_iso a \<longleftrightarrow> unit_quat (iq a)"

record twist =
  omega :: vec3
  lin :: vec3

definition twist_new :: "vec3 \<Rightarrow> vec3 \<Rightarrow> twist" where
  [pose_defs]: "twist_new a b = \<lparr>omega = a, lin = b\<rparr>"

definition twist_ZERO :: twist where
  [pose_defs]: "twist_ZERO = twist_new vec3_ZERO vec3_ZERO"

definition from_se3 :: "real list \<Rightarrow> twist" where
  "from_se3 xi = twist_new (vec3_new (xi ! 0) (xi ! 1) (xi ! 2)) (vec3_new (xi ! 3) (xi ! 4) (xi ! 5))"

definition to_se3 :: "twist \<Rightarrow> real list" where
  "to_se3 x = [vx (omega x), vy (omega x), vz (omega x), vx (lin x), vy (lin x), vz (lin x)]"

definition twist_scale :: "twist \<Rightarrow> real \<Rightarrow> twist" where
  [pose_defs]: "twist_scale a k = twist_new (vec3_scale (omega a) k) (vec3_scale (lin a) k)"

definition twist_add :: "twist \<Rightarrow> twist \<Rightarrow> twist" where
  [pose_defs]: "twist_add a b = twist_new (vec3_add (omega a) (omega b)) (vec3_add (lin a) (lin b))"

definition twist_sub :: "twist \<Rightarrow> twist \<Rightarrow> twist" where
  [pose_defs]: "twist_sub a b = twist_new (vec3_sub (omega a) (omega b)) (vec3_sub (lin a) (lin b))"

definition twist_neg :: "twist \<Rightarrow> twist" where
  [pose_defs]: "twist_neg a = twist_scale a (-1)"

definition adjoint :: "iso3 \<Rightarrow> twist \<Rightarrow> twist" where
  [pose_defs]: "adjoint T x =
     (let w = qrotate (iq T) (omega x)
      in twist_new w (vec3_add (vec3_cross (it T) w) (qrotate (iq T) (lin x))))"

definition adjoint_inv :: "iso3 \<Rightarrow> twist \<Rightarrow> twist" where
  [pose_defs]: "adjoint_inv T x =
     (let qi = conjugate (iq T)
      in twist_new (qrotate qi (omega x))
           (qrotate qi (vec3_sub (lin x) (vec3_cross (it T) (omega x)))))"

definition to_spatial :: "twist \<Rightarrow> iso3 \<Rightarrow> twist" where
  [pose_defs]: "to_spatial x T = adjoint T x"

subsection \<open>Exponential and logarithm\<close>

definition EXP_SO3_SMALL :: real where "EXP_SO3_SMALL = 1 / 10 ^ 8"
definition THETA_SMALL :: real where "THETA_SMALL = 1 / 10"

definition exp_so3_theta :: "vec3 \<Rightarrow> real \<Rightarrow> quat" where
  "exp_so3_theta w theta =
     (let half = 1 / 2 * theta; sin_half = sin half; cos_half = cos half;
          sc = (if theta > EXP_SO3_SMALL then sin_half / theta
                else let theta2 = theta * theta in 1 / 2 - theta2 / 48 + theta2 * theta2 / 3840)
      in quat_new cos_half (sc * vx w) (sc * vy w) (sc * vz w))"

definition exp_so3_native :: "vec3 \<Rightarrow> quat" where
  "exp_so3_native w = exp_so3_theta w (vec3_norm w)"

text \<open>\<open>libm::atan2\<close>.\<close>

definition atan2 :: "real \<Rightarrow> real \<Rightarrow> real" where
  "atan2 y x =
     (if x > 0 then arctan (y / x)
      else if x < 0 then (if y \<ge> 0 then arctan (y / x) + pi else arctan (y / x) - pi)
      else if y > 0 then pi / 2 else if y < 0 then - pi / 2 else 0)"

definition log_so3_native :: "quat \<Rightarrow> vec3" where
  "log_so3_native q =
     (let p = (if qw q < 0 then quat_neg q else q);
          n = sqrt (qx p * qx p + qy p * qy p + qz p * qz p)
      in if n = 0 then vec3_ZERO
         else let theta = 2 * atan2 n (qw p); sc = theta / n
              in vec3_new (sc * qx p) (sc * qy p) (sc * qz p))"

definition quat_from_rot3_native :: "real list \<Rightarrow> quat" where
  "quat_from_rot3_native r =
     (let r00 = r ! 0; r11 = r ! 4; r22 = r ! 8; trace = r00 + r11 + r22
      in if trace > 0 then
           let s = sqrt (trace + 1) * 2
           in quat_new (1 / 4 * s) ((r ! 7 - r ! 5) / s) ((r ! 2 - r ! 6) / s) ((r ! 3 - r ! 1) / s)
         else if r00 > r11 \<and> r00 > r22 then
           let s = sqrt (1 + r00 - r11 - r22) * 2
           in quat_new ((r ! 7 - r ! 5) / s) (1 / 4 * s) ((r ! 1 + r ! 3) / s) ((r ! 2 + r ! 6) / s)
         else if r11 > r22 then
           let s = sqrt (1 + r11 - r00 - r22) * 2
           in quat_new ((r ! 2 - r ! 6) / s) ((r ! 1 + r ! 3) / s) (1 / 4 * s) ((r ! 5 + r ! 7) / s)
         else
           let s = sqrt (1 + r22 - r00 - r11) * 2
           in quat_new ((r ! 3 - r ! 1) / s) ((r ! 2 + r ! 6) / s) ((r ! 5 + r ! 7) / s) (1 / 4 * s))"

definition C1 :: "real list" where "C1 = [1 / 2, -1 / 24, 1 / 720, -1 / 40320]"
definition C2 :: "real list" where "C2 = [1 / 6, -1 / 120, 1 / 5040, -1 / 362880]"
definition C3 :: "real list" where "C3 = [1 / 12, 1 / 720, 1 / 30240, 1 / 1209600]"

definition horner :: "real list \<Rightarrow> real \<Rightarrow> real" where
  "horner c theta2 = c ! 0 + theta2 * (c ! 1 + theta2 * (c ! 2 + theta2 * c ! 3))"

definition v_coeffs :: "real \<Rightarrow> real \<times> real" where
  "v_coeffs theta =
     (let theta2 = theta * theta
      in if theta < THETA_SMALL then (horner C1 theta2, horner C2 theta2)
         else let sh = sin (1 / 2 * theta); ch = cos (1 / 2 * theta); sine = 2 * sh * ch
              in (2 * sh * sh / theta2, (theta - sine) / (theta2 * theta)))"

definition vinv_c3 :: "real \<Rightarrow> real" where
  "vinv_c3 theta =
     (let theta2 = theta * theta
      in if theta < THETA_SMALL then horner C3 theta2
         else let sh = sin (1 / 2 * theta); ch = cos (1 / 2 * theta)
              in 1 / theta2 - (ch / sh) / (2 * theta))"

definition exp_se3 :: "real list \<Rightarrow> iso3" where
  "exp_se3 xi =
     (let w = vec3_new (xi ! 0) (xi ! 1) (xi ! 2); v = vec3_new (xi ! 3) (xi ! 4) (xi ! 5);
          theta = vec3_norm w; (c1, c2) = v_coeffs theta;
          wxv = vec3_cross w v; wxwxv = vec3_cross w wxv;
          t = vec3_add (vec3_add v (vec3_scale wxv c1)) (vec3_scale wxwxv c2)
      in iso3_new (exp_so3_theta w theta) t)"

definition log_se3 :: "iso3 \<Rightarrow> real list" where
  "log_se3 a =
     (let w = log_so3_native (iq a); theta = vec3_norm w; c3 = vinv_c3 theta;
          wxt = vec3_cross w (it a); wxwxt = vec3_cross w wxt;
          v = vec3_add (vec3_sub (it a) (vec3_scale wxt (1 / 2))) (vec3_scale wxwxt c3)
      in [vx w, vy w, vz w, vx v, vy v, vz v])"

subsection \<open>Interpolation\<close>

definition SLERP_LERP_FALLBACK :: real where "SLERP_LERP_FALLBACK = 1 / 10 ^ 6"
definition THETA_SLERP_SMALL :: real where "THETA_SLERP_SMALL = 15 / 100"

definition theta_sq_coeffs :: "real list" where
  "theta_sq_coeffs = [1, 1/6, 2/45, 1/70, 8/1575, 4/2079, 16/21021, 2/6435]"

definition theta_sq_from_chord :: "real \<Rightarrow> real" where
  "theta_sq_from_chord h =
     2 * h * fold (\<lambda>c acc. c + h * acc) (rev (take 7 theta_sq_coeffs)) (theta_sq_coeffs ! 7)"

definition slerp_weight :: "real \<Rightarrow> real \<Rightarrow> real" where
  "slerp_weight a u =
     (let x = a * a; k = 1 - x; c1 = 1 / 6; c2 = (7 - 3 * x) / 360;
          c3 = (31 + x * (-18 + 3 * x)) / 15120;
          c4 = (381 + x * (-239 + x * (55 - 5 * x))) / 1814400;
          c5 = (2555 + x * (-1636 + x * (410 + x * (-52 + 3 * x)))) / 119750400
      in a * (1 + k * u * (c1 + u * (c2 + u * (c3 + u * (c4 + u * c5))))))"

definition lerp_norm :: "quat \<Rightarrow> quat \<Rightarrow> real \<Rightarrow> quat" where
  "lerp_norm qa qb s = quat_normalize (quat_add (quat_scale qa (1 - s)) (quat_scale qb s))"

definition slerp_native :: "quat \<Rightarrow> quat \<Rightarrow> real \<Rightarrow> quat" where
  "slerp_native qa qb0 s =
     (let dot = quat_dot qa qb0; qb = (if dot < 0 then quat_neg qb0 else qb0);
          h = 1 / 2 * quat_norm_squared (quat_sub qa qb)
      in if h \<le> 0 then qa
         else let theta_sq = theta_sq_from_chord h
              in if theta_sq \<le> THETA_SLERP_SMALL * THETA_SLERP_SMALL then
                   if theta_sq < SLERP_LERP_FALLBACK * SLERP_LERP_FALLBACK then lerp_norm qa qb s
                   else let wa = slerp_weight (1 - s) theta_sq; wb = slerp_weight s theta_sq
                        in quat_add (quat_scale qa wa) (quat_scale qb wb)
                 else let angle = arccos (min (if dot < 0 then - dot else dot) 1);
                          sin_angle = sin angle;
                          wa = sin ((1 - s) * angle) / sin_angle; wb = sin (s * angle) / sin_angle
                      in quat_add (quat_scale qa wa) (quat_scale qb wb))"

definition lerp_slerp_eval :: "iso3 \<Rightarrow> iso3 \<Rightarrow> real \<Rightarrow> iso3" where
  "lerp_slerp_eval a b s =
     (if s = 0 then a else if s = 1 then b
      else let t = vec3_add (vec3_scale (it a) (1 - s)) (vec3_scale (it b) s);
               q = slerp_native (iq a) (iq b) s
           in iso3_new q t)"

definition SIN_HALF_THETA_SMALL_SQ :: real where
  "SIN_HALF_THETA_SMALL_SQ = 2233175543719699 / 10 ^ 17"

definition SCREW_DEGENERATE_SQ :: real where "SCREW_DEGENERATE_SQ = 1 / 10 ^ 290"

record screw_parts_rec =
  q_v :: vec3
  sh2 :: real
  ch :: real
  q_d :: quat
  kk :: real
  m_sh :: vec3

datatype screw = Degenerate iso3 | Regular screw_parts_rec

definition screw_parts :: "iso3 \<Rightarrow> screw" where
  "screw_parts rel =
     (let q = (if qw (iq rel) < 0 then quat_neg (iq rel) else iq rel); t = it rel;
          qv = quat_vector q; s2 = vec3_norm_squared qv; c = qw q
      in if s2 < SCREW_DEGENERATE_SQ then Degenerate (iso3_new q t)
         else
           let qd = quat_scale (quat_new
                  (- (vx t * qx q) - vy t * qy q - vz t * qz q)
                  (vx t * qw q + vy t * qz q - vz t * qy q)
                  (- (vx t * qz q) + vy t * qw q + vz t * qx q)
                  (vx t * qy q - vy t * qx q + vz t * qw q)) (1 / 2);
               k = qw qd / s2;
               m = vec3_add (quat_vector qd) (vec3_scale qv (k * c))
           in Regular \<lparr>q_v = qv, sh2 = s2, ch = c, q_d = qd, kk = k, m_sh = m\<rparr>)"

text \<open>\<open>cos (s \<phi>)\<close> and \<open>sin (s \<phi>) / sin \<phi>\<close>, by the series or in closed form.\<close>

definition screw_weights :: "screw_parts_rec \<Rightarrow> real \<Rightarrow> real \<times> real" where
  "screw_weights p s =
     (if sh2 p \<le> SIN_HALF_THETA_SMALL_SQ then
        let phi_sq = theta_sq_from_chord (sh2 p / (1 + ch p));
            wa = slerp_weight (1 - s) phi_sq; wb = slerp_weight s phi_sq
        in (wa + wb * ch p, wb)
      else let sh = sqrt (sh2 p); phi = atan2 sh (ch p)
           in (cos (s * phi), sin (s * phi) / sh))"

definition screw_parts_pow :: "screw_parts_rec \<Rightarrow> real \<Rightarrow> iso3" where
  "screw_parts_pow p s =
     (let (cos_sh, w) = screw_weights p s;
          q_r2 = quat_new cos_sh (w * vx (q_v p)) (w * vy (q_v p)) (w * vz (q_v p));
          q_d2_v = vec3_add (vec3_scale (m_sh p) w) (vec3_scale (q_v p) (- s * kk p * cos_sh));
          q_d2 = quat_new (s * qw (q_d p) * w) (vx q_d2_v) (vy q_d2_v) (vz q_d2_v);
          t2q = quat_mul q_d2 (conjugate q_r2)
      in iso3_new q_r2 (vec3_new (2 * qx t2q) (2 * qy t2q) (2 * qz t2q)))"

definition screw_parts_twist :: "screw_parts_rec \<Rightarrow> twist" where
  "screw_parts_twist p =
     (let sh = sqrt (sh2 p);
          phi = (if sh2 p \<le> SIN_HALF_THETA_SMALL_SQ
                 then sqrt (theta_sq_from_chord (sh2 p / (1 + ch p)))
                 else atan2 sh (ch p));
          c = 2 * phi / sh
      in twist_new (vec3_scale (q_v p) c)
           (vec3_sub (vec3_scale (m_sh p) c) (vec3_scale (q_v p) (2 * kk p))))"

definition scaled_exp :: "real list \<Rightarrow> real \<Rightarrow> iso3" where
  "scaled_exp xi s = exp_se3 [s * xi ! 0, s * xi ! 1, s * xi ! 2, s * xi ! 3, s * xi ! 4, s * xi ! 5]"

definition screw_pow :: "iso3 \<Rightarrow> real \<Rightarrow> iso3" where
  "screw_pow rel s = (case screw_parts rel of
     Degenerate c \<Rightarrow> scaled_exp (log_se3 c) s | Regular p \<Rightarrow> screw_parts_pow p s)"

definition screw_twist :: "iso3 \<Rightarrow> twist" where
  "screw_twist rel = (case screw_parts rel of
     Degenerate c \<Rightarrow> from_se3 (log_se3 c) | Regular p \<Rightarrow> screw_parts_twist p)"

definition screw_pow_with_twist :: "iso3 \<Rightarrow> real \<Rightarrow> iso3 \<times> twist" where
  "screw_pow_with_twist rel s = (case screw_parts rel of
     Degenerate c \<Rightarrow> (let xi = log_se3 c in (scaled_exp xi s, from_se3 xi))
   | Regular p \<Rightarrow> (screw_parts_pow p s, screw_parts_twist p))"

definition sclerp_eval :: "iso3 \<Rightarrow> iso3 \<Rightarrow> real \<Rightarrow> iso3" where
  "sclerp_eval a b s =
     (if s = 0 then a else if s = 1 then b
      else let rel = inv_mul a b in iso3_mul a (screw_pow rel s))"

definition eval_with_twist :: "iso3 \<Rightarrow> iso3 \<Rightarrow> real \<Rightarrow> iso3 \<times> twist" where
  "eval_with_twist a b s =
     (let rel = inv_mul a b
      in if s = 0 then (a, screw_twist rel)
         else if s = 1 then (b, screw_twist rel)
         else case screw_pow_with_twist rel s of (rel_pow, xi) \<Rightarrow> (iso3_mul a rel_pow, xi))"

text \<open>The reference twin of \<open>reference.rs\<close>.\<close>

definition reference_sclerp :: "iso3 \<Rightarrow> iso3 \<Rightarrow> real \<Rightarrow> iso3" where
  "reference_sclerp a b s =
     (let rel = iso3_mul (iso3_inverse a) b; xi = log_se3 rel
      in iso3_mul a (exp_se3 [s * xi ! 0, s * xi ! 1, s * xi ! 2, s * xi ! 3, s * xi ! 4, s * xi ! 5]))"

subsection \<open>The algebra\<close>

lemma vec3_eqI: "vx a = vx b \<Longrightarrow> vy a = vy b \<Longrightarrow> vz a = vz b \<Longrightarrow> a = (b :: vec3)"
  by (cases a; cases b) auto

lemma quat_eqI: "qw a = qw b \<Longrightarrow> qx a = qx b \<Longrightarrow> qy a = qy b \<Longrightarrow> qz a = qz b \<Longrightarrow> a = (b :: quat)"
  by (cases a; cases b) auto

lemma iso3_eqI: "iq a = iq b \<Longrightarrow> it a = it b \<Longrightarrow> a = (b :: iso3)"
  by (cases a; cases b) auto

lemma twist_eqI: "omega a = omega b \<Longrightarrow> lin a = lin b \<Longrightarrow> a = (b :: twist)"
  by (cases a; cases b) auto

lemma quat_mul_assoc: "quat_mul (quat_mul a b) c = quat_mul a (quat_mul b c)"
  by (rule quat_eqI) (simp_all add: pose_defs algebra_simps)

lemma quat_mul_IDENTITY [simp]: "quat_mul quat_IDENTITY a = a" "quat_mul a quat_IDENTITY = a"
  by (rule quat_eqI; simp add: pose_defs)+

lemma quat_norm_mul: "quat_norm_squared (quat_mul a b) = quat_norm_squared a * quat_norm_squared b"
  by (simp add: pose_defs algebra_simps)

lemma conjugate_mul: "conjugate (quat_mul a b) = quat_mul (conjugate b) (conjugate a)"
  by (rule quat_eqI) (simp_all add: pose_defs algebra_simps)

lemma conjugate_conjugate [simp]: "conjugate (conjugate a) = a"
  by (rule quat_eqI) (simp_all add: pose_defs)

lemma quat_mul_conjugate:
  "quat_mul a (conjugate a) = quat_new (quat_norm_squared a) 0 0 0"
  "quat_mul (conjugate a) a = quat_new (quat_norm_squared a) 0 0 0"
  by (rule quat_eqI; simp add: pose_defs algebra_simps)+

lemma unit_quat_simps [simp]:
  "unit_quat quat_IDENTITY"
  "unit_quat (conjugate a) \<longleftrightarrow> unit_quat a"
  by (simp_all add: unit_quat_def pose_defs)

lemma unit_quat_mul [simp]: "unit_quat a \<Longrightarrow> unit_quat b \<Longrightarrow> unit_quat (quat_mul a b)"
  by (simp add: unit_quat_def quat_norm_mul)

lemma quat_conjugate_cancel [simp]:
  assumes "unit_quat a"
  shows "quat_mul a (conjugate a) = quat_IDENTITY" "quat_mul (conjugate a) a = quat_IDENTITY"
  using assms by (simp_all add: quat_mul_conjugate unit_quat_def quat_IDENTITY_def)

subsection \<open>Rotations\<close>

text \<open>The code's sandwich-free rotation is the Hamilton sandwich on unit quaternions.\<close>

lemma rotate_sandwich:
  assumes "unit_quat q"
  shows "quat_from_pure (qrotate q v) = quat_mul (quat_mul q (quat_from_pure v)) (conjugate q)"
proof -
  have u: "qw q * qw q = 1 - qx q * qx q - qy q * qy q - qz q * qz q"
    using assms by (simp add: unit_quat_def quat_norm_squared_def)
  have e: "qw q * (qw q * a) = (1 - qx q * qx q - qy q * qy q - qz q * qz q) * a" for a
    using u by (metis mult.assoc)
  show ?thesis
    by (rule quat_eqI; simp add: pose_defs algebra_simps e)
qed

lemma quat_from_pure_eq_iff [simp]: "quat_from_pure a = quat_from_pure b \<longleftrightarrow> a = b"
  by (cases a; cases b) (auto simp: pose_defs)

lemma rotate_mul:
  assumes "unit_quat a" "unit_quat b"
  shows "qrotate (quat_mul a b) v = qrotate a (qrotate b v)"
proof -
  have "quat_from_pure (qrotate (quat_mul a b) v) = quat_from_pure (qrotate a (qrotate b v))"
    using assms by (simp add: rotate_sandwich conjugate_mul quat_mul_assoc)
  then show ?thesis by simp
qed

lemma rotate_IDENTITY [simp]: "qrotate quat_IDENTITY v = v"
  by (rule vec3_eqI) (simp_all add: pose_defs)

lemma rotate_conjugate [simp]:
  assumes "unit_quat q"
  shows "qrotate q (qrotate (conjugate q) v) = v" "qrotate (conjugate q) (qrotate q v) = v"
  using assms by (simp_all flip: rotate_mul)

lemma rotate_add: "qrotate q (vec3_add a b) = vec3_add (qrotate q a) (qrotate q b)"
  by (rule vec3_eqI) (simp_all add: pose_defs algebra_simps)

lemma rotate_sub: "qrotate q (vec3_sub a b) = vec3_sub (qrotate q a) (qrotate q b)"
  by (rule vec3_eqI) (simp_all add: pose_defs algebra_simps)

lemma rotate_scale: "qrotate q (vec3_scale a k) = vec3_scale (qrotate q a) k"
  by (rule vec3_eqI) (simp_all add: pose_defs algebra_simps)

lemma rotate_neg: "qrotate (quat_neg q) v = qrotate q v"
  by (rule vec3_eqI) (simp_all add: pose_defs algebra_simps)

lemma norm_from_pure: "vec3_norm_squared v = quat_norm_squared (quat_from_pure v)"
  by (simp add: pose_defs)

lemma rotate_norm:
  assumes "unit_quat q"
  shows "vec3_norm_squared (qrotate q v) = vec3_norm_squared v"
proof -
  from assms have "unit_quat (conjugate q)" by simp
  with assms show ?thesis
    by (simp add: norm_from_pure rotate_sandwich quat_norm_mul unit_quat_def)
qed

lemma quat_mul_scale_left: "quat_mul (quat_scale a k) b = quat_scale (quat_mul a b) k"
  by (rule quat_eqI) (simp_all add: pose_defs algebra_simps)

lemma cross_pure:
  "quat_from_pure (vec3_cross a b) =
     quat_scale (quat_sub (quat_mul (quat_from_pure a) (quat_from_pure b))
                          (quat_mul (quat_from_pure b) (quat_from_pure a))) (1 / 2)"
  by (rule quat_eqI) (simp_all add: pose_defs algebra_simps)

lemma quat_mul_sub_scale:
  "quat_mul (quat_mul q (quat_scale (quat_sub a b) k)) r =
     quat_scale (quat_sub (quat_mul (quat_mul q a) r) (quat_mul (quat_mul q b) r)) k"
  by (rule quat_eqI) (simp_all add: pose_defs algebra_simps)

text \<open>A rotation commutes with the cross product.\<close>

lemma sandwich_product:
  assumes "unit_quat q"
  shows "quat_mul (quat_mul q (quat_mul a b)) (conjugate q) =
    quat_mul (quat_mul (quat_mul q a) (conjugate q)) (quat_mul (quat_mul q b) (conjugate q))"
proof -
  have "quat_mul (quat_mul (quat_mul q a) (conjugate q)) (quat_mul (quat_mul q b) (conjugate q)) =
      quat_mul (quat_mul q a) (quat_mul (quat_mul (conjugate q) q) (quat_mul b (conjugate q)))"
    by (simp only: quat_mul_assoc)
  then show ?thesis using assms by (simp add: quat_mul_assoc)
qed

lemma rotate_cross:
  assumes "unit_quat q"
  shows "qrotate q (vec3_cross a b) = vec3_cross (qrotate q a) (qrotate q b)"
proof -
  have "quat_from_pure (qrotate q (vec3_cross a b)) =
      quat_from_pure (vec3_cross (qrotate q a) (qrotate q b))"
    using assms
    by (simp add: rotate_sandwich cross_pure quat_mul_sub_scale sandwich_product)
  then show ?thesis by simp
qed

subsection \<open>The group of rigid transforms\<close>

lemma vec3_algebra:
  "vec3_add (vec3_add a b) c = vec3_add a (vec3_add b c)"
  "vec3_add a vec3_ZERO = a" "vec3_add vec3_ZERO a = a"
  "vec3_add a (vec3_scale a (-1)) = vec3_ZERO" "vec3_add (vec3_scale a (-1)) a = vec3_ZERO"
  "vec3_sub a b = vec3_add a (vec3_scale b (-1))"
  "vec3_scale (vec3_add a b) k = vec3_add (vec3_scale a k) (vec3_scale b k)"
  by (rule vec3_eqI; simp add: pose_defs algebra_simps)+

lemma vec3_add_comm: "vec3_add a b = vec3_add b a"
  by (rule vec3_eqI) (simp_all add: pose_defs)

lemma rotate_ZERO [simp]: "qrotate q vec3_ZERO = vec3_ZERO"
  by (rule vec3_eqI) (simp_all add: pose_defs)

lemma iso3_sel [simp]: "iq (iso3_new q t) = q" "it (iso3_new q t) = t"
  by (simp_all add: iso3_new_def)

lemma twist_sel [simp]: "omega (twist_new a b) = a" "lin (twist_new a b) = b"
  by (simp_all add: twist_new_def)

lemma iso3_mul_sel [simp]:
  "iq (iso3_mul a b) = quat_mul (iq a) (iq b)"
  "it (iso3_mul a b) = vec3_add (it a) (qrotate (iq a) (it b))"
  by (simp_all add: iso3_mul_def Let_def)

lemma iso3_inverse_sel [simp]:
  "iq (iso3_inverse a) = conjugate (iq a)"
  "it (iso3_inverse a) = vec3_scale (qrotate (conjugate (iq a)) (it a)) (-1)"
  by (simp_all add: iso3_inverse_def Let_def)

lemma iso3_IDENTITY_sel [simp]: "iq iso3_IDENTITY = quat_IDENTITY" "it iso3_IDENTITY = vec3_ZERO"
  by (simp_all add: iso3_IDENTITY_def)

lemma unit_iso_closed [simp]:
  "unit_iso iso3_IDENTITY"
  "unit_iso a \<Longrightarrow> unit_iso b \<Longrightarrow> unit_iso (iso3_mul a b)"
  "unit_iso a \<Longrightarrow> unit_iso (iso3_inverse a)"
  by (simp_all add: unit_iso_def)

lemma iso3_mul_IDENTITY [simp]: "iso3_mul iso3_IDENTITY a = a" "iso3_mul a iso3_IDENTITY = a"
  by (rule iso3_eqI; simp add: vec3_algebra)+

lemma iso3_mul_assoc:
  "unit_iso a \<Longrightarrow> unit_iso b \<Longrightarrow> iso3_mul (iso3_mul a b) c = iso3_mul a (iso3_mul b c)"
  by (rule iso3_eqI) (simp_all add: unit_iso_def quat_mul_assoc rotate_mul rotate_add vec3_algebra(1))

lemma iso3_mul_inverse [simp]:
  assumes "unit_iso a"
  shows "iso3_mul a (iso3_inverse a) = iso3_IDENTITY" "iso3_mul (iso3_inverse a) a = iso3_IDENTITY"
  using assms by (auto intro!: iso3_eqI simp: unit_iso_def rotate_scale vec3_algebra)

text \<open>The fused operations of the fold are the compositions they replace.\<close>

lemma iso3_mul_inv_eq:
  assumes "unit_iso a" "unit_iso b"
  shows "iso3_mul_inv a b = iso3_mul a (iso3_inverse b)"
  using assms
  by (intro iso3_eqI)
    (simp_all add: iso3_mul_inv_def Let_def unit_iso_def rotate_mul rotate_scale vec3_algebra)

lemma inv_mul_eq: "inv_mul a b = iso3_mul (iso3_inverse a) b"
  by (rule iso3_eqI)
    (simp_all add: inv_mul_def Let_def rotate_add rotate_scale vec3_algebra vec3_add_comm)

lemma from_bits_to_bits [simp]: "from_bits (to_bits a) = a"
  by (intro iso3_eqI quat_eqI vec3_eqI) (simp_all add: from_bits_def to_bits_def pose_defs)

lemma to_bits_from_bits: "length ws = 7 \<Longrightarrow> to_bits (from_bits ws) = ws"
  by (auto simp: from_bits_def to_bits_def pose_defs numeral_eq_Suc length_Suc_conv)

lemma length_to_bits [simp]: "length (to_bits a) = 7"
  by (simp add: to_bits_def)

subsection \<open>The adjoint\<close>

lemma adjoint_sel [simp]:
  "omega (adjoint T x) = qrotate (iq T) (omega x)"
  "lin (adjoint T x) = vec3_add (vec3_cross (it T) (qrotate (iq T) (omega x))) (qrotate (iq T) (lin x))"
  by (simp_all add: adjoint_def Let_def)

lemma cross_add_left: "vec3_cross (vec3_add a b) c = vec3_add (vec3_cross a c) (vec3_cross b c)"
  by (rule vec3_eqI) (simp_all add: pose_defs algebra_simps)

lemma cross_scale_left: "vec3_cross (vec3_scale a k) c = vec3_scale (vec3_cross a c) k"
  by (rule vec3_eqI) (simp_all add: pose_defs algebra_simps)

lemma adjoint_mul:
  assumes "unit_iso A" "unit_iso B"
  shows "adjoint (iso3_mul A B) x = adjoint A (adjoint B x)"
  using assms
  by (intro twist_eqI)
    (simp_all add: unit_iso_def rotate_mul rotate_add rotate_cross cross_add_left vec3_algebra(1))

lemma adjoint_inv_eq:
  assumes "unit_iso A"
  shows "adjoint_inv A x = adjoint (iso3_inverse A) x"
proof (intro twist_eqI)
  from assms have u: "unit_quat (conjugate (iq A))" by (simp add: unit_iso_def)
  show "omega (adjoint_inv A x) = omega (adjoint (iso3_inverse A) x)"
    by (simp add: adjoint_inv_def Let_def)
  show "lin (adjoint_inv A x) = lin (adjoint (iso3_inverse A) x)"
    using u by (simp add: adjoint_inv_def Let_def rotate_add rotate_scale rotate_cross
        cross_scale_left vec3_algebra(6) vec3_add_comm)
qed

lemma adjoint_IDENTITY [simp]: "adjoint iso3_IDENTITY x = x"
  by (rule twist_eqI; rule vec3_eqI; simp add: pose_defs)

lemma adjoint_round_trip:
  "unit_iso A \<Longrightarrow> adjoint_inv A (adjoint A x) = x"
  by (simp add: adjoint_inv_eq flip: adjoint_mul)

subsection \<open>The screw power\<close>

lemma slerp_weight_ends [simp]: "slerp_weight 0 u = 0" "slerp_weight 1 u = 1"
  by (simp_all add: slerp_weight_def Let_def)

lemma atan2_cos_sin:
  assumes "0 < y" "0 \<le> x" "y * y + x * x = 1"
  shows "cos (atan2 y x) = x" "sin (atan2 y x) = y"
proof -
  have "cos (atan2 y x) = x \<and> sin (atan2 y x) = y"
  proof (cases "x = 0")
    case True
    with assms have "(y - 1) * (y + 1) = 0" by (simp add: algebra_simps)
    with \<open>0 < y\<close> have "y = 1" by auto
    with True show ?thesis by (simp add: atan2_def)
  next
    case False
    with assms have xp: "0 < x" by simp
    have "1 + (y / x)\<^sup>2 = (1 / x)\<^sup>2"
      using xp assms(3) by (simp add: field_simps power2_eq_square)
    then have "sqrt (1 + (y / x)\<^sup>2) = 1 / x"
      using xp by (simp only: real_sqrt_abs) (simp add: abs_of_pos)
    with xp show ?thesis
      by (simp add: atan2_def cos_arctan sin_arctan)
  qed
  then show "cos (atan2 y x) = x" "sin (atan2 y x) = y" by simp_all
qed

text \<open>The transform with the sign of its quaternion chosen so that \<open>w \<ge> 0\<close>: the same rigid
  transform, on the principal branch.\<close>

definition canonical :: "iso3 \<Rightarrow> iso3" where
  "canonical a = (if qw (iq a) < 0 then iso3_new (quat_neg (iq a)) (it a) else a)"

lemma unit_canonical [simp]: "unit_iso a \<Longrightarrow> unit_iso (canonical a)"
  by (simp add: canonical_def unit_iso_def unit_quat_def) (simp add: pose_defs)

lemma canonical_w: "0 \<le> qw (iq (canonical a))"
  by (simp add: canonical_def) (simp add: pose_defs)

lemma rotate_canonical: "qrotate (iq (canonical a)) v = qrotate (iq a) v"
  by (simp add: canonical_def rotate_neg)

lemma it_canonical [simp]: "it (canonical a) = it a"
  by (simp add: canonical_def)

lemma screw_parts_canonical:
  "screw_parts rel = screw_parts (canonical rel)"
proof -
  have "\<not> qw (quat_neg q) < 0" if "qw q < 0" for q using that by (simp add: pose_defs)
  then show ?thesis by (simp add: screw_parts_def canonical_def)
qed

text \<open>The parts of a transform with \<open>w \<ge> 0\<close>: the quaternion's own parts, and the dual part
  \<open>q_d = (0, t) \<otimes> q / 2\<close>.\<close>

lemma screw_parts_Regular:
  assumes "screw_parts rel = Regular p" "0 \<le> qw (iq rel)"
  shows "q_v p = quat_vector (iq rel)" "sh2 p = vec3_norm_squared (quat_vector (iq rel))"
    "ch p = qw (iq rel)" "kk p = qw (q_d p) / sh2 p"
    "m_sh p = vec3_add (quat_vector (q_d p)) (vec3_scale (q_v p) (kk p * ch p))"
    "q_d p = quat_scale (quat_mul (quat_from_pure (it rel)) (iq rel)) (1 / 2)"
    "SCREW_DEGENERATE_SQ \<le> sh2 p"
  using assms by (auto simp: screw_parts_def Let_def pose_defs split: if_splits)

lemma screw_degenerate_pos: "0 < SCREW_DEGENERATE_SQ"
  by (simp add: SCREW_DEGENERATE_SQ_def)

lemma screw_parts_unit:
  assumes "screw_parts rel = Regular p" "0 \<le> qw (iq rel)" "unit_iso rel"
  shows "0 < sh2 p" "sh2 p + ch p * ch p = 1" "0 \<le> ch p"
  using assms screw_parts_Regular [OF assms(1,2)] screw_degenerate_pos
  by (auto simp: unit_iso_def unit_quat_def pose_defs)

lemma screw_weights_ends:
  assumes "0 < sh2 p" "sh2 p + ch p * ch p = 1" "0 \<le> ch p"
  shows "screw_weights p 0 = (1, 0)" "screw_weights p 1 = (ch p, 1)"
  using atan2_cos_sin [of "sqrt (sh2 p)" "ch p"] assms
  by (auto simp: screw_weights_def Let_def)

lemma screw_pow_one_aux:
  assumes "screw_parts rel = Regular p" "0 \<le> qw (iq rel)" "unit_iso rel"
  shows "screw_parts_pow p 1 = rel"
proof -
  note r = screw_parts_Regular [OF assms(1,2)] and w = screw_weights_ends [OF screw_parts_unit [OF assms]]
  have q: "quat_new (ch p) (vx (q_v p)) (vy (q_v p)) (vz (q_v p)) = iq rel"
    by (rule quat_eqI) (simp_all add: r pose_defs)
  define d where "d = vec3_add (m_sh p) (vec3_scale (q_v p) (- (kk p * ch p)))"
  have d: "d = quat_vector (q_d p)"
    unfolding d_def by (rule vec3_eqI) (simp_all add: r(5) pose_defs algebra_simps)
  have qd: "quat_new (qw (q_d p)) (vx d) (vy d) (vz d) = q_d p"
    unfolding d by (rule quat_eqI) (simp_all add: pose_defs)
  have u: "quat_mul (iq rel) (conjugate (iq rel)) = quat_IDENTITY"
    using assms(3) by (simp add: unit_iso_def)
  have t: "quat_mul (q_d p) (conjugate (iq rel)) = quat_scale (quat_from_pure (it rel)) (1 / 2)"
    using u by (simp add: r(6) quat_mul_scale_left quat_mul_assoc)
  have s: "vec3_scale (m_sh p) 1 = m_sh p" by (rule vec3_eqI) (simp_all add: pose_defs)
  have "screw_parts_pow p 1 = iso3_new (iq rel)
      (vec3_new (2 * qx (quat_mul (q_d p) (conjugate (iq rel))))
        (2 * qy (quat_mul (q_d p) (conjugate (iq rel)))) (2 * qz (quat_mul (q_d p) (conjugate (iq rel)))))"
    by (simp add: screw_parts_pow_def w s Let_def q d_def [symmetric] qd)
  also have "\<dots> = rel"
    unfolding t by (intro iso3_eqI vec3_eqI) (simp_all add: pose_defs)
  finally show ?thesis .
qed

lemma screw_pow_zero_aux:
  assumes "0 < sh2 p" "sh2 p + ch p * ch p = 1" "0 \<le> ch p"
  shows "screw_parts_pow p 0 = iso3_IDENTITY"
  by (intro iso3_eqI quat_eqI vec3_eqI)
    (simp_all add: screw_parts_pow_def screw_weights_ends [OF assms] Let_def pose_defs)

lemma norm_zero_iff: "vec3_norm_squared v = 0 \<longleftrightarrow> v = vec3_ZERO"
proof -
  have "vec3_norm_squared v = 0 \<longleftrightarrow> vx v = 0 \<and> vy v = 0 \<and> vz v = 0"
    unfolding vec3_norm_squared_def vec3_dot_def
    by (smt (verit, best) mult_eq_0_iff not_real_square_gt_zero)
  then show ?thesis by (auto simp: pose_defs intro: vec3_eqI)
qed

lemma quat_unit_neg [simp]: "unit_quat (quat_neg q) \<longleftrightarrow> unit_quat q"
  by (simp add: unit_quat_def pose_defs)

lemma canonical_idem [simp]: "0 \<le> qw (iq a) \<Longrightarrow> canonical a = a"
  by (simp add: canonical_def)

lemma screw_pow_regular_ends:
  assumes "unit_iso rel" "screw_parts rel = Regular p"
  shows "screw_pow rel 0 = iso3_IDENTITY" "screw_pow rel 1 = canonical rel"
proof -
  let ?c = "canonical rel"
  have c: "screw_parts ?c = Regular p" "0 \<le> qw (iq ?c)" "unit_iso ?c"
    using assms canonical_w by (auto simp flip: screw_parts_canonical)
  show "screw_pow rel 0 = iso3_IDENTITY"
    using screw_pow_zero_aux [OF screw_parts_unit [OF c]] assms by (simp add: screw_pow_def)
  show "screw_pow rel 1 = canonical rel"
    using screw_pow_one_aux [OF c] assms by (simp add: screw_pow_def)
qed

lemma screw_pow_with_twist_fst: "fst (screw_pow_with_twist rel s) = screw_pow rel s"
  by (simp add: screw_pow_with_twist_def screw_pow_def Let_def split: screw.split)

lemma screw_pow_with_twist_snd: "snd (screw_pow_with_twist rel s) = screw_twist rel"
  by (simp add: screw_pow_with_twist_def screw_twist_def Let_def split: screw.split)

lemma eval_with_twist_eq: "eval_with_twist a b s = (sclerp_eval a b s, screw_twist (inv_mul a b))"
  using screw_pow_with_twist_fst [of "inv_mul a b" s] screw_pow_with_twist_snd [of "inv_mul a b" s]
  by (cases "screw_pow_with_twist (inv_mul a b) s")
    (simp add: eval_with_twist_def sclerp_eval_def Let_def)

subsection \<open>Output layouts\<close>

text \<open>\<open>tf_tree_core/src/layout.rs\<close>: what each writer stores, as the list of the elements from index
  0 on. \<open>narrow\<close> is the \<open>as f32\<close> conversion.\<close>

datatype output_layout = Mat4 | QuatLayout | Affine32 | QuatTwist

fun elems :: "output_layout \<Rightarrow> nat" where
  "elems Mat4 = 16"
| "elems QuatLayout = 7"
| "elems Affine32 = 12"
| "elems QuatTwist = 13"

fun is_f32 :: "output_layout \<Rightarrow> bool" where
  "is_f32 Affine32 = True"
| "is_f32 _ = False"

definition write_mat4 :: "iso3 \<Rightarrow> real list" where
  "write_mat4 a =
     (let w = qw (iq a); x = qx (iq a); y = qy (iq a); z = qz (iq a);
          xx = x * x; yy = y * y; zz = z * z; xy = x * y; xz = x * z; yz = y * z;
          wx = w * x; wy = w * y; wz = w * z
      in [1 - 2 * (yy + zz), 2 * (xy - wz), 2 * (xz + wy), vx (it a),
          2 * (xy + wz), 1 - 2 * (xx + zz), 2 * (yz - wx), vy (it a),
          2 * (xz - wy), 2 * (yz + wx), 1 - 2 * (xx + yy), vz (it a),
          0, 0, 0, 1])"

definition write_quat :: "iso3 \<Rightarrow> real list" where
  "write_quat a = [qw (iq a), qx (iq a), qy (iq a), qz (iq a), vx (it a), vy (it a), vz (it a)]"

definition write_quat_twist :: "iso3 \<Rightarrow> twist \<Rightarrow> real list" where
  "write_quat_twist a x = write_quat a @
     [vx (omega x), vy (omega x), vz (omega x), vx (lin x), vy (lin x), vz (lin x)]"

definition write_affine32 :: "(real \<Rightarrow> 'f) \<Rightarrow> iso3 \<Rightarrow> 'f list" where
  "write_affine32 narrow a =
     (let w = qw (iq a); x = qx (iq a); y = qy (iq a); z = qz (iq a);
          xx = x * x; yy = y * y; zz = z * z; xy = x * y; xz = x * z; yz = y * z;
          wx = w * x; wy = w * y; wz = w * z
      in map narrow
         [1 - 2 * (yy + zz), 2 * (xy - wz), 2 * (xz + wy), vx (it a),
          2 * (xy + wz), 1 - 2 * (xx + zz), 2 * (yz - wx), vy (it a),
          2 * (xz - wy), 2 * (yz + wx), 1 - 2 * (xx + yy), vz (it a)])"

text \<open>The row-major 3x3 block of a 4x4 matrix, and the product of 4x4 matrices.\<close>

definition rot3_of_mat4 :: "real list \<Rightarrow> real list" where
  "rot3_of_mat4 m = map ((!) m) [0, 1, 2, 4, 5, 6, 8, 9, 10]"

definition mat4_mul :: "real list \<Rightarrow> real list \<Rightarrow> real list" where
  "mat4_mul a b = [\<Sum>k\<leftarrow>[0..<4]. a ! (4 * i + k) * b ! (4 * k + j). i \<leftarrow> [0..<4], j \<leftarrow> [0..<4]]"

lemma write_layout_lengths [simp]:
  "length (write_mat4 a) = elems Mat4" "length (write_quat a) = elems QuatLayout"
  "length (write_affine32 f a) = elems Affine32" "length (write_quat_twist a x) = elems QuatTwist"
  by (simp_all add: write_mat4_def write_quat_def write_affine32_def write_quat_twist_def Let_def)

lemma unit_quat_ww:
  assumes "unit_quat q"
  shows "qw q * qw q = 1 - qx q * qx q - qy q * qy q - qz q * qz q"
  using assms by (simp add: unit_quat_def quat_norm_squared_def)

subsection \<open>The interface of composition\<close>

text \<open>What a fold over transforms relies on: a carrier closed under composition and inversion, on
  which they are a group.\<close>

locale pose_group =
  fixes unit :: "'p \<Rightarrow> bool" and mul :: "'p \<Rightarrow> 'p \<Rightarrow> 'p" and one :: 'p and inv :: "'p \<Rightarrow> 'p"
  assumes unit_one [simp]: "unit one"
    and unit_mul [simp]: "unit a \<Longrightarrow> unit b \<Longrightarrow> unit (mul a b)"
    and unit_inv [simp]: "unit a \<Longrightarrow> unit (inv a)"
    and mul_one [simp]: "mul a one = a" "mul one a = a"
    and mul_assoc: "unit a \<Longrightarrow> unit b \<Longrightarrow> unit c \<Longrightarrow> mul (mul a b) c = mul a (mul b c)"
    and mul_inv [simp]: "unit a \<Longrightarrow> mul a (inv a) = one" "unit a \<Longrightarrow> mul (inv a) a = one"
begin

definition prod :: "'p list \<Rightarrow> 'p" where
  "prod ps = foldl mul one ps"

lemma unit_foldl: "unit a \<Longrightarrow> \<forall>p \<in> set ps. unit p \<Longrightarrow> unit (foldl mul a ps)"
  by (induction ps arbitrary: a) auto

lemma unit_prod [simp]: "\<forall>p \<in> set ps. unit p \<Longrightarrow> unit (prod ps)"
  by (simp add: prod_def unit_foldl)

lemma foldl_prod:
  "unit a \<Longrightarrow> \<forall>p \<in> set ps. unit p \<Longrightarrow> foldl mul a ps = mul a (prod ps)"
proof (induction ps arbitrary: a)
  case Nil
  then show ?case by (simp add: prod_def)
next
  case (Cons p ps)
  then have "foldl mul a (p # ps) = mul (mul a p) (prod ps)" by simp
  also have "\<dots> = mul a (mul p (prod ps))" using Cons.prems by (simp add: mul_assoc)
  also have "mul p (prod ps) = foldl mul p ps"
    using Cons.IH [of p] Cons.prems by (simp del: foldl_Cons)
  also have "\<dots> = prod (p # ps)" by (simp add: prod_def)
  finally show ?case .
qed

lemma prod_Nil [simp]: "prod [] = one"
  by (simp add: prod_def)

lemma prod_Cons: "\<forall>q \<in> set (p # ps). unit q \<Longrightarrow> prod (p # ps) = mul p (prod ps)"
  using foldl_prod [of p ps] by (simp add: prod_def)

lemma prod_append:
  "\<forall>p \<in> set (ps @ qs). unit p \<Longrightarrow> prod (ps @ qs) = mul (prod ps) (prod qs)"
  using foldl_prod [of "prod ps" qs] by (simp add: prod_def unit_foldl)

lemma inv_unique: "unit a \<Longrightarrow> unit b \<Longrightarrow> mul a b = one \<Longrightarrow> b = inv a"
  by (metis mul_assoc mul_inv(2) mul_one(1) mul_one(2) unit_inv)

lemma inv_inv [simp]: "unit a \<Longrightarrow> inv (inv a) = a"
  using inv_unique [of "inv a" a] by simp

lemma inv_mul_distrib:
  assumes "unit a" "unit b"
  shows "inv (mul a b) = mul (inv b) (inv a)"
proof -
  have "mul (mul a b) (mul (inv b) (inv a)) = mul a (mul (mul b (inv b)) (inv a))"
    using assms by (simp only: mul_assoc unit_mul unit_inv)
  then have "mul (mul a b) (mul (inv b) (inv a)) = one" using assms by simp
  then show ?thesis using assms inv_unique [of "mul a b" "mul (inv b) (inv a)"] by simp
qed

lemma inv_one [simp]: "inv one = one"
  using inv_unique [of one one] by simp

lemma mul_cancel_left: "unit a \<Longrightarrow> unit b \<Longrightarrow> mul a (mul (inv a) b) = b"
  by (metis mul_assoc mul_inv(1) mul_one(2) unit_inv)

lemma mul_cancel_left': "unit a \<Longrightarrow> unit b \<Longrightarrow> mul (inv a) (mul a b) = b"
  by (metis mul_assoc mul_inv(2) mul_one(2) unit_inv)

lemma inv_prod: "\<forall>p \<in> set ps. unit p \<Longrightarrow> inv (prod ps) = prod (map inv (rev ps))"
  by (induction ps) (simp_all add: prod_Cons prod_append inv_mul_distrib)

end

interpretation iso: pose_group unit_iso iso3_mul iso3_IDENTITY iso3_inverse
  by unfold_locales (simp_all add: iso3_mul_assoc)

subsection \<open>Properties\<close>

text \<open>C8: composition and inversion make the transforms with unit rotation a group, and the fused
  \<open>mul_inv\<close> and \<open>inv_mul\<close> of the hot paths are the compositions they stand for.\<close>

theorem iso3_group_laws:
  assumes "unit_iso a" "unit_iso b"
  shows "unit_iso (iso3_mul a b) \<and> unit_iso (iso3_inverse a) \<and>
     iso3_mul (iso3_mul a b) c = iso3_mul a (iso3_mul b c) \<and>
     iso3_mul a (iso3_inverse a) = iso3_IDENTITY \<and> iso3_mul (iso3_inverse a) a = iso3_IDENTITY \<and>
     iso3_inverse (iso3_mul a b) = iso3_mul (iso3_inverse b) (iso3_inverse a) \<and>
     iso3_mul_inv a b = iso3_mul a (iso3_inverse b) \<and>
     inv_mul a b = iso3_mul (iso3_inverse a) b"
  using assms by (simp add: iso3_mul_assoc iso.inv_mul_distrib iso3_mul_inv_eq inv_mul_eq)

text \<open>A half turn about z with a translation, and a 120 degree turn about (1, 1, 1).\<close>

definition half_turn :: iso3 where
  "half_turn = iso3_new (quat_new 0 0 0 1) (vec3_new 1 2 3)"

definition third_turn :: iso3 where
  "third_turn = iso3_new (quat_new (1 / 2) (1 / 2) (1 / 2) (1 / 2)) (vec3_new (-1) 0 5)"

lemma unit_turns [simp]: "unit_iso half_turn" "unit_iso third_turn"
  by (simp_all add: half_turn_def third_turn_def unit_iso_def unit_quat_def pose_defs)

theorem iso3_group_laws_witness:
  "iso3_mul (iso3_mul half_turn third_turn) third_turn =
     iso3_mul half_turn (iso3_mul third_turn third_turn) \<and>
   iso3_mul_inv half_turn third_turn = iso3_mul half_turn (iso3_inverse third_turn)"
  using iso3_group_laws [of half_turn third_turn third_turn] by simp

text \<open>The quaternion sandwich of the code acts as a group of linear isometries: applying a
  composed transform to a point is applying the two in turn, and lengths are kept.\<close>

definition apply_iso :: "iso3 \<Rightarrow> vec3 \<Rightarrow> vec3" where
  "apply_iso a v = vec3_add (it a) (qrotate (iq a) v)"

theorem rotation_action:
  assumes "unit_iso a" "unit_iso b"
  shows "apply_iso (iso3_mul a b) v = apply_iso a (apply_iso b v) \<and>
     apply_iso iso3_IDENTITY v = v \<and>
     vec3_norm_squared (vec3_sub (apply_iso a v) (apply_iso a w)) = vec3_norm_squared (vec3_sub v w)"
proof -
  have "vec3_sub (apply_iso a v) (apply_iso a w) = qrotate (iq a) (vec3_sub v w)"
    by (rule vec3_eqI) (simp_all add: apply_iso_def pose_defs algebra_simps)
  then show ?thesis
    using assms
    by (simp add: apply_iso_def unit_iso_def rotate_mul rotate_add rotate_norm vec3_algebra(1-3))
qed

theorem rotation_action_witness:
  "apply_iso (iso3_mul half_turn third_turn) vec3_ZERO =
     apply_iso half_turn (apply_iso third_turn vec3_ZERO)"
  using rotation_action [of half_turn third_turn vec3_ZERO vec3_ZERO] by simp

text \<open>The closed-form adjoint is a representation of the group on body twists: it maps a
  composition to the composition of the maps, and the inverse form used by the fold undoes it.\<close>

theorem adjoint_representation:
  assumes "unit_iso A" "unit_iso B"
  shows "adjoint (iso3_mul A B) x = adjoint A (adjoint B x) \<and>
     adjoint_inv (iso3_mul A B) x = adjoint_inv B (adjoint_inv A x) \<and>
     adjoint_inv A (to_spatial x A) = x \<and> adjoint_inv A x = adjoint (iso3_inverse A) x"
  using assms
  by (simp add: adjoint_mul adjoint_inv_eq iso.inv_mul_distrib to_spatial_def flip: adjoint_mul)

theorem adjoint_representation_witness:
  "adjoint_inv half_turn (to_spatial (twist_new (vec3_new 1 0 0) (vec3_new 0 2 0)) half_turn) =
     twist_new (vec3_new 1 0 0) (vec3_new 0 2 0)"
  using adjoint_representation [OF unit_turns] by blast

text \<open>The screw power has the endpoints its documentation states outside the degenerate arm:
  power 0 is the identity and power 1 is the transform (on the principal branch), in the series
  branch and in the closed form alike.\<close>

theorem screw_pow_endpoints:
  assumes "unit_iso rel" "SCREW_DEGENERATE_SQ \<le> vec3_norm_squared (quat_vector (iq rel))"
  shows "screw_pow rel 0 = iso3_IDENTITY \<and> screw_pow rel 1 = canonical rel"
proof -
  have "vec3_norm_squared (quat_vector (quat_neg (iq rel))) = vec3_norm_squared (quat_vector (iq rel))"
    by (simp add: pose_defs)
  then have "\<exists>p. screw_parts rel = Regular p"
    using assms(2) by (cases "qw (iq rel) < 0") (simp_all add: screw_parts_def Let_def)
  then obtain p where "screw_parts rel = Regular p" ..
  with assms show ?thesis by (simp add: screw_pow_regular_ends)
qed

theorem screw_pow_endpoints_witness:
  "screw_pow half_turn 0 = iso3_IDENTITY \<and> screw_pow half_turn 1 = half_turn"
proof -
  have "canonical half_turn = half_turn" by (simp add: half_turn_def canonical_def pose_defs)
  moreover have "SCREW_DEGENERATE_SQ \<le> vec3_norm_squared (quat_vector (iq half_turn))"
    by (simp add: half_turn_def pose_defs SCREW_DEGENERATE_SQ_def)
  ultimately show ?thesis using screw_pow_endpoints [of half_turn] by simp
qed

lemma sqrt_4_sq: "sqrt (4 * (a * a)) = 2 * \<bar>a\<bar>"
  by (simp add: real_sqrt_mult)

lemma abs_quot:
  "(a :: real) \<noteq> 0 \<Longrightarrow> 4 * (a * b) / (4 * \<bar>a\<bar>) = sgn a * b"
  by (cases "0 < a") (auto simp: sgn_if)

lemma shepperd_case:
  fixes a b s :: real
  assumes "a \<noteq> 0" "s = 4 * \<bar>a\<bar>"
  shows "1 / 4 * s = sgn a * a" "4 * (a * b) / s = sgn a * b"
  using assms abs_quot [of a b] by (auto simp: sgn_if)

lemma sgn_scale_eq: "(a :: real) \<noteq> 0 \<Longrightarrow>
    quat_new (sgn a * b) (sgn a * c) (sgn a * d) (sgn a * e) \<in> {quat_new b c d e, quat_neg (quat_new b c d e)}"
  by (cases "0 < a") (auto simp: sgn_if pose_defs)

lemma shepperd_aux:
  assumes u: "w * w = 1 - x * x - y * y - z * z"
  shows "quat_from_rot3_native [1 - 2 * (y * y + z * z), 2 * (x * y - w * z), 2 * (x * z + w * y),
     2 * (x * y + w * z), 1 - 2 * (x * x + z * z), 2 * (y * z - w * x),
     2 * (x * z - w * y), 2 * (y * z + w * x), 1 - 2 * (x * x + y * y)]
    \<in> {quat_new w x y z, quat_neg (quat_new w x y z)}" (is "quat_from_rot3_native ?r \<in> _")
proof -
  have r: "?r ! 0 = 1 - 2 * (y * y + z * z)" "?r ! 4 = 1 - 2 * (x * x + z * z)"
    "?r ! 8 = 1 - 2 * (x * x + y * y)" "?r ! 7 - ?r ! 5 = 4 * (w * x)" "?r ! 2 - ?r ! 6 = 4 * (w * y)"
    "?r ! 3 - ?r ! 1 = 4 * (w * z)" "?r ! 1 + ?r ! 3 = 4 * (x * y)" "?r ! 2 + ?r ! 6 = 4 * (x * z)"
    "?r ! 5 + ?r ! 7 = 4 * (y * z)"
    by (simp_all add: eval_nat_numeral algebra_simps)
  have tr: "?r ! 0 + ?r ! 4 + ?r ! 8 + 1 = 4 * (w * w)" "1 + ?r ! 0 - ?r ! 4 - ?r ! 8 = 4 * (x * x)"
    "1 + ?r ! 4 - ?r ! 0 - ?r ! 8 = 4 * (y * y)" "1 + ?r ! 8 - ?r ! 0 - ?r ! 4 = 4 * (z * z)"
    unfolding r(1-3) using u by (simp_all add: algebra_simps)
  have sq: "sqrt (4 * (a * a)) * 2 = 4 * \<bar>a\<bar>" for a :: real by (simp add: sqrt_4_sq)
  have nn: "0 \<le> x * x" "0 \<le> y * y" "0 \<le> z * z" by simp_all
  note case_rule = shepperd_case [OF _ refl]
  show ?thesis
  proof (cases "0 < ?r ! 0 + ?r ! 4 + ?r ! 8")
    case True
    with tr(1) have nz: "w \<noteq> 0" by auto
    have "quat_from_rot3_native ?r = quat_new (sgn w * w) (sgn w * x) (sgn w * y) (sgn w * z)"
      unfolding quat_from_rot3_native_def Let_def tr r(4-9) sq
      using True case_rule [OF nz] by simp
    then show ?thesis using sgn_scale_eq [OF nz] by simp
  next
    case F1: False
    then have big: "3 / 4 \<le> x * x + y * y + z * z" using tr(1) u by linarith
    show ?thesis
    proof (cases "?r ! 0 > ?r ! 4 \<and> ?r ! 0 > ?r ! 8")
      case True
      then have "?r ! 0 > ?r ! 4" ..
      then have "y * y < x * x" unfolding r(1-3) by (simp add: algebra_simps)
      with nn have nz: "x \<noteq> 0" by auto
      have "quat_from_rot3_native ?r = quat_new (sgn x * w) (sgn x * x) (sgn x * y) (sgn x * z)"
        unfolding quat_from_rot3_native_def Let_def tr r(4-9) sq
        using F1 True case_rule [OF nz] by (simp add: mult.commute [of w x])
      then show ?thesis using sgn_scale_eq [OF nz] by simp
    next
      case F2: False
      show ?thesis
      proof (cases "?r ! 4 > ?r ! 8")
        case True
        then have "z * z < y * y" unfolding r(1-3) by (simp add: algebra_simps)
        with nn have nz: "y \<noteq> 0" by auto
        have "quat_from_rot3_native ?r = quat_new (sgn y * w) (sgn y * x) (sgn y * y) (sgn y * z)"
          unfolding quat_from_rot3_native_def Let_def tr r(4-9) sq
          using F1 F2 True case_rule [OF nz] by (simp add: mult.commute [of w y] mult.commute [of x y])
        then show ?thesis using sgn_scale_eq [OF nz] by simp
      next
        case False
        with F2 have "x * x \<le> y * y \<or> x * x \<le> z * z" "y * y \<le> z * z"
          unfolding r(1-3) by (auto simp: algebra_simps not_less)
        with big have nz: "z \<noteq> 0" by auto
        have "quat_from_rot3_native ?r = quat_new (sgn z * w) (sgn z * x) (sgn z * y) (sgn z * z)"
          unfolding quat_from_rot3_native_def Let_def tr r(4-9) sq
          using F1 F2 False case_rule [OF nz]
          by (auto simp: mult.commute [of w z] mult.commute [of x z] mult.commute [of y z])
        then show ?thesis using sgn_scale_eq [OF nz] by simp
      qed
    qed
  qed
qed

text \<open>Shepperd's method recovers the rotation from the 3x3 block that the matrix layout writes,
  up to the sign of the quaternion, on all four branches.\<close>

theorem quat_from_rot3_write_mat4:
  assumes "unit_quat q"
  shows "quat_from_rot3_native (rot3_of_mat4 (write_mat4 (iso3_new q t))) \<in> {q, quat_neg q}"
proof -
  have q: "quat_new (qw q) (qx q) (qy q) (qz q) = q" by (rule quat_eqI) (simp_all add: pose_defs)
  show ?thesis
    using shepperd_aux [OF unit_quat_ww [OF assms]]
    by (simp add: rot3_of_mat4_def write_mat4_def Let_def q)
qed

theorem quat_from_rot3_write_mat4_witness:
  "quat_from_rot3_native (rot3_of_mat4 (write_mat4 half_turn)) \<in>
     {quat_new 0 0 0 1, quat_neg (quat_new 0 0 0 1)}"
  using quat_from_rot3_write_mat4 [of "iq half_turn" "it half_turn"]
  by (simp add: half_turn_def unit_quat_def pose_defs)

end
