(* ===== verification/Ring.thy ===== *)
theory Ring
  imports Core_Types Pose
begin

text \<open>
  The sample ring of \<open>tf_tree_core/src/buffer.rs\<close>, as its single writer and a reader at rest see it:
  the head, the heartbeat, the stamps and the seqlocked pose slots; \<open>push\<close> as the sequence of its
  stores, with the three crash points between them; and \<open>read_slot\<close>. The interleaving of a reader's
  loads with the writer's stores is the subject of the theory \<open>Seqlock\<close>.

  \<open>head\<close> and \<open>heartbeat\<close> count samples in \<open>nat\<close>: 2 to the 64 pushes do not happen. The sequence
  number of a slot is the \<open>u32\<close> of the code and wraps.
\<close>

subsection \<open>State\<close>

definition SEQ_RETRY_LIMIT :: nat where "SEQ_RETRY_LIMIT = 64"

record pose_slot =
  seq :: u32
  data :: "real list"

record sample_ring =
  head :: nat
  heartbeat :: nat
  stamps :: "int list"
  poses :: "pose_slot list"
  ring_edge :: edge_id

definition pose_slot_new :: pose_slot where
  "pose_slot_new = \<lparr>seq = 0, data = replicate 7 0\<rparr>"

definition capacity :: "sample_ring \<Rightarrow> nat" where
  "capacity r = length (poses r)"

definition ring_mask :: "sample_ring \<Rightarrow> nat" where
  "ring_mask r = (capacity r + (2 ^ 64 - 1)) mod 2 ^ 64"

definition retained :: "sample_ring \<Rightarrow> nat" where
  "retained r = (let cap = capacity r in cap - of_bool (cap > 1))"

text \<open>The physical index of a logical one.\<close>

definition phys :: "sample_ring \<Rightarrow> nat \<Rightarrow> nat" where
  "phys r i = i AND ring_mask r"

definition stamp_at :: "sample_ring \<Rightarrow> nat \<Rightarrow> int" where
  "stamp_at r logical = stamps r ! phys r logical"

definition newest_stamp :: "sample_ring \<Rightarrow> int option" where
  "newest_stamp r = (let h = head r in if h = 0 then None else Some (stamps r ! phys r (h - 1)))"

definition oldest_stamp :: "sample_ring \<Rightarrow> int option" where
  "oldest_stamp r =
     (let h = head r
      in if h = 0 then None
         else let oldest = h - retained r in Some (stamps r ! phys r oldest))"

definition stored :: "sample_ring \<Rightarrow> nat" where
  "stored r = min (head r) (retained r)"

subsection \<open>Publishing\<close>

text \<open>The stores of \<open>push\<close>, in program order.\<close>

definition store_seq :: "nat \<Rightarrow> u32 \<Rightarrow> sample_ring \<Rightarrow> sample_ring" where
  "store_seq i s r = r\<lparr>poses := (poses r)[i := (poses r ! i)\<lparr>seq := s\<rparr>]\<rparr>"

definition store_stamp :: "nat \<Rightarrow> int \<Rightarrow> sample_ring \<Rightarrow> sample_ring" where
  "store_stamp i t r = r\<lparr>stamps := (stamps r)[i := t]\<rparr>"

definition store_word :: "nat \<Rightarrow> nat \<times> real \<Rightarrow> sample_ring \<Rightarrow> sample_ring" where
  "store_word i kw r =
     r\<lparr>poses := (poses r)[i := (poses r ! i)\<lparr>data := (data (poses r ! i))[fst kw := snd kw]\<rparr>]\<rparr>"

definition store_head :: "nat \<Rightarrow> sample_ring \<Rightarrow> sample_ring" where
  "store_head h r = r\<lparr>head := h\<rparr>"

definition store_heartbeat :: "nat \<Rightarrow> sample_ring \<Rightarrow> sample_ring" where
  "store_heartbeat h r = r\<lparr>heartbeat := h\<rparr>"

datatype ring_store =
    StoreSeq nat u32
  | StoreStamp nat int
  | StoreWord nat "nat \<times> real"
  | StoreHead nat
  | StoreHeartbeat nat

fun exec_store :: "ring_store \<Rightarrow> sample_ring \<Rightarrow> sample_ring" where
  "exec_store (StoreSeq i s) = store_seq i s"
| "exec_store (StoreStamp i t) = store_stamp i t"
| "exec_store (StoreWord i kw) = store_word i kw"
| "exec_store (StoreHead h) = store_head h"
| "exec_store (StoreHeartbeat h) = store_heartbeat h"

definition push_odd :: "sample_ring \<Rightarrow> u32" where
  "push_odd r = seq (poses r ! phys r (head r)) OR 1"

definition push_guard :: "sample_ring \<Rightarrow> int \<Rightarrow> push_error + unit" where
  "push_guard r stamp =
     (let h = head r
      in if h > 0 then
           let last = stamps r ! phys r (h - 1)
           in if stamp < last then Inl (NonMonotonicStamp (ring_edge r) last stamp) else Inr ()
         else Inr ())"

definition push_stores :: "int \<Rightarrow> iso3 \<Rightarrow> sample_ring \<Rightarrow> ring_store list" where
  "push_stores stamp a r =
     (let h = head r; idx = phys r h; odd = push_odd r
      in [StoreSeq idx odd, StoreStamp idx stamp]
         @ map (StoreWord idx) (enumerate 0 (to_bits a))
         @ [StoreSeq idx (odd + 1), StoreHead (h + 1), StoreHeartbeat (h + 1)])"

text \<open>A writer that dies during a push leaves the ring with a prefix of these stores. The crash
  points of the code are the prefixes of length 1, 9 and 10.\<close>

datatype crash_site = After_seq_odd | After_data_before_seq_even | After_seq_even_before_head

fun stores_done :: "crash_site \<Rightarrow> nat" where
  "stores_done After_seq_odd = 1"
| "stores_done After_data_before_seq_even = 9"
| "stores_done After_seq_even_before_head = 10"

definition push_prefix :: "nat \<Rightarrow> int \<Rightarrow> iso3 \<Rightarrow> sample_ring \<Rightarrow> sample_ring" where
  "push_prefix k stamp a r = fold exec_store (take k (push_stores stamp a r)) r"

definition push :: "int \<Rightarrow> iso3 \<Rightarrow> sample_ring \<Rightarrow> push_error + sample_ring" where
  "push stamp a r =
     rbind (push_guard r stamp) (\<lambda>_. Inr (fold exec_store (push_stores stamp a r) r))"

subsection \<open>Reading a slot\<close>

text \<open>What one iteration of the retry loop observes: the sequence number, the seven words, and the
  sequence number again.\<close>

type_synonym slot_obs = "u32 \<times> real list \<times> u32"

fun read_slot_loop :: "nat \<Rightarrow> (nat \<Rightarrow> slot_obs) \<Rightarrow> real list option" where
  "read_slot_loop 0 obs = None"
| "read_slot_loop (Suc n) obs =
     (case obs (SEQ_RETRY_LIMIT - Suc n) of (s1, bits, s2) \<Rightarrow>
        if s1 AND 1 \<noteq> 0 then read_slot_loop n obs
        else if s2 = s1 then Some bits else read_slot_loop n obs)"

definition read_slot_obs :: "edge_id \<Rightarrow> (nat \<Rightarrow> slot_obs) \<Rightarrow> lookup_error + iso3" where
  "read_slot_obs e obs = (case read_slot_loop SEQ_RETRY_LIMIT obs of
     Some bits \<Rightarrow> Inr (from_bits bits) | None \<Rightarrow> Inl (SlotContended e))"

text \<open>A reader that no store interferes with.\<close>

definition read_slot :: "sample_ring \<Rightarrow> nat \<Rightarrow> lookup_error + iso3" where
  "read_slot r idx = (let s = poses r ! idx in read_slot_obs (ring_edge r) (\<lambda>_. (seq s, data s, seq s)))"

subsection \<open>The invariant\<close>

text \<open>The structural invariant of the documentation: parallel arrays, a power of two; a logical
  index below the head belongs to the sample it names while it is retained.\<close>

definition ring_shape :: "sample_ring \<Rightarrow> bool" where
  "ring_shape r \<longleftrightarrow> length (stamps r) = length (poses r) \<and> is_power_of_two (capacity r) \<and>
     capacity r < 2 ^ 64 \<and> (\<forall>s \<in> set (poses r). length (data s) = 7)"

definition oldest_logical :: "sample_ring \<Rightarrow> nat" where
  "oldest_logical r = head r - retained r"

definition slots_stable :: "sample_ring \<Rightarrow> bool" where
  "slots_stable r \<longleftrightarrow> (\<forall>i \<in> set [oldest_logical r..<head r]. seq (poses r ! phys r i) AND 1 = 0)"

definition stamps_sorted :: "sample_ring \<Rightarrow> bool" where
  "stamps_sorted r \<longleftrightarrow> sorted (map (stamp_at r) [oldest_logical r..<head r])"

definition ring_ok :: "sample_ring \<Rightarrow> bool" where
  "ring_ok r \<longleftrightarrow> ring_shape r \<and> slots_stable r \<and> stamps_sorted r"

text \<open>The abstract content of a ring: the stamped poses it retains, oldest first.\<close>

definition sample_of :: "sample_ring \<Rightarrow> nat \<Rightarrow> int \<times> iso3" where
  "sample_of r i = (stamp_at r i, from_bits (data (poses r ! phys r i)))"

definition contents :: "sample_ring \<Rightarrow> (int \<times> iso3) list" where
  "contents r = map (sample_of r) [oldest_logical r..<head r]"

subsection \<open>Indices\<close>

lemma ring_mask_pos: "ring_shape r \<Longrightarrow> ring_mask r = capacity r - 1"
proof -
  assume r: "ring_shape r"
  then have "0 < capacity r" "capacity r < 2 ^ 64" by (auto simp: ring_shape_def is_power_of_two_pos)
  then have "capacity r + (2 ^ 64 - 1) = (capacity r - 1) + 2 ^ 64" "capacity r - 1 < 2 ^ 64" by simp_all
  then show ?thesis unfolding ring_mask_def by (metis mod_add_self2 mod_less)
qed

lemma phys_mod: "ring_shape r \<Longrightarrow> phys r i = i mod capacity r"
  using mask_eq_mod [of "capacity r" i] by (simp add: phys_def ring_mask_pos) (simp add: ring_shape_def)

lemma capacity_pos [simp]: "ring_shape r \<Longrightarrow> 0 < capacity r"
  by (simp add: ring_shape_def is_power_of_two_pos)

lemma phys_less [simp]: "ring_shape r \<Longrightarrow> phys r i < capacity r"
  by (simp add: phys_mod)

lemma ring_shape_lengths:
  "ring_shape r \<Longrightarrow> length (stamps r) = capacity r" "length (poses r) = capacity r"
  by (simp_all add: ring_shape_def capacity_def)

lemma retained_bounds:
  assumes "ring_shape r"
  shows "1 \<le> retained r" "retained r \<le> capacity r" "1 < capacity r \<Longrightarrow> retained r < capacity r"
  using capacity_pos [OF assms] by (auto simp: retained_def Let_def)

lemma phys_inj:
  "ring_shape r \<Longrightarrow> phys r i = phys r j \<Longrightarrow> i \<le> j \<Longrightarrow> j < i + capacity r \<Longrightarrow> i = j"
  by (auto simp: phys_mod intro: mod_window_inj)

text \<open>The slot a push overwrites is not one a reader may touch, when there are two slots or more.\<close>

lemma phys_head_free:
  assumes "ring_shape r" "1 < capacity r" "oldest_logical r \<le> i" "i < head r"
  shows "phys r i \<noteq> phys r (head r)"
proof
  assume "phys r i = phys r (head r)"
  moreover have "head r < i + capacity r"
    using retained_bounds(3) [OF assms(1,2)] assms(3) by (simp add: oldest_logical_def)
  ultimately show False using phys_inj [OF assms(1), of i "head r"] assms(4) by simp
qed

subsection \<open>What a store touches\<close>

text \<open>\<open>r'\<close> differs from \<open>r\<close> at most in the physical slot \<open>idx\<close>.\<close>

definition agree_except :: "nat \<Rightarrow> sample_ring \<Rightarrow> sample_ring \<Rightarrow> bool" where
  "agree_except idx r r' \<longleftrightarrow>
     head r' = head r \<and> heartbeat r' = heartbeat r \<and> ring_edge r' = ring_edge r \<and>
     length (stamps r') = length (stamps r) \<and> length (poses r') = length (poses r) \<and>
     (\<forall>j. j \<noteq> idx \<longrightarrow> stamps r' ! j = stamps r ! j \<and> poses r' ! j = poses r ! j) \<and>
     length (data (poses r' ! idx)) = length (data (poses r ! idx))"

lemma agree_except_refl [simp]: "agree_except idx r r"
  by (simp add: agree_except_def)

lemma agree_except_trans: "agree_except idx r s \<Longrightarrow> agree_except idx s t \<Longrightarrow> agree_except idx r t"
  by (auto simp: agree_except_def)

lemma agree_except_stores [simp]:
  "agree_except idx r (store_seq idx s r)"
  "agree_except idx r (store_stamp idx t r)"
  "agree_except idx r (store_word idx kw r)"
  by (cases "idx < length (poses r)"; simp add: agree_except_def store_seq_def store_stamp_def
      store_word_def list_update_beyond)+

lemma agree_except_fold:
  "\<forall>f \<in> set fs. \<forall>r. agree_except idx r (exec_store f r) \<Longrightarrow> agree_except idx r (fold exec_store fs r)"
  by (induction fs arbitrary: r) (auto intro: agree_except_trans)

text \<open>The first ten stores of a push touch nothing but the slot they fill.\<close>

lemma push_prefix_agrees:
  assumes "k \<le> 10"
  shows "agree_except (phys r (head r)) r (push_prefix k t a r)"
proof -
  let ?i = "phys r (head r)"
  define pre where "pre = [StoreSeq ?i (push_odd r), StoreStamp ?i t]
    @ map (StoreWord ?i) (enumerate 0 (to_bits a)) @ [StoreSeq ?i (push_odd r + 1)]"
  have "push_stores t a r = pre @ [StoreHead (head r + 1), StoreHeartbeat (head r + 1)]"
    by (simp add: push_stores_def Let_def pre_def)
  moreover have "length pre = 10" by (simp add: pre_def)
  ultimately have "take k (push_stores t a r) = take k pre" using assms by simp
  moreover have "agree_except ?i s (exec_store f s)" if "f \<in> set (take k pre)" for f s
    using in_set_takeD [OF that] by (auto simp: pre_def)
  ultimately show ?thesis by (simp add: push_prefix_def agree_except_fold)
qed

lemma agree_except_shape:
  assumes "agree_except idx r r'" "ring_shape r"
  shows "ring_shape r'" "capacity r' = capacity r" "phys r' i = phys r i" "retained r' = retained r"
    "oldest_logical r' = oldest_logical r"
proof -
  show cap: "capacity r' = capacity r"
    using assms(1) by (simp add: agree_except_def capacity_def)
  show "retained r' = retained r" by (simp add: retained_def cap)
  then show "oldest_logical r' = oldest_logical r"
    using assms(1) by (simp add: oldest_logical_def agree_except_def)
  show "phys r' i = phys r i" by (simp add: phys_def ring_mask_def cap)
  have "length (data (poses r' ! j)) = 7" if "j < length (poses r')" for j
    using assms that by (cases "j = idx") (auto simp: agree_except_def ring_shape_def)
  then show "ring_shape r'"
    using assms cap by (auto simp: ring_shape_def agree_except_def in_set_conv_nth)
qed

lemma agree_except_window:
  assumes "agree_except idx r r'" "ring_shape r" "phys r i \<noteq> idx"
  shows "stamp_at r' i = stamp_at r i" "poses r' ! phys r' i = poses r ! phys r i"
    "sample_of r' i = sample_of r i"
  using assms agree_except_shape(3) [OF assms(1,2)]
  by (simp_all add: stamp_at_def sample_of_def agree_except_def)

text \<open>A ring that differs only in the slot of the head still holds what it held.\<close>

lemma agree_except_head:
  assumes ag: "agree_except (phys r (head r)) r r'" and r: "ring_shape r" "1 < capacity r"
  shows "contents r' = contents r" "slots_stable r' \<longleftrightarrow> slots_stable r"
    "stamps_sorted r' \<longleftrightarrow> stamps_sorted r"
proof -
  have h: "head r' = head r" using ag by (simp add: agree_except_def)
  note sh = agree_except_shape [OF ag r(1)]
  have w: "stamp_at r' i = stamp_at r i" "poses r' ! phys r i = poses r ! phys r i"
    "sample_of r' i = sample_of r i"
    if "i \<in> set [oldest_logical r..<head r]" for i
    using agree_except_window [OF ag r(1)] phys_head_free [OF r] that by (simp_all add: sh)
  show "contents r' = contents r" using w by (simp add: contents_def h sh cong: map_cong)
  show "slots_stable r' \<longleftrightarrow> slots_stable r" using w by (simp add: slots_stable_def h sh)
  show "stamps_sorted r' \<longleftrightarrow> stamps_sorted r"
  proof -
    have "map (stamp_at r') [oldest_logical r..<head r] = map (stamp_at r) [oldest_logical r..<head r]"
      using w(1) by (intro map_cong) auto
    then show ?thesis unfolding stamps_sorted_def h sh by (rule arg_cong)
  qed
qed

subsection \<open>What a push does\<close>

lemma fold_store_words:
  "i < length (poses r) \<Longrightarrow>
     fold exec_store (map (StoreWord i) (enumerate k ws)) r =
       r\<lparr>poses := (poses r)[i := (poses r ! i)\<lparr>data := fold (\<lambda>(k, w) d. d[k := w]) (enumerate k ws)
                                                   (data (poses r ! i))\<rparr>]\<rparr>"
  by (induction ws arbitrary: k r) (simp_all add: store_word_def split_def)

lemma fold_updates:
  "fold (\<lambda>(k, w) d. d[k := w]) (enumerate (length xs) ws) (xs @ ys) =
     xs @ (if length ys \<le> length ws then take (length ys) ws else ws @ drop (length ws) ys)"
proof (induction ws arbitrary: xs ys)
  case Nil
  then show ?case by simp
next
  case (Cons w ws)
  show ?case
  proof (cases ys)
    case Nil
    have "fold (\<lambda>(k, w) d. d[k := w]) (enumerate n ws) xs = xs" if "length xs \<le> n" for n
      using that by (induction ws arbitrary: n) (simp_all add: list_update_beyond)
    with Nil show ?thesis by (simp add: list_update_beyond)
  next
    case (Cons y ys')
    then show ?thesis using Cons.IH [of "xs @ [w]" ys'] by (simp add: list_update_append)
  qed
qed

lemma fold_updates_all: "length d = length ws \<Longrightarrow> fold (\<lambda>(k, w) d. d[k := w]) (enumerate 0 ws) d = ws"
  using fold_updates [of "[]" ws d] by simp

lemma pose_slot_overwrite [simp]:
  "p\<lparr>data := d, seq := s\<rparr> = \<lparr>seq = s, data = d\<rparr>" "p\<lparr>seq := s, data := d\<rparr> = \<lparr>seq = s, data = d\<rparr>"
  for p :: pose_slot
  by (cases p; simp)+

lemma push_prefix_10:
  assumes "ring_shape r"
  shows "push_prefix 10 t a r =
    (let i = phys r (head r)
     in r\<lparr>stamps := (stamps r)[i := t], poses := (poses r)[i := \<lparr>seq = push_odd r + 1, data = to_bits a\<rparr>]\<rparr>)"
proof -
  let ?i = "phys r (head r)"
  have i: "?i < length (poses r)" using assms ring_shape_lengths phys_less by simp
  then have d: "length (data (poses r ! ?i)) = 7" using assms by (simp add: ring_shape_def)
  have "take 10 (push_stores t a r) = [StoreSeq ?i (push_odd r), StoreStamp ?i t]
      @ map (StoreWord ?i) (enumerate 0 (to_bits a)) @ [StoreSeq ?i (push_odd r + 1)]"
    by (simp add: push_stores_def Let_def)
  then show ?thesis
    using i d
    by (simp add: push_prefix_def Let_def)
      (subst fold_store_words; simp add: store_seq_def store_stamp_def fold_updates_all)
qed

lemma push_Inr:
  assumes "ring_shape r"
  shows "push t a r = Inr r' \<longleftrightarrow>
    (head r > 0 \<longrightarrow> stamp_at r (head r - 1) \<le> t) \<and>
    r' = (push_prefix 10 t a r)\<lparr>head := head r + 1, heartbeat := head r + 1\<rparr>"
proof -
  have "fold exec_store (push_stores t a r) r =
      (push_prefix 10 t a r)\<lparr>head := head r + 1, heartbeat := head r + 1\<rparr>"
    by (simp add: push_prefix_def push_stores_def Let_def store_head_def store_heartbeat_def)
  then show ?thesis
    by (auto simp: push_def push_guard_def Let_def stamp_at_def split: if_splits)
qed

lemma push_Inl:
  "push t a r = Inl e \<longleftrightarrow>
    0 < head r \<and> t < stamp_at r (head r - 1) \<and> e = NonMonotonicStamp (ring_edge r) (stamp_at r (head r - 1)) t"
  by (auto simp: push_def push_guard_def Let_def stamp_at_def)

lemma or_one_even: "((s OR 1) + 1) AND 1 = (0 :: u32)"
proof -
  have "odd (s OR 1)" by (simp add: even_or_iff)
  then have "even ((s OR 1) + 1)" by simp
  then show ?thesis by (simp add: and_one_eq odd_iff_mod_2_eq_one even_iff_mod_2_eq_zero)
qed

text \<open>The window after a push: one more sample at the new end, the older ones as they were.\<close>

lemma push_window:
  assumes r: "ring_shape r" and p: "push t a r = Inr r'"
  shows "ring_shape r'" "head r' = head r + 1" "heartbeat r' = head r + 1" "retained r' = retained r"
    "phys r' i = phys r i" "ring_edge r' = ring_edge r"
    and "sample_of r' (head r) = (t, a)" "seq (poses r' ! phys r' (head r)) AND 1 = 0"
    and "stamp_at r' (head r) = t"
    and "oldest_logical r' \<le> i \<Longrightarrow> i < head r \<Longrightarrow>
      sample_of r' i = sample_of r i \<and> stamp_at r' i = stamp_at r i \<and> poses r' ! phys r' i = poses r ! phys r i"
proof -
  let ?q = "push_prefix 10 t a r" and ?i = "phys r (head r)"
  have q: "?q = r\<lparr>stamps := (stamps r)[?i := t], poses := (poses r)[?i := \<lparr>seq = push_odd r + 1, data = to_bits a\<rparr>]\<rparr>"
    using push_prefix_10 [OF r] by (simp add: Let_def)
  have r': "r' = ?q\<lparr>head := head r + 1, heartbeat := head r + 1\<rparr>" using p push_Inr [OF r] by simp
  have ag: "agree_except ?i r ?q" using push_prefix_agrees by simp
  note sh = agree_except_shape [OF ag r]
  have cap: "capacity r' = capacity r" by (simp add: r' q capacity_def)
  then show ph: "phys r' i = phys r i" for i by (simp add: phys_def ring_mask_def)
  from cap show ret: "retained r' = retained r" by (simp add: retained_def)
  show "ring_shape r'" using sh(1) by (simp add: r' ring_shape_def capacity_def)
  show h: "head r' = head r + 1" "heartbeat r' = head r + 1" "ring_edge r' = ring_edge r"
    by (simp_all add: r' q)
  have i: "?i < length (poses r)" "?i < length (stamps r)" using r ring_shape_lengths phys_less by simp_all
  show "stamp_at r' (head r) = t" using i by (simp add: stamp_at_def ph) (simp add: r' q)
  then show "sample_of r' (head r) = (t, a)"
    using i by (simp add: sample_of_def ph) (simp add: r' q)
  show "seq (poses r' ! phys r' (head r)) AND 1 = 0"
    using i by (simp add: ph) (simp add: r' q push_odd_def or_one_even)
  assume "oldest_logical r' \<le> i" "i < head r"
  then have "head r < i + capacity r"
    using retained_bounds(2) [OF r] by (simp add: oldest_logical_def h ret)
  then have "phys r i \<noteq> ?i" using phys_inj [OF r, of i "head r"] \<open>i < head r\<close> by auto
  then show "sample_of r' i = sample_of r i \<and> stamp_at r' i = stamp_at r i \<and>
      poses r' ! phys r' i = poses r ! phys r i"
    by (simp add: sample_of_def stamp_at_def ph) (simp add: r' q)
qed

subsection \<open>The ring as a bounded log\<close>

text \<open>The abstract specification: appending to a window of at most \<open>n\<close> entries.\<close>

definition window_push :: "nat \<Rightarrow> 'x list \<Rightarrow> 'x \<Rightarrow> 'x list" where
  "window_push n xs x = (let ys = xs @ [x] in drop (length ys - n) ys)"

definition last_n :: "nat \<Rightarrow> 'x list \<Rightarrow> 'x list" where
  "last_n n xs = drop (length xs - n) xs"

lemma window_push_last_n: "window_push n (last_n n xs) x = last_n n (xs @ [x])" if "0 < n"
proof (cases "length xs < n")
  case True
  then show ?thesis by (simp add: window_push_def last_n_def Let_def)
next
  case False
  then show ?thesis using that
    by (simp add: window_push_def last_n_def Let_def Suc_diff_le)
qed

lemma length_window_push: "length (window_push n xs x) = min n (Suc (length xs))"
  by (simp add: window_push_def Let_def)

text \<open>What a log with bounded memory promises its readers. \<open>put\<close> may refuse an entry; when it
  takes one, the window moves by that entry and nothing else changes.\<close>

locale bounded_log =
  fixes ok_state :: "'s \<Rightarrow> bool" and cap :: "'s \<Rightarrow> nat" and log :: "'s \<Rightarrow> 'x list"
    and put :: "'x \<Rightarrow> 's \<Rightarrow> 'e + 's"
  assumes cap_pos: "ok_state s \<Longrightarrow> 0 < cap s"
    and put_ok: "ok_state s \<Longrightarrow> put x s = Inr s' \<Longrightarrow> ok_state s'"
    and put_cap: "ok_state s \<Longrightarrow> put x s = Inr s' \<Longrightarrow> cap s' = cap s"
    and put_log: "ok_state s \<Longrightarrow> put x s = Inr s' \<Longrightarrow> log s' = window_push (cap s) (log s) x"
    and log_bound: "ok_state s \<Longrightarrow> length (log s) \<le> cap s"
begin

fun put_all :: "'x list \<Rightarrow> 's \<Rightarrow> 'e + 's" where
  "put_all [] s = Inr s"
| "put_all (x # xs) s = rbind (put x s) (put_all xs)"

lemma put_all_log:
  "ok_state s \<Longrightarrow> put_all xs s = Inr s' \<Longrightarrow>
     ok_state s' \<and> cap s' = cap s \<and> log s' = last_n (cap s) (log s @ xs)"
proof (induction xs arbitrary: s)
  case Nil
  then show ?case using log_bound [of s] by (simp add: last_n_def)
next
  case (Cons x xs)
  then obtain s1 where s1: "put x s = Inr s1" "put_all xs s1 = Inr s'" by (auto simp: rbind_iffs)
  have ok1: "ok_state s1" "cap s1 = cap s" using Cons.prems s1 put_ok put_cap by blast+
  have "log s1 = last_n (cap s) (log s @ [x])"
    using put_log [OF Cons.prems(1) s1(1)] log_bound [OF Cons.prems(1)]
    by (simp add: window_push_def last_n_def Let_def)
  moreover have "last_n n (last_n n ys @ zs) = last_n n (ys @ zs)" for n and ys zs :: "'x list"
    by (cases "length ys \<le> n") (simp_all add: last_n_def add.commute)
  ultimately show ?case
    using Cons.IH [OF ok1(1) s1(2)] ok1(2) by simp
qed

text \<open>An entry stays readable until \<open>cap\<close> more entries have been taken.\<close>

lemma put_all_keeps:
  assumes "ok_state s" "put x s = Inr s1" "put_all xs s1 = Inr s'" "length xs < cap s"
  shows "x \<in> set (log s')"
proof -
  have "put_all (x # xs) s = Inr s'" using assms by simp
  then have "log s' = last_n (cap s) (log s @ x # xs)" using put_all_log [OF assms(1)] by blast
  then show ?thesis using assms(4) by (auto simp: last_n_def)
qed

end

lemma contents_length: "length (contents r) = min (head r) (retained r)"
  by (simp add: contents_def oldest_logical_def)

lemma push_contents:
  assumes r: "ring_shape r" and p: "push t a r = Inr r'"
  shows "contents r' = window_push (retained r) (contents r) (t, a)"
proof -
  note w = push_window [OF r p]
  have r1: "1 \<le> retained r" using retained_bounds [OF r] by simp
  have o: "oldest_logical r' = head r + 1 - retained r" by (simp add: oldest_logical_def w)
  have le: "oldest_logical r' \<le> head r" using r1 by (simp add: o)
  have sub: "oldest_logical r \<le> oldest_logical r'" by (simp add: oldest_logical_def w)
  have "contents r' = map (sample_of r') [oldest_logical r'..<head r] @ [(t, a)]"
    using le by (simp add: contents_def w)
  also have "map (sample_of r') [oldest_logical r'..<head r] = map (sample_of r) [oldest_logical r'..<head r]"
    using w(10) by (intro map_cong) auto
  also have "\<dots> = drop (oldest_logical r' - oldest_logical r) (contents r)"
    using sub by (simp add: contents_def drop_map)
  finally have "contents r' = drop (oldest_logical r' - oldest_logical r) (contents r) @ [(t, a)]" .
  moreover have "oldest_logical r' - oldest_logical r = length (contents r) + 1 - retained r"
    using r1 by (auto simp: o contents_length oldest_logical_def min_def w(2) w(4))
  ultimately show ?thesis using r1 by (simp add: window_push_def Let_def)
qed

lemma push_keeps_ok:
  assumes ok: "ring_ok r" and p: "push t a r = Inr r'"
  shows "ring_ok r'"
proof -
  have r: "ring_shape r" using ok by (simp add: ring_ok_def)
  note w = push_window [OF r p]
  have le: "oldest_logical r' \<le> head r"
    using retained_bounds [OF r] by (simp add: oldest_logical_def w)
  have sub: "oldest_logical r \<le> oldest_logical r'" by (simp add: oldest_logical_def w)
  have "seq (poses r' ! phys r' i) AND 1 = 0" if "oldest_logical r' \<le> i" "i \<le> head r" for i
  proof (cases "i = head r")
    case True
    then show ?thesis using w by simp
  next
    case False
    then show ?thesis using w(10) [of i] that sub ok by (auto simp: ring_ok_def slots_stable_def)
  qed
  then have "slots_stable r'" by (auto simp: slots_stable_def w)
  moreover have "stamps_sorted r'"
  proof -
    have "map (stamp_at r') [oldest_logical r'..<head r] = map (stamp_at r) [oldest_logical r'..<head r]"
      using w(10) by (intro map_cong) auto
    also have "\<dots> = drop (oldest_logical r' - oldest_logical r) (map (stamp_at r) [oldest_logical r..<head r])"
      using sub by (simp add: drop_map)
    finally have eq: "map (stamp_at r') [oldest_logical r'..<head r'] =
        drop (oldest_logical r' - oldest_logical r) (map (stamp_at r) [oldest_logical r..<head r]) @ [t]"
      using le by (simp add: w)
    have srt: "sorted (map (stamp_at r) [oldest_logical r..<head r])"
      using ok unfolding ring_ok_def stamps_sorted_def by blast
    have "\<forall>x \<in> set (map (stamp_at r) [oldest_logical r..<head r]). x \<le> t"
    proof
      fix x assume "x \<in> set (map (stamp_at r) [oldest_logical r..<head r])"
      then obtain i where i: "oldest_logical r \<le> i" "i < head r" "x = stamp_at r i" by auto
      have "head r > 0" using i by simp
      then have "stamp_at r (head r - 1) \<le> t" using p push_Inr [OF r] by simp
      moreover have "stamp_at r i \<le> stamp_at r (head r - 1)"
        using sorted_nth_mono [OF srt, of "i - oldest_logical r" "head r - 1 - oldest_logical r"] i by simp
      ultimately show "x \<le> t" using i by simp
    qed
    then have "\<forall>x \<in> set (drop (oldest_logical r' - oldest_logical r) (map (stamp_at r) [oldest_logical r..<head r])). x \<le> t"
      using in_set_dropD by fast
    then show ?thesis
      unfolding stamps_sorted_def eq using sorted_wrt_drop [OF srt] by (simp add: sorted_append del: drop_map)
  qed
  ultimately show ?thesis using w by (simp add: ring_ok_def)
qed

interpretation ring_log: bounded_log ring_ok retained contents "\<lambda>(t, a). push t a"
proof unfold_locales
  fix s :: sample_ring assume "ring_ok s"
  then have "ring_shape s" by (simp add: ring_ok_def)
  then show "0 < retained s" using retained_bounds(1) by fastforce
  show "length (contents s) \<le> retained s" by (simp add: contents_length)
  fix x s' assume p: "(case x of (t, a) \<Rightarrow> push t a) s = Inr s'"
  obtain t a where x: "x = (t, a)" by (cases x)
  with p have p': "push t a s = Inr s'" by simp
  show "ring_ok s'" using \<open>ring_ok s\<close> p' by (rule push_keeps_ok)
  show "retained s' = retained s" using push_window(4) [OF \<open>ring_shape s\<close> p'] .
  show "contents s' = window_push (retained s) (contents s) x"
    using push_contents [OF \<open>ring_shape s\<close> p'] x by simp
qed

subsection \<open>A fresh ring\<close>

definition ring_new :: "edge_id \<Rightarrow> nat \<Rightarrow> sample_ring" where
  "ring_new e cap = \<lparr>head = 0, heartbeat = 0, stamps = replicate cap 0,
     poses = replicate cap pose_slot_new, ring_edge = e\<rparr>"

lemma ring_new_ok: "is_power_of_two cap \<Longrightarrow> cap < 2 ^ 64 \<Longrightarrow> ring_ok (ring_new e cap)"
  by (simp add: ring_ok_def ring_shape_def slots_stable_def stamps_sorted_def ring_new_def
      capacity_def pose_slot_new_def)

lemma ring_new_simps [simp]:
  "head (ring_new e cap) = 0" "heartbeat (ring_new e cap) = 0" "capacity (ring_new e cap) = cap"
  "ring_edge (ring_new e cap) = e"
  by (simp_all add: ring_new_def capacity_def)

lemma is_power_of_two_4 [simp]: "is_power_of_two 4"
  by (simp add: is_power_of_two_iff exI [of _ 2])

text \<open>A writer that publishes a list of samples, stopping at the first refusal.\<close>

fun push_all :: "(int \<times> iso3) list \<Rightarrow> sample_ring \<Rightarrow> push_error + sample_ring" where
  "push_all [] r = Inr r"
| "push_all ((t, a) # xs) r = rbind (push t a r) (push_all xs)"

lemma push_all_put_all: "push_all xs r = ring_log.put_all xs r"
  by (induction xs arbitrary: r) (auto intro!: arg_cong2 [of _ _ _ _ rbind] ext)

lemma push_all_Inr:
  "ring_shape r \<Longrightarrow> sorted (map fst xs) \<Longrightarrow> (head r > 0 \<longrightarrow> (\<forall>x \<in> set xs. stamp_at r (head r - 1) \<le> fst x)) \<Longrightarrow>
     \<exists>r'. push_all xs r = Inr r' \<and> head r' = head r + length xs"
proof (induction xs arbitrary: r)
  case Nil
  then show ?case by simp
next
  case (Cons x xs)
  obtain t a where x: "x = (t, a)" by (cases x)
  obtain r1 where r1: "push t a r = Inr r1" using Cons.prems push_Inr x by fastforce
  note w = push_window [OF Cons.prems(1) r1]
  have "\<exists>r'. push_all xs r1 = Inr r' \<and> head r' = head r1 + length xs"
    using Cons.prems x w by (intro Cons.IH) auto
  then show ?case using x r1 w by auto
qed

subsection \<open>Properties\<close>

text \<open>C3: \<open>push\<close> refines the bounded log. It refuses a stamp older than the newest one, naming both,
  and changes nothing; every other stamp is accepted (equal ones too), the retained window becomes
  the old window and the new sample, cut to \<open>retained\<close> entries, the head and the heartbeat agree,
  and the invariant of the ring holds again.\<close>

theorem push_refines_log:
  assumes "ring_ok r"
  shows "case push t a r of
      Inl e \<Rightarrow> head r > 0 \<and> t < stamp_at r (head r - 1) \<and>
        e = NonMonotonicStamp (ring_edge r) (stamp_at r (head r - 1)) t
    | Inr r' \<Rightarrow> (head r > 0 \<longrightarrow> stamp_at r (head r - 1) \<le> t) \<and> ring_ok r' \<and>
        contents r' = window_push (retained r) (contents r) (t, a) \<and>
        head r' = head r + 1 \<and> heartbeat r' = head r'"
proof (cases "push t a r")
  case (Inl e)
  with Inl [unfolded push_Inl] show ?thesis by simp
next
  case (Inr r')
  have r: "ring_shape r" using assms by (simp add: ring_ok_def)
  show ?thesis
    using Inr push_keeps_ok [OF assms Inr] push_contents [OF r Inr] push_window [OF r Inr]
      push_Inr [OF r, of t a r'] by simp
qed

theorem push_refines_log_witness:
  "\<exists>r. push 5 half_turn (ring_new 3 4) = Inr r \<and> ring_ok r \<and> contents r = [(5, half_turn)]"
proof -
  have ok: "ring_ok (ring_new 3 4)" by (rule ring_new_ok) simp_all
  have "\<exists>r. push 5 half_turn (ring_new 3 4) = Inr r"
    using push_Inr [of "ring_new 3 4" 5 half_turn] ok by (simp add: ring_ok_def)
  then obtain r where p: "push 5 half_turn (ring_new 3 4) = Inr r" ..
  have "ring_ok r \<and> contents r = window_push (retained (ring_new 3 4)) (contents (ring_new 3 4)) (5, half_turn)"
    using push_refines_log [OF ok, of 5 half_turn] p by simp
  then show ?thesis
    using p by (simp add: retained_def contents_def oldest_logical_def window_push_def)
qed

text \<open>Along any sequence of accepted pushes the ring holds exactly the last \<open>retained\<close> samples
  published, in order; with capacity \<open>2 ^ k \<ge> 2\<close> that is \<open>2 ^ k - 1\<close> of them.\<close>

theorem push_all_window:
  assumes "ring_ok r" "push_all xs r = Inr r'"
  shows "ring_ok r' \<and> retained r' = retained r \<and>
    contents r' = last_n (retained r) (contents r @ xs) \<and>
    (1 < capacity r \<longrightarrow> retained r = capacity r - 1)"
  using ring_log.put_all_log [OF assms(1)] assms(2)
  by (auto simp: push_all_put_all retained_def Let_def)

lemma fill_fixture:
  "\<exists>r. push_all [(1, half_turn), (2, third_turn), (2, half_turn), (9, iso3_IDENTITY)] (ring_new 3 4) = Inr r"
  using push_all_Inr [of "ring_new 3 4" "[(1, half_turn), (2, third_turn), (2, half_turn), (9, iso3_IDENTITY)]"]
    ring_new_ok [of 4 3] by (auto simp: ring_ok_def)

theorem push_all_window_witness:
  "\<exists>r. push_all [(1, half_turn), (2, third_turn), (2, half_turn), (9, iso3_IDENTITY)] (ring_new 3 4) = Inr r \<and>
     contents r = [(2, third_turn), (2, half_turn), (9, iso3_IDENTITY)]"
proof -
  obtain r where p: "push_all [(1, half_turn), (2, third_turn), (2, half_turn), (9, iso3_IDENTITY)]
      (ring_new 3 4) = Inr r" using fill_fixture by blast
  have "ring_ok (ring_new 3 4)" by (rule ring_new_ok) simp_all
  from push_all_window [OF this p]
  have "contents r = last_n (retained (ring_new 3 4)) (contents (ring_new 3 4) @
      [(1, half_turn), (2, third_turn), (2, half_turn), (9, iso3_IDENTITY)])" by blast
  then have "contents r = [(2, third_turn), (2, half_turn), (9, iso3_IDENTITY)]"
    by (simp add: contents_def oldest_logical_def last_n_def retained_def)
  with p show ?thesis by blast
qed



end
