(* ===== verification/Sample.thy ===== *)
theory Sample
  imports Ring
begin

text \<open>
  Sampling an edge at a stamp: \<open>tf_tree_core/src/sample.rs\<close>. The bracket search over logical
  indices, its galloping variant seeded from a cursor, the lift of a truncated cursor, the three
  read bodies (\<open>sample\<close>, \<open>read_from\<close>, \<open>sample_with_twist\<close>) and constant-twist extrapolation.

  A read loads the head twice: once to choose the window, once at the end to find out whether the
  writer lapped it. The second value is the parameter \<open>h2\<close> of the definitions; the ring is the one
  the first load saw. (A writer that overwrites stamps while the search runs is outside this
  model; the module comment of the code lists what can then happen.) \<open>ev\<close> is \<open>Interp::eval\<close> of the
  policy the read is instantiated with.
\<close>

datatype extrap_policy = ErrorPolicy | Hold | ConstantTwist

datatype bracket_read =
    Exact iso3
  | Between iso3 iso3 real

type_synonym interp = "iso3 \<Rightarrow> iso3 \<Rightarrow> real \<Rightarrow> iso3"

fun bracket_eval :: "interp \<Rightarrow> bracket_read \<Rightarrow> iso3" where
  "bracket_eval ev (Exact p) = p"
| "bracket_eval ev (Between a b s) = ev a b s"

definition NANOS_PER_SEC :: real where "NANOS_PER_SEC = 1000000000"

definition span_ns :: "int \<Rightarrow> int \<Rightarrow> real" where
  "span_ns from to = real (wrap_u64 (to - from))"

subsection \<open>The bracket search\<close>

text \<open>\<open>base.wrapping_add(half & 0u64.wrapping_sub(cmp))\<close>.\<close>

definition masked_add :: "nat \<Rightarrow> nat \<Rightarrow> bool \<Rightarrow> nat" where
  "masked_add base half c = (base + (half AND ((2 ^ 64 - of_bool c) mod 2 ^ 64))) mod 2 ^ 64"

function bracket_loop :: "(nat \<Rightarrow> int) \<Rightarrow> int \<Rightarrow> nat \<Rightarrow> nat \<Rightarrow> nat" where
  "bracket_loop stamp t base len =
     (if len > 1 then
        let half = len div 2; c = (stamp (base + half) \<le> t)
        in bracket_loop stamp t (masked_add base half c) (len - half)
      else base)"
  by pat_completeness auto
termination
  by (relation "measure (\<lambda>(stamp, t, base, len). len)") auto

declare bracket_loop.simps [simp del]

definition bracket :: "(nat \<Rightarrow> int) \<Rightarrow> nat \<Rightarrow> nat \<Rightarrow> int \<Rightarrow> nat" where
  "bracket stamp lo hi t = bracket_loop stamp t lo (hi - lo + 1)"

text \<open>The block mask of \<open>rebase_hint\<close>: \<open>newest & !(BLOCK - 1)\<close> clears the low 32 bits.\<close>

definition rebase_hint :: "nat \<Rightarrow> nat \<Rightarrow> nat \<Rightarrow> nat" where
  "rebase_hint hint lo_logical newest =
     (if hint \<ge> lo_logical then hint
      else let lifted = push_bit 32 (drop_bit 32 newest) OR (hint AND mask 32)
           in if lifted > newest then lifted - 2 ^ 32 else lifted)"

function gallop_up :: "(nat \<Rightarrow> int) \<Rightarrow> int \<Rightarrow> nat \<Rightarrow> nat \<Rightarrow> nat \<Rightarrow> nat" where
  "gallop_up stamp t hint newest step =
     (if 0 < step \<and> hint + step < newest \<and> stamp (hint + step) \<le> t
      then gallop_up stamp t hint newest (step * 2) else step)"
  by pat_completeness auto
termination
  by (relation "measure (\<lambda>(stamp, t, hint, newest, step). newest - step)") auto

function gallop_down :: "(nat \<Rightarrow> int) \<Rightarrow> int \<Rightarrow> nat \<Rightarrow> nat \<Rightarrow> nat \<Rightarrow> nat" where
  "gallop_down stamp t hint lo step =
     (if 0 < step \<and> hint - step > lo \<and> stamp (hint - step) > t
      then gallop_down stamp t hint lo (step * 2) else step)"
  by pat_completeness auto
termination
  by (relation "measure (\<lambda>(stamp, t, hint, lo, step). hint - step)") auto

declare gallop_up.simps [simp del] gallop_down.simps [simp del]

definition bracket_from :: "(nat \<Rightarrow> int) \<Rightarrow> nat \<Rightarrow> nat \<Rightarrow> int \<Rightarrow> nat \<Rightarrow> nat" where
  "bracket_from stamp lo_logical newest t hint0 =
     (let hint = max lo_logical (min newest (rebase_hint hint0 lo_logical newest));
          (lo, hi) = (if stamp hint \<le> t then
              let step = gallop_up stamp t hint newest 1
              in (hint + step div 2, min (hint + step) newest)
            else
              let step = gallop_down stamp t hint lo_logical 1
              in (max (hint - step) lo_logical, hint - step div 2))
      in bracket stamp lo hi t)"

subsection \<open>The read bodies\<close>

definition revalidated :: "sample_ring \<Rightarrow> nat \<Rightarrow> nat \<Rightarrow> nat \<Rightarrow> 'b \<Rightarrow> lookup_error + 'b" where
  "revalidated r h2 i ret v = (if h2 - i > ret then Inl (SlotRecycled (ring_edge r)) else Inr v)"

definition constant_twist ::
  "sample_ring \<Rightarrow> nat \<Rightarrow> nat \<Rightarrow> nat \<Rightarrow> int \<Rightarrow> int \<Rightarrow> lookup_error + (iso3 \<times> twist)" where
  "constant_twist r h2 lo_logical newest t t_new =
     (if newest = lo_logical then
        rbind (read_slot r (phys r newest)) (\<lambda>p. revalidated r h2 newest (retained r) (p, twist_ZERO))
      else
        let prev = newest - 1; t_prev = stamp_at r prev
        in rbind (read_slot r (phys r prev)) (\<lambda>a.
           rbind (read_slot r (phys r newest)) (\<lambda>b.
             let dt = span_ns t_prev t_new;
                 result = (if dt = 0 then (b, twist_ZERO)
                   else let param = span_ns t_prev t / dt; (pose, xi) = eval_with_twist a b param
                        in (pose, twist_scale xi (NANOS_PER_SEC / dt)))
             in if h2 - prev > retained r then Inl (SlotRecycled (ring_edge r)) else Inr result)))"

definition sample :: "interp \<Rightarrow> nat \<Rightarrow> int \<Rightarrow> extrap_policy \<Rightarrow> sample_ring \<Rightarrow> lookup_error + iso3" where
  "sample ev h2 t policy r =
     (let h = head r
      in if h = 0 then Inl (NoData (ring_edge r))
         else
           let ret = retained r; n = min h ret; lo_logical = h - n; newest = h - 1;
               t_old = stamp_at r lo_logical; t_new = stamp_at r newest
           in if t < t_old then Inl (Extrapolation (ring_edge r) t t_old t_new)
              else if t > t_new then
                (case policy of
                   ErrorPolicy \<Rightarrow> Inl (Extrapolation (ring_edge r) t t_old t_new)
                 | Hold \<Rightarrow> rbind (read_slot r (phys r newest)) (revalidated r h2 newest ret)
                 | ConstantTwist \<Rightarrow> map_sum id fst (constant_twist r h2 lo_logical newest t t_new))
              else if t = t_new then
                rbind (read_slot r (phys r newest)) (revalidated r h2 newest ret)
              else
                let i = bracket (stamp_at r) lo_logical newest t; t_i = stamp_at r i
                in rbind
                  (if t_i = t then read_slot r (phys r i)
                   else let t_j = stamp_at r (i + 1)
                        in rbind (read_slot r (phys r i)) (\<lambda>a.
                           rbind (read_slot r (phys r (i + 1))) (\<lambda>b.
                             let s = span_ns t_i t / span_ns t_i t_j in Inr (ev a b s))))
                  (\<lambda>result. if h2 - i > ret then Inl (SlotRecycled (ring_edge r)) else Inr result))"

text \<open>\<open>read_from\<close>, generic in what it makes of a bracket (\<open>FromBracket\<close>); the second component is
  the cursor it leaves behind.\<close>

definition read_from ::
  "(iso3 \<Rightarrow> 'b) \<Rightarrow> (iso3 \<Rightarrow> iso3 \<Rightarrow> real \<Rightarrow> 'b) \<Rightarrow> nat \<Rightarrow> int \<Rightarrow> extrap_policy \<Rightarrow> nat \<Rightarrow> sample_ring
     \<Rightarrow> (lookup_error + 'b) \<times> nat" where
  "read_from exact between h2 t policy cursor r =
     (let h = head r
      in if h = 0 then (Inl (NoData (ring_edge r)), cursor)
         else
           let ret = retained r; n = min h ret; lo_logical = h - n; newest = h - 1;
               t_old = stamp_at r lo_logical; t_new = stamp_at r newest
           in if t < t_old then (Inl (Extrapolation (ring_edge r) t t_old t_new), cursor)
              else if t > t_new then
                (case policy of
                   ErrorPolicy \<Rightarrow> Inl (Extrapolation (ring_edge r) t t_old t_new)
                 | Hold \<Rightarrow> map_sum id exact (rbind (read_slot r (phys r newest)) (revalidated r h2 newest ret))
                 | ConstantTwist \<Rightarrow>
                     map_sum id (exact \<circ> fst) (constant_twist r h2 lo_logical newest t t_new), newest)
              else if t = t_new then
                (rbind (read_slot r (phys r newest)) (\<lambda>p. map_sum id exact (revalidated r h2 newest ret p)),
                 newest)
              else
                let i = bracket_from (stamp_at r) lo_logical newest t cursor; t_i = stamp_at r i
                in (rbind
                  (if t_i = t then map_sum id exact (read_slot r (phys r i))
                   else let t_j = stamp_at r (i + 1)
                        in rbind (read_slot r (phys r i)) (\<lambda>a.
                           rbind (read_slot r (phys r (i + 1))) (\<lambda>b.
                             let s = span_ns t_i t / span_ns t_i t_j in Inr (between a b s))))
                  (\<lambda>result. if h2 - i > ret then Inl (SlotRecycled (ring_edge r)) else Inr result), i))"

definition sample_from ::
  "interp \<Rightarrow> nat \<Rightarrow> int \<Rightarrow> extrap_policy \<Rightarrow> nat \<Rightarrow> sample_ring \<Rightarrow> (lookup_error + iso3) \<times> nat" where
  "sample_from ev = read_from (\<lambda>p. p) ev"

text \<open>The body of both \<open>sample_with_twist\<close> variants; \<open>seek\<close> is the search they are given.\<close>

definition sample_with_twist_seeking ::
  "(nat \<Rightarrow> nat \<Rightarrow> int \<Rightarrow> nat) \<Rightarrow> nat \<Rightarrow> int \<Rightarrow> extrap_policy \<Rightarrow> sample_ring \<Rightarrow> lookup_error + (iso3 \<times> twist)" where
  "sample_with_twist_seeking seek h2 t policy r =
     (let h = head r
      in if h = 0 then Inl (NoData (ring_edge r))
         else
           let ret = retained r; n = min h ret; lo_logical = h - n; newest = h - 1;
               t_old = stamp_at r lo_logical; t_new = stamp_at r newest
           in if t < t_old then Inl (Extrapolation (ring_edge r) t t_old t_new)
              else if t > t_new then
                (case policy of
                   ErrorPolicy \<Rightarrow> Inl (Extrapolation (ring_edge r) t t_old t_new)
                 | Hold \<Rightarrow> rbind (read_slot r (phys r newest)) (\<lambda>p. revalidated r h2 newest ret (p, twist_ZERO))
                 | ConstantTwist \<Rightarrow>
                     if newest = lo_logical then Inl (NoSegment (ring_edge r))
                     else constant_twist r h2 lo_logical newest t t_new)
              else if newest = lo_logical then Inl (NoSegment (ring_edge r))
              else
                let i = (if t = t_new then newest - 1 else seek lo_logical newest t);
                    t_i = stamp_at r i; t_j = stamp_at r (i + 1); dt = span_ns t_i t_j
                in if dt = 0 then Inl (NoSegment (ring_edge r))
                   else
                     rbind (read_slot r (phys r i)) (\<lambda>a.
                     rbind (read_slot r (phys r (i + 1))) (\<lambda>b.
                       let s = span_ns t_i t / dt; (pose, xi) = eval_with_twist a b s
                       in if h2 - i > ret then Inl (SlotRecycled (ring_edge r))
                          else Inr (pose, twist_scale xi (NANOS_PER_SEC / dt)))))"

definition sample_with_twist :: "nat \<Rightarrow> int \<Rightarrow> extrap_policy \<Rightarrow> sample_ring \<Rightarrow> lookup_error + (iso3 \<times> twist)" where
  "sample_with_twist h2 t policy r =
     sample_with_twist_seeking (\<lambda>lo hi t. bracket (stamp_at r) lo hi t) h2 t policy r"

text \<open>Whether the body reaches its search, which is when the variant with a cursor moves it.\<close>

definition seeks :: "int \<Rightarrow> sample_ring \<Rightarrow> bool" where
  "seeks t r \<longleftrightarrow> head r \<noteq> 0 \<and>
     stamp_at r (head r - min (head r) (retained r)) \<le> t \<and> t < stamp_at r (head r - 1)"

definition sample_with_twist_from ::
  "nat \<Rightarrow> int \<Rightarrow> extrap_policy \<Rightarrow> nat \<Rightarrow> sample_ring \<Rightarrow> (lookup_error + (iso3 \<times> twist)) \<times> nat" where
  "sample_with_twist_from h2 t policy cursor r =
     (let h = head r; lo_logical = h - min h (retained r)
      in (sample_with_twist_seeking (\<lambda>lo hi t. bracket_from (stamp_at r) lo hi t cursor) h2 t policy r,
          if seeks t r then bracket_from (stamp_at r) lo_logical (h - 1) t cursor else cursor))"

subsection \<open>The search finds the bracket\<close>

lemma masked_add_cond:
  "base + half < 2 ^ 64 \<Longrightarrow> masked_add base half c = (if c then base + half else base)"
proof -
  assume b: "base + half < 2 ^ 64"
  have "half AND mask 64 = half"
    using b by (simp flip: take_bit_eq_mask add: take_bit_nat_eq_self_iff)
  moreover have "(2 ^ 64 - 1) mod 2 ^ 64 = (mask 64 :: nat)" by (simp add: mask_eq_exp_minus_1)
  ultimately have "half AND ((2 ^ 64 - 1) mod 2 ^ 64) = half" by simp
  then show ?thesis using b by (cases c) (simp_all add: masked_add_def)
qed

text \<open>\<open>b\<close> is the last index of \<open>[lo, hi]\<close> whose stamp is at most \<open>t\<close>.\<close>

definition last_le :: "(nat \<Rightarrow> int) \<Rightarrow> nat \<Rightarrow> nat \<Rightarrow> int \<Rightarrow> nat \<Rightarrow> bool" where
  "last_le stamp lo hi t b \<longleftrightarrow> lo \<le> b \<and> b \<le> hi \<and> stamp b \<le> t \<and> (\<forall>i \<in> {b<..hi}. t < stamp i)"

lemma last_le_unique: "last_le stamp lo hi t b \<Longrightarrow> last_le stamp lo hi t c \<Longrightarrow> b = c"
  unfolding last_le_def by (metis greaterThanAtMost_iff linorder_neqE_nat not_less)

lemma last_le_less: "last_le stamp lo hi t b \<Longrightarrow> t < stamp hi \<Longrightarrow> b < hi"
  by (auto simp: last_le_def order.order_iff_strict)

text \<open>What the searches rely on: a window of indices, and stamps that do not decrease along it.\<close>

locale stamp_window =
  fixes ok_state :: "'s \<Rightarrow> bool" and first last :: "'s \<Rightarrow> nat" and stamp :: "'s \<Rightarrow> nat \<Rightarrow> int"
  assumes mono: "ok_state s \<Longrightarrow> first s \<le> i \<Longrightarrow> i \<le> j \<Longrightarrow> j \<le> last s \<Longrightarrow> stamp s i \<le> stamp s j"
begin

lemma bracket_loop_last_le:
  "ok_state s \<Longrightarrow> first s \<le> base \<Longrightarrow> 0 < len \<Longrightarrow> base + len \<le> hi + 1 \<Longrightarrow> hi \<le> last s \<Longrightarrow>
     hi < 2 ^ 64 - 1 \<Longrightarrow> stamp s base \<le> t \<Longrightarrow> \<forall>i \<in> {base + len..hi}. t < stamp s i \<Longrightarrow>
     last_le (stamp s) base hi t (bracket_loop (stamp s) t base len)"
proof (induction "stamp s" t base len rule: bracket_loop.induct)
  case (1 t base len)
  define half where "half = len div 2"
  show ?case
  proof (cases "len > 1")
    case False
    with "1.prems" have "len = 1" by simp
    moreover have "{base + 1..hi} = {base<..hi}" by auto
    ultimately show ?thesis
      using "1.prems" by (subst bracket_loop.simps) (auto simp: last_le_def)
  next
    case True
    have half: "0 < half" "half < len" "half \<le> len - half" using True by (auto simp: half_def)
    have m: "masked_add base half c = (if c then base + half else base)" for c
      using half "1.prems" by (intro masked_add_cond) simp
    let ?c = "stamp s (base + half) \<le> t" and ?b = "if stamp s (base + half) \<le> t then base + half else base"
    have "last_le (stamp s) ?b hi t (bracket_loop (stamp s) t (masked_add base half ?c) (len - half))"
      unfolding m
    proof (rule "1.hyps" [OF True half_def refl, unfolded m])
      show "\<forall>i \<in> {?b + (len - half)..hi}. t < stamp s i"
      proof
        fix i assume i: "i \<in> {?b + (len - half)..hi}"
        show "t < stamp s i"
        proof (cases ?c)
          case True
          with i half "1.prems" show ?thesis by auto
        next
          case False
          have "stamp s (base + half) \<le> stamp s i"
            using "1.prems" i half False by (intro mono) auto
          with False show ?thesis by simp
        qed
      qed
    qed (use "1.prems" half in auto)
    moreover have "bracket_loop (stamp s) t base len =
        bracket_loop (stamp s) t (masked_add base half ?c) (len - half)"
      using True by (subst bracket_loop.simps) (simp add: half_def Let_def)
    ultimately show ?thesis by (auto simp: last_le_def split: if_splits)
  qed
qed

lemma bracket_last_le:
  assumes "ok_state s" "first s \<le> lo" "lo \<le> hi" "hi \<le> last s" "hi < 2 ^ 64 - 1" "stamp s lo \<le> t"
  shows "last_le (stamp s) lo hi t (bracket (stamp s) lo hi t)"
  unfolding bracket_def using assms by (intro bracket_loop_last_le) auto

lemma gallop_up_post:
  "0 < step \<Longrightarrow> hint + step div 2 \<le> newest \<Longrightarrow> stamp s (hint + step div 2) \<le> t \<Longrightarrow>
     (let k = gallop_up (stamp s) t hint newest step
      in hint + k div 2 \<le> newest \<and> stamp s (hint + k div 2) \<le> t \<and>
         (newest \<le> hint + k \<or> t < stamp s (hint + k)))"
proof (induction "stamp s" t hint newest step rule: gallop_up.induct)
  case (1 t hint newest step)
  then show ?case
    by (cases "hint + step < newest \<and> stamp s (hint + step) \<le> t")
      (auto simp: gallop_up.simps [of _ _ _ _ step] Let_def)
qed

lemma gallop_down_post:
  "0 < step \<Longrightarrow> lo < hint - step div 2 \<Longrightarrow> t < stamp s (hint - step div 2) \<Longrightarrow>
     (let k = gallop_down (stamp s) t hint lo step
      in lo < hint - k div 2 \<and> t < stamp s (hint - k div 2) \<and>
         (hint - k \<le> lo \<or> stamp s (hint - k) \<le> t))"
proof (induction "stamp s" t hint lo step rule: gallop_down.induct)
  case (1 t hint lo step)
  then show ?case
    by (cases "lo < hint - step \<and> t < stamp s (hint - step)")
      (auto simp: gallop_down.simps [of _ _ _ _ step] Let_def)
qed

text \<open>A narrower window that still straddles \<open>t\<close> gives the same answer.\<close>

lemma last_le_widen:
  assumes "ok_state s" "first s \<le> lo" "lo \<le> lo'" "hi' \<le> hi" "hi \<le> last s"
    and "last_le (stamp s) lo' hi' t b" "t < stamp s hi'"
  shows "last_le (stamp s) lo hi t b"
proof -
  have "t < stamp s i" if "i \<in> {b<..hi}" for i
  proof (cases "i \<le> hi'")
    case True
    with assms(6) that show ?thesis by (auto simp: last_le_def)
  next
    case False
    then have "stamp s hi' \<le> stamp s i"
      using assms that by (intro mono) (auto simp: last_le_def)
    with assms(7) show ?thesis by simp
  qed
  then show ?thesis using assms by (auto simp: last_le_def)
qed

lemma bracket_from_last_le:
  assumes ok: "ok_state s" and w: "first s \<le> lo" "lo \<le> hi" "hi \<le> last s" "hi < 2 ^ 64 - 1"
    and t: "stamp s lo \<le> t" "t < stamp s hi"
  shows "last_le (stamp s) lo hi t (bracket_from (stamp s) lo hi t hint0)"
proof -
  define hint where "hint = max lo (min hi (rebase_hint hint0 lo hi))"
  have h: "lo \<le> hint" "hint \<le> hi" using w by (auto simp: hint_def)
  have narrow: "last_le (stamp s) lo hi t (bracket (stamp s) lo' hi' t)"
    if "lo \<le> lo'" "lo' \<le> hi'" "hi' \<le> hi" "stamp s lo' \<le> t" "t < stamp s hi'" for lo' hi'
    using that w ok by (intro last_le_widen [OF ok _ _ _ _ bracket_last_le]) auto
  show ?thesis
  proof (cases "stamp s hint \<le> t")
    case True
    define k where "k = gallop_up (stamp s) t hint hi (Suc 0)"
    have "hint + k div 2 \<le> hi \<and> stamp s (hint + k div 2) \<le> t \<and> (hi \<le> hint + k \<or> t < stamp s (hint + k))"
      using gallop_up_post [of 1 hint hi s t] True h by (simp add: k_def Let_def)
    then have "last_le (stamp s) lo hi t (bracket (stamp s) (hint + k div 2) (min (hint + k) hi) t)"
      using h t by (intro narrow) (auto simp: min_def)
    then show ?thesis
      using True by (simp add: bracket_from_def Let_def hint_def [symmetric] k_def [symmetric])
  next
    case False
    define k where "k = gallop_down (stamp s) t hint lo (Suc 0)"
    have "lo < hint" using False t h by (cases "lo = hint") auto
    then have "lo < hint - k div 2 \<and> t < stamp s (hint - k div 2) \<and> (hint - k \<le> lo \<or> stamp s (hint - k) \<le> t)"
      using gallop_down_post [of 1 lo hint t s] False by (simp add: k_def Let_def)
    then have "last_le (stamp s) lo hi t (bracket (stamp s) (max (hint - k) lo) (hint - k div 2) t)"
      using h t by (intro narrow) (auto simp: max_def)
    then show ?thesis
      using False by (simp add: bracket_from_def Let_def hint_def [symmetric] k_def [symmetric])
  qed
qed

lemma bracket_from_eq:
  assumes "ok_state s" "first s \<le> lo" "lo \<le> hi" "hi \<le> last s" "hi < 2 ^ 64 - 1"
    "stamp s lo \<le> t" "t < stamp s hi"
  shows "bracket_from (stamp s) lo hi t hint = bracket (stamp s) lo hi t"
  using bracket_from_last_le [OF assms] bracket_last_le [OF assms(1-6)] by (rule last_le_unique)

end

lemma ring_stamps_mono:
  assumes "ring_ok r" "oldest_logical r \<le> i" "i \<le> j" "j < head r"
  shows "stamp_at r i \<le> stamp_at r j"
proof -
  have "sorted (map (stamp_at r) [oldest_logical r..<head r])"
    using assms(1) unfolding ring_ok_def stamps_sorted_def by blast
  from sorted_nth_mono [OF this, of "i - oldest_logical r" "j - oldest_logical r"]
  show ?thesis using assms by simp
qed

interpretation ring_window: stamp_window "\<lambda>r. ring_ok r \<and> 0 < head r" oldest_logical "\<lambda>r. head r - 1" stamp_at
  by unfold_locales (auto intro: ring_stamps_mono)

subsection \<open>The abstract sampler\<close>

text \<open>What a query means on the list of retained samples, oldest first: the neighbours of \<open>t\<close> are the
  last sample at or before it and the first one after it.\<close>

definition lower :: "(int \<times> iso3) list \<Rightarrow> int \<Rightarrow> int \<times> iso3" where
  "lower xs t = last (filter (\<lambda>x. fst x \<le> t) xs)"

definition upper :: "(int \<times> iso3) list \<Rightarrow> int \<Rightarrow> int \<times> iso3" where
  "upper xs t = hd (filter (\<lambda>x. t < fst x) xs)"

definition blend :: "interp \<Rightarrow> int \<times> iso3 \<Rightarrow> int \<times> iso3 \<Rightarrow> int \<Rightarrow> iso3" where
  "blend ev x y t = ev (snd x) (snd y) (real_of_int (t - fst x) / real_of_int (fst y - fst x))"

text \<open>Constant-twist extrapolation past the newest sample.\<close>

definition extend_twist :: "(int \<times> iso3) list \<Rightarrow> int \<Rightarrow> iso3" where
  "extend_twist xs t =
     (if length xs \<le> 1 then snd (last xs)
      else let x = last (butlast xs); y = last xs
           in if fst x = fst y then snd y else blend sclerp_eval x y t)"

definition sample_spec :: "interp \<Rightarrow> edge_id \<Rightarrow> int \<Rightarrow> extrap_policy \<Rightarrow> (int \<times> iso3) list \<Rightarrow> lookup_error + iso3" where
  "sample_spec ev e t policy xs =
     (if xs = [] then Inl (NoData e)
      else
        let t_old = fst (hd xs); t_new = fst (last xs)
        in if t < t_old then Inl (Extrapolation e t t_old t_new)
           else if t > t_new then
             (case policy of ErrorPolicy \<Rightarrow> Inl (Extrapolation e t t_old t_new)
              | Hold \<Rightarrow> Inr (snd (last xs))
              | ConstantTwist \<Rightarrow> Inr (extend_twist xs t))
           else if fst (lower xs t) = t then Inr (snd (lower xs t))
           else Inr (blend ev (lower xs t) (upper xs t) t))"

text \<open>Stamps are 64-bit and the head is a 64-bit counter short of its end.\<close>

definition in_range :: "sample_ring \<Rightarrow> bool" where
  "in_range r \<longleftrightarrow> head r < 2 ^ 64 \<and> (\<forall>s \<in> set (stamps r). in_i64 s)"

lemma read_slot_window:
  assumes "ring_ok r" "oldest_logical r \<le> i" "i < head r"
  shows "read_slot r (phys r i) = Inr (snd (sample_of r i))"
proof -
  have "seq (poses r ! phys r i) AND 1 = 0"
    using assms by (auto simp: ring_ok_def slots_stable_def)
  then show ?thesis
    by (simp add: read_slot_def read_slot_obs_def Let_def SEQ_RETRY_LIMIT_def sample_of_def
        numeral_eq_Suc)
qed

lemma stamp_at_in_i64:
  assumes "ring_shape r" "in_range r"
  shows "in_i64 (stamp_at r i)"
proof -
  have "phys r i < length (stamps r)" using assms(1) ring_shape_lengths phys_less by simp
  then show ?thesis using assms(2) by (simp add: in_range_def stamp_at_def)
qed

lemma span_ns_eq: "in_i64 a \<Longrightarrow> in_i64 b \<Longrightarrow> a \<le> b \<Longrightarrow> span_ns a b = real_of_int (b - a)"
proof -
  assume "in_i64 a" "in_i64 b" "a \<le> b"
  then have "real_of_int (int (wrap_u64 (b - a))) = real_of_int (b - a)" by (simp only: wrap_u64_diff)
  then show ?thesis by (simp add: span_ns_def)
qed

lemma fst_sample_of [simp]: "fst (sample_of r i) = stamp_at r i"
  by (simp add: sample_of_def)

lemma contents_ends:
  assumes "ring_shape r" "0 < head r"
  shows "contents r \<noteq> []" "hd (contents r) = sample_of r (oldest_logical r)"
    "last (contents r) = sample_of r (head r - 1)" "oldest_logical r < head r"
proof -
  show o: "oldest_logical r < head r"
    using retained_bounds(1) [OF assms(1)] assms(2) by (simp add: oldest_logical_def)
  then show "contents r \<noteq> []" "hd (contents r) = sample_of r (oldest_logical r)"
    "last (contents r) = sample_of r (head r - 1)"
    by (simp_all add: contents_def hd_map last_map)
qed

lemma filter_split:
  assumes "\<forall>i \<in> {a..<b}. P i" "\<forall>i \<in> {b..<c}. \<not> P i" "a \<le> b" "b \<le> c"
  shows "filter P [a..<c] = [a..<b]"
proof -
  have "[a..<c] = [a..<b] @ [b..<c]" using assms(3,4) by (metis le_Suc_ex upt_add_eq_append)
  then show ?thesis using assms(1,2) by (simp add: filter_id_conv filter_empty_conv)
qed

lemma filter_split':
  assumes "\<forall>i \<in> {a..<b}. \<not> P i" "\<forall>i \<in> {b..<c}. P i" "a \<le> b" "b \<le> c"
  shows "filter P [a..<c] = [b..<c]"
proof -
  have "[a..<c] = [a..<b] @ [b..<c]" using assms(3,4) by (metis le_Suc_ex upt_add_eq_append)
  then show ?thesis using assms(1,2) by (simp add: filter_id_conv filter_empty_conv)
qed

text \<open>The bracket index names the neighbours of \<open>t\<close>.\<close>

lemma last_le_neighbours:
  assumes ok: "ring_ok r" and b: "last_le (stamp_at r) (oldest_logical r) (head r - 1) t i" "0 < head r"
  shows "lower (contents r) t = sample_of r i"
    and "i < head r - 1 \<Longrightarrow> upper (contents r) t = sample_of r (i + 1)"
proof -
  let ?o = "oldest_logical r" and ?h = "head r"
  have i: "?o \<le> i" "i < ?h" "stamp_at r i \<le> t" using b by (auto simp: last_le_def)
  have le: "\<forall>j \<in> {?o..<Suc i}. stamp_at r j \<le> t"
    using ring_stamps_mono [OF ok, of _ i] i by (meson atLeastLessThan_iff less_Suc_eq_le order_trans)
  have gt: "\<forall>j \<in> {Suc i..<?h}. \<not> stamp_at r j \<le> t" using b by (auto simp: last_le_def not_le)
  have "filter (\<lambda>j. stamp_at r j \<le> t) [?o..<?h] = [?o..<Suc i]"
    using i by (intro filter_split [OF le gt]) auto
  then show "lower (contents r) t = sample_of r i"
    using i by (simp add: lower_def contents_def filter_map o_def last_map)
  assume "i < ?h - 1"
  then have "Suc i < ?h" by simp
  moreover have "filter (\<lambda>j. t < stamp_at r j) [?o..<?h] = [Suc i..<?h]"
    using i le gt by (intro filter_split') (auto simp: not_le not_less)
  ultimately show "upper (contents r) t = sample_of r (i + 1)"
    by (simp add: upper_def contents_def filter_map o_def hd_map)
qed

lemma last_butlast_contents:
  assumes "ring_shape r" "oldest_logical r < head r - 1"
  shows "last (butlast (contents r)) = sample_of r (head r - 1 - 1)"
proof -
  have "[oldest_logical r..<head r] = [oldest_logical r..<head r - 2] @ [head r - 2, head r - 1]"
  proof -
    have "head r = Suc (Suc (head r - 2))" "oldest_logical r \<le> head r - 2" using assms(2) by simp_all
    then show ?thesis by (metis append.assoc append_Cons append_Nil diff_Suc_1 le_SucI upt_Suc_append)
  qed
  moreover have "head r - 1 - 1 = head r - 2" by simp
  ultimately show ?thesis by (simp add: contents_def butlast_append)
qed

subsection \<open>The read bodies implement it\<close>

lemma oldest_min: "head r - min (head r) (retained r) = oldest_logical r"
  by (simp add: oldest_logical_def min_def)

text \<open>A read that used no sample older than \<open>i\<close> fails only when the writer has moved on.\<close>

lemma not_recycled:
  assumes "oldest_logical r \<le> i" "\<not> head r < h2"
  shows "\<not> h2 - i > retained r"
  using assms by (simp add: oldest_logical_def)

definition spec_or_recycled :: "sample_ring \<Rightarrow> nat \<Rightarrow> lookup_error + 'a \<Rightarrow> lookup_error + 'a \<Rightarrow> bool" where
  "spec_or_recycled r h2 got want \<longleftrightarrow>
     got = want \<or> head r < h2 \<and> got = Inl (SlotRecycled (ring_edge r))"

lemma spec_or_recycled_intros:
  "spec_or_recycled r h2 x x"
  "oldest_logical r \<le> i \<Longrightarrow> spec_or_recycled r h2 (revalidated r h2 i (retained r) v) (Inr v)"
  "oldest_logical r \<le> i \<Longrightarrow>
     spec_or_recycled r h2 (if h2 - i > retained r then Inl (SlotRecycled (ring_edge r)) else Inr v) (Inr v)"
  using not_recycled [of r i h2] by (auto simp: spec_or_recycled_def revalidated_def)

lemma spec_or_recycled_map:
  "spec_or_recycled r h2 x y \<Longrightarrow> spec_or_recycled r h2 (map_sum id f x) (map_sum id f y)"
  by (auto simp: spec_or_recycled_def)

lemma bracket_in_window:
  assumes ok: "ring_ok r" "in_range r" "0 < head r"
    and t: "stamp_at r (oldest_logical r) \<le> t" "t < stamp_at r (head r - 1)"
  shows "last_le (stamp_at r) (oldest_logical r) (head r - 1) t
      (bracket (stamp_at r) (oldest_logical r) (head r - 1) t)"
    and "bracket_from (stamp_at r) (oldest_logical r) (head r - 1) t c =
      bracket (stamp_at r) (oldest_logical r) (head r - 1) t"
proof -
  have w: "oldest_logical r \<le> head r - 1" "head r - 1 < 2 ^ 64 - 1"
    using contents_ends(4) [of r] ok by (auto simp: ring_ok_def in_range_def)
  show "last_le (stamp_at r) (oldest_logical r) (head r - 1) t
      (bracket (stamp_at r) (oldest_logical r) (head r - 1) t)"
    by (rule ring_window.bracket_last_le) (use ok w t in auto)
  show "bracket_from (stamp_at r) (oldest_logical r) (head r - 1) t c =
      bracket (stamp_at r) (oldest_logical r) (head r - 1) t"
    by (rule ring_window.bracket_from_eq) (use ok w t in auto)
qed

lemma constant_twist_spec:
  assumes ok: "ring_ok r" "in_range r" "0 < head r" and t: "in_i64 t" "stamp_at r (head r - 1) < t"
  shows "spec_or_recycled r h2
    (map_sum id fst (constant_twist r h2 (oldest_logical r) (head r - 1) t (stamp_at r (head r - 1))))
    (Inr (extend_twist (contents r) t))"
proof -
  have r: "ring_shape r" using ok by (simp add: ring_ok_def)
  note ends = contents_ends [OF r ok(3)]
  have len: "length (contents r) = head r - oldest_logical r" by (simp add: contents_def)
  let ?n = "head r - 1"
  have rd: "read_slot r (phys r ?n) = Inr (snd (sample_of r ?n))"
    using ok ends(4) by (intro read_slot_window) auto
  show ?thesis
  proof (cases "?n = oldest_logical r")
    case True
    then have "length (contents r) \<le> 1" using len by simp
    then have "extend_twist (contents r) t = snd (sample_of r ?n)"
      by (simp add: extend_twist_def ends)
    moreover have "constant_twist r h2 (oldest_logical r) ?n t (stamp_at r ?n) =
        revalidated r h2 ?n (retained r) (snd (sample_of r ?n), twist_ZERO)"
      using True rd by (simp add: constant_twist_def)
    moreover have "spec_or_recycled r h2
        (map_sum id fst (revalidated r h2 ?n (retained r) (snd (sample_of r ?n), twist_ZERO)))
        (map_sum id fst (Inr (snd (sample_of r ?n), twist_ZERO)))"
      using True by (intro spec_or_recycled_map spec_or_recycled_intros) simp
    ultimately show ?thesis by simp
  next
    case False
    then have o: "oldest_logical r < ?n" using ends(4) by simp
    let ?p = "?n - 1"
    have rp: "read_slot r (phys r ?p) = Inr (snd (sample_of r ?p))"
      using ok o by (intro read_slot_window) auto
    have st: "stamp_at r ?p \<le> stamp_at r ?n" using ok o by (intro ring_stamps_mono) auto
    note i64 = stamp_at_in_i64 [OF r ok(2)]
    have sp: "span_ns (stamp_at r ?p) (stamp_at r ?n) = real_of_int (stamp_at r ?n - stamp_at r ?p)"
      "span_ns (stamp_at r ?p) t = real_of_int (t - stamp_at r ?p)"
      by (rule span_ns_eq; use st t i64 in auto)+
    have ext: "extend_twist (contents r) t =
        (if stamp_at r ?p = stamp_at r ?n then snd (sample_of r ?n)
         else blend sclerp_eval (sample_of r ?p) (sample_of r ?n) t)"
      using o len last_butlast_contents [OF r] by (simp add: extend_twist_def ends Let_def)
    have z: "span_ns (stamp_at r ?p) (stamp_at r ?n) = 0 \<longleftrightarrow> stamp_at r ?p = stamp_at r ?n"
      using sp(1) by auto
    define res where "res = (if stamp_at r ?p = stamp_at r ?n then (snd (sample_of r ?n), twist_ZERO)
       else (case eval_with_twist (snd (sample_of r ?p)) (snd (sample_of r ?n))
                    (span_ns (stamp_at r ?p) t / span_ns (stamp_at r ?p) (stamp_at r ?n)) of
               (pose, xi) \<Rightarrow> (pose, twist_scale xi (NANOS_PER_SEC / span_ns (stamp_at r ?p) (stamp_at r ?n)))))"
    have ct: "constant_twist r h2 (oldest_logical r) ?n t (stamp_at r ?n) =
        (if h2 - ?p > retained r then Inl (SlotRecycled (ring_edge r)) else Inr res)"
      using False rd rp z by (simp add: constant_twist_def Let_def res_def)
    have res: "Inr (extend_twist (contents r) t) = map_sum id fst (Inr res)"
      using sp by (simp add: res_def ext eval_with_twist_eq blend_def)
    show ?thesis
      unfolding ct res using o by (intro spec_or_recycled_map spec_or_recycled_intros(3)) simp
  qed
qed

lemma sample_implements:
  assumes ok: "ring_ok r" "in_range r" and t: "in_i64 t"
  shows "spec_or_recycled r h2 (sample ev h2 t policy r)
    (sample_spec ev (ring_edge r) t policy (contents r))"
proof (cases "head r = 0")
  case True
  then show ?thesis
    by (simp add: sample_def sample_spec_def contents_def oldest_logical_def spec_or_recycled_def)
next
  case False
  then have h: "0 < head r" by simp
  have r: "ring_shape r" using ok by (simp add: ring_ok_def)
  note ends = contents_ends [OF r h]
  let ?n = "head r - 1" and ?o = "oldest_logical r"
  have rd: "read_slot r (phys r i) = Inr (snd (sample_of r i))" if "?o \<le> i" "i < head r" for i
    using ok(1) that by (rule read_slot_window)
  consider (old) "t < stamp_at r ?o" | (new) "\<not> t < stamp_at r ?o" "stamp_at r ?n < t"
    | (newest) "\<not> t < stamp_at r ?o" "t = stamp_at r ?n"
    | (mid) "\<not> t < stamp_at r ?o" "t < stamp_at r ?n" by linarith
  then show ?thesis
  proof cases
    case old
    then show ?thesis
      using h ends by (simp add: sample_def sample_spec_def Let_def oldest_min spec_or_recycled_def)
  next
    case new
    have "sample ev h2 t policy r = (case policy of
        ErrorPolicy \<Rightarrow> Inl (Extrapolation (ring_edge r) t (stamp_at r ?o) (stamp_at r ?n))
      | Hold \<Rightarrow> revalidated r h2 ?n (retained r) (snd (sample_of r ?n))
      | ConstantTwist \<Rightarrow> map_sum id fst (constant_twist r h2 ?o ?n t (stamp_at r ?n)))"
      using h new rd [of ?n] ends(4) by (simp add: sample_def Let_def oldest_min split: extrap_policy.split)
    then show ?thesis
      using h ends new constant_twist_spec [OF ok h t new(2)]
      by (auto simp: sample_spec_def Let_def intro: spec_or_recycled_intros split: extrap_policy.split)
  next
    case newest
    have "sample ev h2 t policy r = revalidated r h2 ?n (retained r) (snd (sample_of r ?n))"
      using h newest rd [of ?n] ends(4) by (simp add: sample_def Let_def oldest_min)
    moreover have "lower (contents r) t = sample_of r ?n"
      using ends(4) newest by (intro last_le_neighbours(1) [OF ok(1) _ h]) (auto simp: last_le_def)
    moreover have "?o \<le> ?n" using ends(4) by simp
    ultimately show ?thesis
      using ends newest spec_or_recycled_intros(2) [of r ?n] by (simp add: sample_spec_def Let_def)
  next
    case mid
    let ?i = "bracket (stamp_at r) ?o ?n t"
    have b: "last_le (stamp_at r) ?o ?n t ?i" using bracket_in_window(1) [OF ok h] mid by simp
    have i: "?o \<le> ?i" "?i < ?n" "stamp_at r ?i \<le> t" "t < stamp_at r (?i + 1)"
      using b last_le_less [OF b mid(2)] by (auto simp: last_le_def)
    note nb = last_le_neighbours [OF ok(1) b h]
    note i64 = stamp_at_in_i64 [OF r ok(2)]
    have sp: "span_ns (stamp_at r ?i) t = real_of_int (t - stamp_at r ?i)"
      "span_ns (stamp_at r ?i) (stamp_at r (?i + 1)) = real_of_int (stamp_at r (?i + 1) - stamp_at r ?i)"
      by (rule span_ns_eq; use i t i64 in auto)+
    have rdi: "read_slot r (phys r ?i) = Inr (snd (sample_of r ?i))"
      "read_slot r (phys r (?i + 1)) = Inr (snd (sample_of r (?i + 1)))"
      by (rule rd; use i in simp)+
    define want where "want = (if stamp_at r ?i = t then snd (sample_of r ?i)
      else blend ev (sample_of r ?i) (sample_of r (?i + 1)) t)"
    have got: "sample ev h2 t policy r =
        (if h2 - ?i > retained r then Inl (SlotRecycled (ring_edge r)) else Inr want)"
      using h mid rdi sp by (simp add: sample_def Let_def oldest_min want_def blend_def)
    have want: "sample_spec ev (ring_edge r) t policy (contents r) = Inr want"
      using ends mid i nb by (simp add: sample_spec_def Let_def want_def)
    show ?thesis unfolding got want using i(1) by (rule spec_or_recycled_intros(3))
  qed
qed

lemma rbind_map: "rbind (map_sum id g x) f = rbind x (\<lambda>y. f (g y))"
  by (cases x) auto

lemma map_rbind: "map_sum id g (rbind x f) = rbind x (\<lambda>y. map_sum id g (f y))"
  by (cases x) auto

text \<open>The cursor only chooses where the search starts: whatever it holds, the read is the one of
  \<open>sample\<close>, for every reading of the bracket \<open>g\<close> that interpolates with \<open>ev\<close>.\<close>

lemma read_from_eq_sample:
  assumes ok: "ring_ok r" "in_range r"
    and g: "\<And>p. g (exact p) = p" "\<And>a b s. g (between a b s) = ev a b s"
  shows "map_sum id g (fst (read_from exact between h2 t policy c r)) = sample ev h2 t policy r"
proof (cases "0 < head r \<and> stamp_at r (oldest_logical r) \<le> t \<and> t < stamp_at r (head r - 1)")
  case True
  then have b: "bracket_from (stamp_at r) (oldest_logical r) (head r - 1) t c =
      bracket (stamp_at r) (oldest_logical r) (head r - 1) t"
    using ok by (intro bracket_in_window(2)) auto
  have fold: "map_sum id g (if q then Inl e else Inr v) = (if q then Inl e else Inr (g v))" for q e v
    by simp
  show ?thesis
    using True b g
    by (simp add: read_from_def sample_def Let_def oldest_min map_rbind rbind_map fold
        cong: if_cong)
      (auto simp: rbind_Inr_iff split: rbind_splits)
next
  case False
  have m: "map_sum id g (map_sum id exact x) = x" "map_sum id g (map_sum id (exact \<circ> fst) y) = map_sum id fst y"
    "map_sum id g (rbind x (\<lambda>p. map_sum id exact (f p))) = rbind x f"
    for x :: "lookup_error + iso3" and y :: "lookup_error + iso3 \<times> twist" and f
    using g by (cases x; cases y; simp add: map_rbind; cases "f (projr x)"; simp)+
  have inl: "map_sum id g (Inl e) = Inl e" for e by simp
  consider "head r = 0" | "0 < head r" "t < stamp_at r (oldest_logical r)"
    | "0 < head r" "\<not> t < stamp_at r (oldest_logical r)" "stamp_at r (head r - 1) < t"
    | "0 < head r" "\<not> t < stamp_at r (oldest_logical r)" "t = stamp_at r (head r - 1)"
    using False by linarith
  then show ?thesis
    by cases (simp_all add: read_from_def sample_def Let_def oldest_min m inl del: map_sum.simps
        split: extrap_policy.split)
qed

text \<open>The block arithmetic of \<open>rebase_hint\<close>.\<close>

lemma lift_block: "push_bit 32 (drop_bit 32 (n :: nat)) OR (h AND mask 32) = n div 2 ^ 32 * 2 ^ 32 + h mod 2 ^ 32"
proof -
  have "push_bit 32 (drop_bit 32 n) AND take_bit 32 h = 0"
    by (rule bit_eqI) (auto simp: bit_simps)
  then have "push_bit 32 (drop_bit 32 n) OR take_bit 32 h = push_bit 32 (drop_bit 32 n) + take_bit 32 h"
    by (rule disjunctive_add_eq_or [symmetric])
  then show ?thesis
    by (simp add: take_bit_eq_mask [symmetric] push_bit_eq_mult drop_bit_eq_div take_bit_eq_mod)
qed

lemma block_mod: "(n :: nat) = n div 2 ^ 32 * 2 ^ 32 + n mod 2 ^ 32"
  by simp

lemma rebase_hint_exact:
  assumes "lo \<le> i" "i \<le> newest" "newest - lo < 2 ^ 32"
  shows "rebase_hint (i mod 2 ^ 32) lo newest = i"
proof (cases "lo \<le> i mod 2 ^ 32")
  case True
  have "i div 2 ^ 32 = 0"
  proof (rule ccontr)
    assume "i div 2 ^ 32 \<noteq> 0"
    then have "2 ^ 32 \<le> i div 2 ^ 32 * 2 ^ 32" by simp
    with True assms block_mod [of i] show False by linarith
  qed
  with True show ?thesis using block_mod [of i] by (simp add: rebase_hint_def)
next
  case False
  let ?B = "2 ^ 32 :: nat"
  have le: "i div ?B \<le> newest div ?B" using assms by (intro div_le_mono) simp
  have "newest div ?B \<le> i div ?B + 1"
  proof -
    have "newest \<le> i + ?B" using assms by simp
    then have "newest div ?B \<le> (i + ?B) div ?B" by (rule div_le_mono)
    then show ?thesis by simp
  qed
  with le consider "newest div ?B = i div ?B" | "newest div ?B = i div ?B + 1" by linarith
  then show ?thesis
  proof cases
    case 1
    then have "newest div ?B * ?B + i mod ?B = i" using block_mod [of i] by simp
    with False assms show ?thesis
      unfolding rebase_hint_def Let_def lift_block by (simp del: One_nat_def)
  next
    case 2
    then have l: "newest div ?B * ?B + i mod ?B = i + ?B" using block_mod [of i] by simp
    have "newest < i + ?B" using assms by simp
    with False l show ?thesis
      unfolding rebase_hint_def Let_def lift_block by (simp del: One_nat_def)
  qed
qed

text \<open>The twist body and the plain read take their poses from the same place.\<close>

lemma sample_with_twist_beyond:
  "sample_with_twist_seeking seek h2 t policy r = Inr (p, xi) \<Longrightarrow>
   head r > 0 \<Longrightarrow> stamp_at r (head r - 1) < t \<Longrightarrow> stamp_at r (oldest_logical r) \<le> t \<Longrightarrow>
   sample ev h2 t policy r = Inr p"
  by (auto simp: sample_with_twist_seeking_def sample_def Let_def oldest_min rbind_iffs revalidated_def
      split: extrap_policy.splits if_splits)

text \<open>The twist body calls its search at most once, inside the window.\<close>

lemma seeking_cong:
  assumes "0 < head r \<Longrightarrow> stamp_at r (oldest_logical r) \<le> t \<Longrightarrow> t < stamp_at r (head r - 1) \<Longrightarrow>
    seek (oldest_logical r) (head r - 1) t = seek' (oldest_logical r) (head r - 1) t"
  shows "sample_with_twist_seeking seek h2 t policy r = sample_with_twist_seeking seek' h2 t policy r"
proof -
  consider "head r = 0" | "0 < head r" "t < stamp_at r (oldest_logical r)"
    | "0 < head r" "\<not> t < stamp_at r (oldest_logical r)" "stamp_at r (head r - 1) < t"
    | (new) "0 < head r" "\<not> t < stamp_at r (oldest_logical r)" "t = stamp_at r (head r - 1)"
    | (mid) "0 < head r" "stamp_at r (oldest_logical r) \<le> t" "t < stamp_at r (head r - 1)"
    by linarith
  then show ?thesis
  proof cases
    case new
    show ?thesis
      unfolding sample_with_twist_seeking_def Let_def oldest_min new(3) by (simp only: if_True simp_thms)
  next
    case mid
    show ?thesis
      unfolding sample_with_twist_seeking_def Let_def oldest_min assms [OF mid] by (rule refl)
  qed (simp_all add: sample_with_twist_seeking_def Let_def oldest_min)
qed

lemma sample_with_twist_from_eq:
  assumes "ring_ok r" "in_range r"
  shows "fst (sample_with_twist_from h2 t policy c r) = sample_with_twist h2 t policy r"
  unfolding sample_with_twist_from_def Let_def fst_conv sample_with_twist_def
  using assms by (intro seeking_cong bracket_in_window(2))

lemma sample_with_twist_inside:
  assumes got: "sample_with_twist h2 t policy r = Inr (p, xi)" and h: "0 < head r"
    and t: "\<not> t < stamp_at r (oldest_logical r)" "\<not> stamp_at r (head r - 1) < t"
  defines "i \<equiv> (if t = stamp_at r (head r - 1) then head r - 1 - 1
      else bracket (stamp_at r) (oldest_logical r) (head r - 1) t)"
  obtains a b where "head r - 1 \<noteq> oldest_logical r" "span_ns (stamp_at r i) (stamp_at r (i + 1)) \<noteq> 0"
    "read_slot r (phys r i) = Inr a" "read_slot r (phys r (i + 1)) = Inr b" "\<not> h2 - i > retained r"
    "p = sclerp_eval a b (span_ns (stamp_at r i) t / span_ns (stamp_at r i) (stamp_at r (i + 1)))"
proof -
  have "sample_with_twist h2 t policy r =
      (if head r - 1 = oldest_logical r then Inl (NoSegment (ring_edge r))
       else let t_i = stamp_at r i; t_j = stamp_at r (i + 1); dt = span_ns t_i t_j
            in if dt = 0 then Inl (NoSegment (ring_edge r))
               else
                 rbind (read_slot r (phys r i)) (\<lambda>a.
                 rbind (read_slot r (phys r (i + 1))) (\<lambda>b.
                   let s = span_ns t_i t / dt; (pose, xi) = eval_with_twist a b s
                   in if h2 - i > retained r then Inl (SlotRecycled (ring_edge r))
                      else Inr (pose, twist_scale xi (NANOS_PER_SEC / dt)))))"
    using h t unfolding sample_with_twist_def sample_with_twist_seeking_def Let_def oldest_min i_def
    by (simp only: if_False if_True) simp
  with got show ?thesis
    by (auto simp: Let_def rbind_iffs eval_with_twist_eq split: if_splits intro: that)
qed

lemma sample_with_twist_pose:
  assumes ok: "ring_ok r" "in_range r" "in_i64 t" and got: "sample_with_twist h2 t policy r = Inr (p, xi)"
  shows "sample sclerp_eval h2 t policy r = Inr p"
proof -
  have h: "0 < head r" and old: "\<not> t < stamp_at r (oldest_logical r)"
    using got by (auto simp: sample_with_twist_def sample_with_twist_seeking_def Let_def oldest_min split: if_splits)
  show ?thesis
  proof (cases "stamp_at r (head r - 1) < t")
    case True
    with got h old show ?thesis
      unfolding sample_with_twist_def by (intro sample_with_twist_beyond) auto
  next
    case False
    define i where "i = (if t = stamp_at r (head r - 1) then head r - 1 - 1
      else bracket (stamp_at r) (oldest_logical r) (head r - 1) t)"
    obtain a b where *: "head r - 1 \<noteq> oldest_logical r" "span_ns (stamp_at r i) (stamp_at r (i + 1)) \<noteq> 0"
      "read_slot r (phys r i) = Inr a" "read_slot r (phys r (i + 1)) = Inr b" "\<not> h2 - i > retained r"
      "p = sclerp_eval a b (span_ns (stamp_at r i) t / span_ns (stamp_at r i) (stamp_at r (i + 1)))"
      using sample_with_twist_inside [OF got h old False, folded i_def] by metis
    show ?thesis
    proof (cases "t = stamp_at r (head r - 1)")
      case True
      have "oldest_logical r < head r" using contents_ends(4) [of r] h ok by (simp add: ring_ok_def)
      with *(1) have i: "i = head r - 1 - 1" "i + 1 = head r - 1" using True by (simp_all add: i_def)
      then have p: "p = b" using *(2,6) True by (simp add: sclerp_eval_def)
      have "\<not> h2 - (head r - 1) > retained r" using *(5) i by simp
      then show ?thesis
        using h old True *(4) p unfolding i(2)
        by (simp add: sample_def Let_def oldest_min revalidated_def)
    next
      case F: False
      then have i: "i = bracket (stamp_at r) (oldest_logical r) (head r - 1) t" by (simp add: i_def)
      have z: "p = a" if "stamp_at r i = t"
        using that *(6) by (simp add: span_ns_def wrap_u64_def sclerp_eval_def)
      show ?thesis
        using h old False F *(3-6) z
        unfolding sample_def Let_def oldest_min i [symmetric] by auto
    qed
  qed
qed

subsection \<open>Properties\<close>


text \<open>A ring of capacity 4 with two samples.\<close>

definition two_samples :: sample_ring where
  "two_samples = \<lparr>head = 2, heartbeat = 2, stamps = [10, 20, 0, 0],
     poses = [\<lparr>seq = 2, data = to_bits half_turn\<rparr>, \<lparr>seq = 2, data = to_bits third_turn\<rparr>,
              pose_slot_new, pose_slot_new], ring_edge = 3\<rparr>"

lemma two_samples_ok: "ring_ok two_samples" "in_range two_samples"
  "contents two_samples = [(10, half_turn), (20, third_turn)]"
proof -
  have m: "ring_mask two_samples = 3" by (simp add: two_samples_def ring_mask_def capacity_def)
  have ph: "phys two_samples 0 = 0" "phys two_samples (Suc 0) = 1"
    using mask_eq_mod [of 4 0] mask_eq_mod [of 4 1] by (simp_all add: phys_def m)
  have o: "oldest_logical two_samples = 0" "head two_samples = Suc (Suc 0)"
    by (simp_all add: two_samples_def oldest_logical_def retained_def capacity_def)
  show "contents two_samples = [(10, half_turn), (20, third_turn)]"
    by (simp add: contents_def o sample_of_def stamp_at_def ph) (simp add: two_samples_def)
  show "in_range two_samples" by (simp add: in_range_def two_samples_def arith_defs)
  have "is_power_of_two (Suc (Suc (Suc (Suc 0))))"
    using is_power_of_two_4 by (simp del: is_power_of_two_4 add: numeral_eq_Suc)
  then have "ring_shape two_samples"
    by (simp add: ring_shape_def two_samples_def capacity_def pose_slot_new_def)
  moreover have "slots_stable two_samples"
    by (simp add: slots_stable_def o ph) (simp add: two_samples_def)
  moreover have "stamps_sorted two_samples"
    by (simp add: stamps_sorted_def o ph stamp_at_def) (simp add: two_samples_def)
  ultimately show "ring_ok two_samples" by (simp add: ring_ok_def)
qed


text \<open>C2: the cursor is only a hint. For every cursor value, the batch body \<open>read_from\<close> (its bracket
  evaluated afterwards) and the scalar \<open>sample_from\<close> return what \<open>sample\<close> returns, and the twist
  body does not depend on it either.\<close>

theorem read_from_equals_sample:
  assumes "ring_ok r" "in_range r"
  shows "map_sum id (bracket_eval ev) (fst (read_from Exact Between h2 t policy cursor r)) =
      sample ev h2 t policy r \<and>
    fst (sample_from ev h2 t policy cursor r) = sample ev h2 t policy r \<and>
    fst (sample_with_twist_from h2 t policy cursor r) = sample_with_twist h2 t policy r"
proof -
  have "map_sum id id (fst (read_from (\<lambda>p. p) ev h2 t policy cursor r)) = sample ev h2 t policy r"
    using assms by (rule read_from_eq_sample) simp_all
  moreover have "map_sum id (bracket_eval ev) (fst (read_from Exact Between h2 t policy cursor r)) =
      sample ev h2 t policy r"
    using assms by (rule read_from_eq_sample) simp_all
  ultimately show ?thesis
    using assms by (simp add: sample_from_def sample_with_twist_from_eq sum.map_id0)
qed

theorem read_from_equals_sample_witness:
  "fst (sample_from sclerp_eval 2 15 ErrorPolicy 77 two_samples) =
     sample sclerp_eval 2 15 ErrorPolicy two_samples"
  using read_from_equals_sample [OF two_samples_ok(1,2)] by blast

text \<open>When the twist body answers, its pose is the one the plain ScLerp read gives at that stamp
  under the same policy.\<close>

theorem sample_with_twist_agrees:
  assumes "ring_ok r" "in_range r" "in_i64 t" "sample_with_twist h2 t policy r = Inr (p, xi)"
  shows "sample sclerp_eval h2 t policy r = Inr p"
  using assms by (rule sample_with_twist_pose)

theorem sample_with_twist_agrees_witness:
  "\<exists>p xi. sample_with_twist 2 20 Hold two_samples = Inr (p, xi) \<and> sample sclerp_eval 2 20 Hold two_samples = Inr p"
proof -
  have m: "ring_mask two_samples = 3" by (simp add: two_samples_def ring_mask_def capacity_def)
  have ph: "phys two_samples 0 = 0" "phys two_samples (Suc 0) = 1"
    using mask_eq_mod [of 4 0] mask_eq_mod [of 4 1] by (simp_all add: phys_def m)
  have st: "stamp_at two_samples 0 = 10" "stamp_at two_samples (Suc 0) = 20"
    by (simp_all add: stamp_at_def ph) (simp_all add: two_samples_def)
  have o: "oldest_logical two_samples = 0" "head two_samples = 2" "retained two_samples = 3"
    by (simp_all add: two_samples_def oldest_logical_def retained_def capacity_def)
  have sp: "span_ns 10 20 = 10" by (simp add: span_ns_def wrap_u64_def)
  have rd: "read_slot two_samples (phys two_samples i) = Inr (snd (sample_of two_samples i))" if "i < 2" for i
    using read_slot_window [OF two_samples_ok(1), of i] that o by simp
  have "\<exists>p xi. sample_with_twist 2 20 Hold two_samples = Inr (p, xi)"
    using rd [of 0] rd [of 1]
    by (simp add: sample_with_twist_def sample_with_twist_seeking_def Let_def oldest_min o st sp
        eval_with_twist_eq)
  then obtain p xi where "sample_with_twist 2 20 Hold two_samples = Inr (p, xi)" by blast
  moreover have "in_i64 20" by (simp add: arith_defs)
  ultimately show ?thesis
    using sample_with_twist_agrees [OF two_samples_ok(1,2), of 20] by blast
qed

text \<open>The cursor that \<open>Guard\<close> keeps as 32 bits is lifted back exactly, for every window narrower
  than \<open>2 ^ 32\<close>, however far the head has counted.\<close>

theorem rebase_hint_recovers:
  assumes "lo \<le> i" "i \<le> newest" "newest - lo < 2 ^ 32"
  shows "rebase_hint (i mod 2 ^ 32) lo newest = i"
  using assms by (rule rebase_hint_exact)

theorem rebase_hint_recovers_witness:
  "rebase_hint (8589934590 mod 2 ^ 32) 8589934580 8589934600 = 8589934590"
  by (rule rebase_hint_recovers) simp_all

end
