(* ===== verification/Snapshot.thy ===== *)
theory Snapshot
  imports Prelude
begin

text \<open>
  The contract shared by the optimistic reads of the code base (the pose seqlock of \<open>buffer.rs\<close>, the
  topology word of \<open>topology.rs\<close>): a version that never goes back and that moves whenever a stable
  value does. Then a reader that finds the same version at both ends has read one state.
\<close>

subsection \<open>Optimistic reads\<close>

locale versioned =
  fixes ok_state :: "'s \<Rightarrow> bool" and step :: "'s \<Rightarrow> 's \<Rightarrow> bool" and rank :: "'s \<Rightarrow> nat"
    and stable :: "'s \<Rightarrow> bool" and val :: "'s \<Rightarrow> 'd"
  assumes ok_step: "ok_state s \<Longrightarrow> step s s' \<Longrightarrow> ok_state s'"
    and rank_mono: "ok_state s \<Longrightarrow> step s s' \<Longrightarrow> rank s \<le> rank s'"
    and frame: "ok_state s \<Longrightarrow> step s s' \<Longrightarrow> stable s \<Longrightarrow> rank s' = rank s \<Longrightarrow> stable s' \<and> val s' = val s"
begin

lemma ok_run: "ok_state (run 0) \<Longrightarrow> \<forall>n. step (run n) (run (Suc n)) \<Longrightarrow> ok_state (run i)"
  by (induction i) (auto intro: ok_step)

lemma rank_run:
  assumes "ok_state (run 0)" "\<forall>n. step (run n) (run (Suc n))" "i \<le> j"
  shows "rank (run i) \<le> rank (run j)"
  using assms(3)
proof (induction j rule: dec_induct)
  case base
  then show ?case by simp
next
  case (step n)
  with rank_mono [OF ok_run [OF assms(1,2)], of n "run (Suc n)"] assms(2) show ?case
    by (meson order_trans)
qed

text \<open>If the version is the same at both ends of an interval, nothing changed inside it.\<close>

lemma snapshot:
  assumes run: "ok_state (run 0)" "\<forall>n. step (run n) (run (Suc n))"
    and "stable (run i)" "rank (run j) = rank (run i)" "i \<le> k" "k \<le> j"
  shows "val (run k) = val (run i)"
proof -
  have "stable (run k) \<and> val (run k) = val (run i)"
    using assms(5,6)
  proof (induction k rule: dec_induct)
    case base
    then show ?case using assms(3) by simp
  next
    case (step n)
    have "rank (run i) \<le> rank (run n)" "rank (run n) \<le> rank (run (Suc n))" "rank (run (Suc n)) \<le> rank (run j)"
      using step by (auto intro!: rank_run [OF run])
    with assms(4) have "rank (run (Suc n)) = rank (run n)" by linarith
    with step run(2) frame [OF ok_run [OF run], of n "run (Suc n)"] show ?case by simp
  qed
  then show ?thesis ..
qed

end

end
