(* ===== verification/Seqlock.thy ===== *)
theory Seqlock
  imports Ring Snapshot
begin

text \<open>
  The seqlock of \<open>buffer.rs\<close> under interleaving. A writer executes the stores of \<open>push\<close> one at a
  time, may die between any two of them and be replaced; a reader's loads fall anywhere in between.
  Memory is sequentially consistent here: the fences and orderings that the code documents as
  normative are what makes the real machine behave like this, and are not modelled.
\<close>

subsection \<open>The writer as a step relation\<close>

text \<open>\<open>gens\<close> counts, per slot, how often its sequence number has moved, without the wrap at
  \<open>2 ^ 32\<close>; \<open>pushed\<close> remembers the poses handed to \<open>push\<close>. Both are only there to state theorems.\<close>

record writer =
  ring :: sample_ring
  todo :: "ring_store list"
  gens :: "nat list"
  pushed :: "iso3 list"

fun bump :: "ring_store \<Rightarrow> nat list \<Rightarrow> nat list" where
  "bump (StoreSeq i s) g = g[i := g ! i + unat (s - word_of_nat (g ! i))]"
| "bump _ g = g"

inductive wstep :: "writer \<Rightarrow> writer \<Rightarrow> bool" where
  store: "todo w = st # rest \<Longrightarrow>
    wstep w (w\<lparr>ring := exec_store st (ring w), todo := rest, gens := bump st (gens w)\<rparr>)"
| begin_push: "todo w = [] \<Longrightarrow> push_guard (ring w) t = Inr () \<Longrightarrow>
    wstep w (w\<lparr>todo := push_stores t a (ring w), pushed := a # pushed w\<rparr>)"
| die: "wstep w (w\<lparr>todo := []\<rparr>)"
| idle: "wstep w w"

inductive_cases wstepE: "wstep w w'"

definition datas_ok :: "real list set \<Rightarrow> sample_ring \<Rightarrow> iso3 list \<Rightarrow> bool" where
  "datas_ok init r ps \<longleftrightarrow>
     (\<forall>i < capacity r. seq (poses r ! i) AND 1 = 0 \<longrightarrow> data (poses r ! i) \<in> init \<union> to_bits ` set ps)"

definition in_push :: "real list set \<Rightarrow> writer \<Rightarrow> sample_ring \<Rightarrow> int \<Rightarrow> iso3 \<Rightarrow> nat \<Rightarrow> bool" where
  "in_push init w r0 t a k \<longleftrightarrow> k < 12 \<and> ring_shape r0 \<and> datas_ok init r0 (pushed w) \<and> a \<in> set (pushed w) \<and>
     todo w = drop k (push_stores t a r0) \<and> ring w = push_prefix k t a r0"

definition writer_ok :: "real list set \<Rightarrow> writer \<Rightarrow> bool" where
  "writer_ok init w \<longleftrightarrow> ring_shape (ring w) \<and> length (gens w) = capacity (ring w) \<and>
     (\<forall>i < capacity (ring w). word_of_nat (gens w ! i) = seq (poses (ring w) ! i)) \<and>
     datas_ok init (ring w) (pushed w) \<and>
     (todo w = [] \<or> (\<exists>r0 t a k. in_push init w r0 t a k))"

lemma length_push_stores [simp]: "length (push_stores t a r) = 12"
  by (simp add: push_stores_def Let_def)

lemma push_prefix_Suc:
  "k < 12 \<Longrightarrow> push_prefix (Suc k) t a r = exec_store (push_stores t a r ! k) (push_prefix k t a r)"
  by (simp add: push_prefix_def take_Suc_conv_app_nth)

text \<open>Only a sequence store changes the sequence number of a slot.\<close>

lemma exec_store_seq:
  "(\<forall>i s. st \<noteq> StoreSeq i s) \<Longrightarrow> seq (poses (exec_store st r) ! j) = seq (poses r ! j)"
proof (cases st)
  case (StoreWord i kw)
  then show ?thesis
    by (cases "i < length (poses r)"; cases "i = j") (simp_all add: store_word_def list_update_beyond)
qed (auto simp: store_stamp_def store_head_def store_heartbeat_def)

lemma fold_exec_seq:
  "\<forall>st \<in> set sts. \<forall>i s. st \<noteq> StoreSeq i s \<Longrightarrow> seq (poses (fold exec_store sts r) ! j) = seq (poses r ! j)"
  by (induction sts arbitrary: r) (simp_all add: exec_store_seq)

definition payload_stores :: "int \<Rightarrow> iso3 \<Rightarrow> sample_ring \<Rightarrow> ring_store list" where
  "payload_stores t a r = StoreStamp (phys r (head r)) t #
     map (StoreWord (phys r (head r))) (enumerate 0 (to_bits a))"

lemma push_stores_split:
  "push_stores t a r = StoreSeq (phys r (head r)) (push_odd r) # payload_stores t a r @
      [StoreSeq (phys r (head r)) (push_odd r + 1), StoreHead (head r + 1), StoreHeartbeat (head r + 1)]"
  "length (payload_stores t a r) = 8"
  by (simp_all add: push_stores_def Let_def payload_stores_def)

lemma payload_not_seq: "st \<in> set (payload_stores t a r) \<Longrightarrow> st \<noteq> StoreSeq i s"
  by (auto simp: payload_stores_def)

lemma push_prefix_odd:
  assumes r: "ring_shape r" and k: "0 < k" "k \<le> 9"
  shows "seq (poses (push_prefix k t a r) ! phys r (head r)) = push_odd r"
proof -
  obtain k' where "k = Suc k'" "k' \<le> 8" using k by (cases k) auto
  then have "take k (push_stores t a r) =
      StoreSeq (phys r (head r)) (push_odd r) # take k' (payload_stores t a r)"
    by (simp add: push_stores_split)
  moreover have "\<forall>st \<in> set (take k' (payload_stores t a r)). \<forall>i s. st \<noteq> StoreSeq i s"
    using payload_not_seq in_set_takeD by fast
  moreover have "phys r (head r) < length (poses r)" using r ring_shape_lengths phys_less by simp
  ultimately show ?thesis by (simp add: push_prefix_def fold_exec_seq store_seq_def)
qed

lemma push_stores_late:
  "push_stores t a r ! 10 = StoreHead (head r + 1)" "push_stores t a r ! 11 = StoreHeartbeat (head r + 1)"
  "push_stores t a r ! 9 = StoreSeq (phys r (head r)) (push_odd r + 1)"
  "push_stores t a r ! 0 = StoreSeq (phys r (head r)) (push_odd r)"
  by (simp_all add: push_stores_def Let_def to_bits_def)

lemma push_stores_mid:
  "0 < k \<Longrightarrow> k < 9 \<Longrightarrow> push_stores t a r ! k \<in> set (payload_stores t a r)"
  by (cases k) (auto simp: push_stores_split nth_append)

lemma push_prefix_11: "poses (push_prefix 11 t a r) = poses (push_prefix 10 t a r)"
  using push_prefix_Suc [of 10 t a r] by (simp add: push_stores_late store_head_def)

lemma push_prefix_12: "poses (push_prefix 12 t a r) = poses (push_prefix 10 t a r)"
  using push_prefix_Suc [of 11 t a r] push_prefix_11 by (simp add: push_stores_late store_heartbeat_def)

lemma push_prefix_late:
  assumes "10 \<le> k" "k \<le> 12"
  shows "poses (push_prefix k t a r) = poses (push_prefix 10 t a r)"
proof -
  have "k = 10 \<or> k = 11 \<or> k = 12" using assms by auto
  then show ?thesis using push_prefix_11 push_prefix_12 by auto
qed

lemma exec_store_shape:
  assumes "ring_shape r"
  shows "ring_shape (exec_store st r)" "capacity (exec_store st r) = capacity r"
proof -
  have "ring_shape (exec_store st r) \<and> capacity (exec_store st r) = capacity r"
  proof (cases st)
    case (StoreSeq i s)
    then show ?thesis using agree_except_shape(1,2) [OF agree_except_stores(1) assms] by simp
  next
    case (StoreStamp i t)
    then show ?thesis using agree_except_shape(1,2) [OF agree_except_stores(2) assms] by simp
  next
    case (StoreWord i kw)
    then show ?thesis using agree_except_shape(1,2) [OF agree_except_stores(3) assms] by simp
  qed (use assms in \<open>auto simp: store_head_def store_heartbeat_def ring_shape_def capacity_def\<close>)
  then show "ring_shape (exec_store st r)" "capacity (exec_store st r) = capacity r" by simp_all
qed

lemma push_prefix_0 [simp]: "push_prefix 0 t a r = r"
  by (simp add: push_prefix_def)

lemma push_prefix_other:
  assumes "k \<le> 12" "j \<noteq> phys r (head r)"
  shows "poses (push_prefix k t a r) ! j = poses r ! j"
proof -
  have "poses (push_prefix k t a r) = poses (push_prefix (min k 10) t a r)"
    using push_prefix_late [of k] assms(1) by (cases "k \<le> 10") (simp_all add: min_def)
  moreover have "agree_except (phys r (head r)) r (push_prefix (min k 10) t a r)"
    by (rule push_prefix_agrees) simp
  ultimately show ?thesis using assms(2) by (simp add: agree_except_def)
qed

lemma push_prefix_done:
  assumes "ring_shape r" "10 \<le> k" "k \<le> 12"
  shows "data (poses (push_prefix k t a r) ! phys r (head r)) = to_bits a"
proof -
  have "phys r (head r) < length (poses r)" using assms(1) ring_shape_lengths phys_less by simp
  then show ?thesis
    using push_prefix_late [OF assms(2,3)] push_prefix_10 [OF assms(1)] by (simp add: Let_def)
qed

lemma odd_not_stable: "(s OR 1) AND 1 \<noteq> (0 :: u32)"
proof -
  have "odd (s OR 1)" by (simp add: even_or_iff)
  then show ?thesis by (simp add: and_one_eq odd_iff_mod_2_eq_one)
qed

lemma datas_ok_prefix:
  assumes r: "ring_shape r" and d: "datas_ok init r ps" and a: "a \<in> set ps" and k: "k \<le> 12"
    and cap: "capacity (push_prefix k t a r) = capacity r"
  shows "datas_ok init (push_prefix k t a r) ps"
  unfolding datas_ok_def
proof (intro allI impI)
  fix i assume i: "i < capacity (push_prefix k t a r)" "seq (poses (push_prefix k t a r) ! i) AND 1 = 0"
  show "data (poses (push_prefix k t a r) ! i) \<in> init \<union> to_bits ` set ps"
  proof (cases "i = phys r (head r)")
    case False
    then show ?thesis using push_prefix_other [OF k False] i d cap by (simp add: datas_ok_def)
  next
    case True
    consider "k = 0" | "0 < k" "k \<le> 9" | "10 \<le> k" by linarith
    then show ?thesis
    proof cases
      case 1
      then show ?thesis using i d by (simp add: datas_ok_def)
    next
      case 2
      then have "seq (poses (push_prefix k t a r) ! i) AND 1 \<noteq> 0"
        using push_prefix_odd [OF r 2] True by (simp add: push_odd_def odd_not_stable)
      then show ?thesis using i by simp
    next
      case 3
      then show ?thesis using push_prefix_done [OF r 3 k] True a by simp
    qed
  qed
qed

lemma bump_ok:
  assumes "length g = capacity r" "ring_shape r" "\<forall>i < capacity r. word_of_nat (g ! i) = seq (poses r ! i)"
  shows "length (bump st g) = capacity r \<and>
    (\<forall>i < capacity r. word_of_nat (bump st g ! i) = seq (poses (exec_store st r) ! i))"
proof (cases st)
  case (StoreSeq i s)
  have "length (poses r) = capacity r" by (simp add: capacity_def)
  then show ?thesis
    using assms StoreSeq
    by (cases "i < capacity r") (auto simp: store_seq_def nth_list_update list_update_beyond)
qed (use assms exec_store_seq [of st r] in auto)

lemma in_push_store:
  assumes p: "in_push init w r0 t a k" and st: "todo w = st # rest"
  shows "st = push_stores t a r0 ! k" "exec_store st (ring w) = push_prefix (Suc k) t a r0"
    "rest = drop (Suc k) (push_stores t a r0)"
proof -
  have k: "k < length (push_stores t a r0)" using p by (simp add: in_push_def)
  have "st # rest = push_stores t a r0 ! k # drop (Suc k) (push_stores t a r0)"
    using p st Cons_nth_drop_Suc [OF k] by (simp add: in_push_def)
  then show "st = push_stores t a r0 ! k" "rest = drop (Suc k) (push_stores t a r0)" by simp_all
  then show "exec_store st (ring w) = push_prefix (Suc k) t a r0"
    using p push_prefix_Suc by (simp add: in_push_def)
qed

lemma fold_exec_shape:
  "ring_shape r \<Longrightarrow> ring_shape (fold exec_store sts r) \<and> capacity (fold exec_store sts r) = capacity r"
  by (induction sts arbitrary: r) (simp_all add: exec_store_shape)

lemma push_prefix_shape:
  "ring_shape r \<Longrightarrow> ring_shape (push_prefix k t a r) \<and> capacity (push_prefix k t a r) = capacity r"
  by (simp add: push_prefix_def fold_exec_shape)

lemma writer_ok_step:
  assumes ok: "writer_ok init w" and step: "wstep w w'"
  shows "writer_ok init w' \<and> capacity (ring w') = capacity (ring w)"
  using step
proof (cases rule: wstep.cases)
  case (store st rest)
  with ok obtain r0 t a k where p: "in_push init w r0 t a k" by (auto simp: writer_ok_def)
  note st = in_push_store [OF p store(2)]
  have k: "Suc k \<le> 12" and r0: "ring_shape r0" "a \<in> set (pushed w)" "datas_ok init r0 (pushed w)"
    using p by (simp_all add: in_push_def)
  have shape: "ring_shape (ring w)" using ok by (simp add: writer_ok_def)
  have "datas_ok init (exec_store st (ring w)) (pushed w)"
    unfolding st(2) using r0 k push_prefix_shape [OF r0(1)] by (intro datas_ok_prefix) auto
  moreover have "rest = [] \<or> in_push init w' r0 t a (Suc k)"
    using p st store(1) k by (cases "Suc k = 12") (simp_all add: in_push_def)
  moreover have "length (bump st (gens w)) = capacity (ring w) \<and>
      (\<forall>i < capacity (ring w). word_of_nat (bump st (gens w) ! i) = seq (poses (exec_store st (ring w)) ! i))"
    using ok by (intro bump_ok) (auto simp: writer_ok_def)
  ultimately show ?thesis
    using exec_store_shape [OF shape, of st] store(1) by (auto simp: writer_ok_def)
next
  case (begin_push t a)
  have "datas_ok init (ring w) (a # pushed w)" using ok by (auto simp: writer_ok_def datas_ok_def)
  then have "in_push init w' (ring w) t a 0"
    using ok begin_push by (simp add: in_push_def writer_ok_def)
  then show ?thesis
    using ok begin_push(1) \<open>datas_ok init (ring w) (a # pushed w)\<close> by (auto simp: writer_ok_def)
qed (use ok in \<open>auto simp: writer_ok_def\<close>)

text \<open>What a reader of slot \<open>i\<close> can see of it.\<close>

definition slot_stable :: "nat \<Rightarrow> writer \<Rightarrow> bool" where
  "slot_stable i w \<longleftrightarrow> seq (poses (ring w) ! i) AND 1 = 0"

definition slot_val :: "nat \<Rightarrow> writer \<Rightarrow> int \<times> real list" where
  "slot_val i w = (stamps (ring w) ! i, data (poses (ring w) ! i))"

lemma rank_mono_slot: "wstep w w' \<Longrightarrow> gens w ! i \<le> gens w' ! i"
proof (erule wstepE)
  fix st rest assume "w' = w\<lparr>ring := exec_store st (ring w), todo := rest, gens := bump st (gens w)\<rparr>"
  moreover have "g ! i \<le> bump st g ! i" for g
  proof (cases st)
    case (StoreSeq j q)
    then show ?thesis by (cases "j < length g"; cases "j = i") (simp_all add: list_update_beyond)
  qed simp_all
  ultimately show ?thesis by simp
qed simp_all

lemma payload_frame:
  assumes "st \<in> set (payload_stores t a r0)" "i \<noteq> phys r0 (head r0)"
  shows "poses (exec_store st r) ! i = poses r ! i" "stamps (exec_store st r) ! i = stamps r ! i"
  using assms by (auto simp: payload_stores_def store_stamp_def store_word_def)

lemma slot_frame:
  assumes ok: "writer_ok init w" "i < capacity (ring w)" and step: "wstep w w'"
    and st: "slot_stable i w" and same: "gens w' ! i = gens w ! i"
  shows "slot_stable i w' \<and> slot_val i w' = slot_val i w"
  using step
proof (cases rule: wstep.cases)
  case (store st rest)
  with ok obtain r0 t a k where p: "in_push init w r0 t a k" by (auto simp: writer_ok_def)
  note s = in_push_store [OF p store(2)]
  have k: "k < 12" "ring_shape r0" "ring w = push_prefix k t a r0" using p by (simp_all add: in_push_def)
  have len: "length (gens w) = capacity (ring w)" "length (poses (ring w)) = capacity (ring w)"
    using ok by (simp_all add: writer_ok_def capacity_def)
  have ring: "ring w' = exec_store st (ring w)" using store(1) by simp
  show ?thesis
  proof (cases "\<exists>j q. st = StoreSeq j q")
    case True
    then obtain j q where q: "st = StoreSeq j q" by blast
    show ?thesis
    proof (cases "j = i")
      case True
      with same store(1) q len ok(2) have "unat (q - word_of_nat (gens w ! i)) = 0" by simp
      then have "q = word_of_nat (gens w ! i)" by (simp add: unat_eq_zero)
      then have "q = seq (poses (ring w) ! i)" using ok by (simp add: writer_ok_def)
      then show ?thesis
        using st True q len ok(2) by (simp add: slot_stable_def slot_val_def ring store_seq_def)
    next
      case False
      then show ?thesis using st q by (simp add: slot_stable_def slot_val_def ring store_seq_def)
    qed
  next
    case False
    then have "k \<noteq> 0" "k \<noteq> 9" using s(1) by (metis push_stores_late(4), metis push_stores_late(3))
    then consider "0 < k" "k < 9" | "k = 10" | "k = 11" using k(1) by linarith
    then show ?thesis
    proof cases
      case 1
      then have m: "st \<in> set (payload_stores t a r0)" using push_stores_mid s(1) by simp
      have "i \<noteq> phys r0 (head r0)"
        using st push_prefix_odd [OF k(2), of k] 1 k(3) by (auto simp: slot_stable_def push_odd_def odd_not_stable)
      then show ?thesis using st payload_frame [OF m] by (simp add: slot_stable_def slot_val_def ring)
    next
      case 2
      then show ?thesis
        using st s(1) by (simp add: slot_stable_def slot_val_def ring push_stores_late store_head_def)
    next
      case 3
      then show ?thesis
        using st s(1) by (simp add: slot_stable_def slot_val_def ring push_stores_late store_heartbeat_def)
    qed
  qed
qed (use st in \<open>simp_all add: slot_stable_def slot_val_def\<close>)

interpretation slot: versioned "\<lambda>w. writer_ok init w \<and> i < capacity (ring w)" wstep "\<lambda>w. gens w ! i"
    "slot_stable i" "slot_val i" for init i
  by unfold_locales (use writer_ok_step rank_mono_slot slot_frame in auto)

subsection \<open>The reader\<close>

text \<open>One attempt of \<open>read_slot\<close> during a run of the writer: the time of the first sequence load, the
  times of the seven payload loads, the time of the second sequence load.\<close>

type_synonym attempt = "nat \<times> nat list \<times> nat"

definition in_order :: "attempt \<Rightarrow> bool" where
  "in_order m = (case m of (t0, us, t1) \<Rightarrow> length us = 7 \<and> (\<forall>u \<in> set us. t0 \<le> u \<and> u \<le> t1) \<and> t0 \<le> t1)"

definition observe :: "(nat \<Rightarrow> writer) \<Rightarrow> nat \<Rightarrow> attempt \<Rightarrow> slot_obs" where
  "observe run i m = (case m of (t0, us, t1) \<Rightarrow>
     (seq (poses (ring (run t0)) ! i),
      map (\<lambda>(k, u). data (poses (ring (run u)) ! i) ! k) (enumerate 0 us),
      seq (poses (ring (run t1)) ! i)))"

lemma read_slot_loop_Some:
  "read_slot_loop m obs = Some bits \<Longrightarrow> m \<le> SEQ_RETRY_LIMIT \<Longrightarrow>
     \<exists>n < SEQ_RETRY_LIMIT. \<exists>s. obs n = (s, bits, s) \<and> s AND 1 = 0"
proof (induction m)
  case 0
  then show ?case by simp
next
  case (Suc m)
  obtain s1 b s2 where o: "obs (SEQ_RETRY_LIMIT - Suc m) = (s1, b, s2)" by (cases "obs (SEQ_RETRY_LIMIT - Suc m)")
  show ?case
  proof (cases "s1 AND 1 = 0 \<and> s2 = s1")
    case True
    with o Suc.prems have "obs (SEQ_RETRY_LIMIT - Suc m) = (s1, bits, s1)" by simp
    moreover have "SEQ_RETRY_LIMIT - Suc m < SEQ_RETRY_LIMIT" using Suc.prems by simp
    ultimately show ?thesis using True by blast
  next
    case False
    with o Suc show ?thesis by (auto split: if_splits)
  qed
qed

lemma same_seq_same_gen:
  assumes "(word_of_nat a :: u32) = word_of_nat b" "a \<le> b" "b < a + 2 ^ 32"
  shows "a = b"
proof -
  have "a mod 2 ^ LENGTH(32) = b mod 2 ^ LENGTH(32)"
    using arg_cong [OF assms(1), of unat] by (simp only: unat_of_nat)
  then show ?thesis using assms(2,3) by (intro mod_window_inj [of a "2 ^ LENGTH(32)" b]) simp_all
qed

lemma enumerate_words:
  assumes "length us = length ws" "\<forall>u \<in> set us. f u = ws"
  shows "map (\<lambda>(k, u). f u ! k) (enumerate 0 us) = ws"
  using assms by (intro nth_equalityI) (auto simp: nth_enumerate_eq)

subsection \<open>Properties\<close>

text \<open>C9: no torn reads. However a read of a slot interleaves with writers that publish, die in the
  middle of a push and are replaced, a pose it returns is the content the slot had, complete and
  stable, at the instant of one of its first sequence loads, and that content is an initial one or
  a pose that some push published whole. (The 32-bit sequence number must not come round during
  one attempt, which takes \<open>2 ^ 31\<close> pushes to the slot.)\<close>

theorem no_torn_read:
  assumes run: "writer_ok init (run 0)" "\<forall>n. wstep (run n) (run (Suc n))" "i < capacity (ring (run 0))"
    and order: "\<forall>n < SEQ_RETRY_LIMIT. in_order (tm n)"
    and wrap: "\<forall>n < SEQ_RETRY_LIMIT. gens (run (snd (snd (tm n)))) ! i < gens (run (fst (tm n))) ! i + 2 ^ 32"
    and got: "read_slot_obs e (\<lambda>n. observe run i (tm n)) = Inr p"
  shows "\<exists>n < SEQ_RETRY_LIMIT. let w = run (fst (tm n)) in
     slot_stable i w \<and> p = from_bits (data (poses (ring w) ! i)) \<and> p \<in> from_bits ` init \<union> set (pushed w)"
proof -
  obtain bits where bits: "read_slot_loop SEQ_RETRY_LIMIT (\<lambda>n. observe run i (tm n)) = Some bits"
    "p = from_bits bits" using got by (auto simp: read_slot_obs_def split: option.splits)
  obtain n s where n: "n < SEQ_RETRY_LIMIT" "observe run i (tm n) = (s, bits, s)" "s AND 1 = 0"
    using read_slot_loop_Some [OF bits(1)] by auto
  obtain t0 us t1 where m: "tm n = (t0, us, t1)" by (cases "tm n")
  have ord: "length us = 7" "\<forall>u \<in> set us. t0 \<le> u \<and> u \<le> t1" "t0 \<le> t1"
    using order n(1) m by (auto simp: in_order_def)
  have start: "writer_ok init (run 0) \<and> i < capacity (ring (run 0))" using run by simp
  note ok = slot.ok_run [OF start run(2)]
  have seqs: "seq (poses (ring (run t0)) ! i) = s" "seq (poses (ring (run t1)) ! i) = s"
    using n(2) m by (simp_all add: observe_def)
  have g: "word_of_nat (gens (run k) ! i) = seq (poses (ring (run k)) ! i)" for k
    using ok [of k] by (simp add: writer_ok_def)
  have "gens (run t1) ! i = gens (run t0) ! i"
  proof (rule same_seq_same_gen [symmetric])
    show "(word_of_nat (gens (run t0) ! i) :: u32) = word_of_nat (gens (run t1) ! i)" using g seqs by simp
    show "gens (run t0) ! i \<le> gens (run t1) ! i" using slot.rank_run [OF start run(2) ord(3)] .
    show "gens (run t1) ! i < gens (run t0) ! i + 2 ^ 32" using wrap n(1) m by fastforce
  qed
  moreover have st: "slot_stable i (run t0)" using n(3) seqs by (simp add: slot_stable_def)
  ultimately have same: "slot_val i (run u) = slot_val i (run t0)" if "u \<in> set us" for u
    using slot.snapshot [OF start run(2)] ord that by blast
  define ws where "ws = data (poses (ring (run t0)) ! i)"
  have shape: "ring_shape (ring (run t0))" "i < length (poses (ring (run t0)))"
    using ok [of t0] by (simp_all add: writer_ok_def capacity_def)
  then have "length ws = 7" unfolding ws_def ring_shape_def by (meson nth_mem)
  moreover have "\<forall>u \<in> set us. data (poses (ring (run u)) ! i) = ws"
    using same by (auto simp: slot_val_def ws_def)
  ultimately have "map (\<lambda>(k, u). data (poses (ring (run u)) ! i) ! k) (enumerate 0 us) = ws"
    using ord(1) by (intro enumerate_words) simp_all
  then have "bits = ws" using n(2) m by (simp add: observe_def)
  moreover have "ws \<in> init \<union> to_bits ` set (pushed (run t0))"
    using ok [of t0] st by (auto simp: writer_ok_def datas_ok_def slot_stable_def ws_def)
  ultimately show ?thesis
    using n(1) m st bits(2) by (intro exI [of _ n]) (auto simp: Let_def ws_def)
qed

text \<open>A writer that has just mapped a fresh ring and has not published yet.\<close>

definition fresh_writer :: writer where
  "fresh_writer = \<lparr>ring = ring_new 3 4, todo = [], gens = replicate 4 0, pushed = []\<rparr>"

lemma fresh_writer_ok: "writer_ok {replicate 7 0} fresh_writer"
proof -
  have "ring_shape (ring_new 3 4)" using ring_new_ok [of 4 3] by (simp add: ring_ok_def)
  moreover have "poses (ring_new 3 4) ! i = pose_slot_new" if "i < 4" for i
    using that by (simp add: ring_new_def)
  ultimately show ?thesis
    by (simp add: writer_ok_def fresh_writer_def datas_ok_def) (simp add: pose_slot_new_def)
qed

theorem no_torn_read_witness:
  "\<exists>p. read_slot_obs 3 (\<lambda>n. observe (\<lambda>_. fresh_writer) 2 (0, [0, 0, 0, 0, 0, 0, 0], 0)) = Inr p \<and>
     p \<in> from_bits ` {replicate 7 0}"
proof -
  let ?m = "(0, [0, 0, 0, 0, 0, 0, 0], 0) :: attempt"
  have "seq (poses (ring fresh_writer) ! 2) = 0"
    by (simp add: fresh_writer_def ring_new_def) (simp add: pose_slot_new_def)
  then have "\<exists>p. read_slot_obs 3 (\<lambda>n. observe (\<lambda>_. fresh_writer) 2 ?m) = Inr p"
    by (simp add: read_slot_obs_def observe_def SEQ_RETRY_LIMIT_def numeral_eq_Suc)
  then obtain p where p: "read_slot_obs 3 (\<lambda>n. observe (\<lambda>_. fresh_writer) 2 ?m) = Inr p" ..
  have "2 < capacity (ring fresh_writer)" by (simp add: fresh_writer_def)
  from no_torn_read [where run = "\<lambda>_. fresh_writer" and tm = "\<lambda>_. ?m", OF fresh_writer_ok _ this _ _ p]
  have "p \<in> from_bits ` {replicate 7 0} \<union> set (pushed fresh_writer)"
    by (auto simp: idle in_order_def Let_def)
  with p show ?thesis by (auto simp: fresh_writer_def)
qed

end
