(* ===== verification/Arena_Layout.thy ===== *)
theory Arena_Layout
  imports Prelude
begin

text \<open>
  The geometry of the arena: \<open>tf_tree_arena/src/layout.rs\<close> (region sizes and offsets, the layout
  hash), the header constants and the packed topology word of \<open>header.rs\<close>, the header written by
  \<open>heap.rs\<close>, and the validation of a foreign header in \<open>check.rs\<close>.

  \<open>usize\<close> values are \<open>nat\<close>; \<open>compute_no_overflow\<close> states for which inputs no intermediate value
  of the code leaves 64 bits.
\<close>

subsection \<open>Regions\<close>

definition align64 :: "nat \<Rightarrow> nat" where
  "align64 n = nat ((int n + 63) AND NOT 63)"

record region =
  offset :: nat
  rsize :: nat

datatype layout_error =
    CapacityNotPowerOfTwo (bad_edge: nat) (bad_capacity: nat)
  | EdgeCountMismatch (mism_max_edges: nat) (mism_got: nat)
  | ArenaTooLarge (too_large: nat)

definition R_HEADER :: nat where "R_HEADER = 0"
definition R_FRAME_TABLE :: nat where "R_FRAME_TABLE = 1"
definition R_FRAME_HASH :: nat where "R_FRAME_HASH = 2"
definition R_TOPO :: nat where "R_TOPO = 3"
definition R_CLAIM :: nat where "R_CLAIM = 4"
definition R_PARTICIPANT :: nat where "R_PARTICIPANT = 5"
definition R_EDGE :: nat where "R_EDGE = 6"
definition R_STAMP :: nat where "R_STAMP = 7"
definition R_POSE :: nat where "R_POSE = 8"
definition R_EDGE_COUNTERS :: nat where "R_EDGE_COUNTERS = 9"
definition R_PARTICIPANT_COUNTERS :: nat where "R_PARTICIPANT_COUNTERS = 10"
definition N_REGIONS :: nat where "N_REGIONS = 11"

lemmas region_indices [simp] =
  R_HEADER_def R_FRAME_TABLE_def R_FRAME_HASH_def R_TOPO_def R_CLAIM_def R_PARTICIPANT_def
  R_EDGE_def R_STAMP_def R_POSE_def R_EDGE_COUNTERS_def R_PARTICIPANT_COUNTERS_def N_REGIONS_def

definition DEFAULT_MAX_PARTICIPANTS :: nat where "DEFAULT_MAX_PARTICIPANTS = 64"
definition FRAME_HASH_STRIDE :: nat where "FRAME_HASH_STRIDE = 8 + 4 + 4"
definition TOPO_BLOCKS :: nat where "TOPO_BLOCKS = 4"

record computed =
  regions :: "region list"
  topo_stride :: nat
  slots :: nat

text \<open>The loop of \<open>compute\<close> that turns sizes into regions at a running offset.\<close>

fun place_regions :: "nat \<Rightarrow> nat list \<Rightarrow> region list" where
  "place_regions off [] = []"
| "place_regions off (sz # szs) = \<lparr>offset = off, rsize = sz\<rparr> # place_regions (off + sz) szs"

definition region_sizes :: "nat \<Rightarrow> nat \<Rightarrow> nat \<Rightarrow> nat \<Rightarrow> nat list" where
  "region_sizes mf me mp sl =
     [320,
      align64 (mf * 64),
      align64 (next_pow2 (2 * mf) * FRAME_HASH_STRIDE),
      TOPO_BLOCKS * align64 (mf * 12),
      align64 (me * 64),
      align64 (mp * 128),
      align64 (me * 128),
      align64 (sl * 8),
      align64 (sl * 64),
      align64 (me * 128),
      align64 (mp * 128)]"

definition compute :: "nat \<Rightarrow> nat \<Rightarrow> nat \<Rightarrow> nat list \<Rightarrow> computed" where
  "compute max_frames max_edges max_parts caps =
     (let sl = sum_list caps
      in \<lparr>regions = place_regions 0 (region_sizes max_frames max_edges max_parts sl),
          topo_stride = align64 (max_frames * 12),
          slots = sl\<rparr>)"

record arena_layout =
  max_frames :: nat
  max_edges :: nat
  max_participants :: nat
  edge_capacities :: "nat list"
  computed :: computed

text \<open>The first capacity that is neither 0 nor a power of two, with its index.\<close>

fun find_bad_capacity :: "nat \<Rightarrow> nat list \<Rightarrow> (nat \<times> nat) option" where
  "find_bad_capacity e [] = None"
| "find_bad_capacity e (c # cs) =
     (if c \<noteq> 0 \<and> \<not> is_power_of_two c then Some (e, c) else find_bad_capacity (Suc e) cs)"

definition u32_max :: nat where "u32_max = 2 ^ 32 - 1"

definition total_size_of :: "computed \<Rightarrow> nat" where
  "total_size_of cp = (let last = regions cp ! (N_REGIONS - 1) in offset last + rsize last)"

definition arena_layout_new :: "nat \<Rightarrow> nat \<Rightarrow> nat list \<Rightarrow> layout_error + arena_layout" where
  "arena_layout_new mf me caps =
     (if length caps \<noteq> me then Inl (EdgeCountMismatch me (length caps))
      else case find_bad_capacity 0 caps of
        Some (e, c) \<Rightarrow> Inl (CapacityNotPowerOfTwo e c)
      | None \<Rightarrow>
          let cp = compute mf me DEFAULT_MAX_PARTICIPANTS caps; tot = total_size_of cp
          in if tot > u32_max then Inl (ArenaTooLarge tot)
             else Inr \<lparr>max_frames = mf, max_edges = me, max_participants = DEFAULT_MAX_PARTICIPANTS,
                       edge_capacities = caps, computed = cp\<rparr>)"

definition arena_layout_minimal :: arena_layout where
  "arena_layout_minimal =
     \<lparr>max_frames = 1, max_edges = 0, max_participants = DEFAULT_MAX_PARTICIPANTS,
      edge_capacities = [], computed = compute 1 0 DEFAULT_MAX_PARTICIPANTS []\<rparr>"

definition arena_layout_from_totals :: "nat \<Rightarrow> nat \<Rightarrow> nat \<Rightarrow> layout_error + arena_layout" where
  "arena_layout_from_totals mf me total_slots =
     (let cp = compute mf me DEFAULT_MAX_PARTICIPANTS [total_slots]; tot = total_size_of cp
      in if tot > u32_max then Inl (ArenaTooLarge tot)
         else Inr \<lparr>max_frames = mf, max_edges = me, max_participants = DEFAULT_MAX_PARTICIPANTS,
                   edge_capacities = [], computed = cp\<rparr>)"

definition layout_region :: "arena_layout \<Rightarrow> nat \<Rightarrow> region" where
  "layout_region l r = regions (computed l) ! r"

definition layout_total_size :: "arena_layout \<Rightarrow> nat" where
  "layout_total_size l = total_size_of (computed l)"

definition layout_stamp_slots :: "arena_layout \<Rightarrow> nat" where
  "layout_stamp_slots l = slots (computed l) mod 2 ^ 32"

definition layout_pose_slots :: "arena_layout \<Rightarrow> nat" where
  "layout_pose_slots l = slots (computed l) mod 2 ^ 32"

subsection \<open>Alignment and tiling\<close>

lemma align64_eq: "align64 n = 64 * ((n + 63) div 64)"
proof -
  have "(a :: int) AND NOT (mask 6) = push_bit 6 (drop_bit 6 a)" for a
    by (rule bit_eqI) (auto simp: bit_simps)
  then have "(int n + 63) AND NOT 63 = 64 * ((int n + 63) div 64)"
    by (simp add: mask_eq_exp_minus_1 push_bit_eq_mult drop_bit_eq_div)
  then show ?thesis by (simp add: align64_def nat_mult_distrib nat_div_distrib nat_add_distrib)
qed

lemma align64_dvd [simp]: "64 dvd align64 n"
  by (simp add: align64_eq)

lemma align64_ge: "n \<le> align64 n"
  by (simp add: align64_eq)

lemma align64_lt: "align64 n < n + 64"
  by (simp add: align64_eq)

lemma align64_id [simp]: "64 dvd n \<Longrightarrow> align64 n = n"
  by (auto simp: align64_eq)

lemma align64_0 [simp]: "align64 0 = 0"
  by (simp add: align64_eq)

lemma length_place_regions [simp]: "length (place_regions off szs) = length szs"
  by (induction szs arbitrary: off) auto

lemma place_regions_nth:
  "i < length szs \<Longrightarrow>
     place_regions off szs ! i = \<lparr>offset = off + sum_list (take i szs), rsize = szs ! i\<rparr>"
proof (induction szs arbitrary: off i)
  case Nil
  then show ?case by simp
next
  case (Cons sz szs)
  then show ?case by (cases i) auto
qed

lemma length_region_sizes [simp]: "length (region_sizes mf me mp sl) = N_REGIONS"
  by (simp add: region_sizes_def)

lemma region_sizes_aligned: "s \<in> set (region_sizes mf me mp sl) \<Longrightarrow> 64 dvd s"
  by (auto simp: region_sizes_def)

text \<open>A list of regions tiles an interval: each starts where the one before it ends.\<close>

definition tiles :: "region list \<Rightarrow> nat \<Rightarrow> bool" where
  "tiles rs tot \<longleftrightarrow>
     rs \<noteq> [] \<and> offset (hd rs) = 0 \<and>
     (\<forall>i. Suc i < length rs \<longrightarrow> offset (rs ! i) + rsize (rs ! i) = offset (rs ! Suc i)) \<and>
     offset (last rs) + rsize (last rs) = tot"

lemma place_regions_tiles:
  assumes "szs \<noteq> []"
  shows "tiles (place_regions 0 szs) (sum_list szs)"
proof -
  have ne: "place_regions 0 szs \<noteq> []" using assms by (cases szs) auto
  have l: "last (place_regions 0 szs) = place_regions 0 szs ! (length szs - 1)"
    using ne by (simp add: last_conv_nth)
  have "sum_list szs = sum_list (butlast szs @ [last szs])" using assms by simp
  also have "\<dots> = sum_list (take (length szs - 1) szs) + szs ! (length szs - 1)"
    using assms
    by (simp add: butlast_conv_take last_conv_nth del: append_butlast_last_id)
  finally have "sum_list szs = sum_list (take (length szs - 1) szs) + szs ! (length szs - 1)" .
  moreover have "offset (hd (place_regions 0 szs)) = 0" using assms by (cases szs) auto
  ultimately show ?thesis
    using ne assms
    by (auto simp: tiles_def l place_regions_nth take_Suc_conv_app_nth)
qed

lemma compute_regions_nth:
  "i < N_REGIONS \<Longrightarrow> regions (compute mf me mp caps) ! i =
     \<lparr>offset = sum_list (take i (region_sizes mf me mp (sum_list caps))),
      rsize = region_sizes mf me mp (sum_list caps) ! i\<rparr>"
  by (simp add: compute_def Let_def place_regions_nth del: region_indices)

lemma total_size_compute:
  "total_size_of (compute mf me mp caps) = sum_list (region_sizes mf me mp (sum_list caps))"
  by (simp add: total_size_of_def compute_regions_nth Let_def region_sizes_def numeral_eq_Suc)

lemma sum_list_aligned: "\<forall>s \<in> set xs. (k :: nat) dvd s \<Longrightarrow> k dvd sum_list xs"
  by (induction xs) auto

lemma compute_region_aligned:
  assumes "i < N_REGIONS"
  shows "64 dvd offset (regions (compute mf me mp caps) ! i)"
    and "64 dvd rsize (regions (compute mf me mp caps) ! i)"
proof -
  let ?szs = "region_sizes mf me mp (sum_list caps)"
  have "\<forall>s \<in> set (take i ?szs). 64 dvd s"
    using region_sizes_aligned by (auto dest: in_set_takeD)
  then show "64 dvd offset (regions (compute mf me mp caps) ! i)"
    using assms by (simp add: compute_regions_nth sum_list_aligned del: region_indices)
  have "?szs ! i \<in> set ?szs" using assms by (simp del: region_indices)
  then have "64 dvd ?szs ! i" by (rule region_sizes_aligned)
  then show "64 dvd rsize (regions (compute mf me mp caps) ! i)"
    using assms by (simp add: compute_regions_nth del: region_indices)
qed

lemma compute_tiles:
  "tiles (regions (compute mf me mp caps)) (total_size_of (compute mf me mp caps))"
proof -
  have "region_sizes mf me mp (sum_list caps) \<noteq> []" by (simp add: region_sizes_def)
  from place_regions_tiles [OF this] show ?thesis
    by (simp add: compute_def Let_def total_size_compute [unfolded compute_def Let_def])
qed

lemma tiles_end_le:
  assumes "tiles rs tot" and "i < length rs"
  shows "offset (rs ! i) + rsize (rs ! i) \<le> tot"
proof -
  have step: "\<And>k. Suc k < length rs \<Longrightarrow> offset (rs ! k) + rsize (rs ! k) = offset (rs ! Suc k)"
    using assms(1) by (simp add: tiles_def)
  have "i + d < length rs \<Longrightarrow>
      offset (rs ! i) + rsize (rs ! i) \<le> offset (rs ! (i + d)) + rsize (rs ! (i + d))" for d
  proof (induction d)
    case 0
    then show ?case by simp
  next
    case (Suc d)
    then show ?case using step [of "i + d"] by simp
  qed
  from this [of "length rs - 1 - i"] assms show ?thesis
    by (auto simp: tiles_def last_conv_nth)
qed

lemma tiles_disjoint:
  assumes "tiles rs tot" and "i < j" and "j < length rs"
  shows "offset (rs ! i) + rsize (rs ! i) \<le> offset (rs ! j)"
proof -
  have step: "\<And>k. Suc k < length rs \<Longrightarrow> offset (rs ! k) + rsize (rs ! k) = offset (rs ! Suc k)"
    using assms(1) by (simp add: tiles_def)
  have "Suc i + d < length rs \<Longrightarrow>
      offset (rs ! i) + rsize (rs ! i) \<le> offset (rs ! (Suc i + d))" for d
  proof (induction d)
    case 0
    then show ?case using step [of i] by simp
  next
    case (Suc d)
    then show ?case using step [of "Suc i + d"] by simp
  qed
  from this [of "j - Suc i"] assms show ?thesis by simp
qed

subsection \<open>The layout hash\<close>

text \<open>\<open>fnv1a_u32\<close>: fold the four little-endian bytes of \<open>v\<close> into \<open>h\<close>, wrapping in 32 bits.\<close>

fun fnv1a_bytes :: "u32 \<Rightarrow> u8 list \<Rightarrow> u32" where
  "fnv1a_bytes h [] = h"
| "fnv1a_bytes h (b # bs) = fnv1a_bytes ((h XOR ucast b) * 0x01000193) bs"

definition fnv1a_u32 :: "u32 \<Rightarrow> u32 \<Rightarrow> u32" where
  "fnv1a_u32 h v = fnv1a_bytes h (le_bytes 4 (unat v))"

fun fnv1a_words :: "u32 \<Rightarrow> u32 list \<Rightarrow> u32" where
  "fnv1a_words h [] = h"
| "fnv1a_words h (v # vs) = fnv1a_words (fnv1a_u32 h v) vs"

text \<open>\<open>size_of::<ArenaHeader>()\<close> and its alignment, pinned by \<open>header.rs\<close>'s own tests.\<close>

definition ARENA_HEADER_SIZE :: u32 where "ARENA_HEADER_SIZE = 320"
definition ARENA_HEADER_ALIGN :: u32 where "ARENA_HEADER_ALIGN = 64"

definition layout_strides :: "u32 list" where
  "layout_strides =
     [320, 64, of_nat FRAME_HASH_STRIDE, 12, of_nat TOPO_BLOCKS, 64, 128, 128, 8, 64, 128, 128]"

definition layout_hash :: u32 where
  "layout_hash =
     fnv1a_words (fnv1a_u32 (fnv1a_u32 0x811c9dc5 ARENA_HEADER_SIZE) ARENA_HEADER_ALIGN)
       layout_strides"

text \<open>Evaluated once; the code equation below lets closed examples use the value.\<close>

lemma layout_hash_num [code]: "layout_hash = 0x3D104195"
  by code_simp

subsection \<open>The packed topology word\<close>

definition pack_topo :: "u64 \<Rightarrow> u8 \<Rightarrow> u64" where
  "pack_topo generation active = push_bit 8 generation OR ucast active"

definition unpack_topo :: "u64 \<Rightarrow> u64 \<times> u8" where
  "unpack_topo word = (drop_bit 8 word, ucast (word AND 0xff))"

subsection \<open>The header and its validation\<close>

definition TF_TREE_MAGIC :: "u8 list" where
  "TF_TREE_MAGIC = [0x54, 0x46, 0x5F, 0x54, 0x52, 0x45, 0x45, 0x00]"

definition FORMAT_VERSION :: nat where "FORMAT_VERSION = 3"

text \<open>The fields of \<open>ArenaHeader\<close> that describe geometry and identity. The atomic fields (the
  topology word, the counts, the topology lock) are modelled with the components that own them.\<close>

record arena_header =
  magic :: nat
  format_version :: nat
  h_layout_hash :: u32
  arena_size :: nat
  h_max_frames :: nat
  h_max_edges :: nat
  stamp_slots :: nat
  pose_slots :: nat
  frame_table_off :: nat
  frame_hash_off :: nat
  topo_block_off :: nat
  topo_block_stride :: nat
  claim_table_off :: nat
  participant_table_off :: nat
  h_max_participants :: nat
  edge_table_off :: nat
  stamp_arena_off :: nat
  pose_arena_off :: nat
  edge_counters_off :: nat
  participant_counters_off :: nat
  creator_pid :: nat
  owner_start_time :: nat
  boot_id :: "u8 list"
  instance_uuid :: "u8 list"

definition as_u32 :: "nat \<Rightarrow> nat" where "as_u32 n = n mod 2 ^ 32"

definition write_header_at ::
  "nat \<Rightarrow> arena_layout \<Rightarrow> nat \<Rightarrow> nat \<Rightarrow> u8 list \<Rightarrow> u8 list \<Rightarrow> arena_header" where
  "write_header_at len l pid start boot uuid =
     \<lparr>magic = le_val TF_TREE_MAGIC,
      format_version = FORMAT_VERSION,
      h_layout_hash = layout_hash,
      arena_size = len,
      h_max_frames = max_frames l,
      h_max_edges = max_edges l,
      stamp_slots = layout_stamp_slots l,
      pose_slots = layout_pose_slots l,
      frame_table_off = as_u32 (offset (layout_region l R_FRAME_TABLE)),
      frame_hash_off = as_u32 (offset (layout_region l R_FRAME_HASH)),
      topo_block_off = as_u32 (offset (layout_region l R_TOPO)),
      topo_block_stride = as_u32 (topo_stride (computed l)),
      claim_table_off = as_u32 (offset (layout_region l R_CLAIM)),
      participant_table_off = as_u32 (offset (layout_region l R_PARTICIPANT)),
      h_max_participants = max_participants l,
      edge_table_off = as_u32 (offset (layout_region l R_EDGE)),
      stamp_arena_off = as_u32 (offset (layout_region l R_STAMP)),
      pose_arena_off = as_u32 (offset (layout_region l R_POSE)),
      edge_counters_off = as_u32 (offset (layout_region l R_EDGE_COUNTERS)),
      participant_counters_off = as_u32 (offset (layout_region l R_PARTICIPANT_COUNTERS)),
      creator_pid = pid,
      owner_start_time = start,
      boot_id = boot,
      instance_uuid = uuid\<rparr>"

datatype shm_error =
    ShmCreate nat | ShmTruncate nat | ShmMap nat | ShmSeal nat | ShmSealQuery nat | ShmUnsealed
  | ShmStat nat | ShmRandom nat
  | SizeMismatch nat nat
  | BadMagic
  | VersionMismatch nat nat
  | LayoutMismatch u32 u32
  | TooSmall | ParticipantTableFull | ReadWriteNeedsRendezvous
  | HeaderInconsistent

definition geometry_matches :: "arena_layout \<Rightarrow> arena_header \<Rightarrow> bool" where
  "geometry_matches implied h \<longleftrightarrow>
     layout_total_size implied = arena_size h
     \<and> as_u32 (offset (layout_region implied R_FRAME_TABLE)) = frame_table_off h
     \<and> as_u32 (offset (layout_region implied R_FRAME_HASH)) = frame_hash_off h
     \<and> as_u32 (offset (layout_region implied R_TOPO)) = topo_block_off h
     \<and> as_u32 (topo_stride (computed implied)) = topo_block_stride h
     \<and> as_u32 (offset (layout_region implied R_CLAIM)) = claim_table_off h
     \<and> as_u32 (offset (layout_region implied R_PARTICIPANT)) = participant_table_off h
     \<and> max_participants implied = h_max_participants h
     \<and> as_u32 (offset (layout_region implied R_EDGE)) = edge_table_off h
     \<and> as_u32 (offset (layout_region implied R_STAMP)) = stamp_arena_off h
     \<and> as_u32 (offset (layout_region implied R_POSE)) = pose_arena_off h
     \<and> as_u32 (offset (layout_region implied R_EDGE_COUNTERS)) = edge_counters_off h
     \<and> as_u32 (offset (layout_region implied R_PARTICIPANT_COUNTERS)) = participant_counters_off h
     \<and> stamp_slots h = pose_slots h"

definition validate_arena_header :: "arena_header \<Rightarrow> nat \<Rightarrow> shm_error + unit" where
  "validate_arena_header h len =
     (if magic h \<noteq> le_val TF_TREE_MAGIC then Inl BadMagic
      else if format_version h \<noteq> FORMAT_VERSION
        then Inl (VersionMismatch (format_version h) FORMAT_VERSION)
      else if h_layout_hash h \<noteq> layout_hash
        then Inl (LayoutMismatch (h_layout_hash h) layout_hash)
      else if arena_size h \<noteq> len then Inl (SizeMismatch len (arena_size h))
      else case arena_layout_from_totals (h_max_frames h) (h_max_edges h) (stamp_slots h) of
        Inl e \<Rightarrow> Inl HeaderInconsistent
      | Inr implied \<Rightarrow>
          if geometry_matches implied h then Inr () else Inl HeaderInconsistent)"

subsection \<open>Constructors and geometry\<close>

text \<open>The sizes stay far below \<open>2 ^ 64\<close> for every \<open>u32\<close> count and up to \<open>2 ^ 57\<close> slots, so the
  \<open>usize\<close> arithmetic of \<open>compute\<close> does not wrap and the comparison with \<open>u32::MAX\<close> that follows
  it sees the true total.\<close>

lemma compute_no_overflow:
  assumes "mf < 2 ^ 32" "me < 2 ^ 32" "mp < 2 ^ 32" "sum_list caps < 2 ^ 57"
  shows "total_size_of (compute mf me mp caps) < 2 ^ 64"
proof -
  have n: "next_pow2 (2 * mf) \<le> 2 ^ 34"
  proof (cases "mf = 0")
    case True
    have "next_pow2 0 = 1" by (simp add: next_pow2_def next_pow2_loop.simps)
    with True show ?thesis by simp
  next
    case False
    with next_pow2_lt [of "2 * mf"] assms(1) show ?thesis by simp
  qed
  have al: "align64 (mf * 64) \<le> mf * 64 + 63" "align64 (mf * 12) \<le> mf * 12 + 63"
    "align64 (next_pow2 (2 * mf) * FRAME_HASH_STRIDE) \<le> next_pow2 (2 * mf) * 16 + 63"
    "align64 (me * 64) \<le> me * 64 + 63" "align64 (me * 128) \<le> me * 128 + 63"
    "align64 (mp * 128) \<le> mp * 128 + 63" "align64 (sum_list caps * 8) \<le> sum_list caps * 8 + 63"
    "align64 (sum_list caps * 64) \<le> sum_list caps * 64 + 63"
    using align64_lt [of "mf * 64"] align64_lt [of "mf * 12"] align64_lt [of "me * 64"]
      align64_lt [of "next_pow2 (2 * mf) * 16"] align64_lt [of "me * 128"] align64_lt [of "mp * 128"]
      align64_lt [of "sum_list caps * 8"] align64_lt [of "sum_list caps * 64"]
    by (simp_all add: FRAME_HASH_STRIDE_def)
  have "total_size_of (compute mf me mp caps) =
     320 + align64 (mf * 64) + align64 (next_pow2 (2 * mf) * FRAME_HASH_STRIDE) + 4 * align64 (mf * 12) +
     align64 (me * 64) + align64 (mp * 128) + align64 (me * 128) + align64 (sum_list caps * 8) +
     align64 (sum_list caps * 64) + align64 (me * 128) + align64 (mp * 128)"
    by (simp add: total_size_compute region_sizes_def TOPO_BLOCKS_def del: align64_id)
  also have "\<dots> < 2 ^ 64" using al n assms by simp
  finally show ?thesis .
qed

lemma arena_layout_new_Inr:
  "arena_layout_new mf me caps = Inr l \<longleftrightarrow>
     length caps = me \<and> find_bad_capacity 0 caps = None \<and>
     l = \<lparr>max_frames = mf, max_edges = me, max_participants = DEFAULT_MAX_PARTICIPANTS,
          edge_capacities = caps, computed = compute mf me DEFAULT_MAX_PARTICIPANTS caps\<rparr> \<and>
     layout_total_size l \<le> u32_max"
  by (auto simp: arena_layout_new_def Let_def layout_total_size_def split: option.splits)

lemma arena_layout_from_totals_Inr:
  "arena_layout_from_totals mf me sl = Inr l \<longleftrightarrow>
     l = \<lparr>max_frames = mf, max_edges = me, max_participants = DEFAULT_MAX_PARTICIPANTS,
          edge_capacities = [], computed = compute mf me DEFAULT_MAX_PARTICIPANTS [sl]\<rparr> \<and>
     total_size_of (compute mf me DEFAULT_MAX_PARTICIPANTS [sl]) \<le> u32_max"
  by (auto simp: arena_layout_from_totals_def Let_def)

lemma find_bad_capacity_None:
  "find_bad_capacity e caps = None \<longleftrightarrow> (\<forall>c \<in> set caps. c = 0 \<or> is_power_of_two c)"
  by (induction caps arbitrary: e) auto

lemma find_bad_capacity_Some:
  "find_bad_capacity e caps = Some (k, c) \<Longrightarrow>
     e \<le> k \<and> k - e < length caps \<and> caps ! (k - e) = c \<and> c \<noteq> 0 \<and> \<not> is_power_of_two c"
proof (induction caps arbitrary: e)
  case Nil
  then show ?case by simp
next
  case (Cons d caps)
  show ?case
  proof (cases "d \<noteq> 0 \<and> \<not> is_power_of_two d")
    case True
    with Cons.prems show ?thesis by auto
  next
    case False
    with Cons have "Suc e \<le> k \<and> k - Suc e < length caps \<and> caps ! (k - Suc e) = c \<and> c \<noteq> 0 \<and>
      \<not> is_power_of_two c" by auto
    then show ?thesis by (auto simp: nth_Cons' Suc_le_eq)
  qed
qed

lemma compute_slots_le:
  "slots (compute mf me mp caps) * 8 \<le> total_size_of (compute mf me mp caps)"
proof -
  have "align64 (sum_list caps * 8) \<le> sum_list (region_sizes mf me mp (sum_list caps))"
    by (simp add: region_sizes_def)
  then show ?thesis
    using align64_ge [of "sum_list caps * 8"]
    by (simp add: total_size_compute) (simp add: compute_def Let_def)
qed

lemma compute_sum: "compute mf me mp [sum_list caps] = compute mf me mp caps"
  by (simp add: compute_def)

lemma slots_compute [simp]: "slots (compute mf me mp caps) = sum_list caps"
  by (simp add: compute_def Let_def)

lemma topo_stride_compute [simp]: "topo_stride (compute mf me mp caps) = align64 (mf * 12)"
  by (simp add: compute_def Let_def)

lemma compute_end_le:
  "i < N_REGIONS \<Longrightarrow> offset (regions (compute mf me mp caps) ! i) +
     rsize (regions (compute mf me mp caps) ! i) \<le> total_size_of (compute mf me mp caps)"
  using tiles_end_le [OF compute_tiles] by (simp add: compute_def Let_def del: region_indices)

lemma as_u32_id [simp]: "n \<le> u32_max \<Longrightarrow> as_u32 n = n"
  by (simp add: as_u32_def u32_max_def)

lemma unpack_pack_topo: "unpack_topo (pack_topo g a) = (g AND mask 56, a)"
proof -
  have "drop_bit 8 (push_bit 8 g OR ucast a) = g AND mask 56"
    by (rule bit_word_eqI) (auto simp: bit_simps dest: bit_imp_le_length)
  moreover have "(ucast ((push_bit 8 g OR ucast a) AND 0xff) :: u8) = a"
  proof -
    have m: "(0xff :: u64) = mask 8" by (simp add: mask_eq_exp_minus_1)
    show ?thesis unfolding m by (intro bit_word_eqI) (auto simp: bit_simps)
  qed
  ultimately show ?thesis by (simp add: unpack_topo_def pack_topo_def)
qed

text \<open>Where an \<open>ArenaView\<close> will form slices: every table of the header starts 64-byte aligned,
  holds as many records as the header's counts say, and ends before the next one; the last one
  ends inside the mapping.\<close>

definition header_well_placed :: "arena_header \<Rightarrow> nat \<Rightarrow> bool" where
  "header_well_placed h len \<longleftrightarrow>
     arena_size h = len
     \<and> 320 \<le> frame_table_off h
     \<and> frame_table_off h + h_max_frames h * 64 \<le> frame_hash_off h
     \<and> frame_hash_off h + next_pow2 (2 * h_max_frames h) * FRAME_HASH_STRIDE \<le> topo_block_off h
     \<and> h_max_frames h * 12 \<le> topo_block_stride h
     \<and> topo_block_off h + TOPO_BLOCKS * topo_block_stride h \<le> claim_table_off h
     \<and> claim_table_off h + h_max_edges h * 64 \<le> participant_table_off h
     \<and> participant_table_off h + h_max_participants h * 128 \<le> edge_table_off h
     \<and> edge_table_off h + h_max_edges h * 128 \<le> stamp_arena_off h
     \<and> stamp_arena_off h + stamp_slots h * 8 \<le> pose_arena_off h
     \<and> pose_arena_off h + pose_slots h * 64 \<le> edge_counters_off h
     \<and> edge_counters_off h + h_max_edges h * 128 \<le> participant_counters_off h
     \<and> participant_counters_off h + h_max_participants h * 128 \<le> len
     \<and> (\<forall>off \<in> {frame_table_off h, frame_hash_off h, topo_block_off h, topo_block_stride h,
                claim_table_off h, participant_table_off h, edge_table_off h, stamp_arena_off h,
                pose_arena_off h, edge_counters_off h, participant_counters_off h}. 64 dvd off)"

text \<open>The offsets of the regions of \<open>compute\<close>, one after the other.\<close>

lemma compute_offsets:
  fixes mf me mp caps
  defines "rs \<equiv> regions (compute mf me mp caps)" and "sl \<equiv> sum_list caps"
  shows "offset (rs ! 1) = 320"
    and "offset (rs ! 2) = offset (rs ! 1) + align64 (mf * 64)"
    and "offset (rs ! 3) = offset (rs ! 2) + align64 (next_pow2 (2 * mf) * FRAME_HASH_STRIDE)"
    and "offset (rs ! 4) = offset (rs ! 3) + TOPO_BLOCKS * align64 (mf * 12)"
    and "offset (rs ! 5) = offset (rs ! 4) + align64 (me * 64)"
    and "offset (rs ! 6) = offset (rs ! 5) + align64 (mp * 128)"
    and "offset (rs ! 7) = offset (rs ! 6) + align64 (me * 128)"
    and "offset (rs ! 8) = offset (rs ! 7) + align64 (sl * 8)"
    and "offset (rs ! 9) = offset (rs ! 8) + align64 (sl * 64)"
    and "offset (rs ! 10) = offset (rs ! 9) + align64 (me * 128)"
    and "total_size_of (compute mf me mp caps) = offset (rs ! 10) + align64 (mp * 128)"
  unfolding rs_def sl_def
  by (simp_all add: compute_regions_nth total_size_compute region_sizes_def numeral_eq_Suc
      del: align64_id)

lemma validate_arena_header_Inr:
  assumes "validate_arena_header h len = Inr ()"
  obtains cp where "cp = compute (h_max_frames h) (h_max_edges h) DEFAULT_MAX_PARTICIPANTS [stamp_slots h]"
    and "total_size_of cp \<le> u32_max" and "total_size_of cp = arena_size h" and "arena_size h = len"
    and "geometry_matches \<lparr>max_frames = h_max_frames h, max_edges = h_max_edges h,
           max_participants = DEFAULT_MAX_PARTICIPANTS, edge_capacities = [], computed = cp\<rparr> h"
  using assms
  by (auto simp: validate_arena_header_def arena_layout_from_totals_def Let_def
      geometry_matches_def layout_total_size_def split: if_splits)

subsection \<open>Properties\<close>


text \<open>A tiny layout, for the witnesses: 8 frames and 4 edges, the fixture of \<open>layout.rs\<close>'s tests.\<close>

lemma layout_fixture: "\<exists>l. arena_layout_new 8 4 [16, 0, 4, 64] = Inr l \<and> layout_total_size l = 25344 \<and>
     validate_arena_header (write_header_at 25344 l 7 9 [] []) 25344 = Inr ()"
proof -
  have "case arena_layout_new 8 4 [16, 0, 4, 64] of Inl e \<Rightarrow> False
    | Inr l \<Rightarrow> layout_total_size l = 25344 \<and>
        validate_arena_header (write_header_at 25344 l 7 9 [] []) 25344 = Inr ()"
    by code_simp
  then show ?thesis by (auto split: sum.splits)
qed


text \<open>The structural hash of this build is the value the repository's snapshot test pins.\<close>

theorem layout_hash_value: "layout_hash = 0x3D104195"
  by (rule layout_hash_num)

lemma valid_header_places:
  assumes "validate_arena_header h len = Inr ()"
  shows "header_well_placed h len"
proof -
  obtain cp where cp: "cp = compute (h_max_frames h) (h_max_edges h) DEFAULT_MAX_PARTICIPANTS [stamp_slots h]"
    and fits: "total_size_of cp \<le> u32_max" and len: "total_size_of cp = arena_size h" "arena_size h = len"
    and geo: "geometry_matches \<lparr>max_frames = h_max_frames h, max_edges = h_max_edges h,
           max_participants = DEFAULT_MAX_PARTICIPANTS, edge_capacities = [], computed = cp\<rparr> h"
    using assms by (rule validate_arena_header_Inr)
  note offs = compute_offsets [of "h_max_frames h" "h_max_edges h" DEFAULT_MAX_PARTICIPANTS
      "[stamp_slots h]", folded cp]
  have small: "offset (regions cp ! i) \<le> u32_max" if "i < N_REGIONS" for i
    using compute_end_le [OF that, of "h_max_frames h" "h_max_edges h" DEFAULT_MAX_PARTICIPANTS
        "[stamp_slots h]"] fits unfolding cp by linarith
  have stride: "topo_stride cp \<le> u32_max"
    using small [of 4] offs(4) by (simp add: cp TOPO_BLOCKS_def)
  have h: "frame_table_off h = offset (regions cp ! 1)" "frame_hash_off h = offset (regions cp ! 2)"
    "topo_block_off h = offset (regions cp ! 3)" "topo_block_stride h = topo_stride cp"
    "claim_table_off h = offset (regions cp ! 4)" "participant_table_off h = offset (regions cp ! 5)"
    "edge_table_off h = offset (regions cp ! 6)" "stamp_arena_off h = offset (regions cp ! 7)"
    "pose_arena_off h = offset (regions cp ! 8)" "edge_counters_off h = offset (regions cp ! 9)"
    "participant_counters_off h = offset (regions cp ! 10)"
    "h_max_participants h = DEFAULT_MAX_PARTICIPANTS" "pose_slots h = stamp_slots h"
    using geo small stride by (auto simp: geometry_matches_def layout_region_def)
  have al: "64 dvd offset (regions cp ! i)" if "i < N_REGIONS" for i
    using compute_region_aligned [OF that] by (simp add: cp)
  have "64 dvd topo_stride cp" by (simp add: cp)
  with al show ?thesis
    unfolding header_well_placed_def h
    using offs len align64_ge by (auto simp: cp)
qed

text \<open>C5: a header that passes \<open>validate_arena_header\<close> places every table inside the mapping,
  aligned, without overlap and large enough for the record counts the header claims.\<close>

theorem validated_header_well_placed:
  assumes "validate_arena_header h len = Inr ()"
  shows "header_well_placed h len"
  using assms by (rule valid_header_places)

theorem validated_header_well_placed_witness:
  "\<exists>h. validate_arena_header h 25344 = Inr () \<and> header_well_placed h 25344"
  using layout_fixture validated_header_well_placed by blast



end
