(* ===== verification/Topology.thy ===== *)
theory Topology
  imports Core_Types Arena_Layout
begin

text \<open>
  The frame tree of \<open>tf_tree_core/src/topology.rs\<close>: four copies of the parent, edge and depth
  arrays and one packed word that names the published copy and its generation. A mutation is
  written to the next copy and published by the single store of that word.

  \<open>set_parent\<close> is the list of its stores, so a writer that dies leaves a prefix of them. Readers
  are in the theory \<open>Topo_Read\<close>, the lock that serialises writers in \<open>Topo_Lock\<close>.
\<close>

subsection \<open>State\<close>

definition TOPO_RETRY_LIMIT :: nat where "TOPO_RETRY_LIMIT = 64"

record block =
  parent :: "nat list"
  edge_of_child :: "nat list"
  depth :: "nat list"

record topology_view =
  topo :: u64
  blocks :: "block list"
  tv_max_frames :: nat

definition active_block :: "topology_view \<Rightarrow> nat" where
  "active_block v = unat (snd (unpack_topo (topo v))) mod TOPO_BLOCKS"

definition next_block :: "topology_view \<Rightarrow> nat" where
  "next_block v = (active_block v + 1) mod TOPO_BLOCKS"

definition generation :: "topology_view \<Rightarrow> u64" where
  "generation v = fst (unpack_topo (topo v))"

definition stable_generation :: "topology_view \<Rightarrow> u64" where
  "stable_generation v = generation v"

text \<open>The copy that readers see.\<close>

definition published :: "topology_view \<Rightarrow> block" where
  "published v = blocks v ! active_block v"

subsection \<open>Cycle check and depths\<close>

fun creates_cycle_loop :: "nat \<Rightarrow> nat list \<Rightarrow> nat \<Rightarrow> nat \<Rightarrow> bool" where
  "creates_cycle_loop 0 par child cur = True"
| "creates_cycle_loop (Suc n) par child cur =
     (if cur = 0 then False
      else if cur = child then True
      else creates_cycle_loop n par child (par ! cur))"

definition creates_cycle :: "nat list \<Rightarrow> nat \<Rightarrow> nat \<Rightarrow> bool" where
  "creates_cycle par child mf = creates_cycle_loop mf par child (par ! child)"

definition sat_add_u16 :: "nat \<Rightarrow> nat \<Rightarrow> nat" where
  "sat_add_u16 a b = min (a + b) (2 ^ 16 - 1)"

text \<open>The inner loop of \<open>recompute_depths\<close>; the first argument is the number of steps left.\<close>

fun depth_loop :: "nat \<Rightarrow> nat list \<Rightarrow> nat \<Rightarrow> nat \<Rightarrow> nat" where
  "depth_loop n par cur d =
     (if cur \<noteq> 0 \<and> n > 0 then depth_loop (n - 1) par (par ! cur) (sat_add_u16 d 1) else d)"

declare depth_loop.simps [simp del]

subsection \<open>Mutation\<close>

datatype topo_store =
    StoreParent nat nat nat
  | StoreEdge nat nat nat
  | RecomputeDepth nat nat
  | StoreTopo u64

definition upd_block :: "nat \<Rightarrow> (block \<Rightarrow> block) \<Rightarrow> topology_view \<Rightarrow> topology_view" where
  "upd_block b f v = v\<lparr>blocks := (blocks v)[b := f (blocks v ! b)]\<rparr>"

fun exec_topo :: "topo_store \<Rightarrow> topology_view \<Rightarrow> topology_view" where
  "exec_topo (StoreParent b f x) v = upd_block b (\<lambda>k. k\<lparr>parent := (parent k)[f := x]\<rparr>) v"
| "exec_topo (StoreEdge b f x) v = upd_block b (\<lambda>k. k\<lparr>edge_of_child := (edge_of_child k)[f := x]\<rparr>) v"
| "exec_topo (RecomputeDepth b f) v =
     upd_block b (\<lambda>k. k\<lparr>depth := (depth k)[f := depth_loop (tv_max_frames v) (parent k) (parent k ! f) 0]\<rparr>) v"
| "exec_topo (StoreTopo w) v = v\<lparr>topo := w\<rparr>"

text \<open>Copying the active block over the scratch one, and the edit.\<close>

definition copy_stores :: "topology_view \<Rightarrow> topo_store list" where
  "copy_stores v =
     concat (map (\<lambda>f. [StoreParent (next_block v) f (parent (published v) ! f),
                       StoreEdge (next_block v) f (edge_of_child (published v) ! f)])
             [0..<tv_max_frames v])"

definition attach_stores :: "nat \<Rightarrow> nat \<Rightarrow> nat \<Rightarrow> topology_view \<Rightarrow> topo_store list" where
  "attach_stores c par edge v = [StoreParent (next_block v) c par, StoreEdge (next_block v) c edge]"

definition depth_stores :: "topology_view \<Rightarrow> topo_store list" where
  "depth_stores v = map (RecomputeDepth (next_block v)) [1..<tv_max_frames v]"

definition publish_store :: "topology_view \<Rightarrow> topo_store" where
  "publish_store v = StoreTopo (pack_topo (generation v + 1) (word_of_nat (next_block v)))"

definition run_stores :: "topo_store list \<Rightarrow> topology_view \<Rightarrow> topology_view" where
  "run_stores sts v = fold exec_topo sts v"

definition set_parent :: "frame_id \<Rightarrow> nat \<Rightarrow> nat \<Rightarrow> topology_view \<Rightarrow> (topology_error + unit) \<times> topology_view" where
  "set_parent c par edge v =
     (if c \<ge> tv_max_frames v then (Inl (TopologyUnknownFrame c), v)
      else if par \<ge> tv_max_frames v then (Inl (TopologyUnknownFrame par), v)
      else
        let v1 = run_stores (copy_stores v @ attach_stores c par edge v) v
        in if creates_cycle (parent (blocks v1 ! next_block v)) c (tv_max_frames v)
           then (Inl (WouldCreateCycle c), v1)
           else (Inr (), run_stores (depth_stores v @ [publish_store v]) v1))"

text \<open>All the stores of a mutation that goes through.\<close>

definition set_parent_stores :: "frame_id \<Rightarrow> nat \<Rightarrow> nat \<Rightarrow> topology_view \<Rightarrow> topo_store list" where
  "set_parent_stores c par edge v =
     copy_stores v @ attach_stores c par edge v @ depth_stores v @ [publish_store v]"

subsection \<open>Forests\<close>

definition up :: "nat list \<Rightarrow> nat \<Rightarrow> nat \<Rightarrow> nat" where
  "up par k f = ((\<lambda>x. par ! x) ^^ k) f"

text \<open>Every frame's walk over parents ends at the reserved slot 0.\<close>

definition forest :: "nat \<Rightarrow> nat list \<Rightarrow> bool" where
  "forest mf par \<longleftrightarrow> 0 < mf \<and> length par = mf \<and> par ! 0 = 0 \<and> (\<forall>f \<in> set [0..<mf]. par ! f < mf) \<and>
     (\<forall>f \<in> set [0..<mf]. \<exists>k \<in> set [0..<mf]. up par k f = 0)"

lemma up_0 [simp]: "up par 0 f = f"
  by (simp add: up_def)

lemma up_Suc: "up par (Suc k) f = up par k (par ! f)"
  by (simp add: up_def funpow_swap1)

lemma up_Suc': "up par (Suc k) f = par ! (up par k f)"
  by (simp add: up_def)

lemma up_add: "up par (j + k) f = up par j (up par k f)"
  by (simp add: up_def funpow_add)

lemma forest_iff:
  "forest mf par \<longleftrightarrow> 0 < mf \<and> length par = mf \<and> par ! 0 = 0 \<and> (\<forall>f < mf. par ! f < mf) \<and>
     (\<forall>f < mf. \<exists>k < mf. up par k f = 0)"
proof -
  have "(\<forall>f \<in> set [0..<mf]. P f) \<longleftrightarrow> (\<forall>f < mf. P f)" "(\<exists>f \<in> set [0..<mf]. P f) \<longleftrightarrow> (\<exists>f < mf. P f)" for P
    by auto
  then show ?thesis by (simp only: forest_def)
qed

lemma forestD:
  assumes "forest mf par"
  shows "0 < mf" "length par = mf" "par ! 0 = 0" "f < mf \<Longrightarrow> par ! f < mf" "f < mf \<Longrightarrow> \<exists>k < mf. up par k f = 0"
  using assms by (auto simp: forest_iff)

lemma up_in_range:
  assumes "\<forall>f < mf. par ! f < mf" "f < mf"
  shows "up par k f < mf"
  using assms by (induction k) (auto simp: up_Suc')

lemma up_stays_0: "par ! 0 = 0 \<Longrightarrow> up par k 0 = 0"
  by (induction k) (auto simp: up_Suc')

text \<open>A walk that ends at all ends in fewer than \<open>mf\<close> steps, since it visits no frame twice.\<close>

lemma short_walk:
  assumes rng: "\<forall>f < mf. par ! f < mf" and f: "f < mf" and ends: "up par k f = 0"
  shows "\<exists>j < mf. up par j f = 0"
proof -
  define m where "m = (LEAST k. up par k f = 0)"
  have m0: "up par m f = 0" unfolding m_def using ends by (rule LeastI)
  have least: "up par j f \<noteq> 0" if "j < m" for j using that not_less_Least unfolding m_def by blast
  have "inj_on (\<lambda>i. up par i f) {..m}"
  proof (rule linorder_inj_onI)
    fix i j assume ij: "i < j" "i \<in> {..m}" "j \<in> {..m}"
    show "up par i f \<noteq> up par j f"
    proof
      assume eq: "up par i f = up par j f"
      have "up par (m - j + i) f = up par (m - j) (up par j f)" by (simp add: up_add eq)
      also have "\<dots> = up par (m - j + j) f" by (simp only: up_add)
      also have "\<dots> = 0" using ij m0 by simp
      finally have "up par (m - j + i) f = 0" .
      moreover have "j \<le> m" "m - j + i < m" using ij by simp_all
      ultimately show False using least by blast
    qed
  qed auto
  moreover have "(\<lambda>i. up par i f) ` {..m} \<subseteq> {..<mf}" using up_in_range [OF rng f] by auto
  ultimately have "card {..m} \<le> card {..<mf}" by (metis card_image card_mono finite_lessThan)
  then have "m < mf" by simp
  with m0 show ?thesis by blast
qed

text \<open>The ancestors of a frame, itself included.\<close>

definition ancestor :: "nat list \<Rightarrow> nat \<Rightarrow> nat \<Rightarrow> bool" where
  "ancestor par a f \<longleftrightarrow> (\<exists>k. up par k f = a)"

lemma ancestor_refl [simp]: "ancestor par f f"
  unfolding ancestor_def by (rule exI [of _ 0]) simp

lemma ancestor_step: "f \<noteq> a \<Longrightarrow> ancestor par a f \<longleftrightarrow> ancestor par a (par ! f)"
proof
  assume "f \<noteq> a" "ancestor par a f"
  then obtain k where k: "up par k f = a" by (auto simp: ancestor_def)
  with \<open>f \<noteq> a\<close> obtain j where "k = Suc j" by (cases k) auto
  with k show "ancestor par a (par ! f)" by (auto simp: ancestor_def up_Suc)
next
  assume "ancestor par a (par ! f)"
  then obtain k where "up par k (par ! f) = a" by (auto simp: ancestor_def)
  then have "up par (Suc k) f = a" by (simp add: up_Suc)
  then show "ancestor par a f" by (auto simp: ancestor_def)
qed

lemma not_ancestor_0: "par ! 0 = 0 \<Longrightarrow> c \<noteq> 0 \<Longrightarrow> \<not> ancestor par c 0"
  by (simp add: ancestor_def up_stays_0)

text \<open>The cycle check on the edited array decides whether the child is above its new parent in the
  unedited one.\<close>

lemma creates_cycle_loop_iff:
  assumes par: "par ! 0 = 0" "c \<noteq> 0" "c < length par"
  shows "up par k cur = 0 \<Longrightarrow> k < n \<Longrightarrow>
    creates_cycle_loop n (par[c := p]) c cur \<longleftrightarrow> ancestor par c cur"
proof (induction n arbitrary: k cur)
  case 0
  then show ?case by simp
next
  case (Suc n)
  consider "cur = 0" | "cur \<noteq> 0" "cur = c" | "cur \<noteq> 0" "cur \<noteq> c" by blast
  then show ?case
  proof cases
    case 1
    with par not_ancestor_0 show ?thesis by simp
  next
    case 2
    then show ?thesis by simp
  next
    case 3
    with Suc.prems obtain j where j: "k = Suc j" by (cases k) auto
    with Suc have "creates_cycle_loop n (par[c := p]) c (par ! cur) \<longleftrightarrow> ancestor par c (par ! cur)"
      by (auto simp: up_Suc)
    with 3 show ?thesis by (simp add: ancestor_step [of cur c])
  qed
qed

lemma creates_cycle_iff:
  assumes "forest mf par" "c \<noteq> 0" "c < mf" "p < mf"
  shows "creates_cycle (par[c := p]) c mf \<longleftrightarrow> ancestor par c p"
proof -
  obtain k where "k < mf" "up par k p = 0" using forestD(5) [OF assms(1,4)] by blast
  then show ?thesis
    using creates_cycle_loop_iff [of par c k p mf p] forestD [OF assms(1)] assms
    by (simp add: creates_cycle_def)
qed

text \<open>Attaching a frame below one that is not under it keeps the forest.\<close>

lemma up_update_avoid:
  "\<not> ancestor par c f \<Longrightarrow> up (par[c := p]) k f = up par k f"
proof (induction k arbitrary: f)
  case 0
  then show ?case by simp
next
  case (Suc k)
  then have "f \<noteq> c" by auto
  with Suc show ?case by (simp add: up_Suc ancestor_step [of f c])
qed

lemma forest_update:
  assumes "forest mf par" "c \<noteq> 0" "c < mf" "p < mf" "\<not> ancestor par c p"
  shows "forest mf (par[c := p])"
proof -
  note F = forestD [OF assms(1)]
  have rng: "\<forall>f < mf. par[c := p] ! f < mf" using F(2,4) assms(3,4) by (auto simp: nth_list_update)
  have p0: "\<exists>k. up (par[c := p]) k p = 0"
    using F(5) [OF assms(4)] up_update_avoid [OF assms(5)] by auto
  have "\<exists>k. up (par[c := p]) k f = 0" if "up par n f = 0" "f < mf" for n f
    using that
  proof (induction n arbitrary: f)
    case 0
    then show ?case by (auto intro: exI [of _ 0])
  next
    case (Suc n)
    show ?case
    proof (cases "f = c")
      case True
      obtain k where "up (par[c := p]) k p = 0" using p0 ..
      then have "up (par[c := p]) (Suc k) f = 0" using True assms(3) F(2) by (simp add: up_Suc)
      then show ?thesis ..
    next
      case False
      have "up par n (par ! f) = 0" "par ! f < mf" using Suc.prems F(4) by (simp_all add: up_Suc)
      with Suc.IH obtain k where "up (par[c := p]) k (par ! f) = 0" by blast
      with False have "up (par[c := p]) (Suc k) f = 0" by (simp add: up_Suc)
      then show ?thesis ..
    qed
  qed
  then have "\<exists>k < mf. up (par[c := p]) k f = 0" if "f < mf" for f
    using F(5) [OF that] short_walk [OF rng that] that by blast
  then show ?thesis
    using F rng assms(2) by (simp add: forest_iff)
qed

subsection \<open>Depths\<close>

definition walk_length :: "nat list \<Rightarrow> nat \<Rightarrow> nat" where
  "walk_length par f = (LEAST k. up par k f = 0)"

lemma walk_length_0 [simp]: "walk_length par 0 = 0"
  unfolding walk_length_def by (rule Least_eq_0) simp

lemma walk_length_step:
  assumes "f \<noteq> 0" "up par k f = 0"
  shows "walk_length par f = Suc (walk_length par (par ! f))"
  unfolding walk_length_def using Least_Suc [of "\<lambda>k. up par k f = 0", OF assms(2)] assms(1)
  by (simp add: up_Suc)

lemma walk_length_le: "up par k f = 0 \<Longrightarrow> walk_length par f \<le> k"
  unfolding walk_length_def by (rule Least_le)

lemma depth_loop_walk:
  "up par k cur = 0 \<Longrightarrow> k \<le> n \<Longrightarrow> d \<le> 2 ^ 16 - 1 \<Longrightarrow>
     depth_loop n par cur d = min (2 ^ 16 - 1) (d + walk_length par cur)"
proof (induction n arbitrary: k cur d)
  case 0
  then show ?case by (simp add: depth_loop.simps)
next
  case (Suc n)
  show ?case
  proof (cases "cur = 0")
    case True
    with Suc.prems show ?thesis by (simp add: depth_loop.simps)
  next
    case False
    with Suc.prems obtain j where j: "k = Suc j" by (cases k) auto
    have "depth_loop (Suc n) par cur d = depth_loop n par (par ! cur) (sat_add_u16 d 1)"
      using False by (simp add: depth_loop.simps [of "Suc n"])
    also have "\<dots> = min (2 ^ 16 - 1) (sat_add_u16 d 1 + walk_length par (par ! cur))"
      using Suc.prems j by (intro Suc.IH [of j]) (simp_all add: up_Suc sat_add_u16_def)
    also have "\<dots> = min (2 ^ 16 - 1) (d + walk_length par cur)"
      using walk_length_step [OF False Suc.prems(1)] by (simp add: sat_add_u16_def)
    finally show ?thesis .
  qed
qed

text \<open>Depth as it is meant: 0 at a root, one more than the parent's below, saturating at 16 bits.\<close>

definition depths_ok :: "nat \<Rightarrow> nat list \<Rightarrow> nat list \<Rightarrow> bool" where
  "depths_ok mf par ds \<longleftrightarrow>
     (\<forall>f \<in> set [1..<mf]. ds ! f = (if par ! f = 0 then 0 else sat_add_u16 (ds ! (par ! f)) 1))"

lemma depths_ok_loop:
  assumes F: "forest mf par" and d: "\<forall>f. 1 \<le> f \<and> f < mf \<longrightarrow> ds ! f = depth_loop mf par (par ! f) 0"
  shows "depths_ok mf par ds"
  unfolding depths_ok_def
proof
  have w: "ds ! f = min (2 ^ 16 - 1) (walk_length par (par ! f))" if "1 \<le> f" "f < mf" for f
  proof -
    obtain k where "k < mf" "up par k (par ! f) = 0" using forestD(4,5) [OF F] \<open>f < mf\<close> by blast
    then show ?thesis using d that depth_loop_walk [of par k "par ! f" mf 0] by simp
  qed
  fix f assume "f \<in> set [1..<mf]"
  then have f: "1 \<le> f" "f < mf" by auto
  show "ds ! f = (if par ! f = 0 then 0 else sat_add_u16 (ds ! (par ! f)) 1)"
  proof (cases "par ! f = 0")
    case True
    then show ?thesis using w [OF f] by simp
  next
    case False
    obtain k where "up par k (par ! f) = 0" using forestD(4,5) [OF F] f by blast
    then have "walk_length par (par ! f) = Suc (walk_length par (par ! (par ! f)))"
      using False by (intro walk_length_step)
    moreover have "ds ! (par ! f) = min (2 ^ 16 - 1) (walk_length par (par ! (par ! f)))"
      using False forestD(4) [OF F f(2)] by (intro w) auto
    ultimately show ?thesis using False w [OF f] by (simp add: sat_add_u16_def)
  qed
qed

subsection \<open>What the stores of a mutation touch\<close>

definition block_ok :: "nat \<Rightarrow> block \<Rightarrow> bool" where
  "block_ok mf b \<longleftrightarrow> length (parent b) = mf \<and> length (edge_of_child b) = mf \<and> length (depth b) = mf"

definition view_ok :: "topology_view \<Rightarrow> bool" where
  "view_ok v \<longleftrightarrow> length (blocks v) = TOPO_BLOCKS \<and> (\<forall>b \<in> set (blocks v). block_ok (tv_max_frames v) b) \<and>
     forest (tv_max_frames v) (parent (published v)) \<and>
     depths_ok (tv_max_frames v) (parent (published v)) (depth (published v))"

definition touches_only :: "nat \<Rightarrow> topology_view \<Rightarrow> topology_view \<Rightarrow> bool" where
  "touches_only b v v' \<longleftrightarrow> topo v' = topo v \<and> tv_max_frames v' = tv_max_frames v \<and>
     length (blocks v') = length (blocks v) \<and> (\<forall>j. j \<noteq> b \<longrightarrow> blocks v' ! j = blocks v ! j) \<and>
     (block_ok (tv_max_frames v) (blocks v ! b) \<longrightarrow> block_ok (tv_max_frames v) (blocks v' ! b))"

lemma touches_only_refl [simp]: "touches_only b v v"
  by (simp add: touches_only_def)

lemma touches_only_trans: "touches_only b u v \<Longrightarrow> touches_only b v w \<Longrightarrow> touches_only b u w"
  by (auto simp: touches_only_def)

fun store_block :: "topo_store \<Rightarrow> nat option" where
  "store_block (StoreParent b f x) = Some b"
| "store_block (StoreEdge b f x) = Some b"
| "store_block (RecomputeDepth b f) = Some b"
| "store_block (StoreTopo w) = None"

lemma upd_block_touches:
  assumes "\<And>k. block_ok mf k \<Longrightarrow> block_ok mf (f k)" "mf = tv_max_frames v"
  shows "touches_only b v (upd_block b f v)"
  using assms by (cases "b < length (blocks v)") (auto simp: touches_only_def upd_block_def list_update_beyond)

lemma exec_touches: "store_block st = Some b \<Longrightarrow> touches_only b v (exec_topo st v)"
  by (cases st) (auto intro!: upd_block_touches simp: block_ok_def)

lemma run_touches: "\<forall>st \<in> set sts. store_block st = Some b \<Longrightarrow> touches_only b v (run_stores sts v)"
  unfolding run_stores_def
  by (induction sts arbitrary: v) (auto intro: touches_only_trans exec_touches)

lemma blocks_lt [simp]: "active_block v < TOPO_BLOCKS" "next_block v < TOPO_BLOCKS"
  by (simp_all add: active_block_def next_block_def TOPO_BLOCKS_def)

lemma next_not_active: "next_block v \<noteq> active_block v"
proof -
  have "active_block v < 4" using blocks_lt(1) [of v] by (simp add: TOPO_BLOCKS_def)
  then show ?thesis by (auto simp: next_block_def TOPO_BLOCKS_def mod_Suc)
qed

text \<open>A view that differs only in the scratch copy reads the same and mutates the same.\<close>

lemma touches_scratch:
  assumes "touches_only (next_block v) v v'"
  shows "active_block v' = active_block v" "next_block v' = next_block v" "published v' = published v"
    "generation v' = generation v" "tv_max_frames v' = tv_max_frames v"
  using assms next_not_active [of v]
  by (auto simp: touches_only_def active_block_def next_block_def published_def generation_def)

lemma view_ok_touches:
  assumes "touches_only (next_block v) v v'" "view_ok v"
  shows "view_ok v'"
proof -
  note sc = touches_scratch [OF assms(1)]
  have "block_ok (tv_max_frames v) (blocks v' ! j)" if "j < length (blocks v')" for j
    using assms that by (cases "j = next_block v") (auto simp: touches_only_def view_ok_def)
  then show ?thesis
    using assms by (auto simp: view_ok_def sc in_set_conv_nth) (simp_all add: touches_only_def)
qed

lemma prefix_stores_scratch:
  "st \<in> set (copy_stores v @ attach_stores c p e v @ depth_stores v) \<Longrightarrow> store_block st = Some (next_block v)"
  by (auto simp: copy_stores_def attach_stores_def depth_stores_def)

subsection \<open>What a mutation does\<close>

lemma run_append [simp]: "run_stores (a @ b) v = run_stores b (run_stores a v)"
  by (simp add: run_stores_def)

lemma run_Cons [simp]: "run_stores (st # sts) v = run_stores sts (exec_topo st v)" "run_stores [] v = v"
  by (simp_all add: run_stores_def)

lemma upd_block_nth [simp]:
  "b < length (blocks v) \<Longrightarrow> blocks (upd_block b f v) ! b = f (blocks v ! b)"
  by (simp add: upd_block_def)

lemma upd_block_simps [simp]:
  "length (blocks (upd_block b f v)) = length (blocks v)" "tv_max_frames (upd_block b f v) = tv_max_frames v"
  "topo (upd_block b f v) = topo v"
  by (simp_all add: upd_block_def)

text \<open>The copy loop, \<open>n\<close> iterations in.\<close>

lemma copy_effect:
  assumes "b < length (blocks v)" "block_ok mf (blocks v ! b)" "n \<le> mf"
  shows "let k = blocks (run_stores (concat (map (\<lambda>f. [StoreParent b f (ps ! f), StoreEdge b f (es ! f)]) [0..<n])) v) ! b
    in block_ok mf k \<and> depth k = depth (blocks v ! b) \<and>
       (\<forall>f < mf. parent k ! f = (if f < n then ps ! f else parent (blocks v ! b) ! f) \<and>
                edge_of_child k ! f = (if f < n then es ! f else edge_of_child (blocks v ! b) ! f))"
  using assms(3)
proof (induction n)
  case 0
  then show ?case using assms by simp
next
  case (Suc n)
  let ?r = "run_stores (concat (map (\<lambda>f. [StoreParent b f (ps ! f), StoreEdge b f (es ! f)]) [0..<n])) v"
  have "touches_only b v ?r" by (rule run_touches) auto
  then have "b < length (blocks ?r)" using assms by (simp add: touches_only_def)
  with Suc show ?case by (auto simp: Let_def block_ok_def nth_list_update less_Suc_eq)
qed

text \<open>The depth loop, up to frame \<open>n\<close>.\<close>

lemma depth_effect:
  assumes "b < length (blocks v)" "block_ok mf (blocks v ! b)" "1 \<le> n" "n \<le> mf"
  shows "let k = blocks (run_stores (map (RecomputeDepth b) [1..<n]) v) ! b
    in block_ok mf k \<and> parent k = parent (blocks v ! b) \<and> edge_of_child k = edge_of_child (blocks v ! b) \<and>
       (\<forall>f. 1 \<le> f \<and> f < n \<longrightarrow>
          depth k ! f = depth_loop (tv_max_frames v) (parent (blocks v ! b)) (parent (blocks v ! b) ! f) 0)"
  using assms(3,4)
proof (induction n rule: dec_induct)
  case base
  then show ?case using assms by simp
next
  case (step n)
  let ?r = "run_stores (map (RecomputeDepth b) [1..<n]) v"
  have "touches_only b v ?r" by (rule run_touches) auto
  then have "b < length (blocks ?r)" "tv_max_frames ?r = tv_max_frames v" using assms by (simp_all add: touches_only_def)
  with step show ?case by (auto simp: Let_def block_ok_def nth_list_update less_Suc_eq)
qed

lemma attach_effect:
  assumes "view_ok v" "c < tv_max_frames v"
  shows "let v1 = run_stores (copy_stores v @ attach_stores c p e v) v; k = blocks v1 ! next_block v
    in touches_only (next_block v) v v1 \<and> block_ok (tv_max_frames v) k \<and>
       parent k = (parent (published v))[c := p] \<and> edge_of_child k = (edge_of_child (published v))[c := e]"
proof -
  let ?b = "next_block v" and ?mf = "tv_max_frames v"
  define v0 where "v0 = run_stores (copy_stores v) v"
  have len: "?b < length (blocks v)" "active_block v < length (blocks v)" using assms by (simp_all add: view_ok_def)
  have bo: "block_ok ?mf (blocks v ! ?b)" "block_ok ?mf (published v)"
    using assms len by (simp_all add: view_ok_def published_def)
  have t0: "touches_only ?b v v0" unfolding v0_def using prefix_stores_scratch by (intro run_touches) auto
  have l0: "?b < length (blocks v0)" using t0 len by (simp add: touches_only_def)
  have cp: "block_ok ?mf (blocks v0 ! ?b) \<and> (\<forall>f < ?mf. parent (blocks v0 ! ?b) ! f = parent (published v) ! f \<and>
      edge_of_child (blocks v0 ! ?b) ! f = edge_of_child (published v) ! f)"
    using copy_effect [OF len(1) bo(1), of ?mf "parent (published v)" "edge_of_child (published v)"]
    by (simp add: Let_def v0_def copy_stores_def)
  then have eq: "parent (blocks v0 ! ?b) = parent (published v)" "edge_of_child (blocks v0 ! ?b) = edge_of_child (published v)"
    using bo(2) by (auto intro!: nth_equalityI simp: block_ok_def)
  have "touches_only ?b v (run_stores (copy_stores v @ attach_stores c p e v) v)"
    using prefix_stores_scratch by (intro run_touches) (auto simp: attach_stores_def)
  moreover have "run_stores (copy_stores v @ attach_stores c p e v) v = run_stores (attach_stores c p e v) v0"
    by (simp add: v0_def)
  ultimately show ?thesis
    using l0 eq cp by (simp add: Let_def attach_stores_def block_ok_def)
qed

lemma publish_word:
  assumes "v' = exec_topo (publish_store v) u" "blocks u ! next_block v = k"
  shows "published v' = k" "generation v' = (generation v + 1) AND mask 56" "active_block v' = next_block v"
proof -
  have "unat (word_of_nat (next_block v) :: u8) mod TOPO_BLOCKS = next_block v"
    using blocks_lt(2) [of v] by (simp add: TOPO_BLOCKS_def unat_of_nat)
  then show a: "active_block v' = next_block v"
    by (simp add: active_block_def assms(1) publish_store_def unpack_pack_topo)
  show "published v' = k" using assms a by (simp add: published_def publish_store_def)
  show "generation v' = (generation v + 1) AND mask 56"
    by (simp add: generation_def assms(1) publish_store_def unpack_pack_topo)
qed

lemma set_parent_Inr:
  fixes v :: topology_view and c p e :: nat
  assumes ok: "view_ok v" and c: "0 < c" "c < tv_max_frames v" "p < tv_max_frames v"
    and nc: "\<not> ancestor (parent (published v)) c p"
  defines "v' \<equiv> snd (set_parent c p e v)"
  shows "fst (set_parent c p e v) = Inr ()" "view_ok v'"
    "parent (published v') = (parent (published v))[c := p]"
    "edge_of_child (published v') = (edge_of_child (published v))[c := e]"
    "generation v' = (generation v + 1) AND mask 56" "tv_max_frames v' = tv_max_frames v"
    "v' = run_stores (set_parent_stores c p e v) v"
    "\<forall>f. 1 \<le> f \<and> f < tv_max_frames v \<longrightarrow>
       depth (published v') ! f = depth_loop (tv_max_frames v) (parent (published v')) (parent (published v') ! f) 0"
proof -
  let ?b = "next_block v" and ?mf = "tv_max_frames v" and ?par = "(parent (published v))[c := p]"
  define v1 where "v1 = run_stores (copy_stores v @ attach_stores c p e v) v"
  have a: "touches_only ?b v v1" "block_ok ?mf (blocks v1 ! ?b)" "parent (blocks v1 ! ?b) = ?par"
    "edge_of_child (blocks v1 ! ?b) = (edge_of_child (published v))[c := e]"
    using attach_effect [OF ok c(2), of p e] by (simp_all add: Let_def v1_def)
  have F: "forest ?mf (parent (published v))" using ok by (simp add: view_ok_def)
  have F': "forest ?mf ?par" using forest_update [OF F _ c(2,3) nc] c(1) by simp
  have nocyc: "\<not> creates_cycle (parent (blocks v1 ! ?b)) c ?mf"
    using creates_cycle_iff [OF F _ c(2,3)] nc c(1) by (simp add: a(3))
  have sp: "set_parent c p e v = (Inr (), run_stores (depth_stores v @ [publish_store v]) v1)"
    using c nocyc by (simp add: set_parent_def Let_def v1_def)
  then show "fst (set_parent c p e v) = Inr ()" "v' = run_stores (set_parent_stores c p e v) v"
    by (simp_all add: v'_def set_parent_stores_def v1_def)
  have len: "?b < length (blocks v1)" using a(1) ok by (simp add: touches_only_def view_ok_def)
  have mf: "tv_max_frames v1 = ?mf" using a(1) by (simp add: touches_only_def)
  define v2 where "v2 = run_stores (depth_stores v) v1"
  define k where "k = blocks v2 ! ?b"
  have t2: "touches_only ?b v v2"
    unfolding v2_def using prefix_stores_scratch
    by (intro touches_only_trans [OF a(1)] run_touches) auto
  have k: "block_ok ?mf k" "parent k = ?par" "edge_of_child k = (edge_of_child (published v))[c := e]"
    "\<forall>f. 1 \<le> f \<and> f < ?mf \<longrightarrow> depth k ! f = depth_loop ?mf ?par (?par ! f) 0"
    using depth_effect [OF len a(2), of ?mf] a c by (simp_all add: Let_def k_def v2_def depth_stores_def mf)
  have v': "v' = exec_topo (publish_store v) v2" by (simp add: v'_def sp v2_def)
  note pub = publish_word [OF v' k_def [symmetric]]
  show "parent (published v') = ?par" "edge_of_child (published v') = (edge_of_child (published v))[c := e]"
    "generation v' = (generation v + 1) AND mask 56" using k pub by simp_all
  show "\<forall>f. 1 \<le> f \<and> f < ?mf \<longrightarrow>
      depth (published v') ! f = depth_loop ?mf (parent (published v')) (parent (published v') ! f) 0"
    using k pub by simp
  show m: "tv_max_frames v' = ?mf" using t2 by (simp add: v' publish_store_def touches_only_def)
  have bl: "blocks v' = blocks v2" by (simp add: v' publish_store_def)
  have "depths_ok ?mf ?par (depth k)" using F' k(4) by (rule depths_ok_loop)
  moreover have "block_ok ?mf b" if "b \<in> set (blocks v')" for b
  proof -
    from that have "b \<in> set (blocks v2)" by (simp only: bl)
    then obtain j where "j < length (blocks v2)" "b = blocks v2 ! j"
      unfolding in_set_conv_nth by blast
    moreover from this have "j < length (blocks v)" using t2 by (simp add: touches_only_def)
    ultimately show ?thesis using t2 k(1) ok by (cases "j = ?b") (auto simp: touches_only_def k_def view_ok_def)
  qed
  ultimately show "view_ok v'"
    using F' k pub t2 ok by (simp add: view_ok_def m) (simp add: bl touches_only_def)
qed

lemma set_parent_Inl:
  assumes ok: "view_ok v" and c: "0 < c"
  shows "c \<ge> tv_max_frames v \<Longrightarrow> set_parent c p e v = (Inl (TopologyUnknownFrame c), v)"
    and "c < tv_max_frames v \<Longrightarrow> p \<ge> tv_max_frames v \<Longrightarrow> set_parent c p e v = (Inl (TopologyUnknownFrame p), v)"
    and "c < tv_max_frames v \<Longrightarrow> p < tv_max_frames v \<Longrightarrow> ancestor (parent (published v)) c p \<Longrightarrow>
      fst (set_parent c p e v) = Inl (WouldCreateCycle c) \<and> touches_only (next_block v) v (snd (set_parent c p e v))"
proof -
  show "c \<ge> tv_max_frames v \<Longrightarrow> set_parent c p e v = (Inl (TopologyUnknownFrame c), v)"
    "c < tv_max_frames v \<Longrightarrow> p \<ge> tv_max_frames v \<Longrightarrow> set_parent c p e v = (Inl (TopologyUnknownFrame p), v)"
    by (simp_all add: set_parent_def)
  assume h: "c < tv_max_frames v" "p < tv_max_frames v" "ancestor (parent (published v)) c p"
  have F: "forest (tv_max_frames v) (parent (published v))" using ok by (simp add: view_ok_def)
  define v1 where "v1 = run_stores (copy_stores v @ attach_stores c p e v) v"
  have a: "touches_only (next_block v) v v1" "parent (blocks v1 ! next_block v) = (parent (published v))[c := p]"
    using attach_effect [OF ok h(1), of p e] by (simp_all add: Let_def v1_def)
  then have "creates_cycle (parent (blocks v1 ! next_block v)) c (tv_max_frames v)"
    using creates_cycle_iff [OF F _ h(1,2)] h(3) c by simp
  then have "set_parent c p e v = (Inl (WouldCreateCycle c), v1)"
    using h by (simp add: set_parent_def Let_def v1_def)
  then show "fst (set_parent c p e v) = Inl (WouldCreateCycle c) \<and> touches_only (next_block v) v (snd (set_parent c p e v))"
    using a by simp
qed

lemma set_parent_cases:
  assumes "view_ok v" "0 < c"
  obtains (unknown) f where "set_parent c p e v = (Inl (TopologyUnknownFrame f), v)" "f \<ge> tv_max_frames v"
      "f = c \<or> f = p" "c \<ge> tv_max_frames v \<or> p \<ge> tv_max_frames v"
  | (cycle) v' where "set_parent c p e v = (Inl (WouldCreateCycle c), v')" "c < tv_max_frames v"
      "p < tv_max_frames v" "ancestor (parent (published v)) c p" "touches_only (next_block v) v v'"
  | (ok) v' where "set_parent c p e v = (Inr (), v')" "c < tv_max_frames v" "p < tv_max_frames v"
      "\<not> ancestor (parent (published v)) c p"
proof -
  have pair: "set_parent c p e v = (fst (set_parent c p e v), snd (set_parent c p e v))" by simp
  consider "c \<ge> tv_max_frames v" | "c < tv_max_frames v" "p \<ge> tv_max_frames v"
    | "c < tv_max_frames v" "p < tv_max_frames v" "ancestor (parent (published v)) c p"
    | "c < tv_max_frames v" "p < tv_max_frames v" "\<not> ancestor (parent (published v)) c p"
    by linarith
  then show thesis
  proof cases
    case 1
    then show thesis using unknown set_parent_Inl(1) [OF assms] by blast
  next
    case 2
    then show thesis using unknown set_parent_Inl(2) [OF assms] by blast
  next
    case 3
    then show thesis using cycle pair set_parent_Inl(3) [OF assms 3] by metis
  next
    case 4
    then show thesis using ok pair set_parent_Inr(1) [OF assms(1,2) 4] by metis
  qed
qed

lemma prefix_touches:
  assumes "k < length (set_parent_stores c p e v)"
  shows "touches_only (next_block v) v (run_stores (take k (set_parent_stores c p e v)) v)"
proof (rule run_touches, rule ballI)
  let ?pre = "copy_stores v @ attach_stores c p e v @ depth_stores v"
  fix st assume "st \<in> set (take k (set_parent_stores c p e v))"
  moreover have "take k (set_parent_stores c p e v) = take k ?pre"
    using assms by (simp add: set_parent_stores_def)
  ultimately have "st \<in> set ?pre" using in_set_takeD by metis
  then show "store_block st = Some (next_block v)" by (rule prefix_stores_scratch)
qed

subsection \<open>Properties\<close>

text \<open>C10: \<open>set_parent\<close> keeps the published tree a forest with correct depths. It refuses frames out
  of range and exactly the edits that would put a frame below itself, and then readers see
  nothing; every other edit publishes the edited arrays, all depths recomputed, under the next
  generation.\<close>

theorem set_parent_correct:
  assumes "view_ok v" "0 < c"
  shows "case set_parent c p e v of
      (Inr _, v') \<Rightarrow> view_ok v' \<and> c < tv_max_frames v \<and> p < tv_max_frames v \<and>
        \<not> ancestor (parent (published v)) c p \<and>
        parent (published v') = (parent (published v))[c := p] \<and>
        edge_of_child (published v') = (edge_of_child (published v))[c := e] \<and>
        generation v' = (generation v + 1) AND mask 56
    | (Inl err, v') \<Rightarrow> view_ok v' \<and> published v' = published v \<and> generation v' = generation v \<and>
        (err = WouldCreateCycle c \<and> c < tv_max_frames v \<and> p < tv_max_frames v \<and>
           ancestor (parent (published v)) c p \<or>
         err = TopologyUnknownFrame c \<and> tv_max_frames v \<le> c \<or>
         err = TopologyUnknownFrame p \<and> tv_max_frames v \<le> p)"
  using assms
proof (cases rule: set_parent_cases [where p = p and e = e])
  case (unknown f)
  then show ?thesis using assms by auto
next
  case (cycle v')
  then show ?thesis using assms touches_scratch view_ok_touches by auto
next
  case (ok v')
  then show ?thesis using set_parent_Inr [OF assms ok(2-4), of e] by simp
qed

text \<open>An arena as it is mapped, all zero, with four frames.\<close>

definition zero_view :: topology_view where
  "zero_view = \<lparr>topo = 0,
     blocks = replicate 4 \<lparr>parent = replicate 4 0, edge_of_child = replicate 4 0, depth = replicate 4 0\<rparr>,
     tv_max_frames = 4\<rparr>"

lemma zero_view_ok: "view_ok zero_view" "parent (published zero_view) = [0, 0, 0, 0]"
    "tv_max_frames zero_view = 4"
proof -
  have "active_block zero_view < 4" using blocks_lt(1) [of zero_view] by (simp add: TOPO_BLOCKS_def)
  then have p: "published zero_view =
      \<lparr>parent = replicate 4 0, edge_of_child = replicate 4 0, depth = replicate 4 0\<rparr>"
    by (simp add: published_def) (simp add: zero_view_def)
  have "forest 4 (replicate 4 0)"
    by (simp add: forest_def numeral_eq_Suc upt_rec)
      (auto simp: up_def less_Suc_eq intro: exI [of _ "1 :: nat"])
  then show "view_ok zero_view"
    by (simp add: view_ok_def p depths_ok_def) (simp add: zero_view_def TOPO_BLOCKS_def block_ok_def)
  show "parent (published zero_view) = [0, 0, 0, 0]" by (simp add: p numeral_eq_Suc)
  show "tv_max_frames zero_view = 4" by (simp add: zero_view_def)
qed

theorem set_parent_correct_witness:
  "\<exists>v. set_parent 1 2 7 zero_view = (Inr (), v) \<and> view_ok v \<and> parent (published v) = [0, 2, 0, 0]"
proof -
  have "ancestor [0, 0, 0, 0] 1 2 \<longleftrightarrow> ancestor [0, 0, 0, 0] 1 0"
    using ancestor_step [of 2 1 "[0, 0, 0, 0]"] by simp
  then have "\<not> ancestor (parent (published zero_view)) 1 2"
    using not_ancestor_0 [of "[0, 0, 0, 0]" 1] zero_view_ok(2) by simp
  then show ?thesis
    using set_parent_correct [OF zero_view_ok(1), of 1 2 7] zero_view_ok(2,3)
    by (auto split: prod.splits sum.splits unit.splits)
qed

text \<open>C11: a mutator that dies after any of its stores but the last leaves no trace. Readers see the
  same tree and generation, and the next mutation, whoever makes it, decides the same and
  publishes the same arrays and depths as if the dead one had never started.\<close>

theorem set_parent_crash_safe:
  assumes "view_ok v" "0 < c'" "k < length (set_parent_stores c p e v)"
  defines "d \<equiv> run_stores (take k (set_parent_stores c p e v)) v"
  shows "view_ok d \<and> published d = published v \<and> generation d = generation v \<and>
    fst (set_parent c' p' e' d) = fst (set_parent c' p' e' v) \<and>
    parent (published (snd (set_parent c' p' e' d))) = parent (published (snd (set_parent c' p' e' v))) \<and>
    edge_of_child (published (snd (set_parent c' p' e' d))) =
      edge_of_child (published (snd (set_parent c' p' e' v))) \<and>
    generation (snd (set_parent c' p' e' d)) = generation (snd (set_parent c' p' e' v)) \<and>
    (\<forall>f \<in> {1..<tv_max_frames v}. depth (published (snd (set_parent c' p' e' d))) ! f =
       depth (published (snd (set_parent c' p' e' v))) ! f)"
proof -
  have t: "touches_only (next_block v) v d" unfolding d_def using assms(3) by (rule prefix_touches)
  note sc = touches_scratch [OF t]
  have okd: "view_ok d" using t assms(1) by (rule view_ok_touches)
  from assms(1,2) show ?thesis
  proof (cases rule: set_parent_cases [where p = p' and e = e'])
    case (unknown f)
    with okd assms(2) have "set_parent c' p' e' d = (Inl (TopologyUnknownFrame f), d)"
      by (auto simp: set_parent_def sc split: if_splits)
    then show ?thesis using unknown okd sc by simp
  next
    case (cycle v')
    then obtain d' where "set_parent c' p' e' d = (Inl (WouldCreateCycle c'), d')" "touches_only (next_block d) d d'"
      using set_parent_Inl(3) [OF okd assms(2), of p' e'] sc by (metis prod.collapse)
    then show ?thesis
      using cycle okd sc touches_scratch [of d d'] touches_scratch [OF cycle(5)] by simp
  next
    case (ok v')
    note a = set_parent_Inr [OF assms(1,2) ok(2-4), of e']
    have "c' < tv_max_frames d" "p' < tv_max_frames d" "\<not> ancestor (parent (published d)) c' p'"
      using ok sc by simp_all
    note b = set_parent_Inr [OF okd assms(2) this, of e']
    show ?thesis using a b okd sc by simp
  qed
qed

theorem set_parent_crash_safe_witness:
  "published (run_stores (take 5 (set_parent_stores 1 2 7 zero_view)) zero_view) = published zero_view"
proof -
  have "5 < length (set_parent_stores 1 2 7 zero_view)"
    by (simp add: set_parent_stores_def copy_stores_def attach_stores_def depth_stores_def
        zero_view_ok(3) upt_rec)
  then show ?thesis using set_parent_crash_safe [OF zero_view_ok(1), of 1 5 1 2 7 2 7] by simp
qed

end
