(* ===== verification/Topo_Read.thy ===== *)
theory Topo_Read
  imports Topology Snapshot
begin

text \<open>
  \<open>TopologyView::read_frame\<close> against mutators that run, abort on a cycle, die and are replaced. The
  mutators are serialised by the lock of \<open>Topo_Lock\<close>, so one runs at a time; a reader's loads fall
  between any two of its stores.
\<close>

subsection \<open>The mutator as a step relation\<close>

text \<open>The stores of a mutation: it stops before the depths when the edit would close a cycle.\<close>

definition mutation_stores :: "frame_id \<Rightarrow> nat \<Rightarrow> nat \<Rightarrow> topology_view \<Rightarrow> topo_store list" where
  "mutation_stores c p e v =
     (if c \<ge> tv_max_frames v \<or> p \<ge> tv_max_frames v then []
      else if creates_cycle ((parent (published v))[c := p]) c (tv_max_frames v)
      then copy_stores v @ attach_stores c p e v
      else set_parent_stores c p e v)"

text \<open>\<open>pubs\<close> counts the publications, without the wrap of the 56-bit generation.\<close>

record mutator =
  view :: topology_view
  mtodo :: "topo_store list"
  pubs :: nat

inductive tstep :: "mutator \<Rightarrow> mutator \<Rightarrow> bool" where
  tstore: "mtodo s = st # rest \<Longrightarrow>
    tstep s (s\<lparr>view := exec_topo st (view s), mtodo := rest,
               pubs := (case st of StoreTopo _ \<Rightarrow> pubs s + 1 | _ \<Rightarrow> pubs s)\<rparr>)"
| tbegin: "mtodo s = [] \<Longrightarrow> 0 < c \<Longrightarrow> tstep s (s\<lparr>mtodo := mutation_stores c p e (view s)\<rparr>)"
| tdie: "tstep s (s\<lparr>mtodo := []\<rparr>)"
| tidle: "tstep s s"

definition in_mutation :: "mutator \<Rightarrow> topology_view \<Rightarrow> nat \<Rightarrow> nat \<Rightarrow> nat \<Rightarrow> nat \<Rightarrow> nat \<Rightarrow> bool" where
  "in_mutation s v0 c p e k n \<longleftrightarrow> view_ok v0 \<and> 0 < c \<and> c < tv_max_frames v0 \<and> p < tv_max_frames v0 \<and>
     k < n \<and> n \<le> length (set_parent_stores c p e v0) \<and>
     (n = length (set_parent_stores c p e v0) \<longrightarrow> \<not> ancestor (parent (published v0)) c p) \<and>
     view s = run_stores (take k (set_parent_stores c p e v0)) v0 \<and>
     mtodo s = drop k (take n (set_parent_stores c p e v0))"

definition mutator_ok :: "mutator \<Rightarrow> bool" where
  "mutator_ok s \<longleftrightarrow> view_ok (view s) \<and> generation (view s) = word_of_nat (pubs s) AND mask 56 \<and>
     (mtodo s = [] \<or> (\<exists>v0 c p e k n. in_mutation s v0 c p e k n))"

lemma set_parent_stores_last:
  "set_parent_stores c p e v = (copy_stores v @ attach_stores c p e v @ depth_stores v) @ [publish_store v]"
  by (simp add: set_parent_stores_def)

lemma scratch_store_nth:
  assumes "k < length (set_parent_stores c p e v) - 1"
  shows "store_block (set_parent_stores c p e v ! k) = Some (next_block v)"
proof -
  let ?pre = "copy_stores v @ attach_stores c p e v @ depth_stores v"
  have k: "k < length ?pre" using assms by (simp add: set_parent_stores_def)
  then have "set_parent_stores c p e v ! k = ?pre ! k"
    unfolding set_parent_stores_last by (rule nth_append_left)
  then show ?thesis using prefix_stores_scratch nth_mem [OF k] by metis
qed

lemma last_store_nth:
  "set_parent_stores c p e v ! (length (set_parent_stores c p e v) - 1) = publish_store v"
  by (simp add: set_parent_stores_last)

lemma mask_succ: "((x AND mask 56) + 1) AND mask 56 = (x + 1 :: u64) AND mask 56"
  by (simp add: mask_eqs)

lemma in_mutation_store:
  assumes m: "in_mutation s v0 c p e k n" and t: "mtodo s = st # rest"
  shows "st = set_parent_stores c p e v0 ! k" "rest = drop (Suc k) (take n (set_parent_stores c p e v0))"
    "exec_topo st (view s) = run_stores (take (Suc k) (set_parent_stores c p e v0)) v0"
proof -
  let ?S = "set_parent_stores c p e v0"
  have kn: "k < n" "n \<le> length ?S" using m by (simp_all add: in_mutation_def)
  then have "drop k (take n ?S) = ?S ! k # drop (Suc k) (take n ?S)"
    using Cons_nth_drop_Suc [of k "take n ?S"] by simp
  then show st: "st = ?S ! k" and "rest = drop (Suc k) (take n ?S)"
    using m t by (simp_all add: in_mutation_def)
  have "take (Suc k) ?S = take k ?S @ [?S ! k]" using kn by (simp add: take_Suc_conv_app_nth)
  then show "exec_topo st (view s) = run_stores (take (Suc k) ?S) v0"
    using m st by (simp add: in_mutation_def)
qed

text \<open>Every store but the publication keeps what readers see; the publication completes the edit.\<close>

lemma mutation_store_step:
  assumes m: "in_mutation s v0 c p e k n" and t: "mtodo s = st # rest"
  shows "st \<noteq> publish_store v0 \<or> Suc k = length (set_parent_stores c p e v0)"
    and "Suc k < length (set_parent_stores c p e v0) \<Longrightarrow>
      store_block st \<noteq> None \<and> touches_only (next_block v0) v0 (exec_topo st (view s)) \<and>
      touches_only (next_block v0) v0 (view s)"
    and "Suc k = length (set_parent_stores c p e v0) \<Longrightarrow>
      st = publish_store v0 \<and> view_ok (exec_topo st (view s)) \<and>
      generation (exec_topo st (view s)) = (generation v0 + 1) AND mask 56 \<and>
      tv_max_frames (exec_topo st (view s)) = tv_max_frames v0 \<and> generation (view s) = generation v0"
proof -
  let ?S = "set_parent_stores c p e v0"
  note st = in_mutation_store [OF m t]
  have k: "k < length ?S" "k < n" "n \<le> length ?S" and v0: "view_ok v0" "0 < c" "c < tv_max_frames v0" "p < tv_max_frames v0"
    and view: "view s = run_stores (take k ?S) v0"
    using m by (simp_all add: in_mutation_def)
  have tk: "touches_only (next_block v0) v0 (view s)"
    unfolding view using k(1) by (rule prefix_touches)
  {
    assume lt: "Suc k < length ?S"
    then have "store_block st = Some (next_block v0)" unfolding st(1) by (intro scratch_store_nth) simp
    moreover have "touches_only (next_block v0) v0 (exec_topo st (view s))"
      unfolding st(3) using lt by (rule prefix_touches)
    ultimately show "store_block st \<noteq> None \<and> touches_only (next_block v0) v0 (exec_topo st (view s)) \<and>
      touches_only (next_block v0) v0 (view s)" using tk by simp
  }
  then show "st \<noteq> publish_store v0 \<or> Suc k = length ?S"
    using k(1) by (cases "Suc k < length ?S") (auto simp: publish_store_def)
  assume last: "Suc k = length ?S"
  then have "n = length ?S" using k by simp
  then have na: "\<not> ancestor (parent (published v0)) c p" using m by (simp add: in_mutation_def)
  have "st = publish_store v0" using st(1) last last_store_nth [of c p e v0] by (metis diff_Suc_1)
  moreover have "exec_topo st (view s) = snd (set_parent c p e v0)"
    using st(3) last set_parent_Inr(7) [OF v0 na, of e] by simp
  ultimately show "st = publish_store v0 \<and> view_ok (exec_topo st (view s)) \<and>
      generation (exec_topo st (view s)) = (generation v0 + 1) AND mask 56 \<and>
      tv_max_frames (exec_topo st (view s)) = tv_max_frames v0 \<and> generation (view s) = generation v0"
    using set_parent_Inr(2,5,6) [OF v0 na, of e] touches_scratch(4) [OF tk] by simp
qed

lemma mutation_begin:
  assumes ok: "view_ok v" and c: "0 < c"
  shows "mutation_stores c p e v = [] \<or>
    (\<exists>n. in_mutation (s\<lparr>view := v, mtodo := mutation_stores c p e v\<rparr>) v c p e 0 n)"
proof (cases "c \<ge> tv_max_frames v \<or> p \<ge> tv_max_frames v")
  case True
  then show ?thesis by (simp add: mutation_stores_def)
next
  case False
  let ?S = "set_parent_stores c p e v"
  have F: "forest (tv_max_frames v) (parent (published v))" using ok by (simp add: view_ok_def)
  have cyc: "creates_cycle ((parent (published v))[c := p]) c (tv_max_frames v) \<longleftrightarrow> ancestor (parent (published v)) c p"
    using creates_cycle_iff [OF F] False c by simp
  define n where "n = (if ancestor (parent (published v)) c p
    then length (copy_stores v @ attach_stores c p e v) else length ?S)"
  have "mutation_stores c p e v = take n ?S"
    using False cyc by (simp add: mutation_stores_def n_def) (simp add: set_parent_stores_def)
  moreover have "0 < n" "n \<le> length ?S" "n = length ?S \<longrightarrow> \<not> ancestor (parent (published v)) c p"
    by (auto simp: n_def set_parent_stores_def attach_stores_def)
  ultimately have "in_mutation (s\<lparr>view := v, mtodo := mutation_stores c p e v\<rparr>) v c p e 0 n"
    using ok c False by (simp add: in_mutation_def)
  then show ?thesis by blast
qed

lemma mutator_step:
  assumes ok: "mutator_ok s" and step: "tstep s s'"
  shows "mutator_ok s' \<and> pubs s \<le> pubs s' \<and> tv_max_frames (view s') = tv_max_frames (view s) \<and>
    (pubs s' = pubs s \<longrightarrow> published (view s') = published (view s) \<and> topo (view s') = topo (view s))"
  using step
proof (cases rule: tstep.cases)
  case (tstore st rest)
  with ok obtain v0 c p e k n where m: "in_mutation s v0 c p e k n" by (auto simp: mutator_ok_def)
  let ?S = "set_parent_stores c p e v0"
  note st = in_mutation_store [OF m tstore(2)] and eff = mutation_store_step [OF m tstore(2)]
  have v0: "view_ok v0" and k: "k < n" "n \<le> length ?S" using m by (simp_all add: in_mutation_def)
  have inm: "rest = [] \<or> in_mutation s' v0 c p e (Suc k) n"
    using m st tstore(1) by (cases "Suc k = n") (auto simp: in_mutation_def)
  show ?thesis
  proof (cases "Suc k = length ?S")
    case True
    note e3 = eff(3) [OF True]
    have rest: "rest = []" using st(2) k True by simp
    have p: "pubs s' = pubs s + 1" using tstore(1) e3 by (simp add: publish_store_def)
    have "generation (exec_topo st (view s)) = (word_of_nat (pubs s + 1)) AND mask 56"
      using ok e3 mask_succ [of "word_of_nat (pubs s)"] by (auto simp: mutator_ok_def add.commute)
    moreover have "tv_max_frames (view s) = tv_max_frames v0"
    proof -
      have "touches_only (next_block v0) v0 (view s)"
        using m True prefix_touches [of k c p e v0] by (simp add: in_mutation_def)
      then show ?thesis by (rule touches_scratch)
    qed
    ultimately show ?thesis using tstore(1) e3 rest p by (auto simp: mutator_ok_def)
  next
    case False
    then have e2: "store_block st \<noteq> None" "touches_only (next_block v0) v0 (exec_topo st (view s))"
      "touches_only (next_block v0) v0 (view s)" using eff(2) k by simp_all
    have p: "pubs s' = pubs s" using tstore(1) e2(1) by (cases st) simp_all
    have "topo (exec_topo st (view s)) = topo (view s)"
      using e2(2,3) by (simp add: touches_only_def)
    moreover have "published (exec_topo st (view s)) = published (view s)"
      "generation (exec_topo st (view s)) = generation (view s)"
      "tv_max_frames (exec_topo st (view s)) = tv_max_frames (view s)"
      using touches_scratch [OF e2(2)] touches_scratch [OF e2(3)] by simp_all
    ultimately show ?thesis
      using ok tstore(1) p inm view_ok_touches [OF e2(2) v0] by (auto simp: mutator_ok_def)
  qed
next
  case (tbegin c p e)
  have "mutation_stores c p e (view s) = [] \<or> (\<exists>n. in_mutation s' (view s) c p e 0 n)"
    using mutation_begin [of "view s" c p e s] ok tbegin by (simp add: mutator_ok_def)
  then show ?thesis using ok tbegin by (auto simp: mutator_ok_def)
qed (use ok in \<open>auto simp: mutator_ok_def\<close>)

interpretation topo: versioned mutator_ok tstep pubs "\<lambda>_. True" "\<lambda>s. (topo (view s), published (view s))"
  by unfold_locales (use mutator_step in auto)

subsection \<open>The reader\<close>

text \<open>What one iteration of \<open>read_frame\<close> loads: the word, the three entries of the copy it names, and
  the word again.\<close>

type_synonym frame_obs = "u64 \<times> nat \<times> nat \<times> nat \<times> u64"

fun read_frame_loop :: "nat \<Rightarrow> (nat \<Rightarrow> frame_obs) \<Rightarrow> (nat \<times> nat \<times> nat \<times> u64) option" where
  "read_frame_loop 0 obs = None"
| "read_frame_loop (Suc n) obs =
     (case obs (TOPO_RETRY_LIMIT - Suc n) of (w1, p, d, e, w2) \<Rightarrow>
        if w2 = w1 then Some (p, d, e, fst (unpack_topo w1)) else read_frame_loop n obs)"

definition read_frame_obs :: "nat \<Rightarrow> frame_id \<Rightarrow> (nat \<Rightarrow> frame_obs) \<Rightarrow> (nat \<times> nat \<times> nat \<times> u64) option" where
  "read_frame_obs mf child obs =
     (if child \<ge> mf then None else read_frame_loop TOPO_RETRY_LIMIT obs)"

text \<open>A reader nothing interferes with.\<close>

definition read_frame :: "topology_view \<Rightarrow> frame_id \<Rightarrow> (nat \<times> nat \<times> nat \<times> u64) option" where
  "read_frame v child =
     read_frame_obs (tv_max_frames v) child
       (\<lambda>_. (topo v, parent (published v) ! child, depth (published v) ! child,
            edge_of_child (published v) ! child, topo v))"

text \<open>The times of the five loads of an iteration.\<close>

type_synonym frame_attempt = "nat \<times> nat \<times> nat \<times> nat \<times> nat"

definition word_block :: "u64 \<Rightarrow> nat" where
  "word_block w = unat (snd (unpack_topo w)) mod TOPO_BLOCKS"

definition observe_frame :: "(nat \<Rightarrow> mutator) \<Rightarrow> frame_id \<Rightarrow> frame_attempt \<Rightarrow> frame_obs" where
  "observe_frame run child m = (case m of (t0, tp, td, te, t1) \<Rightarrow>
     let w1 = topo (view (run t0)); blk = word_block w1
     in (w1, parent (blocks (view (run tp)) ! blk) ! child, depth (blocks (view (run td)) ! blk) ! child,
         edge_of_child (blocks (view (run te)) ! blk) ! child, topo (view (run t1))))"

definition frame_in_order :: "frame_attempt \<Rightarrow> bool" where
  "frame_in_order m = (case m of (t0, tp, td, te, t1) \<Rightarrow> t0 \<le> tp \<and> tp \<le> td \<and> td \<le> te \<and> te \<le> t1)"

lemma read_frame_loop_Some:
  "read_frame_loop m obs = Some (p, d, e, g) \<Longrightarrow> m \<le> TOPO_RETRY_LIMIT \<Longrightarrow>
     \<exists>n < TOPO_RETRY_LIMIT. \<exists>w. obs n = (w, p, d, e, w) \<and> g = fst (unpack_topo w)"
proof (induction m)
  case 0
  then show ?case by simp
next
  case (Suc m)
  obtain w1 p' d' e' w2 where o: "obs (TOPO_RETRY_LIMIT - Suc m) = (w1, p', d', e', w2)"
    by (cases "obs (TOPO_RETRY_LIMIT - Suc m)")
  show ?case
  proof (cases "w2 = w1")
    case True
    with o Suc.prems have "obs (TOPO_RETRY_LIMIT - Suc m) = (w1, p, d, e, w1)" "g = fst (unpack_topo w1)" by simp_all
    moreover have "TOPO_RETRY_LIMIT - Suc m < TOPO_RETRY_LIMIT" using Suc.prems by simp
    ultimately show ?thesis by blast
  next
    case False
    with o Suc show ?thesis by auto
  qed
qed

lemma same_word_same_pubs:
  assumes "(word_of_nat a :: u64) AND mask 56 = word_of_nat b AND mask 56" "a \<le> b" "b < a + 2 ^ 56"
  shows "a = b"
proof -
  have "unat ((word_of_nat n :: u64) AND mask 56) = n mod 2 ^ 56" for n
  proof -
    have "unat (take_bit 56 (word_of_nat n :: u64)) = take_bit 56 (take_bit LENGTH(64) n)"
      by (simp add: unsigned_take_bit_eq unsigned_of_nat)
    also have "\<dots> = take_bit 56 n" by simp
    finally show ?thesis by (simp add: take_bit_eq_mask [symmetric] take_bit_eq_mod)
  qed
  then have "a mod 2 ^ 56 = b mod 2 ^ 56" using assms(1) by metis
  then show ?thesis using assms(2,3) by (rule mod_window_inj)
qed

text \<open>A value that is returned belongs to one published tree.\<close>

lemma read_frame_consistent:
  assumes run: "mutator_ok (run 0)" "\<forall>n. tstep (run n) (run (Suc n))"
    and order: "\<forall>n < TOPO_RETRY_LIMIT. frame_in_order (tm n)"
    and wrap: "\<forall>n < TOPO_RETRY_LIMIT.
      pubs (run (snd (snd (snd (snd (tm n)))))) < pubs (run (fst (tm n))) + 2 ^ 56"
    and got: "read_frame_obs mf child (\<lambda>n. observe_frame run child (tm n)) = Some (p, d, e, g)"
  shows "child < mf \<and> (\<exists>n < TOPO_RETRY_LIMIT. let v = view (run (fst (tm n))) in view_ok v \<and>
     p = parent (published v) ! child \<and> d = depth (published v) ! child \<and>
     e = edge_of_child (published v) ! child \<and> g = generation v)"
proof -
  have child: "child < mf" and loop: "read_frame_loop TOPO_RETRY_LIMIT (\<lambda>n. observe_frame run child (tm n)) = Some (p, d, e, g)"
    using got by (auto simp: read_frame_obs_def split: if_splits)
  obtain n w where n: "n < TOPO_RETRY_LIMIT" "observe_frame run child (tm n) = (w, p, d, e, w)"
    "g = fst (unpack_topo w)" using read_frame_loop_Some [OF loop] by auto
  obtain t0 tp td te t1 where m: "tm n = (t0, tp, td, te, t1)" by (cases "tm n")
  have ord: "t0 \<le> tp" "tp \<le> t1" "t0 \<le> td" "td \<le> t1" "t0 \<le> te" "te \<le> t1" "t0 \<le> t1"
    using order n(1) m by (auto simp: frame_in_order_def)
  let ?v = "view (run t0)"
  have w: "topo ?v = w" "topo (view (run t1)) = w" using n(2) m by (simp_all add: observe_frame_def Let_def)
  note ok = topo.ok_run [OF run]
  have "pubs (run t1) = pubs (run t0)"
  proof (rule same_word_same_pubs [symmetric])
    have "generation (view (run t1)) = generation ?v" using w by (simp add: generation_def)
    then show "(word_of_nat (pubs (run t0)) :: u64) AND mask 56 = word_of_nat (pubs (run t1)) AND mask 56"
      using ok [of t0] ok [of t1] by (simp add: mutator_ok_def)
    show "pubs (run t0) \<le> pubs (run t1)" using topo.rank_run [OF run ord(7)] .
    show "pubs (run t1) < pubs (run t0) + 2 ^ 56" using wrap n(1) m by fastforce
  qed
  then have same: "topo (view (run k)) = topo ?v" "published (view (run k)) = published ?v"
    if "t0 \<le> k" "k \<le> t1" for k
    using topo.snapshot [OF run, where i = t0 and j = t1 and k = k] that by auto
  have "word_block w = active_block (view (run k))" if "t0 \<le> k" "k \<le> t1" for k
    using same(1) [OF that] w by (simp add: word_block_def active_block_def)
  then have blk: "blocks (view (run k)) ! word_block w = published ?v" if "t0 \<le> k" "k \<le> t1" for k
    using same(2) [OF that] that by (simp add: published_def)
  have "p = parent (published ?v) ! child \<and> d = depth (published ?v) ! child \<and>
      e = edge_of_child (published ?v) ! child"
    using n(2) m ord blk by (simp add: observe_frame_def Let_def w)
  moreover have "g = generation ?v" using n(3) w by (simp add: generation_def)
  ultimately show ?thesis
    using child n(1) m ok [of t0] by (auto simp: Let_def mutator_ok_def intro!: exI [of _ n])
qed

subsection \<open>Properties\<close>

text \<open>C12: \<open>read_frame\<close> returns a consistent snapshot. However its loads interleave with mutations that
  complete, abort or die half way, the parent, depth and edge it returns all belong to the tree that was
  published, under the generation it returns, at one instant inside the read; that tree is a
  forest with correct depths. (The 56-bit generation must not come round during one attempt.)\<close>

theorem read_frame_snapshot:
  assumes run: "mutator_ok (run 0)" "\<forall>n. tstep (run n) (run (Suc n))"
    and order: "\<forall>n < TOPO_RETRY_LIMIT. frame_in_order (tm n)"
    and wrap: "\<forall>n < TOPO_RETRY_LIMIT.
      pubs (run (snd (snd (snd (snd (tm n)))))) < pubs (run (fst (tm n))) + 2 ^ 56"
    and got: "read_frame_obs mf child (\<lambda>n. observe_frame run child (tm n)) = Some (p, d, e, g)"
  shows "child < mf \<and> (\<exists>n < TOPO_RETRY_LIMIT. let v = view (run (fst (tm n))) in view_ok v \<and>
     p = parent (published v) ! child \<and> d = depth (published v) ! child \<and>
     e = edge_of_child (published v) ! child \<and> g = generation v)"
  using assms by (rule read_frame_consistent)

definition idle_mutator :: mutator where
  "idle_mutator = \<lparr>view = zero_view, mtodo = [], pubs = 0\<rparr>"

theorem read_frame_snapshot_witness:
  "read_frame_obs 4 2 (\<lambda>n. observe_frame (\<lambda>_. idle_mutator) 2 (0, 0, 0, 0, 0)) =
     Some (0, depth (published zero_view) ! 2, edge_of_child (published zero_view) ! 2, generation zero_view)"
proof -
  let ?r = "read_frame_obs 4 2 (\<lambda>n. observe_frame (\<lambda>_. idle_mutator) 2 (0, 0, 0, 0, 0))"
  have ok: "mutator_ok idle_mutator"
    using zero_view_ok(1) by (simp add: mutator_ok_def idle_mutator_def generation_def)
      (simp add: zero_view_def unpack_topo_def)
  have "\<exists>p d e g. ?r = Some (p, d, e, g)"
    by (simp add: read_frame_obs_def observe_frame_def Let_def TOPO_RETRY_LIMIT_def numeral_eq_Suc)
  then obtain p d e g where r: "?r = Some (p, d, e, g)" by blast
  from read_frame_snapshot [where run = "\<lambda>_. idle_mutator" and tm = "\<lambda>_. (0, 0, 0, 0, 0)", OF _ _ _ _ r] ok
  have "p = parent (published zero_view) ! 2 \<and> d = depth (published zero_view) ! 2 \<and>
      e = edge_of_child (published zero_view) ! 2 \<and> g = generation zero_view"
    by (auto simp: tidle frame_in_order_def Let_def idle_mutator_def)
  then show ?thesis using r zero_view_ok(2) by simp
qed

end
