(* ===== verification/Topo_Lock.thy ===== *)
theory Topo_Lock
  imports Core_Types
begin

text \<open>
  The lock that serialises topology mutations, \<open>TopoLockView\<close> of \<open>tf_tree_core/src/topology.rs\<close>: one
  word that holds the slot of its owner plus one, or 0. \<open>acquire\<close> spins, then asks whether the owner
  is alive and steals the word from a dead one.

  \<open>acquire\<close> is stated twice, as the function it is when nothing interferes, and as a machine whose
  transitions are its atomic accesses; the second is what participants interleave.
\<close>

subsection \<open>State\<close>

definition TOPO_LOCK_SPIN_LIMIT :: nat where "TOPO_LOCK_SPIN_LIMIT = 1024"

datatype topo_lock_error = TopoContended (tl_owner_slot: nat)

record topo_lock_view =
  lk_owner :: nat
  lk_acquired_at :: int

record topo_guard =
  tg_want :: nat

text \<open>\<open>word.saturating_sub(1) as u32\<close>\<close>

definition slot_of :: "nat \<Rightarrow> nat" where
  "slot_of word = (word - 1) mod 2 ^ 32"

definition holder :: "topo_lock_view \<Rightarrow> nat option" where
  "holder l = (if lk_owner l = 0 then None else Some (slot_of (lk_owner l)))"

definition guard_participant_slot :: "topo_guard \<Rightarrow> nat" where
  "guard_participant_slot g = slot_of (tg_want g)"

text \<open>\<open>compare_exchange\<close> on the owner word: \<open>Inr\<close> on success, \<open>Inl\<close> with the value found otherwise.\<close>

definition cas_owner :: "nat \<Rightarrow> nat \<Rightarrow> topo_lock_view \<Rightarrow> (nat + nat) \<times> topo_lock_view" where
  "cas_owner expected new l =
     (if lk_owner l = expected then (Inr expected, l\<lparr>lk_owner := new\<rparr>) else (Inl (lk_owner l), l))"

definition guard_drop :: "topo_guard \<Rightarrow> topo_lock_view \<Rightarrow> topo_lock_view" where
  "guard_drop g l = snd (cas_owner (tg_want g) 0 l)"

definition guarded :: "nat \<Rightarrow> int \<Rightarrow> topo_lock_view \<Rightarrow> (topo_lock_error + topo_guard) \<times> topo_lock_view" where
  "guarded want now l = (Inr \<lparr>tg_want = want\<rparr>, l\<lparr>lk_acquired_at := now\<rparr>)"

subsection \<open>Taking the lock when nothing interferes\<close>

fun spin_acquire :: "nat \<Rightarrow> nat \<Rightarrow> topo_lock_view \<Rightarrow> topo_lock_view option" where
  "spin_acquire 0 want l = None"
| "spin_acquire (Suc n) want l =
     (case cas_owner 0 want l of (Inr _, l') \<Rightarrow> Some l' | (Inl _, l') \<Rightarrow> spin_acquire n want l')"

definition lock_finish :: "nat \<Rightarrow> int \<Rightarrow> topo_lock_view \<Rightarrow> (topo_lock_error + topo_guard) \<times> topo_lock_view" where
  "lock_finish want now l =
     (case cas_owner 0 want l of
        (Inr _, l') \<Rightarrow> guarded want now l'
      | (Inl cur, l') \<Rightarrow> (Inl (TopoContended (if cur = 0 then 2 ^ 32 - 1 else slot_of cur)), l'))"

definition acquire :: "nat \<Rightarrow> int \<Rightarrow> (nat \<Rightarrow> bool) \<Rightarrow> topo_lock_view \<Rightarrow>
    (topo_lock_error + topo_guard) \<times> topo_lock_view" where
  "acquire participant_slot now is_alive l =
     (let want = participant_slot + 1
      in case spin_acquire TOPO_LOCK_SPIN_LIMIT want l of
        Some l' \<Rightarrow> guarded want now l'
      | None \<Rightarrow>
         let held = lk_owner l
         in if held = 0 then lock_finish want now l
            else let owner_slot = slot_of held
            in if owner_slot = participant_slot then (Inl (TopoContended owner_slot), l)
               else if is_alive owner_slot then (Inl (TopoContended owner_slot), l)
               else case cas_owner held want l of
                  (Inr _, l') \<Rightarrow> guarded want now l'
                | (Inl _, l') \<Rightarrow> (Inl (TopoContended owner_slot), l'))"

subsection \<open>Its atomic accesses\<close>

datatype acq =
    Spin nat
  | LoadOwner
  | TryFree
  | AskAlive nat
  | Steal nat
  | StampTime
  | Held
  | GaveUp nat

fun acquire_step :: "nat \<Rightarrow> int \<Rightarrow> (nat \<Rightarrow> bool) \<Rightarrow> acq \<times> topo_lock_view \<Rightarrow> acq \<times> topo_lock_view" where
  "acquire_step p now alive (Spin 0, l) = (LoadOwner, l)"
| "acquire_step p now alive (Spin (Suc n), l) =
     (case cas_owner 0 (p + 1) l of (Inr _, l') \<Rightarrow> (StampTime, l') | (Inl _, l') \<Rightarrow> (Spin n, l'))"
| "acquire_step p now alive (LoadOwner, l) =
     (if lk_owner l = 0 then (TryFree, l)
      else if slot_of (lk_owner l) = p then (GaveUp p, l)
      else (AskAlive (lk_owner l), l))"
| "acquire_step p now alive (TryFree, l) =
     (case cas_owner 0 (p + 1) l of
        (Inr _, l') \<Rightarrow> (StampTime, l')
      | (Inl cur, l') \<Rightarrow> (GaveUp (if cur = 0 then 2 ^ 32 - 1 else slot_of cur), l'))"
| "acquire_step p now alive (AskAlive held, l) =
     (if alive (slot_of held) then (GaveUp (slot_of held), l) else (Steal held, l))"
| "acquire_step p now alive (Steal held, l) =
     (case cas_owner held (p + 1) l of
        (Inr _, l') \<Rightarrow> (StampTime, l')
      | (Inl _, l') \<Rightarrow> (GaveUp (slot_of held), l'))"
| "acquire_step p now alive (StampTime, l) = (Held, l\<lparr>lk_acquired_at := now\<rparr>)"
| "acquire_step p now alive (Held, l) = (Held, l)"
| "acquire_step p now alive (GaveUp s, l) = (GaveUp s, l)"

text \<open>The result of a machine that has stopped.\<close>

fun acq_result :: "nat \<Rightarrow> acq \<Rightarrow> (topo_lock_error + topo_guard) option" where
  "acq_result p Held = Some (Inr \<lparr>tg_want = p + 1\<rparr>)"
| "acq_result p (GaveUp s) = Some (Inl (TopoContended s))"
| "acq_result p _ = None"

definition acquire_run :: "nat \<Rightarrow> nat \<Rightarrow> int \<Rightarrow> (nat \<Rightarrow> bool) \<Rightarrow> acq \<times> topo_lock_view \<Rightarrow> acq \<times> topo_lock_view" where
  "acquire_run n p now alive = (acquire_step p now alive) ^^ n"

lemma acquire_run_Suc: "acquire_run (Suc n) p now alive c = acquire_run n p now alive (acquire_step p now alive c)"
  by (simp add: acquire_run_def funpow_swap1)

lemma acquire_run_0 [simp]: "acquire_run 0 p now alive c = c"
  by (simp add: acquire_run_def)

lemma acquire_run_add: "acquire_run (a + b) p now alive c = acquire_run b p now alive (acquire_run a p now alive c)"
  by (simp add: acquire_run_def funpow_add add.commute [of a b])

lemma slot_of_want [simp]: "p < 2 ^ 32 \<Longrightarrow> slot_of (Suc p) = p"
  by (simp add: slot_of_def)

lemma spin_busy:
  "lk_owner l \<noteq> 0 \<Longrightarrow> spin_acquire n want l = None"
  "lk_owner l \<noteq> 0 \<Longrightarrow> acquire_run n p now alive (Spin n, l) = (Spin 0, l)"
  by (induction n) (simp_all add: cas_owner_def acquire_run_Suc)

lemma spin_free:
  "lk_owner l = 0 \<Longrightarrow> 0 < n \<Longrightarrow> spin_acquire n want l = Some (l\<lparr>lk_owner := want\<rparr>)"
  by (cases n) (simp_all add: cas_owner_def)

lemma acquire_at_rest:
  "lk_owner l = 0 \<Longrightarrow> acquire p now alive l = (Inr \<lparr>tg_want = p + 1\<rparr>, l\<lparr>lk_owner := p + 1, lk_acquired_at := now\<rparr>)"
  "lk_owner l \<noteq> 0 \<Longrightarrow> acquire p now alive l =
     (if slot_of (lk_owner l) = p \<or> alive (slot_of (lk_owner l)) then (Inl (TopoContended (slot_of (lk_owner l))), l)
      else (Inr \<lparr>tg_want = p + 1\<rparr>, l\<lparr>lk_owner := p + 1, lk_acquired_at := now\<rparr>))"
  by (simp_all add: acquire_def spin_free spin_busy TOPO_LOCK_SPIN_LIMIT_def guarded_def cas_owner_def Let_def)

text \<open>Once stopped, the machine stays.\<close>

lemma acquire_run_stopped:
  "acq_result p a = Some r \<Longrightarrow> acquire_run n p now alive (a, l) = (a, l)"
  by (induction n) (cases a; simp add: acquire_run_Suc)+

lemma acquire_machine:
  "acq_result p (fst (acquire_run (TOPO_LOCK_SPIN_LIMIT + 5) p now alive (Spin TOPO_LOCK_SPIN_LIMIT, l))) =
     Some (fst (acquire p now alive l)) \<and>
   snd (acquire_run (TOPO_LOCK_SPIN_LIMIT + 5) p now alive (Spin TOPO_LOCK_SPIN_LIMIT, l)) =
     snd (acquire p now alive l)"
proof (cases "lk_owner l = 0")
  case True
  obtain n where n: "TOPO_LOCK_SPIN_LIMIT = Suc n" by (simp add: TOPO_LOCK_SPIN_LIMIT_def numeral_eq_Suc)
  have five: "Suc n + 5 = Suc (Suc (n + 4))" by simp
  show ?thesis
    unfolding n five acquire_run_Suc
    by (simp add: True cas_owner_def acquire_run_stopped acquire_at_rest)
next
  case False
  have five: "acquire_run (m + 5) p now alive c = acquire_run (Suc (Suc (Suc (Suc (Suc 0))))) p now alive
      (acquire_run m p now alive c)" for m c
    by (subst acquire_run_add) (simp add: numeral_eq_Suc)
  show ?thesis
    unfolding five spin_busy(2) [OF False] acquire_run_Suc
    by (simp add: False cas_owner_def acquire_at_rest)
qed

subsection \<open>Participants\<close>

text \<open>One thread per participant slot: \<open>Tree::reparent\<close> holds a mutex of the process around the lock. A
  dead participant's slot stays dead, and the liveness predicate answers \<open>false\<close> only about the
  dead; about them it may answer either way.\<close>

record lock_sys =
  lmem :: topo_lock_view
  pcs :: "nat \<Rightarrow> acq option"
  live :: "nat \<Rightarrow> bool"

inductive lstep :: "lock_sys \<Rightarrow> lock_sys \<Rightarrow> bool" where
  lstart: "live s p \<Longrightarrow> p < 2 ^ 32 \<Longrightarrow> pcs s p = None \<Longrightarrow>
    lstep s (s\<lparr>pcs := (pcs s)(p := Some (Spin TOPO_LOCK_SPIN_LIMIT))\<rparr>)"
| laccess: "live s p \<Longrightarrow> pcs s p = Some a \<Longrightarrow> \<forall>q. live s q \<longrightarrow> is_alive q \<Longrightarrow>
    acquire_step p now is_alive (a, lmem s) = (a', l') \<Longrightarrow>
    lstep s (s\<lparr>lmem := l', pcs := (pcs s)(p := Some a')\<rparr>)"
| lreturn: "live s p \<Longrightarrow> pcs s p = Some (GaveUp h) \<Longrightarrow> lstep s (s\<lparr>pcs := (pcs s)(p := None)\<rparr>)"
| ldrop: "live s p \<Longrightarrow> pcs s p = Some Held \<Longrightarrow>
    lstep s (s\<lparr>lmem := guard_drop \<lparr>tg_want = p + 1\<rparr> (lmem s), pcs := (pcs s)(p := None)\<rparr>)"
| ldie: "lstep s (s\<lparr>live := (live s)(p := False)\<rparr>)"

definition lock_init :: lock_sys where
  "lock_init = \<lparr>lmem = \<lparr>lk_owner = 0, lk_acquired_at = 0\<rparr>, pcs = (\<lambda>_. None), live = (\<lambda>_. True)\<rparr>"

definition holds_lock :: "lock_sys \<Rightarrow> nat \<Rightarrow> bool" where
  "holds_lock s p \<longleftrightarrow> live s p \<and> (pcs s p = Some StampTime \<or> pcs s p = Some Held)"

definition pc_ok :: "lock_sys \<Rightarrow> nat \<Rightarrow> acq \<Rightarrow> bool" where
  "pc_ok s p a \<longleftrightarrow> p < 2 ^ 32 \<and> (case a of
      AskAlive h \<Rightarrow> 0 < h \<and> h \<le> 2 ^ 32
    | Steal h \<Rightarrow> 0 < h \<and> h \<le> 2 ^ 32 \<and> \<not> live s (h - 1)
    | StampTime \<Rightarrow> live s p \<longrightarrow> lk_owner (lmem s) = p + 1
    | Held \<Rightarrow> live s p \<longrightarrow> lk_owner (lmem s) = p + 1
    | _ \<Rightarrow> True)"

definition lock_ok :: "lock_sys \<Rightarrow> bool" where
  "lock_ok s \<longleftrightarrow> lk_owner (lmem s) \<le> 2 ^ 32 \<and> (\<forall>p a. pcs s p = Some a \<longrightarrow> pc_ok s p a)"

lemma lock_init_ok: "lock_ok lock_init"
  by (simp add: lock_ok_def lock_init_def)

lemma slot_of_owner: "0 < h \<Longrightarrow> h \<le> 2 ^ 32 \<Longrightarrow> slot_of h = h - 1"
  by (simp add: slot_of_def)

text \<open>Whoever changes the owner word takes it from no live holder.\<close>

lemma lock_ok_holder: "lock_ok s \<Longrightarrow> holds_lock s q \<Longrightarrow> lk_owner (lmem s) = q + 1"
  by (auto simp: lock_ok_def holds_lock_def pc_ok_def dest!: spec [of _ q])

lemma access_owner:
  assumes ok: "lock_ok s" and p: "live s p" "pcs s p = Some a" and alive: "\<forall>q. live s q \<longrightarrow> is_alive q"
    and step: "acquire_step p now is_alive (a, lmem s) = (a', l')"
  shows "lk_owner l' = lk_owner (lmem s) \<or> lk_owner l' = p + 1 \<and> (\<forall>q. \<not> holds_lock s q)"
    and "pc_ok (s\<lparr>lmem := l'\<rparr>) p a'"
proof -
  have pc: "pc_ok s p a" and w: "lk_owner (lmem s) \<le> 2 ^ 32" using ok p by (auto simp: lock_ok_def)
  have free: "\<forall>q. \<not> holds_lock s q" if "lk_owner (lmem s) = 0"
    using lock_ok_holder [OF ok] that by auto
  have dead: "\<forall>q. \<not> holds_lock s q" if "lk_owner (lmem s) = h" "a = Steal h" for h
  proof (intro allI notI)
    fix q assume q: "holds_lock s q"
    then have "h - 1 = q" using lock_ok_holder [OF ok q] that by simp
    then show False using pc q that(2) by (simp add: pc_ok_def holds_lock_def)
  qed
  have "(lk_owner l' = lk_owner (lmem s) \<or> lk_owner l' = p + 1 \<and> (\<forall>q. \<not> holds_lock s q)) \<and>
      pc_ok (s\<lparr>lmem := l'\<rparr>) p a'"
  proof (cases a)
    case (Spin n)
    then show ?thesis
      using step pc free by (cases n) (auto simp: cas_owner_def pc_ok_def split: if_splits)
  next
    case LoadOwner
    then show ?thesis using step pc w by (auto simp: pc_ok_def split: if_splits)
  next
    case TryFree
    then show ?thesis using step pc free by (auto simp: cas_owner_def pc_ok_def split: if_splits)
  next
    case (AskAlive h)
    then show ?thesis
      using step pc alive slot_of_owner [of h] by (auto simp: pc_ok_def split: if_splits)
  next
    case (Steal h)
    then show ?thesis using step pc dead by (auto simp: cas_owner_def pc_ok_def split: if_splits)
  qed (use step pc in \<open>auto simp: pc_ok_def\<close>)
  then show "lk_owner l' = lk_owner (lmem s) \<or> lk_owner l' = p + 1 \<and> (\<forall>q. \<not> holds_lock s q)"
    "pc_ok (s\<lparr>lmem := l'\<rparr>) p a'" by simp_all
qed

lemma pc_ok_pcs [simp]: "pc_ok (s\<lparr>pcs := f\<rparr>) q b = pc_ok s q b" "pc_ok (s\<lparr>lmem := l, pcs := f\<rparr>) q b = pc_ok (s\<lparr>lmem := l\<rparr>) q b"
  by (simp_all add: pc_ok_def cong: acq.case_cong)

lemma pc_ok_mem:
  assumes "pc_ok s q b" "holds_lock s q \<Longrightarrow> lk_owner l = lk_owner (lmem s)" "pcs s q = Some b"
  shows "pc_ok (s\<lparr>lmem := l\<rparr>) q b"
  using assms by (cases b) (auto simp: pc_ok_def holds_lock_def)

lemma lock_ok_step:
  assumes ok: "lock_ok s" and step: "lstep s s'"
  shows "lock_ok s'"
  using step
proof (cases rule: lstep.cases)
  case (lstart p)
  then show ?thesis using ok by (simp add: lock_ok_def) (simp add: pc_ok_def)
next
  case (laccess p a is_alive now a' l')
  note acc = access_owner [OF ok laccess(2-5)]
  have pc: "pc_ok s q b" if "pcs s q = Some b" for q b using ok that by (simp add: lock_ok_def)
  have "lk_owner l' \<le> 2 ^ 32" using acc(1) ok pc [OF laccess(3)] by (auto simp: lock_ok_def pc_ok_def)
  moreover have "pc_ok (s\<lparr>lmem := l'\<rparr>) q b" if "q \<noteq> p" "pcs s q = Some b" for q b
    using pc [OF that(2)] that(2) acc(1) by (intro pc_ok_mem) auto
  ultimately show ?thesis using laccess(1) acc(2) by (auto simp: lock_ok_def)
next
  case (lreturn p h)
  then show ?thesis using ok by (simp add: lock_ok_def)
next
  case (ldrop p)
  let ?l = "guard_drop \<lparr>tg_want = p + 1\<rparr> (lmem s)"
  have own: "lk_owner (lmem s) = p + 1" using lock_ok_holder [OF ok, of p] ldrop by (simp add: holds_lock_def)
  have "pc_ok (s\<lparr>lmem := ?l\<rparr>) q b" if "q \<noteq> p" "pcs s q = Some b" for q b
  proof (rule pc_ok_mem)
    show "pc_ok s q b" using ok that by (simp add: lock_ok_def)
    assume "holds_lock s q"
    then show "lk_owner ?l = lk_owner (lmem s)" using lock_ok_holder [OF ok] own that(1) by fastforce
  qed (rule that(2))
  then show ?thesis using ldrop(1) own by (simp add: lock_ok_def guard_drop_def cas_owner_def)
next
  case (ldie p)
  have "pc_ok (s\<lparr>live := (live s)(p := False)\<rparr>) q b" if "pc_ok s q b" for q b
    using that by (cases b) (auto simp: pc_ok_def)
  then show ?thesis using ldie ok by (simp add: lock_ok_def)
qed

lemma lock_ok_reachable: "lstep\<^sup>*\<^sup>* lock_init s \<Longrightarrow> lock_ok s"
  by (induction rule: rtranclp_induct) (auto intro: lock_init_ok lock_ok_step)

subsection \<open>Properties\<close>

text \<open>\<open>acquire\<close> with nothing in its way. It takes a free lock, refuses one of a live owner and one
  the caller holds already, takes the lock of a dead owner, and stamps the time exactly when it
  takes the lock; its atomic accesses, run one after the other, end within 1029 steps with this
  result. Dropping the guard frees the lock unless it has been stolen since.\<close>

theorem acquire_correct:
  "acquire_run (TOPO_LOCK_SPIN_LIMIT + 5) p now alive (Spin TOPO_LOCK_SPIN_LIMIT, l) =
     (case acquire p now alive l of (Inr _, l') \<Rightarrow> (Held, l') | (Inl (TopoContended h), l') \<Rightarrow> (GaveUp h, l')) \<and>
   acquire p now alive l =
     (if lk_owner l \<noteq> 0 \<and> (slot_of (lk_owner l) = p \<or> alive (slot_of (lk_owner l)))
      then (Inl (TopoContended (slot_of (lk_owner l))), l)
      else (Inr \<lparr>tg_want = p + 1\<rparr>, l\<lparr>lk_owner := p + 1, lk_acquired_at := now\<rparr>)) \<and>
   lk_owner (guard_drop \<lparr>tg_want = p + 1\<rparr> (l\<lparr>lk_owner := o'\<rparr>)) = (if o' = p + 1 then 0 else o')"
proof -
  let ?c = "acquire_run (TOPO_LOCK_SPIN_LIMIT + 5) p now alive (Spin TOPO_LOCK_SPIN_LIMIT, l)"
  have "?c = (fst ?c, snd ?c)" by simp
  moreover have "acq_result p (fst ?c) = Some (fst (acquire p now alive l))" "snd ?c = snd (acquire p now alive l)"
    using acquire_machine by blast+
  moreover have "acq_result p a = Some (Inr g) \<longleftrightarrow> a = Held \<and> g = \<lparr>tg_want = p + 1\<rparr>"
    "acq_result p a = Some (Inl e) \<longleftrightarrow> (\<exists>h. a = GaveUp h \<and> e = TopoContended h)" for a g e
    by (cases a; auto)+
  ultimately have "?c = (case acquire p now alive l of (Inr _, l') \<Rightarrow> (Held, l') | (Inl (TopoContended h), l') \<Rightarrow> (GaveUp h, l'))"
    by (auto split: prod.splits sum.splits topo_lock_error.splits)
  then show ?thesis
    using acquire_at_rest [of l p now alive]
    by (cases "lk_owner l = 0") (simp_all add: guard_drop_def cas_owner_def)
qed



end
