(* ===== verification/Claims.thy ===== *)
theory Claims
  imports Ring
begin

text \<open>
  Edge records, the claim table and the publisher handle of \<open>tf_tree_core/src/edge.rs\<close>. A claim is one
  64-bit owner word, \<open>(epoch << 16) | (slot + 1)\<close>, and an epoch that every claim and every reap bumps;
  a publisher compares the epoch before each push and releases with a compare-exchange on its word.

  \<open>claim\<close> and \<open>reap\<close> are the sequence of their atomic accesses; the last section interleaves them.
\<close>

subsection \<open>Edge records\<close>

datatype edge_kind = Dynamic | Static | Tombstone

definition edge_kind_from_u8 :: "nat \<Rightarrow> edge_kind" where
  "edge_kind_from_u8 v = (if v = 0 then Dynamic else if v = 1 then Static else Tombstone)"

fun edge_kind_as_u8 :: "edge_kind \<Rightarrow> nat" where
  "edge_kind_as_u8 Dynamic = 0"
| "edge_kind_as_u8 Static = 1"
| "edge_kind_as_u8 Tombstone = 2"

record edge_record =
  er_parent :: nat
  er_child :: nat
  er_kind :: nat
  er_interp :: nat
  er_domain :: nat
  er_capacity :: nat
  er_stamp_off :: nat
  er_pose_off :: nat
  er_nominal_rate_mhz :: nat
  er_head :: nat
  er_static_pose :: "real list"
  er_declared_by_slot :: nat

definition edge_record_dynamic :: "nat \<Rightarrow> nat \<Rightarrow> nat \<Rightarrow> nat \<Rightarrow> nat \<Rightarrow> nat \<Rightarrow> nat \<Rightarrow> edge_record" where
  "edge_record_dynamic par child cap stamp_off pose_off interp dmn =
     \<lparr>er_parent = par, er_child = child, er_kind = edge_kind_as_u8 Dynamic, er_interp = interp,
      er_domain = dmn, er_capacity = cap, er_stamp_off = stamp_off, er_pose_off = pose_off,
      er_nominal_rate_mhz = 0, er_head = 0, er_static_pose = replicate 7 0,
      er_declared_by_slot = 2 ^ 32 - 1\<rparr>"

definition edge_record_static :: "nat \<Rightarrow> nat \<Rightarrow> real list \<Rightarrow> nat \<Rightarrow> edge_record" where
  "edge_record_static par child pose dmn =
     \<lparr>er_parent = par, er_child = child, er_kind = edge_kind_as_u8 Static, er_interp = 0,
      er_domain = dmn, er_capacity = 0, er_stamp_off = 0, er_pose_off = 0,
      er_nominal_rate_mhz = 0, er_head = 0, er_static_pose = pose,
      er_declared_by_slot = 2 ^ 32 - 1\<rparr>"

lemma edge_kind_round_trip [simp]: "edge_kind_from_u8 (edge_kind_as_u8 k) = k"
  by (cases k) (simp_all add: edge_kind_from_u8_def)

subsection \<open>Claim records\<close>

record claim_record =
  cl_owner :: u64
  cl_epoch :: u64
  cl_heartbeat :: u64
  cl_clock_offset :: int

definition claim_record_new :: claim_record where
  "claim_record_new = \<lparr>cl_owner = 0, cl_epoch = 0, cl_heartbeat = 0, cl_clock_offset = 0\<rparr>"

definition CLAIMING :: u64 where "CLAIMING = - 1"

definition pack_owner :: "u64 \<Rightarrow> nat \<Rightarrow> u64" where
  "pack_owner epoch participant_slot = push_bit 16 epoch OR (word_of_nat participant_slot + 1)"

definition claim_slot_of :: "u64 \<Rightarrow> nat" where
  "claim_slot_of word =
     (if word = 0 \<or> word = CLAIMING then 2 ^ 32 - 1 else unat (word AND 0xFFFF) - 1)"

definition is_claiming :: "u64 \<Rightarrow> bool" where
  "is_claiming word \<longleftrightarrow> word = CLAIMING"

text \<open>The three accesses of \<open>claim\<close>, then the two of \<open>reap\<close>.\<close>

definition claim_cas :: "claim_record \<Rightarrow> (claim_error + unit) \<times> claim_record" where
  "claim_cas rec =
     (if cl_owner rec = 0 then (Inr (), rec\<lparr>cl_owner := CLAIMING\<rparr>)
      else (Inl (EdgeAlreadyClaimed (claim_slot_of (cl_owner rec))), rec))"

definition bump_epoch :: "claim_record \<Rightarrow> u64 \<times> claim_record" where
  "bump_epoch rec = (cl_epoch rec + 1, rec\<lparr>cl_epoch := cl_epoch rec + 1\<rparr>)"

definition store_owner :: "u64 \<Rightarrow> claim_record \<Rightarrow> claim_record" where
  "store_owner w rec = rec\<lparr>cl_owner := w\<rparr>"

definition claim :: "claim_record \<Rightarrow> nat \<Rightarrow> (claim_error + u64 \<times> u64) \<times> claim_record" where
  "claim rec participant_slot =
     (case claim_cas rec of
        (Inl e, r) \<Rightarrow> (Inl e, r)
      | (Inr _, r) \<Rightarrow>
          (case bump_epoch r of (epoch, r') \<Rightarrow>
             let word = pack_owner epoch participant_slot
             in (Inr (epoch, word), store_owner word r')))"

definition release :: "claim_record \<Rightarrow> u64 \<Rightarrow> claim_record" where
  "release rec owner = (if cl_owner rec = owner then rec\<lparr>cl_owner := 0\<rparr> else rec)"

definition reap :: "claim_record \<Rightarrow> claim_record" where
  "reap rec = store_owner 0 (snd (bump_epoch rec))"

subsection \<open>Publishers\<close>

record publisher =
  pu_epoch :: u64
  pu_owner :: u64
  pu_abandoned :: bool

definition publisher_new :: "u64 \<Rightarrow> u64 \<Rightarrow> publisher" where
  "publisher_new epoch owner = \<lparr>pu_epoch = epoch, pu_owner = owner, pu_abandoned = False\<rparr>"

definition abandon :: "publisher \<Rightarrow> publisher" where
  "abandon p = p\<lparr>pu_abandoned := True\<rparr>"

definition publisher_push :: "publisher \<Rightarrow> claim_record \<Rightarrow> int \<Rightarrow> iso3 \<Rightarrow> sample_ring \<Rightarrow> push_error + sample_ring" where
  "publisher_push p rec stamp a r =
     (if cl_epoch rec \<noteq> pu_epoch p then Inl (ClaimRevoked (ring_edge r)) else push stamp a r)"

definition publisher_drop :: "publisher \<Rightarrow> claim_record \<Rightarrow> claim_record" where
  "publisher_drop p rec = (if pu_abandoned p then rec else release rec (pu_owner p))"

subsection \<open>Owner words\<close>

lemma low_half:
  assumes n: "n < 2 ^ 16" "16 \<le> i"
  shows "\<not> bit (word_of_nat n :: u64) i"
proof
  assume b: "bit (word_of_nat n :: u64) i"
  have "n < 2 ^ i" using n power_increasing [of 16 i "2 :: nat"] by simp
  moreover from b have "bit (unat (word_of_nat n :: u64)) i" by (simp add: bit_unsigned_iff bit_imp_le_length)
  moreover have "unat (word_of_nat n :: u64) = n" using n by (simp add: unat_of_nat)
  ultimately show False by (simp add: bit_iff_odd)
qed

lemma low_mask:
  assumes "\<And>i. 16 \<le> i \<Longrightarrow> \<not> bit w i"
  shows "(push_bit 16 e OR w) AND mask 16 = (w :: u64)"
proof (rule bit_word_eqI)
  fix n show "bit ((push_bit 16 e OR w) AND mask 16) n \<longleftrightarrow> bit w n" if "n < LENGTH(64)"
    using assms [of n] that by (cases "n < 16") (auto simp: bit_simps)
qed

lemma pack_owner_parts:
  assumes "s < 65535"
  shows "unat (pack_owner e s AND 0xFFFF) = s + 1" "drop_bit 16 (pack_owner e s) = e AND mask 48"
proof -
  have p: "pack_owner e s = push_bit 16 e OR word_of_nat (s + 1)" by (simp add: pack_owner_def add.commute)
  have m: "(0xFFFF :: u64) = mask 16" by (simp add: mask_eq_exp_minus_1)
  have hi: "\<not> bit (word_of_nat (s + 1) :: u64) i" if "16 \<le> i" for i using assms that by (intro low_half) simp_all
  have "pack_owner e s AND 0xFFFF = word_of_nat (s + 1)"
    unfolding p m using hi by (rule low_mask)
  moreover have "unat (word_of_nat (s + 1) :: u64) = s + 1" using assms by (simp add: unat_of_nat del: of_nat_add of_nat_Suc)
  ultimately show "unat (pack_owner e s AND 0xFFFF) = s + 1" by simp
  show "drop_bit 16 (pack_owner e s) = e AND mask 48"
    unfolding p using hi by (intro bit_word_eqI) (auto simp: bit_simps dest: bit_imp_le_length)
qed

lemma pack_owner_inj:
  assumes "s < 65534" "s' < 65534" "pack_owner e s = pack_owner e' s'"
  shows "s = s'" "e AND mask 48 = e' AND mask 48"
  using assms pack_owner_parts [of s e] pack_owner_parts [of s' e'] by simp_all

lemma pack_owner_held:
  assumes "s < 65534"
  shows "pack_owner e s \<noteq> 0" "pack_owner e s \<noteq> CLAIMING"
proof -
  have s: "unat (pack_owner e s AND 0xFFFF) = s + 1" using assms by (simp add: pack_owner_parts)
  then show "pack_owner e s \<noteq> 0" by auto
  show "pack_owner e s \<noteq> CLAIMING"
  proof
    assume "pack_owner e s = CLAIMING"
    with s have "unat ((- 1 :: u64) AND 0xFFFF) = s + 1" by (simp only: CLAIMING_def)
    then have "65535 = s + 1" by simp
    with assms show False by simp
  qed
qed

lemma claim_slot_of_pack [simp]: "s < 65534 \<Longrightarrow> claim_slot_of (pack_owner e s) = s"
  by (simp add: claim_slot_of_def pack_owner_held pack_owner_parts)

lemma epoch_bits_moved: "(e + 2) AND mask 48 \<noteq> (e :: u64) AND mask 48"
proof
  assume eq: "(e + 2) AND mask 48 = e AND mask 48"
  have "unat (e + 2) = (unat e + 2) mod 2 ^ 64" by (simp add: unat_word_ariths)
  then have "unat (e + 2) mod 2 ^ 48 = (unat e + 2) mod 2 ^ 48" by (simp add: mod_mod_cancel)
  then have "(unat e + 2) mod 2 ^ 48 = unat e mod 2 ^ 48"
    using arg_cong [OF eq, of unat] by (simp add: unat_and_mask)
  then have "unat e = unat e + 2" by (intro mod_window_inj [of "unat e" "2 ^ 48"]) simp_all
  then show False by simp
qed

lemma small_epoch:
  assumes "unat e < 2 ^ 48" "unat e' < 2 ^ 48" "e AND mask 48 = (e' :: u64) AND mask 48"
  shows "e = e'"
  using assms arg_cong [OF assms(3), of unat] by (simp add: unat_and_mask word_unat_eq_iff)

subsection \<open>Interleaving claimers, publishers and reapers\<close>

text \<open>Where a thread stands. \<open>slot\<close> gives the participant slot of a thread; several threads may share
  one. \<open>bumps\<close> counts the changes of the epoch without its wrap.\<close>

datatype claim_pc = Wanting | WonCas | Bumped u64 | Publishing publisher | Reaping

record claim_sys =
  crec :: claim_record
  cpc :: "nat \<Rightarrow> claim_pc option"
  bumps :: nat

definition at_pc :: "claim_sys \<Rightarrow> claim_record \<Rightarrow> nat \<Rightarrow> claim_pc option \<Rightarrow> claim_sys" where
  "at_pc s r t pc = s\<lparr>crec := r, cpc := (cpc s)(t := pc)\<rparr>"

inductive cstep :: "bool \<Rightarrow> (nat \<Rightarrow> nat) \<Rightarrow> claim_sys \<Rightarrow> claim_sys \<Rightarrow> bool" for reaping slot where
  c_start: "cpc s t = None \<Longrightarrow> cstep reaping slot s (at_pc s (crec s) t (Some Wanting))"
| c_lose: "cpc s t = Some Wanting \<Longrightarrow> claim_cas (crec s) = (Inl e, r) \<Longrightarrow>
    cstep reaping slot s (at_pc s r t None)"
| c_win: "cpc s t = Some Wanting \<Longrightarrow> claim_cas (crec s) = (Inr x, r) \<Longrightarrow>
    cstep reaping slot s (at_pc s r t (Some WonCas))"
| c_bump: "cpc s t = Some WonCas \<Longrightarrow> bump_epoch (crec s) = (e, r) \<Longrightarrow>
    cstep reaping slot s (at_pc s r t (Some (Bumped e))\<lparr>bumps := bumps s + 1\<rparr>)"
| c_publish: "cpc s t = Some (Bumped e) \<Longrightarrow>
    cstep reaping slot s (at_pc s (store_owner (pack_owner e (slot t)) (crec s)) t
      (Some (Publishing (publisher_new e (pack_owner e (slot t))))))"
| c_drop: "cpc s t = Some (Publishing p) \<Longrightarrow> cstep reaping slot s (at_pc s (publisher_drop p (crec s)) t None)"
| c_abandon: "cpc s t = Some (Publishing p) \<Longrightarrow>
    cstep reaping slot s (at_pc s (crec s) t (Some (Publishing (abandon p))))"
| c_reap: "reaping \<Longrightarrow> cpc s t = None \<Longrightarrow> bump_epoch (crec s) = (e, r) \<Longrightarrow>
    cstep reaping slot s (at_pc s r t (Some Reaping)\<lparr>bumps := bumps s + 1\<rparr>)"
| c_reaped: "cpc s t = Some Reaping \<Longrightarrow> cstep reaping slot s (at_pc s (store_owner 0 (crec s)) t None)"
| c_die: "cstep reaping slot s (at_pc s (crec s) t None)"

definition claim_init :: claim_sys where
  "claim_init = \<lparr>crec = claim_record_new, cpc = (\<lambda>_. None), bumps = 0\<rparr>"

fun pc_epoch :: "claim_pc option \<Rightarrow> u64 option" where
  "pc_epoch (Some (Bumped e)) = Some e"
| "pc_epoch (Some (Publishing p)) = Some (pu_epoch p)"
| "pc_epoch _ = None"

fun pc_word_ok :: "nat \<Rightarrow> claim_pc option \<Rightarrow> bool" where
  "pc_word_ok sl (Some (Publishing p)) \<longleftrightarrow> pu_owner p = pack_owner (pu_epoch p) sl"
| "pc_word_ok sl _ \<longleftrightarrow> True"

definition epochs_ok :: "claim_sys \<Rightarrow> bool" where
  "epochs_ok s \<longleftrightarrow> unat (cl_epoch (crec s)) = bumps s \<and>
     (\<forall>t e. pc_epoch (cpc s t) = Some e \<longrightarrow> unat e \<le> bumps s) \<and>
     (\<forall>t u e. pc_epoch (cpc s t) = Some e \<and> pc_epoch (cpc s u) = Some e \<longrightarrow> t = u)"

definition words_ok :: "(nat \<Rightarrow> nat) \<Rightarrow> claim_sys \<Rightarrow> bool" where
  "words_ok slot s \<longleftrightarrow> (\<forall>t. pc_word_ok (slot t) (cpc s t)) \<and>
     (cl_owner (crec s) = 0 \<or> cl_owner (crec s) = CLAIMING \<or>
      (\<exists>t e. cl_owner (crec s) = pack_owner e (slot t)))"

lemmas access_defs = claim_cas_def bump_epoch_def store_owner_def publisher_drop_def release_def
  publisher_new_def abandon_def at_pc_def

lemma words_ok_publishing:
  "words_ok slot s \<Longrightarrow> cpc s t = Some (Publishing p) \<Longrightarrow> pu_owner p = pack_owner (pu_epoch p) (slot t)"
  by (metis words_ok_def pc_word_ok.simps(1))

lemma words_ok_step: "cstep reaping slot s s' \<Longrightarrow> words_ok slot s \<Longrightarrow> words_ok slot s'"
proof (induction rule: cstep.induct)
  case (c_abandon s t p)
  with words_ok_publishing show ?case by (fastforce simp: words_ok_def access_defs)
qed (auto simp: words_ok_def access_defs split: if_splits)

lemma words_ok_init: "words_ok slot claim_init"
  by (simp add: words_ok_def claim_init_def claim_record_new_def)

lemma words_ok_reachable: "(cstep reaping slot)\<^sup>*\<^sup>* claim_init s \<Longrightarrow> words_ok slot s"
  by (induction rule: rtranclp_induct) (auto intro: words_ok_step words_ok_init)

lemma bumps_mono: "cstep reaping slot s s' \<Longrightarrow> bumps s \<le> bumps s'"
  by (induction rule: cstep.induct) (simp_all add: at_pc_def)

text \<open>A step that leaves the epoch alone gives no thread an epoch it did not have.\<close>

lemma epochs_ok_keep:
  assumes "epochs_ok s" "cl_epoch (crec s') = cl_epoch (crec s)" "bumps s' = bumps s"
    "\<And>t e. pc_epoch (cpc s' t) = Some e \<Longrightarrow> pc_epoch (cpc s t) = Some e"
  shows "epochs_ok s'"
  using assms unfolding epochs_ok_def by metis

lemma epochs_ok_fresh:
  assumes ok: "epochs_ok s" and small: "bumps s + 1 < 2 ^ 48"
    and s': "cl_epoch (crec s') = cl_epoch (crec s) + 1" "bumps s' = bumps s + 1"
      "\<And>u. u \<noteq> t \<Longrightarrow> pc_epoch (cpc s' u) = pc_epoch (cpc s u)"
      "pc_epoch (cpc s' t) = None \<or> pc_epoch (cpc s' t) = Some (cl_epoch (crec s) + 1)"
  shows "epochs_ok s'"
proof -
  have e: "unat (cl_epoch (crec s) + 1) = bumps s + 1"
    using ok small by (simp add: epochs_ok_def unat_word_ariths)
  have new: "unat x \<le> bumps s" if "u \<noteq> t" "pc_epoch (cpc s' u) = Some x" for u x
    using ok that s'(3) by (simp add: epochs_ok_def)
  have same: "x = cl_epoch (crec s) + 1" if "pc_epoch (cpc s' t) = Some x" for x using s'(4) that by auto
  show ?thesis
    unfolding epochs_ok_def
  proof (intro conjI allI impI)
    show "unat (cl_epoch (crec s')) = bumps s'" using e s' by simp
    show "unat x \<le> bumps s'" if "pc_epoch (cpc s' u) = Some x" for u x
      using new [of u x] same [of x] that e s'(2) by (cases "u = t") auto
    show "u = v" if "pc_epoch (cpc s' u) = Some x \<and> pc_epoch (cpc s' v) = Some x" for u v x
    proof (cases "u = t \<or> v = t")
      case True
      then show ?thesis using that new [of u x] new [of v x] same [of x] e by fastforce
    next
      case False
      then show ?thesis using that ok s'(3) by (metis epochs_ok_def)
    qed
  qed
qed

lemma epochs_ok_step:
  assumes "cstep reaping slot s s'" "epochs_ok s" "bumps s' < 2 ^ 48"
  shows "epochs_ok s'"
  using assms
proof (cases rule: cstep.cases)
  case (c_bump t e r)
  then have "crec s' = crec s\<lparr>cl_epoch := cl_epoch (crec s) + 1\<rparr>" "bumps s' = bumps s + 1"
    "cpc s' = (cpc s)(t := Some (Bumped (cl_epoch (crec s) + 1)))"
    by (auto simp: access_defs)
  then show ?thesis
    using assms(3) by (intro epochs_ok_fresh [OF assms(2), where t = t]) simp_all
next
  case (c_reap t e r)
  then have "crec s' = crec s\<lparr>cl_epoch := cl_epoch (crec s) + 1\<rparr>" "bumps s' = bumps s + 1"
    "cpc s' = (cpc s)(t := Some Reaping)"
    by (auto simp: access_defs)
  then show ?thesis
    using assms(3) by (intro epochs_ok_fresh [OF assms(2), where t = t]) simp_all
qed (rule epochs_ok_keep [OF assms(2)]; auto simp: access_defs split: if_splits)+

lemma epochs_ok_reachable: "(cstep reaping slot)\<^sup>*\<^sup>* claim_init s \<Longrightarrow> bumps s < 2 ^ 48 \<Longrightarrow> epochs_ok s"
proof (induction rule: rtranclp_induct)
  case base
  then show ?case by (simp add: epochs_ok_def claim_init_def claim_record_new_def)
next
  case (step s s')
  then show ?case using epochs_ok_step bumps_mono [OF step(2)] by fastforce
qed

text \<open>Without reaping the word names the one thread past its compare-exchange.\<close>

fun pc_owner :: "claim_pc option \<Rightarrow> u64 option" where
  "pc_owner (Some WonCas) = Some CLAIMING"
| "pc_owner (Some (Bumped e)) = Some CLAIMING"
| "pc_owner (Some (Publishing p)) = Some (pu_owner p)"
| "pc_owner _ = None"

definition single_ok :: "claim_sys \<Rightarrow> bool" where
  "single_ok s \<longleftrightarrow> (\<forall>t. cpc s t \<noteq> Some Reaping) \<and>
     (\<forall>t w. pc_owner (cpc s t) = Some w \<longrightarrow> w \<noteq> 0 \<and> cl_owner (crec s) = w \<and>
        (\<forall>u. pc_owner (cpc s u) \<noteq> None \<longrightarrow> u = t))"

lemma single_holder:
  "single_ok s \<Longrightarrow> pc_owner (cpc s t) = Some w \<Longrightarrow>
     w \<noteq> 0 \<and> cl_owner (crec s) = w \<and> (\<forall>u. u \<noteq> t \<longrightarrow> pc_owner (cpc s u) = None)"
  unfolding single_ok_def by blast

lemma single_ok_bumps [simp]: "single_ok (s\<lparr>bumps := n\<rparr>) \<longleftrightarrow> single_ok s"
  by (simp add: single_ok_def)

lemma single_ok_at:
  assumes "single_ok s" "\<forall>u. u \<noteq> t \<longrightarrow> pc_owner (cpc s u) = None" "pc \<noteq> Some Reaping"
    "\<And>w. pc_owner pc = Some w \<Longrightarrow> w \<noteq> 0 \<and> cl_owner r = w"
  shows "single_ok (at_pc s r t pc)"
  using assms by (auto simp: single_ok_def at_pc_def)

lemma single_ok_none:
  "single_ok s \<Longrightarrow> cl_owner r = cl_owner (crec s) \<Longrightarrow> pc_owner pc = None \<Longrightarrow> pc \<noteq> Some Reaping \<Longrightarrow>
     single_ok (at_pc s r t pc)"
  by (auto simp: single_ok_def at_pc_def)

lemma single_ok_step:
  assumes "cstep False slot s s'" "\<forall>t. slot t < 65534" "single_ok s"
  shows "single_ok s'"
proof -
  have nz: "pack_owner e (slot t) \<noteq> 0" "CLAIMING \<noteq> 0" for e t
    using assms(2) pack_owner_held by (auto simp: CLAIMING_def)
  note holder = single_holder [OF assms(3)]
  show ?thesis
    using assms(1)
  proof (cases rule: cstep.cases)
    case (c_lose t e r)
    then have "r = crec s" by (auto simp: claim_cas_def split: if_splits)
    then show ?thesis unfolding c_lose(1) using assms(3) by (intro single_ok_none) simp_all
  next
    case (c_win t x r)
    then have "cl_owner (crec s) = 0" "cl_owner r = CLAIMING" by (auto simp: claim_cas_def split: if_splits)
    moreover from this have "pc_owner (cpc s u) = None" for u using holder by (metis not_Some_eq)
    ultimately show ?thesis unfolding c_win(1) using nz by (intro single_ok_at [OF assms(3)]) auto
  next
    case (c_bump t e r)
    then have "pc_owner (cpc s t) = Some CLAIMING" "cl_owner r = cl_owner (crec s)" by (auto simp: bump_epoch_def)
    then show ?thesis
      unfolding c_bump(1) single_ok_bumps using holder by (intro single_ok_at [OF assms(3)]) auto
  next
    case (c_publish t e)
    then have "pc_owner (cpc s t) = Some CLAIMING" by simp
    then show ?thesis
      unfolding c_publish(1) using holder nz
      by (intro single_ok_at [OF assms(3)]) (auto simp: store_owner_def publisher_new_def)
  next
    case (c_drop t p)
    then have "pc_owner (cpc s t) = Some (pu_owner p)" by simp
    then show ?thesis unfolding c_drop(1) using holder by (intro single_ok_at [OF assms(3)]) auto
  next
    case (c_abandon t p)
    then have "pc_owner (cpc s t) = Some (pu_owner p)" by simp
    then show ?thesis
      unfolding c_abandon(1) using holder by (intro single_ok_at [OF assms(3)]) (auto simp: abandon_def)
  next
    case (c_reaped t)
    then show ?thesis using assms(3) by (simp add: single_ok_def)
  qed (simp_all add: single_ok_none assms(3))
qed

lemma single_ok_init: "single_ok claim_init"
  by (simp add: single_ok_def claim_init_def)

lemma single_ok_reachable:
  "(cstep False slot)\<^sup>*\<^sup>* claim_init s \<Longrightarrow> \<forall>t. slot t < 65534 \<Longrightarrow> single_ok s"
  by (induction rule: rtranclp_induct) (auto intro: single_ok_step single_ok_init)

text \<open>The functions \<open>claim\<close> and \<open>reap\<close> are what a thread does when it runs alone.\<close>

lemma at_pc_simps [simp]:
  "crec (at_pc s r t pc) = r" "cpc (at_pc s r t pc) = (cpc s)(t := pc)" "bumps (at_pc s r t pc) = bumps s"
  "at_pc (at_pc s r t pc) r' t pc' = at_pc s r' t pc'"
  "at_pc (s\<lparr>bumps := n\<rparr>) r t pc = at_pc s r t pc\<lparr>bumps := n\<rparr>"
  by (simp_all add: at_pc_def)

lemma claim_alone:
  assumes "cpc s t = None" "claim (crec s) (slot t) = (Inr (e, w), r)"
  shows "(cstep reaping slot)\<^sup>*\<^sup>* s (at_pc s r t (Some (Publishing (publisher_new e w)))\<lparr>bumps := bumps s + 1\<rparr>)"
proof -
  let ?r1 = "crec s\<lparr>cl_owner := CLAIMING\<rparr>"
  let ?r2 = "?r1\<lparr>cl_epoch := cl_epoch (crec s) + 1\<rparr>"
  have cas: "claim_cas (crec s) = (Inr (), ?r1)" and e: "e = cl_epoch (crec s) + 1"
    "w = pack_owner e (slot t)" "r = store_owner w ?r2"
    using assms(2) by (auto simp: claim_def claim_cas_def bump_epoch_def Let_def split: if_splits)
  let ?s1 = "at_pc s (crec s) t (Some Wanting)" and ?s2 = "at_pc s ?r1 t (Some WonCas)"
  let ?s3 = "at_pc s ?r2 t (Some (Bumped e))\<lparr>bumps := bumps s + 1\<rparr>"
  have "cstep reaping slot s ?s1" using assms(1) by (rule c_start)
  also have "(cstep reaping slot)\<^sup>*\<^sup>* ?s1 ?s2"
    using c_win [of ?s1 t "()" ?r1 reaping slot] cas by simp
  also have "cstep reaping slot ?s2 ?s3"
    using c_bump [of ?s2 t e ?r2 reaping slot] e by (simp add: bump_epoch_def)
  also have "cstep reaping slot ?s3 (at_pc s r t (Some (Publishing (publisher_new e w)))\<lparr>bumps := bumps s + 1\<rparr>)"
    using c_publish [of ?s3 t e reaping slot] e by simp
  finally show ?thesis by simp
qed

lemma reap_alone:
  assumes "cpc s t = None"
  shows "(cstep True slot)\<^sup>*\<^sup>* s (at_pc s (reap (crec s)) t None\<lparr>bumps := bumps s + 1\<rparr>)"
proof -
  let ?r = "crec s\<lparr>cl_epoch := cl_epoch (crec s) + 1\<rparr>"
  let ?s1 = "at_pc s ?r t (Some Reaping)\<lparr>bumps := bumps s + 1\<rparr>"
  have "cstep True slot s ?s1" using assms by (intro c_reap) (simp_all add: bump_epoch_def)
  moreover have "cstep True slot ?s1 (at_pc s (reap (crec s)) t None\<lparr>bumps := bumps s + 1\<rparr>)"
    using c_reaped [of ?s1 t True slot] by (simp add: reap_def bump_epoch_def)
  ultimately show ?thesis by (meson r_into_rtranclp rtranclp.rtrancl_into_rtrancl)
qed

text \<open>Thread 0 publishes; thread 1 reaps it and publishes in its place.\<close>

definition first_claim :: claim_sys where
  "first_claim = \<lparr>crec = claim_record_new\<lparr>cl_epoch := 1, cl_owner := pack_owner 1 0\<rparr>,
     cpc = [0 \<mapsto> Publishing (publisher_new 1 (pack_owner 1 0))], bumps = 1\<rparr>"

definition taken_over :: claim_sys where
  "taken_over = \<lparr>crec = claim_record_new\<lparr>cl_epoch := 3, cl_owner := pack_owner 3 1\<rparr>,
     cpc = [0 \<mapsto> Publishing (publisher_new 1 (pack_owner 1 0)), 1 \<mapsto> Publishing (publisher_new 3 (pack_owner 3 1))],
     bumps = 3\<rparr>"

definition two_slots :: "nat \<Rightarrow> nat" where "two_slots t = (if t = 0 then 0 else 1)"

lemma two_slots_small: "\<forall>t. two_slots t < 65534" "two_slots 0 = 0" "two_slots 1 = 1" "two_slots (Suc 0) = 1"
  by (simp_all add: two_slots_def)

lemmas claim_eval = claim_def claim_cas_def bump_epoch_def store_owner_def Let_def

lemma first_claim_reachable: "(cstep reaping two_slots)\<^sup>*\<^sup>* claim_init first_claim"
  using claim_alone [of claim_init 0 two_slots 1 "pack_owner 1 0" _ reaping]
  by (simp add: claim_eval claim_init_def claim_record_new_def two_slots_small first_claim_def at_pc_def)

lemma taken_over_reachable: "(cstep True two_slots)\<^sup>*\<^sup>* claim_init taken_over"
proof -
  have reaped: "reap (crec first_claim) = claim_record_new\<lparr>cl_epoch := 2, cl_owner := 0\<rparr>"
    by (simp add: reap_def bump_epoch_def store_owner_def first_claim_def claim_record_new_def)
  have empty: "cpc first_claim 1 = None" by (simp add: first_claim_def)
  define s where "s = at_pc first_claim (reap (crec first_claim)) 1 None\<lparr>bumps := bumps first_claim + 1\<rparr>"
  have s: "crec s = claim_record_new\<lparr>cl_epoch := 2, cl_owner := 0\<rparr>" "cpc s 1 = None"
    "cpc s = cpc first_claim" "bumps s = 2"
    using empty by (simp_all add: s_def at_pc_def reaped fun_upd_idem) (simp add: first_claim_def)
  have "claim (crec s) (two_slots 1) = (Inr (3, pack_owner 3 1), crec taken_over)"
    unfolding s by (simp add: claim_eval claim_record_new_def two_slots_small taken_over_def)
  note claim_alone [where slot = two_slots, OF s(2) this, of True]
  moreover have "at_pc s (crec taken_over) 1 (Some (Publishing (publisher_new 3 (pack_owner 3 1))))\<lparr>bumps := bumps s + 1\<rparr> = taken_over"
    by (simp add: at_pc_def s) (simp add: taken_over_def first_claim_def)
  ultimately have "(cstep True two_slots)\<^sup>*\<^sup>* s taken_over" by simp
  with reap_alone [OF empty, of two_slots] first_claim_reachable show ?thesis
    unfolding s_def by (meson rtranclp_trans)
qed

subsection \<open>Properties\<close>

text \<open>C14: the epoch fences writers. However claims, releases, reaps and deaths interleave, two threads
  that both believe they publish hold different owner words and at most one of them gets past the
  guard of \<open>push\<close>; the other is refused and leaves the ring alone. A publisher that is dropped never
  frees the claim of another one. (The epoch must not have moved \<open>2 ^ 48\<close> times.)\<close>

theorem claim_fencing:
  assumes "(cstep True slot)\<^sup>*\<^sup>* claim_init s" "bumps s < 2 ^ 48" "\<forall>t. slot t < 65534"
    "cpc s t = Some (Publishing p)" "cpc s u = Some (Publishing q)" "t \<noteq> u"
  shows "pu_owner p \<noteq> pu_owner q \<and>
    (publisher_push p (crec s) stamp a r = Inl (ClaimRevoked (ring_edge r)) \<or>
     publisher_push q (crec s) stamp' a' r = Inl (ClaimRevoked (ring_edge r))) \<and>
    (cl_owner (crec s) = pu_owner p \<longrightarrow> publisher_drop q (crec s) = crec s)"
proof -
  have e: "epochs_ok s" and w: "words_ok slot s"
    using assms(1,2) epochs_ok_reachable words_ok_reachable by auto
  have pq: "pc_epoch (cpc s t) = Some (pu_epoch p)" "pc_epoch (cpc s u) = Some (pu_epoch q)"
    using assms(4,5) by simp_all
  then have ne: "pu_epoch p \<noteq> pu_epoch q" using e assms(6) by (metis epochs_ok_def)
  have "unat (pu_epoch p) < 2 ^ 48" "unat (pu_epoch q) < 2 ^ 48"
    using e pq assms(2) by (auto simp: epochs_ok_def intro: le_less_trans)
  then have "pu_owner p \<noteq> pu_owner q"
    using ne words_ok_publishing [OF w assms(4)] words_ok_publishing [OF w assms(5)] assms(3)
      pack_owner_inj(2) small_epoch by metis
  then show ?thesis using ne by (auto simp: publisher_push_def publisher_drop_def release_def)
qed

theorem claim_fencing_witness:
  "cpc taken_over 0 \<noteq> None \<and> cpc taken_over 1 \<noteq> None \<and>
   publisher_drop (publisher_new 1 (pack_owner 1 0)) (crec taken_over) = crec taken_over"
proof -
  have "cpc taken_over 1 = Some (Publishing (publisher_new 3 (pack_owner 3 1)))"
    "cpc taken_over 0 = Some (Publishing (publisher_new 1 (pack_owner 1 0)))" "bumps taken_over < 2 ^ 48"
    by (simp_all add: taken_over_def)
  with claim_fencing [OF taken_over_reachable _ two_slots_small(1) this(1,2)] show ?thesis
    by (simp add: publisher_new_def) (simp add: taken_over_def claim_record_new_def)
qed

text \<open>Of the threads that race for an edge one wins, as long as nothing is reaped: at most one
  thread publishes, the owner word names its slot, everyone who asks is told that slot, and its own
  release frees the edge.\<close>

theorem claim_single_winner:
  assumes "(cstep False slot)\<^sup>*\<^sup>* claim_init s" "\<forall>t. slot t < 65534" "cpc s t = Some (Publishing p)"
  shows "(cpc s u = Some (Publishing q) \<longrightarrow> u = t) \<and>
    claim (crec s) sl = (Inl (EdgeAlreadyClaimed (slot t)), crec s) \<and>
    cl_owner (publisher_drop p (crec s)) = (if pu_abandoned p then cl_owner (crec s) else 0)"
proof -
  have s: "single_ok s" and w: "words_ok slot s"
    using assms(1,2) single_ok_reachable words_ok_reachable by auto
  have p: "pc_owner (cpc s t) = Some (pu_owner p)" using assms(3) by simp
  then have own: "cl_owner (crec s) = pu_owner p" "pu_owner p \<noteq> 0" using s by (metis single_ok_def)+
  have "u = t" if "cpc s u = Some (Publishing q)"
    using s p that by (metis single_ok_def option.distinct(1) pc_owner.simps(3))
  moreover have "claim_slot_of (pu_owner p) = slot t"
    using words_ok_publishing [OF w assms(3)] assms(2) by simp
  ultimately show ?thesis
    using own by (auto simp: claim_def claim_cas_def publisher_drop_def release_def)
qed

theorem claim_single_winner_witness:
  "claim (crec first_claim) 7 = (Inl (EdgeAlreadyClaimed 0), crec first_claim)"
proof -
  have "cpc first_claim 0 = Some (Publishing (publisher_new 1 (pack_owner 1 0)))" by (simp add: first_claim_def)
  from claim_single_winner [OF first_claim_reachable two_slots_small(1) this, of 1 undefined 7] show ?thesis
    by (simp add: two_slots_small)
qed

text \<open>A claimer that is killed anywhere leaves the owner word free, in flight, or naming the slot
  of a thread that claimed. Reaping always frees the edge: it revokes whoever published, the next
  claim wins it, and the drop of the old publisher does not take it away again.\<close>

theorem claim_reapable:
  assumes "(cstep True slot)\<^sup>*\<^sup>* claim_init s" "\<forall>t. slot t < 65534" "sl < 65534"
    "cpc s t = Some (Publishing p)" "pu_epoch p = cl_epoch (crec s)"
  shows "(cl_owner (crec s) = 0 \<or> is_claiming (cl_owner (crec s)) \<or>
      (\<exists>t. claim_slot_of (cl_owner (crec s)) = slot t)) \<and>
    publisher_push p (reap (crec s)) stamp a r = Inl (ClaimRevoked (ring_edge r)) \<and>
    (case claim (reap (crec s)) sl of
       (Inr (epoch, word), r') \<Rightarrow> epoch = cl_epoch r' \<and> word = cl_owner r' \<and> claim_slot_of word = sl \<and>
         publisher_drop p r' = r'
     | (Inl _, _) \<Rightarrow> False)"
proof -
  have w: "words_ok slot s" using assms(1) by (rule words_ok_reachable)
  note p = words_ok_publishing [OF w assms(4)]
  have two: "cl_epoch (crec s) + 1 + 1 = cl_epoch (crec s) + 2" by simp
  have "pack_owner (cl_epoch (crec s) + 2) sl \<noteq> pu_owner p"
    using p pack_owner_inj(2) epoch_bits_moved assms(2,3,5) by metis
  then have "publisher_drop p (store_owner (pack_owner (cl_epoch (crec s) + 2) sl) r) =
      store_owner (pack_owner (cl_epoch (crec s) + 2) sl) r" for r
    by (simp add: access_defs)
  moreover have "claim (reap (crec s)) sl =
      (Inr (cl_epoch (crec s) + 2, pack_owner (cl_epoch (crec s) + 2) sl),
       store_owner (pack_owner (cl_epoch (crec s) + 2) sl) (crec s\<lparr>cl_epoch := cl_epoch (crec s) + 2\<rparr>))"
    unfolding two [symmetric] by (simp add: reap_def claim_def claim_cas_def store_owner_def bump_epoch_def Let_def)
  moreover have "publisher_push p (reap (crec s)) stamp a r = Inl (ClaimRevoked (ring_edge r))"
    using assms(5) by (simp add: publisher_push_def reap_def store_owner_def bump_epoch_def)
  ultimately show ?thesis
    using w assms(2,3) by (auto simp: words_ok_def is_claiming_def) (simp_all add: store_owner_def)
qed

theorem claim_reapable_witness:
  "\<exists>r'. claim (reap (crec first_claim)) 5 = (Inr (cl_epoch r', cl_owner r'), r') \<and>
     publisher_drop (publisher_new 1 (pack_owner 1 0)) r' = r'"
proof -
  have "cpc first_claim 0 = Some (Publishing (publisher_new 1 (pack_owner 1 0)))"
    "pu_epoch (publisher_new 1 (pack_owner 1 0)) = cl_epoch (crec first_claim)"
    by (simp_all add: first_claim_def publisher_new_def)
  from claim_reapable [OF first_claim_reachable two_slots_small(1) _ this, of 5 0 undefined undefined] show ?thesis
    by (auto split: prod.splits sum.splits)
qed

end
