(* ===== verification/Participants.thy ===== *)
theory Participants
  imports Core_Types
begin

text \<open>
  The participant table of \<open>tf_tree_core/src/participant.rs\<close>: who is attached to the arena. A slot is
  taken by a compare-exchange from FREE to RESERVED, filled, and published with a state word that
  carries the low 30 bits of its incarnation, which is what releases and reclaims compare.
\<close>

subsection \<open>Records\<close>

definition FREE :: u32 where "FREE = 0"
definition RESERVED :: u32 where "RESERVED = 1"
definition LIVE :: u32 where "LIVE = 2"

definition live_word :: "u64 \<Rightarrow> u32" where
  "live_word incarnation = push_bit 2 (ucast incarnation) OR LIVE"

definition state_of :: "u32 \<Rightarrow> u32" where
  "state_of word = word AND 0b11"

record participant_record =
  pt_state :: u32
  pt_pid :: nat
  pt_start_time :: nat
  pt_incarnation :: u64
  pt_attached_at :: int
  pt_heartbeat :: nat

datatype participant_error =
    TableFull
  | SlotTaken (st_slot: nat)
  | SlotOutOfRange (so_slot: nat) (so_capacity: nat)

subsection \<open>Operations\<close>

text \<open>A compare-exchange on the state word; the result says whether it happened.\<close>

definition cas_state :: "u32 \<Rightarrow> u32 \<Rightarrow> participant_record \<Rightarrow> bool \<times> participant_record" where
  "cas_state expected new rec =
     (if pt_state rec = expected then (True, rec\<lparr>pt_state := new\<rparr>) else (False, rec))"

text \<open>The four identity stores of \<open>fill_slot\<close>, in order.\<close>

definition identity_stores :: "nat \<Rightarrow> nat \<Rightarrow> int \<Rightarrow> (participant_record \<Rightarrow> participant_record) list" where
  "identity_stores pid start_time now =
     [pt_pid_update (\<lambda>_. pid), pt_start_time_update (\<lambda>_. start_time),
      pt_attached_at_update (\<lambda>_. now), pt_heartbeat_update (\<lambda>_. 0)]"

definition bump_incarnation :: "participant_record \<Rightarrow> u64 \<times> participant_record" where
  "bump_incarnation rec = (pt_incarnation rec + 1, rec\<lparr>pt_incarnation := pt_incarnation rec + 1\<rparr>)"

definition fill_slot :: "participant_record \<Rightarrow> nat \<Rightarrow> nat \<Rightarrow> int \<Rightarrow> u64 option \<times> participant_record" where
  "fill_slot rec pid start_time now =
     (case cas_state FREE RESERVED rec of
        (False, r) \<Rightarrow> (None, r)
      | (True, r) \<Rightarrow>
          (case bump_incarnation (fold (\<lambda>f. f) (identity_stores pid start_time now) r) of
             (incarnation, r') \<Rightarrow> (Some incarnation, r'\<lparr>pt_state := live_word incarnation\<rparr>)))"

type_synonym participant_table = "participant_record list"

definition participant_capacity :: "participant_table \<Rightarrow> nat" where
  "participant_capacity tbl = length tbl"

definition participant_get :: "participant_table \<Rightarrow> nat \<Rightarrow> participant_record option" where
  "participant_get tbl slot = (if slot < length tbl then Some (tbl ! slot) else None)"

fun register_from :: "nat \<Rightarrow> participant_table \<Rightarrow> nat \<Rightarrow> nat \<Rightarrow> int \<Rightarrow>
    (participant_error + nat \<times> u64) \<times> participant_table" where
  "register_from i [] pid start_time now = (Inl TableFull, [])"
| "register_from i (rec # rest) pid start_time now =
     (case fill_slot rec pid start_time now of
        (Some incarnation, r) \<Rightarrow> (Inr (i, incarnation), r # rest)
      | (None, r) \<Rightarrow>
          (case register_from (Suc i) rest pid start_time now of (res, rest') \<Rightarrow> (res, r # rest')))"

definition register :: "participant_table \<Rightarrow> nat \<Rightarrow> nat \<Rightarrow> int \<Rightarrow>
    (participant_error + nat \<times> u64) \<times> participant_table" where
  "register tbl = register_from 0 tbl"

definition register_at :: "participant_table \<Rightarrow> nat \<Rightarrow> nat \<Rightarrow> nat \<Rightarrow> int \<Rightarrow>
    (participant_error + u64) \<times> participant_table" where
  "register_at tbl slot pid start_time now =
     (case participant_get tbl slot of
        None \<Rightarrow> (Inl (SlotOutOfRange slot (if length tbl < 2 ^ 32 then length tbl else 2 ^ 32 - 1)), tbl)
      | Some rec \<Rightarrow>
          (case fill_slot rec pid start_time now of
             (Some incarnation, r) \<Rightarrow> (Inr incarnation, tbl[slot := r])
           | (None, r) \<Rightarrow> (Inl (SlotTaken slot), tbl[slot := r])))"

definition participant_release :: "participant_table \<Rightarrow> nat \<Rightarrow> u64 \<Rightarrow> participant_table" where
  "participant_release tbl slot incarnation =
     (case participant_get tbl slot of
        None \<Rightarrow> tbl
      | Some rec \<Rightarrow> tbl[slot := snd (cas_state (live_word incarnation) FREE rec)])"

definition reclaim :: "participant_table \<Rightarrow> nat \<Rightarrow> u32 \<Rightarrow> bool \<times> participant_table" where
  "reclaim tbl slot observed =
     (case participant_get tbl slot of
        None \<Rightarrow> (False, tbl)
      | Some rec \<Rightarrow> (case cas_state observed FREE rec of (freed, r) \<Rightarrow> (freed, tbl[slot := r])))"

definition record_identity :: "participant_record \<Rightarrow> (nat \<times> nat \<times> u64) option" where
  "record_identity rec =
     (if state_of (pt_state rec) \<noteq> LIVE then None
      else Some (pt_pid rec, pt_start_time rec, pt_incarnation rec))"

definition participant_identity :: "participant_table \<Rightarrow> nat \<Rightarrow> (nat \<times> nat \<times> u64) option" where
  "participant_identity tbl slot = Option.bind (participant_get tbl slot) record_identity"

subsection \<open>State words\<close>

lemma live_word_bits: "state_of (live_word i) = LIVE" "drop_bit 2 (live_word i) = ucast i AND mask 30"
proof -
  have m: "(0b11 :: u32) = mask 2" by (simp add: mask_eq_exp_minus_1)
  have live: "LIVE = push_bit 1 1" by (simp add: LIVE_def)
  have l: "bit LIVE n \<longleftrightarrow> n = 1" for n unfolding live by (auto simp: bit_simps)
  show "state_of (live_word i) = LIVE"
    unfolding state_of_def live_word_def m
    by (rule bit_word_eqI) (auto simp: bit_simps l)
  show "drop_bit 2 (live_word i) = ucast i AND mask 30"
    unfolding live_word_def by (rule bit_word_eqI) (auto simp: bit_simps l)
qed

lemma state_words [simp]:
  "RESERVED \<noteq> FREE" "FREE \<noteq> RESERVED" "live_word i \<noteq> FREE" "FREE \<noteq> live_word i" "live_word i \<noteq> RESERVED" "RESERVED \<noteq> live_word i"
  "state_of FREE \<noteq> LIVE" "state_of RESERVED \<noteq> LIVE" "state_of (live_word i) = LIVE"
proof -
  have f: "state_of FREE \<noteq> LIVE" "state_of RESERVED \<noteq> LIVE"
    by (simp_all add: state_of_def FREE_def RESERVED_def LIVE_def)
  then show "state_of FREE \<noteq> LIVE" "state_of RESERVED \<noteq> LIVE" by simp_all
  from f show "live_word i \<noteq> FREE" "FREE \<noteq> live_word i" "live_word i \<noteq> RESERVED" "RESERVED \<noteq> live_word i"
    using live_word_bits(1) by metis+
qed (simp_all only: live_word_bits, simp_all add: FREE_def RESERVED_def)

lemma live_word_eq: "live_word i = live_word j \<Longrightarrow> unat i mod 2 ^ 30 = unat j mod 2 ^ 30"
proof -
  assume "live_word i = live_word j"
  then have "(ucast i :: u32) AND mask 30 = ucast j AND mask 30" using live_word_bits(2) by metis
  then have "unat ((ucast i :: u32) AND mask 30) = unat ((ucast j :: u32) AND mask 30)" by simp
  moreover have "unat ((ucast k :: u32) AND mask 30) = unat k mod 2 ^ 30" for k :: u64
    by (simp add: unat_and_mask unsigned_ucast_eq take_bit_eq_mod mod_mod_cancel)
  ultimately show ?thesis by simp
qed

lemma live_word_inj:
  assumes "live_word i = live_word j" "unat i < 2 ^ 30" "unat j < 2 ^ 30"
  shows "i = j"
  using live_word_eq [OF assms(1)] assms(2,3) by (simp add: word_unat_eq_iff)

lemma fill_slot_cases:
  "pt_state rec \<noteq> FREE \<Longrightarrow> fill_slot rec pid start_time now = (None, rec)"
  "pt_state rec = FREE \<Longrightarrow> fill_slot rec pid start_time now = (Some (pt_incarnation rec + 1),
     rec\<lparr>pt_state := live_word (pt_incarnation rec + 1), pt_pid := pid, pt_start_time := start_time,
         pt_incarnation := pt_incarnation rec + 1, pt_attached_at := now, pt_heartbeat := 0\<rparr>)"
  by (simp_all add: fill_slot_def cas_state_def identity_stores_def bump_incarnation_def)

lemma register_from_cases:
  "(\<forall>r \<in> set tbl. pt_state r \<noteq> FREE) \<and> register_from i tbl pid start_time now = (Inl TableFull, tbl) \<or>
   (\<exists>k < length tbl. pt_state (tbl ! k) = FREE \<and> (\<forall>j < k. pt_state (tbl ! j) \<noteq> FREE) \<and>
      register_from i tbl pid start_time now =
        (Inr (i + k, pt_incarnation (tbl ! k) + 1), tbl[k := snd (fill_slot (tbl ! k) pid start_time now)]))"
proof (induction tbl arbitrary: i)
  case Nil
  then show ?case by simp
next
  case (Cons r rest)
  show ?case
  proof (cases "pt_state r = FREE")
    case True
    then show ?thesis by (intro disjI2 exI [of _ 0]) (simp add: fill_slot_cases)
  next
    case False
    from Cons.IH [of "Suc i"] show ?thesis
    proof (elim disjE conjE exE)
      assume "\<forall>r \<in> set rest. pt_state r \<noteq> FREE" "register_from (Suc i) rest pid start_time now = (Inl TableFull, rest)"
      with False show ?thesis by (intro disjI1) (simp add: fill_slot_cases)
    next
      fix k assume "k < length rest" "pt_state (rest ! k) = FREE" "\<forall>j < k. pt_state (rest ! j) \<noteq> FREE"
        "register_from (Suc i) rest pid start_time now = (Inr (Suc i + k, pt_incarnation (rest ! k) + 1),
           rest[k := snd (fill_slot (rest ! k) pid start_time now)])"
      with False show ?thesis
        by (intro disjI2 exI [of _ "Suc k"]) (auto simp: fill_slot_cases nth_Cons split: nat.splits)
    qed
  qed
qed

subsection \<open>Registrants and reapers of one slot\<close>

text \<open>Where a process stands with respect to one record: \<open>Filling k\<close> has done \<open>k\<close> identity stores, a
  reaper has \<open>Watching\<close> a state word it read and \<open>Condemned\<close> it after the probe of the lock byte. The
  kernel keeps the byte of an attached process, so the probe finds it free only when no live
  process is between taking and leaving the slot. A dead process takes no more steps. \<open>incs\<close> counts
  incarnations without their wrap.\<close>

datatype part_pc = Filling nat | Numbered u64 | Attached u64 | Watching u32 | Condemned u32

record part_sys =
  prec :: participant_record
  ppc :: "nat \<Rightarrow> part_pc option"
  dead :: "nat \<Rightarrow> bool"
  incs :: nat

definition part_at :: "part_sys \<Rightarrow> participant_record \<Rightarrow> nat \<Rightarrow> part_pc option \<Rightarrow> part_sys" where
  "part_at s r t pc = s\<lparr>prec := r, ppc := (ppc s)(t := pc)\<rparr>"

fun occupying :: "part_pc option \<Rightarrow> bool" where
  "occupying (Some (Filling k)) \<longleftrightarrow> True"
| "occupying (Some (Numbered i)) \<longleftrightarrow> True"
| "occupying (Some (Attached i)) \<longleftrightarrow> True"
| "occupying _ \<longleftrightarrow> False"

definition occupant :: "part_sys \<Rightarrow> nat \<Rightarrow> bool" where
  "occupant s t \<longleftrightarrow> \<not> dead s t \<and> occupying (ppc s t)"

text \<open>\<open>ident t\<close> is the identity and the clock of process \<open>t\<close>.\<close>

inductive pstep :: "(nat \<Rightarrow> nat \<times> nat \<times> int) \<Rightarrow> part_sys \<Rightarrow> part_sys \<Rightarrow> bool" for ident where
  p_take: "\<not> dead s t \<Longrightarrow> ppc s t = None \<Longrightarrow> cas_state FREE RESERVED (prec s) = (True, r) \<Longrightarrow>
    pstep ident s (part_at s r t (Some (Filling 0)))"
| p_store: "\<not> dead s t \<Longrightarrow> ppc s t = Some (Filling k) \<Longrightarrow> k < 4 \<Longrightarrow> ident t = (pid, start, now) \<Longrightarrow>
    pstep ident s (part_at s ((identity_stores pid start now ! k) (prec s)) t (Some (Filling (Suc k))))"
| p_number: "\<not> dead s t \<Longrightarrow> ppc s t = Some (Filling 4) \<Longrightarrow> bump_incarnation (prec s) = (i, r) \<Longrightarrow>
    pstep ident s (part_at s r t (Some (Numbered i))\<lparr>incs := incs s + 1\<rparr>)"
| p_publish: "\<not> dead s t \<Longrightarrow> ppc s t = Some (Numbered i) \<Longrightarrow>
    pstep ident s (part_at s (prec s\<lparr>pt_state := live_word i\<rparr>) t (Some (Attached i)))"
| p_release: "\<not> dead s t \<Longrightarrow> ppc s t = Some (Attached i) \<Longrightarrow>
    pstep ident s (part_at s (snd (cas_state (live_word i) FREE (prec s))) t None)"
| p_observe: "\<not> dead s t \<Longrightarrow> ppc s t = None \<Longrightarrow> state_of (pt_state (prec s)) = LIVE \<Longrightarrow>
    pstep ident s (part_at s (prec s) t (Some (Watching (pt_state (prec s)))))"
| p_probe: "\<not> dead s t \<Longrightarrow> ppc s t = Some (Watching w) \<Longrightarrow> \<forall>u. \<not> occupant s u \<Longrightarrow>
    pstep ident s (part_at s (prec s) t (Some (Condemned w)))"
| p_spare: "\<not> dead s t \<Longrightarrow> ppc s t = Some (Watching w) \<Longrightarrow> pstep ident s (part_at s (prec s) t None)"
| p_reclaim: "\<not> dead s t \<Longrightarrow> ppc s t = Some (Condemned w) \<Longrightarrow>
    pstep ident s (part_at s (snd (cas_state w FREE (prec s))) t None)"
| p_die: "pstep ident s (s\<lparr>dead := (dead s)(t := True)\<rparr>)"

definition part_init :: part_sys where
  "part_init = \<lparr>prec = \<lparr>pt_state = FREE, pt_pid = 0, pt_start_time = 0, pt_incarnation = 0,
     pt_attached_at = 0, pt_heartbeat = 0\<rparr>, ppc = (\<lambda>_. None), dead = (\<lambda>_. False), incs = 0\<rparr>"

definition stored_ident :: "nat \<Rightarrow> nat \<times> nat \<times> int \<Rightarrow> participant_record \<Rightarrow> bool" where
  "stored_ident k d r \<longleftrightarrow> (k \<ge> 1 \<longrightarrow> pt_pid r = fst d) \<and> (k \<ge> 2 \<longrightarrow> pt_start_time r = fst (snd d))"

fun pc_fits :: "nat \<times> nat \<times> int \<Rightarrow> participant_record \<Rightarrow> part_pc option \<Rightarrow> bool" where
  "pc_fits d r (Some (Filling k)) \<longleftrightarrow> pt_state r = RESERVED \<and> k \<le> 4 \<and> stored_ident k d r"
| "pc_fits d r (Some (Numbered i)) \<longleftrightarrow> pt_state r = RESERVED \<and> i = pt_incarnation r \<and> stored_ident 4 d r"
| "pc_fits d r (Some (Attached i)) \<longleftrightarrow> pt_state r = live_word i \<and> i = pt_incarnation r \<and> stored_ident 4 d r"
| "pc_fits d r _ \<longleftrightarrow> True"

fun has_number :: "part_pc option \<Rightarrow> bool" where
  "has_number (Some (Numbered i)) \<longleftrightarrow> True"
| "has_number (Some (Attached i)) \<longleftrightarrow> True"
| "has_number _ \<longleftrightarrow> False"

definition old_word :: "nat \<Rightarrow> u32 \<Rightarrow> bool" where
  "old_word n w \<longleftrightarrow> (\<exists>i. w = live_word i \<and> unat i \<le> n)"

definition part_ok :: "(nat \<Rightarrow> nat \<times> nat \<times> int) \<Rightarrow> part_sys \<Rightarrow> bool" where
  "part_ok ident s \<longleftrightarrow> unat (pt_incarnation (prec s)) = incs s \<and>
     (\<forall>t. occupant s t \<longrightarrow> pc_fits (ident t) (prec s) (ppc s t)) \<and>
     (\<forall>t u. occupant s t \<and> occupant s u \<longrightarrow> t = u) \<and>
     (state_of (pt_state (prec s)) = LIVE \<longrightarrow> old_word (incs s) (pt_state (prec s))) \<and>
     (\<forall>t w. ppc s t = Some (Watching w) \<or> ppc s t = Some (Condemned w) \<longrightarrow> old_word (incs s) w) \<and>
     (\<forall>t u w. ppc s t = Some (Condemned w) \<and> occupant s u \<and> has_number (ppc s u) \<longrightarrow>
        w \<noteq> live_word (pt_incarnation (prec s)))"

lemma part_okD:
  assumes "part_ok ident s"
  shows "unat (pt_incarnation (prec s)) = incs s"
    "occupant s t \<Longrightarrow> pc_fits (ident t) (prec s) (ppc s t)"
    "occupant s t \<Longrightarrow> occupant s u \<Longrightarrow> t = u"
    "state_of (pt_state (prec s)) = LIVE \<Longrightarrow> old_word (incs s) (pt_state (prec s))"
    "ppc s t = Some (Watching w) \<or> ppc s t = Some (Condemned w) \<Longrightarrow> old_word (incs s) w"
    "ppc s t = Some (Condemned w) \<Longrightarrow> occupant s u \<Longrightarrow> has_number (ppc s u) \<Longrightarrow>
       w \<noteq> live_word (pt_incarnation (prec s))"
  using assms unfolding part_ok_def by blast+

lemma part_at_simps [simp]:
  "prec (part_at s r t pc) = r" "ppc (part_at s r t pc) = (ppc s)(t := pc)" "dead (part_at s r t pc) = dead s"
  "incs (part_at s r t pc) = incs s"
  by (simp_all add: part_at_def)

lemma occupant_at:
  "occupant (part_at s r t pc) u \<longleftrightarrow> (if u = t then \<not> dead s t \<and> occupying pc else occupant s u)"
  "occupant (part_at s r t pc\<lparr>incs := n\<rparr>) u \<longleftrightarrow> (if u = t then \<not> dead s t \<and> occupying pc else occupant s u)"
  by (simp_all add: occupant_def)

text \<open>Nobody occupies a record whose state is FREE.\<close>

lemma free_unoccupied: "part_ok ident s \<Longrightarrow> pt_state (prec s) = FREE \<Longrightarrow> \<not> occupant s t"
proof
  assume "part_ok ident s" "pt_state (prec s) = FREE" "occupant s t"
  with part_okD(2) [of ident s t] show False
    by (cases "ppc s t" rule: occupying.cases) (auto simp: occupant_def)
qed

text \<open>A step of the only occupant, before and after.\<close>

lemma part_ok_occupant:
  assumes ok: "part_ok ident s" and alone: "\<And>u. occupant s u \<Longrightarrow> u = t"
    and fits: "occupying pc \<Longrightarrow> pc_fits (ident t) r pc" and pc: "\<And>w. pc \<noteq> Some (Watching w) \<and> pc \<noteq> Some (Condemned w)"
    and same: "pt_incarnation r = pt_incarnation (prec s)"
    and lv: "state_of (pt_state r) = LIVE \<Longrightarrow> pt_state r = live_word (pt_incarnation r)"
    and num: "has_number pc \<Longrightarrow> occupant s t \<and> has_number (ppc s t)"
  shows "part_ok ident (part_at s r t pc)"
  unfolding part_ok_def occupant_at
proof (intro conjI allI impI)
  note D = part_okD [OF ok]
  show "unat (pt_incarnation (prec (part_at s r t pc))) = incs (part_at s r t pc)" using D(1) same by simp
  show "pc_fits (ident u) (prec (part_at s r t pc)) (ppc (part_at s r t pc) u)"
    if "if u = t then \<not> dead s t \<and> occupying pc else occupant s u" for u
    using that alone [of u] fits by (auto split: if_splits)
  show "u = v" if "(if u = t then \<not> dead s t \<and> occupying pc else occupant s u) \<and>
      (if v = t then \<not> dead s t \<and> occupying pc else occupant s v)" for u v
    using that alone by (auto split: if_splits)
  show "old_word (incs (part_at s r t pc)) (pt_state (prec (part_at s r t pc)))"
    if "state_of (pt_state (prec (part_at s r t pc))) = LIVE"
    using lv that same D(1) by (auto simp: old_word_def)
  show "old_word (incs (part_at s r t pc)) w"
    if "ppc (part_at s r t pc) u = Some (Watching w) \<or> ppc (part_at s r t pc) u = Some (Condemned w)" for u w
    using D(5) [of u w] that pc by (auto split: if_splits)
  show "w \<noteq> live_word (pt_incarnation (prec (part_at s r t pc)))"
    if "ppc (part_at s r t pc) u = Some (Condemned w) \<and>
      (if v = t then \<not> dead s t \<and> occupying pc else occupant s v) \<and> has_number (ppc (part_at s r t pc) v)" for u v w
  proof -
    have c: "ppc s u = Some (Condemned w)" using that pc by (auto split: if_splits)
    have "occupant s v \<and> has_number (ppc s v)" using that num alone [of v] by (auto split: if_splits)
    then show ?thesis using D(6) [OF c, of v] same by simp
  qed
qed

text \<open>A step of a reaper that does not touch the record.\<close>

lemma part_ok_fewer:
  assumes ok: "part_ok ident s" and same: "prec s' = prec s" "incs s' = incs s"
    and occ: "\<And>u. occupant s' u \<Longrightarrow> occupant s u \<and> ppc s' u = ppc s u"
    and word: "\<And>u w. ppc s' u = Some (Watching w) \<or> ppc s' u = Some (Condemned w) \<Longrightarrow> old_word (incs s) w"
    and cond: "\<And>u w. ppc s' u = Some (Condemned w) \<Longrightarrow> ppc s u = Some (Condemned w) \<or> (\<forall>v. \<not> occupant s v)"
  shows "part_ok ident s'"
  unfolding part_ok_def same
proof (intro conjI allI impI)
  note D = part_okD [OF ok]
  show "unat (pt_incarnation (prec s)) = incs s" by (rule D)
  show "pc_fits (ident u) (prec s) (ppc s' u)" if "occupant s' u" for u using D(2) occ [OF that] by simp
  show "u = v" if "occupant s' u \<and> occupant s' v" for u v using D(3) occ that by blast
  show "old_word (incs s) (pt_state (prec s))" if "state_of (pt_state (prec s)) = LIVE" using that by (rule D)
  show "old_word (incs s) w" if "ppc s' u = Some (Watching w) \<or> ppc s' u = Some (Condemned w)" for u w
    using that by (rule word)
  show "w \<noteq> live_word (pt_incarnation (prec s))"
    if "ppc s' u = Some (Condemned w) \<and> occupant s' v \<and> has_number (ppc s' v)" for u v w
    using that cond [of u w] occ [of v] D(6) [of u w v] by auto
qed

lemma part_ok_reaper:
  assumes ok: "part_ok ident s" and "\<not> occupying (ppc s t)" "\<not> occupying pc"
    and word: "\<And>w. pc = Some (Watching w) \<or> pc = Some (Condemned w) \<Longrightarrow> old_word (incs s) w"
    and cond: "\<And>w. pc = Some (Condemned w) \<Longrightarrow> \<forall>u. \<not> occupant s u"
  shows "part_ok ident (part_at s (prec s) t pc)"
proof (rule part_ok_fewer [OF ok])
  show "occupant s u \<and> ppc (part_at s (prec s) t pc) u = ppc s u" if "occupant (part_at s (prec s) t pc) u" for u
    using that assms(2,3) by (auto simp: occupant_def split: if_splits)
  show "old_word (incs s) w" if "ppc (part_at s (prec s) t pc) u = Some (Watching w) \<or>
      ppc (part_at s (prec s) t pc) u = Some (Condemned w)" for u w
    using that word part_okD(5) [OF ok, of u w] by (auto split: if_splits)
  show "ppc s u = Some (Condemned w) \<or> (\<forall>v. \<not> occupant s v)"
    if "ppc (part_at s (prec s) t pc) u = Some (Condemned w)" for u w
    using that cond by (auto split: if_splits)
qed simp_all

lemma part_ok_take:
  assumes ok: "part_ok ident s" and t: "\<not> dead s t" "cas_state FREE RESERVED (prec s) = (True, r)"
  shows "part_ok ident (part_at s r t (Some (Filling 0)))"
proof -
  have "pt_state (prec s) = FREE" "r = prec s\<lparr>pt_state := RESERVED\<rparr>"
    using t(2) by (auto simp: cas_state_def split: if_splits)
  with free_unoccupied [OF ok] show ?thesis
    by (intro part_ok_occupant [OF ok]) (auto simp: stored_ident_def)
qed

lemma identity_store_nth:
  assumes "k < 4" "stored_ident k d r" "d = (pid, start, now)"
  defines "r' \<equiv> (identity_stores pid start now ! k) r"
  shows "stored_ident (Suc k) d r' \<and> pt_state r' = pt_state r \<and> pt_incarnation r' = pt_incarnation r"
proof -
  have "k = 0 \<or> k = 1 \<or> k = 2 \<or> k = 3" using assms(1) by auto
  then show ?thesis using assms(2,3) by (auto simp: r'_def identity_stores_def stored_ident_def numeral_eq_Suc)
qed

lemma part_ok_number:
  assumes ok: "part_ok ident s" and t: "\<not> dead s t" "ppc s t = Some (Filling 4)"
    "bump_incarnation (prec s) = (i, r)" and small: "incs s + 1 < 2 ^ 30"
  shows "part_ok ident (part_at s r t (Some (Numbered i))\<lparr>incs := incs s + 1\<rparr>)"
proof -
  note D = part_okD [OF ok]
  have occ: "occupant s t" using t by (simp add: occupant_def)
  have fits: "pt_state (prec s) = RESERVED" "stored_ident 4 (ident t) (prec s)"
    using D(2) [OF occ] t by simp_all
  have i: "i = pt_incarnation (prec s) + 1" "r = prec s\<lparr>pt_incarnation := i\<rparr>"
    using t(3) by (auto simp: bump_incarnation_def)
  have ui: "unat i = incs s + 1" using D(1) small i(1) by (simp add: unat_word_ariths)
  let ?s = "part_at s r t (Some (Numbered i))\<lparr>incs := incs s + 1\<rparr>"
  have only: "u = t" if "occupant ?s u" for u using that D(3) [OF _ occ] by (auto simp: occupant_at split: if_splits)
  have fresh: "w \<noteq> live_word i" if "old_word (incs s) w" for w
    using that live_word_inj [of _ i] ui small by (fastforce simp: old_word_def)
  show ?thesis
    unfolding part_ok_def
  proof (intro conjI allI impI)
    show "unat (pt_incarnation (prec ?s)) = incs ?s" using i ui by simp
    show "pc_fits (ident u) (prec ?s) (ppc ?s u)" if "occupant ?s u" for u
      using only [OF that] i fits by (simp add: stored_ident_def)
    show "u = v" if "occupant ?s u \<and> occupant ?s v" for u v using that only by blast
    show "old_word (incs ?s) (pt_state (prec ?s))" if "state_of (pt_state (prec ?s)) = LIVE"
      using that i fits by simp
    show "old_word (incs ?s) w" if "ppc ?s u = Some (Watching w) \<or> ppc ?s u = Some (Condemned w)" for u w
      using D(5) [of u w] that by (fastforce simp: old_word_def split: if_splits)
    show "w \<noteq> live_word (pt_incarnation (prec ?s))"
      if "ppc ?s u = Some (Condemned w) \<and> occupant ?s v \<and> has_number (ppc ?s v)" for u v w
      using D(5) [of u w] that fresh i by (auto split: if_splits)
  qed
qed

text \<open>A condemned word that still stands has no occupant.\<close>

lemma condemned_unoccupied:
  assumes ok: "part_ok ident s" and "ppc s t = Some (Condemned (pt_state (prec s)))"
  shows "\<not> occupant s u"
proof
  assume occ: "occupant s u"
  note D = part_okD [OF ok]
  have "old_word (incs s) (pt_state (prec s))" using D(5) assms(2) by blast
  then have "pt_state (prec s) \<noteq> RESERVED" by (auto simp: old_word_def)
  then have "has_number (ppc s u) \<and> pt_state (prec s) = live_word (pt_incarnation (prec s))"
    using D(2) [OF occ] occ by (cases "ppc s u" rule: occupying.cases) (auto simp: occupant_def)
  then show False using D(6) [OF assms(2) occ] by simp
qed

lemma part_ok_step:
  assumes step: "pstep ident s s'" and ok: "part_ok ident s" and small: "incs s' < 2 ^ 30"
  shows "part_ok ident s'"
  using step
proof (cases rule: pstep.cases)
  case (p_take t r)
  then show ?thesis using part_ok_take [OF ok] by blast
next
  case (p_store t k pid start now)
  have occ: "occupant s t" using p_store by (simp add: occupant_def)
  note f = part_okD(2) [OF ok occ]
  have "stored_ident k (ident t) (prec s)" using f p_store by simp
  note n = identity_store_nth [OF p_store(4) this p_store(5)]
  show ?thesis
    unfolding p_store(1)
  proof (rule part_ok_occupant [OF ok])
    show "u = t" if "occupant s u" for u using part_okD(3) [OF ok that occ] .
  qed (use f p_store n in auto)
next
  case (p_number t i r)
  then show ?thesis using part_ok_number [OF ok p_number(2-4)] small by simp
next
  case (p_publish t i)
  have occ: "occupant s t" using p_publish by (simp add: occupant_def)
  note f = part_okD(2) [OF ok occ]
  show ?thesis
    unfolding p_publish(1)
  proof (rule part_ok_occupant [OF ok])
    show "u = t" if "occupant s u" for u using part_okD(3) [OF ok that occ] .
  qed (use f p_publish occ in \<open>auto simp: stored_ident_def\<close>)
next
  case (p_release t i)
  have occ: "occupant s t" using p_release by (simp add: occupant_def)
  note f = part_okD(2) [OF ok occ]
  show ?thesis
    unfolding p_release(1)
  proof (rule part_ok_occupant [OF ok])
    show "u = t" if "occupant s u" for u using part_okD(3) [OF ok that occ] .
  qed (use f p_release in \<open>auto simp: cas_state_def\<close>)
next
  case (p_observe t)
  then show ?thesis using part_okD(4) [OF ok] unfolding p_observe(1) by (intro part_ok_reaper [OF ok]) auto
next
  case (p_probe t w)
  then show ?thesis using part_okD(5) [OF ok, of t w] unfolding p_probe(1) by (intro part_ok_reaper [OF ok]) auto
next
  case (p_spare t w)
  then show ?thesis unfolding p_spare(1) by (intro part_ok_reaper [OF ok]) auto
next
  case (p_reclaim t w)
  show ?thesis
  proof (cases "pt_state (prec s) = w")
    case True
    then have none: "\<not> occupant s u" for u using condemned_unoccupied [OF ok] p_reclaim(3) by simp
    show ?thesis
      unfolding p_reclaim(1) using none True by (intro part_ok_occupant [OF ok]) (auto simp: cas_state_def)
  next
    case False
    then have "snd (cas_state w FREE (prec s)) = prec s" by (simp add: cas_state_def)
    then show ?thesis unfolding p_reclaim(1) using p_reclaim(3) by simp (rule part_ok_reaper [OF ok], auto)
  qed
next
  case (p_die t)
  show ?thesis
    unfolding p_die using part_okD(5) [OF ok]
    by (intro part_ok_fewer [OF ok]) (auto simp: occupant_def split: if_splits)
qed

lemma pstep_incs: "pstep ident s s' \<Longrightarrow> incs s \<le> incs s'"
  by (induction rule: pstep.induct) simp_all

lemma part_init_ok: "part_ok ident part_init"
  by (simp add: part_ok_def part_init_def occupant_def)

lemma part_ok_reachable: "(pstep ident)\<^sup>*\<^sup>* part_init s \<Longrightarrow> incs s < 2 ^ 30 \<Longrightarrow> part_ok ident s"
proof (induction rule: rtranclp_induct)
  case base
  show ?case by (rule part_init_ok)
next
  case (step s s')
  then show ?case using part_ok_step pstep_incs [OF step(2)] by fastforce
qed

subsection \<open>Properties\<close>

text \<open>\<open>register\<close> takes the first free slot, gives it a new incarnation and the caller's identity, and
  touches no other slot; it fails only when no slot is free, and then changes nothing. The slot is
  freed by the release, or the reclaim, that names this incarnation, and not by one that names
  another (modulo the 30 bits the state word keeps).\<close>

theorem register_correct:
  "case register tbl pid start_time now of
     (Inl e, tbl') \<Rightarrow> e = TableFull \<and> tbl' = tbl \<and> FREE \<notin> set (map pt_state tbl)
   | (Inr (k, inc), tbl') \<Rightarrow> k < length tbl \<and> tbl' = tbl[k := tbl' ! k] \<and>
       FREE \<notin> set (map pt_state (take k tbl)) \<and> pt_state (tbl ! k) = FREE \<and>
       inc = pt_incarnation (tbl ! k) + 1 \<and> participant_identity tbl' k = Some (pid, start_time, inc) \<and>
       pt_state (participant_release tbl' k inc ! k) = FREE \<and> fst (reclaim tbl' k (live_word inc)) \<and>
       (participant_release tbl' k inc' = tbl' \<or> unat inc' mod 2 ^ 30 = unat inc mod 2 ^ 30)"
proof -
  from register_from_cases [of tbl 0 pid start_time now] show ?thesis
  proof (elim disjE conjE exE)
    assume "\<forall>r \<in> set tbl. pt_state r \<noteq> FREE" "register_from 0 tbl pid start_time now = (Inl TableFull, tbl)"
    then show ?thesis by (auto simp: register_def)
  next
    fix k assume k: "k < length tbl" "pt_state (tbl ! k) = FREE" "\<forall>j < k. pt_state (tbl ! j) \<noteq> FREE"
      and r: "register_from 0 tbl pid start_time now =
        (Inr (0 + k, pt_incarnation (tbl ! k) + 1), tbl[k := snd (fill_slot (tbl ! k) pid start_time now)])"
    let ?inc = "pt_incarnation (tbl ! k) + 1"
    have first: "FREE \<notin> set (map pt_state (take k tbl))"
    proof -
      have "\<forall>r \<in> set (take k tbl). pt_state r \<noteq> FREE"
        using k(1,3) by (auto simp: in_set_conv_nth)
      then show ?thesis by (metis (no_types, lifting) image_iff list.set_map)
    qed
    have stale: "live_word inc' \<noteq> live_word ?inc" if "unat inc' mod 2 ^ 30 \<noteq> unat ?inc mod 2 ^ 30"
      using that live_word_eq by blast
    show ?thesis
      using k r first stale
      by (auto simp: register_def fill_slot_cases participant_identity_def participant_get_def
          record_identity_def participant_release_def reclaim_def cas_state_def)
  qed
qed


text \<open>Process 5 registers, alone.\<close>

definition registered_record :: "participant_record" where
  "registered_record = \<lparr>pt_state = live_word 1, pt_pid = 41, pt_start_time = 9, pt_incarnation = 1,
     pt_attached_at = 7, pt_heartbeat = 0\<rparr>"

lemma registered_reachable:
  "\<exists>s. (pstep (\<lambda>_. (41, 9, 7)))\<^sup>*\<^sup>* part_init s \<and> incs s = 1 \<and> ppc s 5 = Some (Attached 1) \<and> \<not> dead s 5 \<and>
     prec s = registered_record"
proof -
  let ?i = "\<lambda>_ :: nat. (41 :: nat, 9 :: nat, 7 :: int)" and ?r = "prec part_init\<lparr>pt_state := RESERVED\<rparr>"
  note store = p_store [where t = 5 and pid = 41 and start = 9 and now = 7 and ident = ?i]
  note steps = identity_stores_def part_init_def cas_state_def numeral_eq_Suc
  let ?s0 = "part_at part_init ?r 5 (Some (Filling 0))"
  have 0: "pstep ?i part_init ?s0" by (rule p_take) (simp_all add: part_init_def cas_state_def)
  let ?r1 = "?r\<lparr>pt_pid := 41\<rparr>" let ?r2 = "?r1\<lparr>pt_start_time := 9\<rparr>" let ?r3 = "?r2\<lparr>pt_attached_at := 7\<rparr>"
  let ?r4 = "?r3\<lparr>pt_heartbeat := 0\<rparr>"
  let ?s1 = "part_at ?s0 ?r1 5 (Some (Filling 1))" let ?s2 = "part_at ?s1 ?r2 5 (Some (Filling 2))"
  let ?s3 = "part_at ?s2 ?r3 5 (Some (Filling 3))" let ?s4 = "part_at ?s3 ?r4 5 (Some (Filling 4))"
  have live: "\<not> dead part_init 5" by (simp add: part_init_def)
  have 1: "pstep ?i ?s0 ?s1" using store [of ?s0 0] live by (simp add: identity_stores_def)
  have 2: "pstep ?i ?s1 ?s2" using store [of ?s1 1] live by (simp add: identity_stores_def numeral_2_eq_2)
  have 3: "pstep ?i ?s2 ?s3" using store [of ?s2 2] live by (simp add: identity_stores_def numeral_eq_Suc)
  have 4: "pstep ?i ?s3 ?s4" using store [of ?s3 3] live by (simp add: identity_stores_def numeral_eq_Suc)
  let ?r5 = "?r4\<lparr>pt_incarnation := 1\<rparr>"
  let ?s5 = "part_at ?s4 ?r5 5 (Some (Numbered 1))\<lparr>incs := incs ?s4 + 1\<rparr>"
  have 5: "pstep ?i ?s4 ?s5"
    using live by (intro p_number) (simp_all add: bump_incarnation_def, simp_all add: part_init_def)
  let ?s6 = "part_at ?s5 (?r5\<lparr>pt_state := live_word 1\<rparr>) 5 (Some (Attached 1))"
  have 6: "pstep ?i ?s5 ?s6" using p_publish [of ?s5 5 1 ?i] live by simp
  have "(pstep ?i)\<^sup>*\<^sup>* part_init ?s6"
    using 0 1 2 3 4 5 6 by (meson rtranclp.rtrancl_refl rtranclp.rtrancl_into_rtrancl)
  then show ?thesis
    by (intro exI [of _ ?s6]) (simp add: live, simp add: registered_record_def part_init_def)
qed


end
