(* ===== verification/Arena_View.thy ===== *)
theory Arena_View
  imports Claims Participants Topology
begin

text \<open>
  The typed view over the arena, \<open>tf_tree_core/src/arena_view.rs\<close> and the records of
  \<open>counters.rs\<close>. The first part is about bytes: where each reference and slice is formed. The second is
  the arena as the rest of the development sees it, a record of typed tables, with the accessors
  of \<open>ArenaView\<close> on it. The interning table has its own theory.
\<close>

subsection \<open>Extents\<close>

text \<open>Every place of the view that forms a reference or a slice, and the \<open>(offset, bytes, alignment)\<close>
  it forms it at. Offsets and counts are \<open>u32\<close> and the sums are taken in \<open>usize\<close>, where they
  neither wrap nor saturate.\<close>

datatype access =
    AFrameRecord nat
  | AFrameHashes | AFrameIds | AFrameClaiming
  | ATopoParent nat | ATopoEdge nat | ATopoDepth nat
  | AClaim edge_id
  | AParticipants
  | AEdge edge_id
  | ARingStamps edge_record | ARingPoses edge_record
  | AEdgeCounters edge_id
  | AParticipantCounters nat

definition edge_slot_off :: "arena_header \<Rightarrow> edge_id \<Rightarrow> nat \<Rightarrow> nat \<Rightarrow> nat option" where
  "edge_slot_off h eid table_off stride =
     (if eid \<ge> h_max_edges h then None else Some (table_off + eid * stride))"

definition frame_record_ptr :: "arena_header \<Rightarrow> nat \<Rightarrow> nat option" where
  "frame_record_ptr h eid = (if eid \<ge> h_max_frames h then None else Some (frame_table_off h + eid * 64))"

definition hash_slots :: "arena_header \<Rightarrow> nat" where
  "hash_slots h = next_pow2 (2 * h_max_frames h)"

definition topo_block_off_of :: "arena_header \<Rightarrow> nat \<Rightarrow> nat" where
  "topo_block_off_of h index = topo_block_off h + index * topo_block_stride h"

definition ring_bytes :: "arena_header \<Rightarrow> edge_record \<Rightarrow> (nat \<times> nat \<times> nat) option" where
  "ring_bytes h e =
     (let cap = er_capacity e
      in if \<not> is_power_of_two cap then None
         else if er_stamp_off e + cap > stamp_slots h \<or> er_pose_off e + cap > pose_slots h then None
         else Some (stamp_arena_off h + er_stamp_off e * 8, pose_arena_off h + er_pose_off e * 64, cap))"

definition ring_extents :: "arena_header \<Rightarrow> edge_record \<Rightarrow> ((nat \<times> nat) \<times> (nat \<times> nat)) option" where
  "ring_extents h e = map_option (\<lambda>(s, p, cap). ((s, cap * 8), (p, cap * 64))) (ring_bytes h e)"

fun extent :: "arena_header \<Rightarrow> access \<Rightarrow> (nat \<times> nat \<times> nat) option" where
  "extent h (AFrameRecord eid) = map_option (\<lambda>off. (off, 64, 64)) (frame_record_ptr h eid)"
| "extent h AFrameHashes = Some (frame_hash_off h, hash_slots h * 8, 8)"
| "extent h AFrameIds = Some (frame_hash_off h + hash_slots h * 8, hash_slots h * 4, 4)"
| "extent h AFrameClaiming = Some (frame_hash_off h + hash_slots h * (8 + 4), hash_slots h * 4, 4)"
| "extent h (ATopoParent i) = (if i < TOPO_BLOCKS then Some (topo_block_off_of h i, h_max_frames h * 4, 4) else None)"
| "extent h (ATopoEdge i) =
     (if i < TOPO_BLOCKS then Some (topo_block_off_of h i + h_max_frames h * 4, h_max_frames h * 4, 4) else None)"
| "extent h (ATopoDepth i) =
     (if i < TOPO_BLOCKS then Some (topo_block_off_of h i + h_max_frames h * 8, h_max_frames h * 2, 2) else None)"
| "extent h (AClaim eid) = map_option (\<lambda>off. (off, 64, 64)) (edge_slot_off h eid (claim_table_off h) 64)"
| "extent h AParticipants = Some (participant_table_off h, h_max_participants h * 128, 64)"
| "extent h (AEdge eid) = map_option (\<lambda>off. (off, 128, 64)) (edge_slot_off h eid (edge_table_off h) 128)"
| "extent h (ARingStamps e) = map_option (\<lambda>(s, p, cap). (s, cap * 8, 8)) (ring_bytes h e)"
| "extent h (ARingPoses e) = map_option (\<lambda>(s, p, cap). (p, cap * 64, 64)) (ring_bytes h e)"
| "extent h (AEdgeCounters eid) = map_option (\<lambda>off. (off, 128, 64)) (edge_slot_off h eid (edge_counters_off h) 128)"
| "extent h (AParticipantCounters slot) =
     (if slot \<ge> h_max_participants h then None else Some (participant_counters_off h + slot * 128, 128, 64))"

text \<open>The table an access goes to, in the order of the arena.\<close>

fun access_table :: "access \<Rightarrow> nat" where
  "access_table (AFrameRecord eid) = 0"
| "access_table AFrameHashes = 1"
| "access_table AFrameIds = 2"
| "access_table AFrameClaiming = 3"
| "access_table (ATopoParent i) = 4 + 3 * i"
| "access_table (ATopoEdge i) = 5 + 3 * i"
| "access_table (ATopoDepth i) = 6 + 3 * i"
| "access_table (AClaim eid) = 16"
| "access_table AParticipants = 17"
| "access_table (AEdge eid) = 18"
| "access_table (ARingStamps e) = 19"
| "access_table (ARingPoses e) = 20"
| "access_table (AEdgeCounters eid) = 21"
| "access_table (AParticipantCounters slot) = 22"

text \<open>Where each table starts; table 23 is the end of the arena.\<close>

definition table_start :: "arena_header \<Rightarrow> nat \<Rightarrow> nat" where
  "table_start h n =
     [frame_table_off h, frame_hash_off h, frame_hash_off h + hash_slots h * 8, frame_hash_off h + hash_slots h * 12,
      topo_block_off_of h 0, topo_block_off_of h 0 + h_max_frames h * 4, topo_block_off_of h 0 + h_max_frames h * 8,
      topo_block_off_of h 1, topo_block_off_of h 1 + h_max_frames h * 4, topo_block_off_of h 1 + h_max_frames h * 8,
      topo_block_off_of h 2, topo_block_off_of h 2 + h_max_frames h * 4, topo_block_off_of h 2 + h_max_frames h * 8,
      topo_block_off_of h 3, topo_block_off_of h 3 + h_max_frames h * 4, topo_block_off_of h 3 + h_max_frames h * 8,
      claim_table_off h, participant_table_off h, edge_table_off h, stamp_arena_off h, pose_arena_off h,
      edge_counters_off h, participant_counters_off h, arena_size h] ! n"

lemma table_start_step:
  assumes "header_well_placed h len" "n < 23"
  shows "table_start h n \<le> table_start h (Suc n)"
proof -
  have "\<forall>n \<in> set [0..<23]. table_start h n \<le> table_start h (Suc n)"
    using assms(1)
    by (simp add: upt_rec header_well_placed_def table_start_def hash_slots_def topo_block_off_of_def
        FRAME_HASH_STRIDE_def TOPO_BLOCKS_def)
  then show ?thesis using assms(2) by simp
qed

lemma table_start_mono:
  assumes "header_well_placed h len" "m \<le> n" "n \<le> 23"
  shows "table_start h m \<le> table_start h n"
  using assms(2,3)
proof (induction n rule: dec_induct)
  case base
  then show ?case by simp
next
  case (step n)
  with table_start_step [OF assms(1), of n] show ?case by simp
qed

lemma record_in_table: "i < n \<Longrightarrow> (off :: nat) + n * w \<le> e \<Longrightarrow> off + i * w + w \<le> e"
proof -
  assume "i < n" "off + n * w \<le> e"
  moreover have "(i + 1) * w \<le> n * w" using \<open>i < n\<close> by (intro mult_right_mono) auto
  ultimately show ?thesis by simp
qed

lemma slots_in_table: "i + c \<le> (n :: nat) \<Longrightarrow> off + n * w \<le> e \<Longrightarrow> off + i * w + c * w \<le> e"
proof -
  assume "i + c \<le> n" "off + n * w \<le> e"
  moreover have "(i + c) * w \<le> n * w" using \<open>i + c \<le> n\<close> by (intro mult_right_mono) auto
  ultimately show ?thesis by (simp add: distrib_right)
qed

lemma block_cases: "i < TOPO_BLOCKS \<Longrightarrow> i = 0 \<or> i = 1 \<or> i = 2 \<or> i = (3 :: nat)"
  by (auto simp: TOPO_BLOCKS_def)

text \<open>Each access lies in its table.\<close>

lemma extent_in_table:
  assumes wp: "header_well_placed h len" and x: "extent h a = Some (off, n, al)"
  shows "table_start h (access_table a) \<le> off \<and> off + n \<le> table_start h (Suc (access_table a)) \<and>
    access_table a < 23 \<and> al dvd off"
proof -
  note W = wp [unfolded header_well_placed_def]
  have al: "64 dvd frame_table_off h" "64 dvd frame_hash_off h" "64 dvd topo_block_off h" "64 dvd topo_block_stride h"
    "64 dvd claim_table_off h" "64 dvd participant_table_off h" "64 dvd edge_table_off h" "64 dvd stamp_arena_off h"
    "64 dvd pose_arena_off h" "64 dvd edge_counters_off h" "64 dvd participant_counters_off h"
    using W by simp_all
  have small: "d dvd 64 \<Longrightarrow> 64 dvd m \<Longrightarrow> d dvd m" for d m :: nat by (rule dvd_trans)
  have blk: "64 dvd topo_block_off_of h i" for i using al by (simp add: topo_block_off_of_def)
  have fits: "table_start h (4 + 3 * i) = topo_block_off_of h i \<and>
      table_start h (5 + 3 * i) = topo_block_off_of h i + h_max_frames h * 4 \<and>
      table_start h (6 + 3 * i) = topo_block_off_of h i + h_max_frames h * 8 \<and>
      topo_block_off_of h i + h_max_frames h * 12 \<le> table_start h (7 + 3 * i)" if "i < TOPO_BLOCKS" for i
    using block_cases [OF that] W
    by (elim disjE) (simp_all add: table_start_def topo_block_off_of_def TOPO_BLOCKS_def)
  show ?thesis
  proof (cases a)
    case (AFrameRecord eid)
    then show ?thesis
      using x W al record_in_table [of eid "h_max_frames h" "frame_table_off h" 64]
      by (auto simp: frame_record_ptr_def table_start_def split: if_splits)
  next
    case AFrameHashes
    then show ?thesis using x W small [OF _ al(2), of 8] by (simp add: table_start_def)
  next
    case AFrameIds
    then show ?thesis using x W small [OF _ al(2), of 4] by (auto simp: table_start_def)
  next
    case AFrameClaiming
    then show ?thesis
      using x W small [OF _ al(2), of 4]
      by (auto simp: table_start_def hash_slots_def FRAME_HASH_STRIDE_def topo_block_off_of_def)
  next
    case (ATopoParent i)
    then show ?thesis
      using x fits [of i] small [OF _ blk, of 4 i] by (auto simp: TOPO_BLOCKS_def split: if_splits)
  next
    case (ATopoEdge i)
    then show ?thesis
      using x fits [of i] small [OF _ blk, of 4 i] by (auto simp: TOPO_BLOCKS_def split: if_splits)
  next
    case (ATopoDepth i)
    then show ?thesis
      using x fits [of i] small [OF _ blk, of 2 i] by (auto simp: TOPO_BLOCKS_def split: if_splits)
  next
    case (AClaim eid)
    then show ?thesis
      using x W al record_in_table [of eid "h_max_edges h" "claim_table_off h" 64]
      by (auto simp: edge_slot_off_def table_start_def split: if_splits)
  next
    case AParticipants
    then show ?thesis using x W by (auto simp: table_start_def)
  next
    case (AEdge eid)
    then show ?thesis
      using x W small [OF _ al(7), of 64] record_in_table [of eid "h_max_edges h" "edge_table_off h" 128]
      by (auto simp: edge_slot_off_def table_start_def split: if_splits)
  next
    case (ARingStamps e)
    then show ?thesis
      using x W small [OF _ al(8), of 8] slots_in_table [of "er_stamp_off e" "er_capacity e" "stamp_slots h" "stamp_arena_off h" 8]
      by (auto simp: ring_bytes_def Let_def table_start_def split: if_splits)
  next
    case (ARingPoses e)
    then show ?thesis
      using x W small [OF _ al(9), of 64] slots_in_table [of "er_pose_off e" "er_capacity e" "pose_slots h" "pose_arena_off h" 64]
      by (auto simp: ring_bytes_def Let_def table_start_def split: if_splits)
  next
    case (AEdgeCounters eid)
    then show ?thesis
      using x W small [OF _ al(10), of 64] record_in_table [of eid "h_max_edges h" "edge_counters_off h" 128]
      by (auto simp: edge_slot_off_def table_start_def split: if_splits)
  next
    case (AParticipantCounters sl)
    then show ?thesis
      using x W small [OF _ al(11), of 64] record_in_table [of sl "h_max_participants h" "participant_counters_off h" 128]
      by (auto simp: table_start_def split: if_splits)
  qed
qed

subsection \<open>Counters\<close>

record edge_counters =
  ec_lookups_ok :: nat
  ec_extrap_before :: nat
  ec_extrap_after :: nat
  ec_no_data :: nat
  ec_slot_recycled :: nat
  ec_slot_contended :: nat
  ec_last_err_nanos :: int
  ec_worst_extrap_gap_ns :: int

record participant_counters =
  pc_lookups_ok :: nat
  pc_extrap_before :: nat
  pc_extrap_after :: nat
  pc_no_data :: nat
  pc_slot_recycled :: nat
  pc_slot_contended :: nat
  pc_last_err_nanos :: int
  pc_last_err_edge :: nat

definition edge_counters_default :: edge_counters where
  "edge_counters_default = \<lparr>ec_lookups_ok = 0, ec_extrap_before = 0, ec_extrap_after = 0, ec_no_data = 0,
     ec_slot_recycled = 0, ec_slot_contended = 0, ec_last_err_nanos = 0, ec_worst_extrap_gap_ns = 0\<rparr>"

definition participant_counters_default :: participant_counters where
  "participant_counters_default = \<lparr>pc_lookups_ok = 0, pc_extrap_before = 0, pc_extrap_after = 0, pc_no_data = 0,
     pc_slot_recycled = 0, pc_slot_contended = 0, pc_last_err_nanos = 0, pc_last_err_edge = 2 ^ 32 - 1\<rparr>"

subsection \<open>The arena as typed tables\<close>

record arena =
  ar_header :: arena_header
  ar_topology :: topology_view
  ar_edges :: "edge_record list"
  ar_claims :: "claim_record list"
  ar_stamps :: "int list"
  ar_poses :: "pose_slot list"
  ar_participants :: participant_table
  ar_edge_counters :: "edge_counters list"
  ar_participant_counters :: "participant_counters list"

definition arena_edge :: "arena \<Rightarrow> edge_id \<Rightarrow> edge_record option" where
  "arena_edge a e = (if e \<ge> h_max_edges (ar_header a) then None else Some (ar_edges a ! e))"

definition arena_claim :: "arena \<Rightarrow> edge_id \<Rightarrow> claim_record option" where
  "arena_claim a e = (if e \<ge> h_max_edges (ar_header a) then None else Some (ar_claims a ! e))"

definition edge_counters_at :: "arena \<Rightarrow> edge_id \<Rightarrow> edge_counters option" where
  "edge_counters_at a e = (if e \<ge> h_max_edges (ar_header a) then None else Some (ar_edge_counters a ! e))"

definition participant_counters_at :: "arena \<Rightarrow> nat \<Rightarrow> participant_counters option" where
  "participant_counters_at a sl =
     (if sl \<ge> h_max_participants (ar_header a) then None else Some (ar_participant_counters a ! sl))"

definition ring_of :: "arena \<Rightarrow> edge_id \<Rightarrow> edge_record \<Rightarrow> claim_record \<Rightarrow> sample_ring option" where
  "ring_of a e rec cl =
     (case ring_bytes (ar_header a) rec of
        None \<Rightarrow> None
      | Some (_, _, cap) \<Rightarrow>
          Some \<lparr>head = er_head rec, heartbeat = unat (cl_heartbeat cl),
                stamps = take cap (drop (er_stamp_off rec) (ar_stamps a)),
                poses = take cap (drop (er_pose_off rec) (ar_poses a)), ring_edge = e\<rparr>)"

definition arena_ring :: "arena \<Rightarrow> edge_id \<Rightarrow> sample_ring option" where
  "arena_ring a e = Option.bind (arena_edge a e) (\<lambda>rec. Option.bind (arena_claim a e) (ring_of a e rec))"

definition sampler :: "arena \<Rightarrow> edge_id \<Rightarrow> (nat \<times> sample_ring) option" where
  "sampler a e = Option.bind (arena_edge a e) (\<lambda>rec. Option.bind (arena_claim a e) (\<lambda>cl.
     map_option (Pair (er_interp rec)) (ring_of a e rec cl)))"

definition arena_ring_extents :: "arena \<Rightarrow> edge_id \<Rightarrow> ((nat \<times> nat) \<times> (nat \<times> nat)) option" where
  "arena_ring_extents a e = Option.bind (arena_edge a e) (ring_extents (ar_header a))"

definition declare_edge :: "arena \<Rightarrow> edge_id \<Rightarrow> edge_record \<Rightarrow> (topology_error + unit) \<times> arena" where
  "declare_edge a e rec =
     (case edge_slot_off (ar_header a) e (edge_table_off (ar_header a)) 128 of
        None \<Rightarrow> (Inl TopologyCapacityExceeded, a)
      | Some _ \<Rightarrow> (Inr (), a\<lparr>ar_edges := (ar_edges a)[e := rec]\<rparr>))"

text \<open>A ring is references into the arena, so a store through it is a store to the arena.\<close>

definition put_segment :: "nat \<Rightarrow> 'a list \<Rightarrow> 'a list \<Rightarrow> 'a list" where
  "put_segment off ys xs = take off xs @ ys @ drop (off + length ys) xs"

definition put_ring :: "edge_id \<Rightarrow> sample_ring \<Rightarrow> arena \<Rightarrow> arena" where
  "put_ring e r a =
     (let rec = ar_edges a ! e; cl = ar_claims a ! e
      in a\<lparr>ar_edges := (ar_edges a)[e := rec\<lparr>er_head := head r\<rparr>],
           ar_claims := (ar_claims a)[e := cl\<lparr>cl_heartbeat := word_of_nat (heartbeat r)\<rparr>],
           ar_stamps := put_segment (er_stamp_off rec) (stamps r) (ar_stamps a),
           ar_poses := put_segment (er_pose_off rec) (poses r) (ar_poses a)\<rparr>)"

subsection \<open>The view's identity\<close>

definition CLAIM_UNRECORDED :: nat where "CLAIM_UNRECORDED = 0"

record view_ctx =
  vw_me :: nat
  vw_is_alive :: "(nat \<Rightarrow> participant_record \<Rightarrow> bool) option"
  vw_writable :: bool

definition arena_view_new :: view_ctx where
  "arena_view_new = \<lparr>vw_me = CLAIM_UNRECORDED, vw_is_alive = None, vw_writable = False\<rparr>"

definition writable :: "bool \<Rightarrow> view_ctx \<Rightarrow> view_ctx" where
  "writable yes v = v\<lparr>vw_writable := yes\<rparr>"

definition as_participant :: "arena \<Rightarrow> nat \<Rightarrow> view_ctx \<Rightarrow> view_ctx" where
  "as_participant a sl v =
     v\<lparr>vw_me := (if sl < h_max_participants (ar_header a) then sl + 1 else CLAIM_UNRECORDED)\<rparr>"

definition with_liveness :: "(nat \<Rightarrow> participant_record \<Rightarrow> bool) \<Rightarrow> view_ctx \<Rightarrow> view_ctx" where
  "with_liveness f v = v\<lparr>vw_is_alive := Some f\<rparr>"

definition interning_identity :: "view_ctx \<Rightarrow> nat option" where
  "interning_identity v = (if vw_me v = CLAIM_UNRECORDED then None else Some (vw_me v - 1))"

definition has_liveness_source :: "view_ctx \<Rightarrow> bool" where
  "has_liveness_source v \<longleftrightarrow> vw_is_alive v \<noteq> None"

definition claimant_alive :: "arena \<Rightarrow> view_ctx \<Rightarrow> nat \<Rightarrow> bool" where
  "claimant_alive a v owner =
     (if owner = CLAIM_UNRECORDED then True
      else case participant_get (ar_participants a) (owner - 1) of
        None \<Rightarrow> True
      | Some rec \<Rightarrow> state_of (pt_state rec) = LIVE \<and>
          (case vw_is_alive v of None \<Rightarrow> True | Some f \<Rightarrow> f (owner - 1) rec))"

subsection \<open>Rings do not overlap\<close>

definition arena_ok :: "arena \<Rightarrow> bool" where
  "arena_ok a \<longleftrightarrow> length (ar_edges a) = h_max_edges (ar_header a) \<and>
     length (ar_claims a) = h_max_edges (ar_header a) \<and>
     length (ar_stamps a) = stamp_slots (ar_header a) \<and> length (ar_poses a) = pose_slots (ar_header a) \<and>
     stamp_slots (ar_header a) < 2 ^ 32 \<and> (\<forall>s \<in> set (ar_poses a). length (data s) = 7)"

definition rings_apart :: "edge_record \<Rightarrow> edge_record \<Rightarrow> bool" where
  "rings_apart x y \<longleftrightarrow>
     (er_stamp_off x + er_capacity x \<le> er_stamp_off y \<or> er_stamp_off y + er_capacity y \<le> er_stamp_off x) \<and>
     (er_pose_off x + er_capacity x \<le> er_pose_off y \<or> er_pose_off y + er_capacity y \<le> er_pose_off x)"

lemma length_put_segment [simp]: "off + length ys \<le> length xs \<Longrightarrow> length (put_segment off ys xs) = length xs"
  by (simp add: put_segment_def)

lemma take_drop_put_same: "off + length ys \<le> length xs \<Longrightarrow> take (length ys) (drop off (put_segment off ys xs)) = ys"
  by (simp add: put_segment_def)

lemma put_segment_nth:
  "off + length ys \<le> length xs \<Longrightarrow> i < length xs \<Longrightarrow>
     put_segment off ys xs ! i = (if off \<le> i \<and> i < off + length ys then ys ! (i - off) else xs ! i)"
  by (auto simp: put_segment_def nth_append)

lemma take_drop_put_apart:
  assumes "off + length ys \<le> length xs" "o' + c \<le> length xs" "off + length ys \<le> o' \<or> o' + c \<le> off"
  shows "take c (drop o' (put_segment off ys xs)) = take c (drop o' xs)"
  using assms by (intro nth_equalityI) (auto simp: put_segment_nth)

lemma arena_ring_eq:
  "arena_ring a e = Some r \<longleftrightarrow> e < h_max_edges (ar_header a) \<and> ring_of a e (ar_edges a ! e) (ar_claims a ! e) = Some r"
  by (auto simp: arena_ring_def arena_edge_def arena_claim_def split: if_splits)

lemma sampler_eq:
  "sampler a e = map_option (Pair (er_interp (ar_edges a ! e))) (arena_ring a e)"
  by (simp add: sampler_def arena_ring_def arena_edge_def arena_claim_def)

text \<open>The ring of an edge in range, spelled out.\<close>

lemma ring_of_SomeD:
  assumes ok: "arena_ok a" and r: "ring_of a e rec cl = Some r"
  shows "capacity r = er_capacity rec" "length (stamps r) = er_capacity rec" "is_power_of_two (er_capacity rec)"
    "er_stamp_off rec + er_capacity rec \<le> length (ar_stamps a)"
    "er_pose_off rec + er_capacity rec \<le> length (ar_poses a)"
    "r = \<lparr>head = er_head rec, heartbeat = unat (cl_heartbeat cl),
       stamps = take (er_capacity rec) (drop (er_stamp_off rec) (ar_stamps a)),
       poses = take (er_capacity rec) (drop (er_pose_off rec) (ar_poses a)), ring_edge = e\<rparr>"
  using assms by (auto simp: ring_of_def ring_bytes_def Let_def arena_ok_def capacity_def split: if_splits)

lemma arena_ring_shape:
  assumes ok: "arena_ok a" and r: "arena_ring a e = Some r"
  shows "ring_shape r" "ring_edge r = e"
proof -
  have ro: "ring_of a e (ar_edges a ! e) (ar_claims a ! e) = Some r" using r by (simp add: arena_ring_eq)
  note R = ring_of_SomeD [OF ok ro]
  show "ring_edge r = e" by (subst R(6)) simp
  have "poses r = take (er_capacity (ar_edges a ! e)) (drop (er_pose_off (ar_edges a ! e)) (ar_poses a))"
    by (subst R(6)) simp
  then have "\<forall>s \<in> set (poses r). length (data s) = 7"
    using ok by (auto simp: arena_ok_def dest: in_set_takeD in_set_dropD)
  moreover have "capacity r < 2 ^ 64" using R(1,4) ok by (simp add: arena_ok_def)
  ultimately show "ring_shape r" using R(1-3) by (simp add: ring_shape_def capacity_def)
qed

lemma put_ring_get:
  assumes ok: "arena_ok a" and r: "arena_ring a e = Some r" and same: "capacity r' = capacity r"
    "length (stamps r') = length (stamps r)" "ring_edge r' = e" "heartbeat r' < 2 ^ 64"
  shows "arena_ring (put_ring e r' a) e = Some r'"
proof -
  have e: "e < h_max_edges (ar_header a)" and ro: "ring_of a e (ar_edges a ! e) (ar_claims a ! e) = Some r"
    using r by (simp_all add: arena_ring_eq)
  note R = ring_of_SomeD [OF ok ro]
  have len: "length (stamps r') = er_capacity (ar_edges a ! e)" "length (poses r') = er_capacity (ar_edges a ! e)"
    using same R(1,2) by (simp_all add: capacity_def)
  have "ring_bytes (ar_header a) ((ar_edges a ! e)\<lparr>er_head := h\<rparr>) = ring_bytes (ar_header a) (ar_edges a ! e)" for h
    by (simp add: ring_bytes_def Let_def)
  then have bytes: "\<exists>s p. ring_bytes (ar_header a) ((ar_edges a ! e)\<lparr>er_head := h\<rparr>) = Some (s, p, er_capacity (ar_edges a ! e))" for h
    using ro by (auto simp: ring_of_def ring_bytes_def Let_def split: if_splits)
  have hb: "unat (word_of_nat (heartbeat r') :: u64) = heartbeat r'" using same(4) by (simp add: unat_of_nat)
  have ed: "e < length (ar_edges a)" "e < length (ar_claims a)" using e ok by (simp_all add: arena_ok_def)
  obtain s p where sp: "ring_bytes (ar_header a) ((ar_edges a ! e)\<lparr>er_head := head r'\<rparr>) = Some (s, p, er_capacity (ar_edges a ! e))"
    using bytes by blast
  have "take (er_capacity (ar_edges a ! e)) (drop (er_stamp_off (ar_edges a ! e))
      (put_segment (er_stamp_off (ar_edges a ! e)) (stamps r') (ar_stamps a))) = stamps r'"
    using take_drop_put_same [of "er_stamp_off (ar_edges a ! e)" "stamps r'" "ar_stamps a"] R(4) len by simp
  moreover have "take (er_capacity (ar_edges a ! e)) (drop (er_pose_off (ar_edges a ! e))
      (put_segment (er_pose_off (ar_edges a ! e)) (poses r') (ar_poses a))) = poses r'"
    using take_drop_put_same [of "er_pose_off (ar_edges a ! e)" "poses r'" "ar_poses a"] R(5) len by simp
  ultimately show ?thesis
    using e ed sp hb same(3) by (simp add: arena_ring_eq put_ring_def Let_def ring_of_def)
qed

lemma put_ring_other:
  assumes ok: "arena_ok a" and r: "arena_ring a e = Some r" and same: "capacity r' = capacity r"
    "length (stamps r') = length (stamps r)" and o: "arena_ring a e2 = Some q" "e2 \<noteq> e"
    "rings_apart (ar_edges a ! e) (ar_edges a ! e2)"
  shows "arena_ring (put_ring e r' a) e2 = Some q"
proof -
  have ro: "ring_of a e (ar_edges a ! e) (ar_claims a ! e) = Some r"
    and qo: "e2 < h_max_edges (ar_header a)" "ring_of a e2 (ar_edges a ! e2) (ar_claims a ! e2) = Some q"
    using r o by (simp_all add: arena_ring_eq)
  note R = ring_of_SomeD [OF ok ro] and Q = ring_of_SomeD [OF ok qo(2)]
  have len: "length (stamps r') = er_capacity (ar_edges a ! e)" "length (poses r') = er_capacity (ar_edges a ! e)"
    using same R(1,2) by (simp_all add: capacity_def)
  have "take (er_capacity (ar_edges a ! e2)) (drop (er_stamp_off (ar_edges a ! e2))
      (put_segment (er_stamp_off (ar_edges a ! e)) (stamps r') (ar_stamps a))) =
      take (er_capacity (ar_edges a ! e2)) (drop (er_stamp_off (ar_edges a ! e2)) (ar_stamps a))"
    using R(4) Q(4) len o(3) by (intro take_drop_put_apart) (auto simp: rings_apart_def)
  moreover have "take (er_capacity (ar_edges a ! e2)) (drop (er_pose_off (ar_edges a ! e2))
      (put_segment (er_pose_off (ar_edges a ! e)) (poses r') (ar_poses a))) =
      take (er_capacity (ar_edges a ! e2)) (drop (er_pose_off (ar_edges a ! e2)) (ar_poses a))"
    using R(5) Q(5) len o(3) by (intro take_drop_put_apart) (auto simp: rings_apart_def)
  moreover obtain s p where "ring_bytes (ar_header a) (ar_edges a ! e2) = Some (s, p, er_capacity (ar_edges a ! e2))"
    using qo(2) by (auto simp: ring_of_def ring_bytes_def Let_def split: if_splits)
  ultimately show ?thesis
    using qo o(2) by (simp add: arena_ring_eq put_ring_def Let_def ring_of_def)
qed

subsection \<open>Properties\<close>

text \<open>C16: the memory safety of the view. On a header that the attach-side validation accepts, every
  reference and slice the view forms, for whatever frame, edge or slot number and whatever offsets
  an edge record claims, lies behind the header and inside the mapping, is aligned for its type,
  and does not overlap one that goes to another table.\<close>

theorem view_extents_safe:
  assumes "validate_arena_header h len = Inr ()"
    "extent h a = Some (off, n, al)" "extent h a' = Some (off', n', al')"
  shows "320 \<le> off \<and> off + n \<le> len \<and> al dvd off \<and>
    (access_table a < access_table a' \<longrightarrow> off + n \<le> off')"
proof -
  have wp: "header_well_placed h len" using assms(1) by (rule valid_header_places)
  note A = extent_in_table [OF wp assms(2)] and A' = extent_in_table [OF wp assms(3)]
  have ends: "table_start h 0 = frame_table_off h" "table_start h 23 = arena_size h"
    by (simp_all add: table_start_def)
  have "320 \<le> table_start h 0" "table_start h 23 = len" using wp ends by (simp_all add: header_well_placed_def)
  moreover have "table_start h 0 \<le> table_start h (access_table a)"
    "table_start h (Suc (access_table a)) \<le> table_start h 23"
    using A by (auto intro!: table_start_mono [OF wp])
  moreover have "off + n \<le> off'" if "access_table a < access_table a'"
    using A A' that table_start_mono [OF wp, of "Suc (access_table a)" "access_table a'"] by simp
  ultimately show ?thesis using A by linarith
qed

theorem view_extents_safe_witness:
  "\<exists>h. validate_arena_header h 25344 = Inr () \<and>
     (\<exists>off off'. extent h AFrameHashes = Some (off, hash_slots h * 8, 8) \<and>
       extent h AParticipants = Some (off', h_max_participants h * 128, 64) \<and>
       off + hash_slots h * 8 \<le> off' \<and> off' + h_max_participants h * 128 \<le> 25344)"
proof -
  obtain h where h: "validate_arena_header h 25344 = Inr ()" using layout_fixture by blast
  show ?thesis
    using view_extents_safe [OF h, of AFrameHashes _ _ _ AParticipants]
      view_extents_safe [OF h, of AParticipants _ _ _ AFrameHashes] h
    by (intro exI [of _ h]) simp
qed


text \<open>Two edges of capacity 4 in an arena with eight slots.\<close>

definition two_edges :: arena where
  "two_edges =
     \<lparr>ar_header = \<lparr>magic = 0, format_version = 3, h_layout_hash = layout_hash, arena_size = 0, h_max_frames = 4,
        h_max_edges = 2, stamp_slots = 8, pose_slots = 8, frame_table_off = 0, frame_hash_off = 0,
        topo_block_off = 0, topo_block_stride = 0, claim_table_off = 0, participant_table_off = 0,
        h_max_participants = 0, edge_table_off = 0, stamp_arena_off = 0, pose_arena_off = 0,
        edge_counters_off = 0, participant_counters_off = 0, creator_pid = 0, owner_start_time = 0,
        boot_id = [], instance_uuid = []\<rparr>,
      ar_topology = zero_view,
      ar_edges = [edge_record_dynamic 1 2 4 0 0 0 0, edge_record_dynamic 2 3 4 4 4 0 0],
      ar_claims = [claim_record_new, claim_record_new],
      ar_stamps = replicate 8 0, ar_poses = replicate 8 pose_slot_new, ar_participants = [],
      ar_edge_counters = [edge_counters_default, edge_counters_default], ar_participant_counters = []\<rparr>"

lemma two_edges_rings:
  "arena_ok two_edges" "rings_apart (ar_edges two_edges ! 0) (ar_edges two_edges ! 1)"
  "arena_ring two_edges 0 = Some (ring_new 0 4)" "arena_ring two_edges 1 = Some (ring_new 1 4)"
proof -
  have c: "is_power_of_two (4 :: nat)" by simp
  show "arena_ok two_edges" by (simp add: arena_ok_def two_edges_def pose_slot_new_def)
  show "rings_apart (ar_edges two_edges ! 0) (ar_edges two_edges ! 1)"
    by (simp add: rings_apart_def two_edges_def edge_record_dynamic_def)
  show "arena_ring two_edges 0 = Some (ring_new 0 4)" "arena_ring two_edges 1 = Some (ring_new 1 4)"
    using c by (simp_all add: arena_ring_def arena_edge_def arena_claim_def two_edges_def ring_of_def ring_bytes_def
        edge_record_dynamic_def claim_record_new_def ring_new_def Let_def)
qed


end
