(* ===== verification/Plan_Fold.thy ===== *)
theory Plan_Fold
  imports Claims
begin

text \<open>
  The data of \<open>tf_tree_core/src/plan.rs\<close> (time domains, stamps, queries, steps, plans) and the constant
  fold that turns the raw edges of a path into steps: \<open>fold_into\<close>. The walk that finds the edges is in
  \<open>Plan_Walk\<close>, the evaluation in \<open>Plan_Eval\<close>.
\<close>

subsection \<open>Time\<close>

definition SystemDomain_TAG :: nat where "SystemDomain_TAG = 0"
definition SensorDomain_TAG :: nat where "SensorDomain_TAG = 1"
definition SimDomain_TAG :: nat where "SimDomain_TAG = 2"
definition SteadyDomain_TAG :: nat where "SteadyDomain_TAG = 3"

definition PLAN_NANOS_PER_SEC :: int where "PLAN_NANOS_PER_SEC = 1000000000"

text \<open>A stamp is its nanosecond count; the domain is a type parameter and reaches the code as the
  tag the plans are asked with.\<close>

type_synonym stamp = int

definition stamp_from_parts :: "int \<Rightarrow> nat \<Rightarrow> stamp option" where
  "stamp_from_parts sec nanos =
     (if int nanos \<ge> PLAN_NANOS_PER_SEC then None
      else let total_ns = sec * PLAN_NANOS_PER_SEC + int nanos
           in if total_ns < i64_min \<or> total_ns > i64_max then None else Some total_ns)"

definition stamp_from_timespec :: "int \<Rightarrow> int \<Rightarrow> stamp option" where
  "stamp_from_timespec tv_sec tv_nsec =
     (if tv_nsec < 0 \<or> tv_nsec \<ge> PLAN_NANOS_PER_SEC then None
      else stamp_from_parts tv_sec (nat tv_nsec mod 2 ^ 32))"

datatype query = At stamp | Latest | LatestCommon

datatype interp_policy = ScLerp | LerpSlerp

definition interp_policy_from_u8 :: "nat \<Rightarrow> interp_policy" where
  "interp_policy_from_u8 v = (if v = 1 then LerpSlerp else ScLerp)"

fun interp_policy_as_u8 :: "interp_policy \<Rightarrow> nat" where
  "interp_policy_as_u8 ScLerp = 0"
| "interp_policy_as_u8 LerpSlerp = 1"

lemma interp_policy_round_trip [simp]: "interp_policy_from_u8 (interp_policy_as_u8 p) = p"
  by (cases p) (simp_all add: interp_policy_from_u8_def)

subsection \<open>Plans\<close>

definition MAX_DEPTH :: nat where "MAX_DEPTH = 32"
definition MAX_PATH_EDGES :: nat where "MAX_PATH_EDGES = 64"

datatype step = StaticStep iso3 | Dyn edge_id bool

record plan =
  plan_generation :: u64
  plan_array :: "step list"
  plan_len :: nat
  plan_domain :: nat
  plan_dyn_count :: nat
  plan_first_dyn :: edge_id

definition identity_plan :: "u64 \<Rightarrow> plan" where
  "identity_plan generation =
     \<lparr>plan_generation = generation, plan_array = replicate MAX_DEPTH (StaticStep iso3_IDENTITY), plan_len = 0,
      plan_domain = 0, plan_dyn_count = 0, plan_first_dyn = 0\<rparr>"

definition plan_steps :: "plan \<Rightarrow> step list" where
  "plan_steps p = take (plan_len p) (plan_array p)"

definition plan_is_empty :: "plan \<Rightarrow> bool" where
  "plan_is_empty p \<longleftrightarrow> plan_len p = 0"

definition has_dynamic :: "plan \<Rightarrow> bool" where
  "has_dynamic p \<longleftrightarrow> plan_dyn_count p > 0"

definition first_dynamic_edge :: "plan \<Rightarrow> edge_id" where
  "first_dynamic_edge p = (if plan_dyn_count p = 1 then plan_first_dyn p else 0)"

record edge_meta =
  em_kind :: edge_kind
  em_domain :: nat
  em_static_pose :: iso3

subsection \<open>Constant folding\<close>

record fold_state =
  fs_out :: "step list"
  fs_n :: nat
  fs_dyn_count :: nat
  fs_first_dyn :: edge_id
  fs_last_static :: bool
  fs_domain :: "nat option"

definition fold_start :: "step list \<Rightarrow> fold_state" where
  "fold_start out = \<lparr>fs_out = out, fs_n = 0, fs_dyn_count = 0, fs_first_dyn = 0, fs_last_static = False,
     fs_domain = None\<rparr>"

text \<open>The first match of the loop body: what an edge becomes, and the domain check.\<close>

definition resolve_edge :: "edge_meta \<Rightarrow> edge_id \<Rightarrow> bool \<Rightarrow> nat option \<Rightarrow> lookup_error + step \<times> nat option" where
  "resolve_edge meta edge inverted dmn =
     (case em_kind meta of
        Static \<Rightarrow> Inr (StaticStep (if inverted then iso3_inverse (em_static_pose meta) else em_static_pose meta), dmn)
      | _ \<Rightarrow>
          (case dmn of
             None \<Rightarrow> Inr (Dyn edge inverted, Some (em_domain meta))
           | Some d \<Rightarrow> if d \<noteq> em_domain meta then Inl (MixedTimeDomains edge d (em_domain meta))
                        else Inr (Dyn edge inverted, dmn)))"

text \<open>The append arm of the second match.\<close>

definition append_step :: "step \<Rightarrow> fold_state \<Rightarrow> fold_state" where
  "append_step s st =
     st\<lparr>fs_out := (if fs_n st < MAX_DEPTH then (fs_out st)[fs_n st := s] else fs_out st),
        fs_dyn_count := (case s of Dyn _ _ \<Rightarrow> min (fs_dyn_count st + 1) 255 | _ \<Rightarrow> fs_dyn_count st),
        fs_first_dyn := (case s of Dyn e _ \<Rightarrow> if fs_dyn_count st = 0 then e else fs_first_dyn st
                         | _ \<Rightarrow> fs_first_dyn st),
        fs_last_static := (case s of StaticStep _ \<Rightarrow> True | _ \<Rightarrow> False),
        fs_n := fs_n st + 1\<rparr>"

definition emit_step :: "step \<Rightarrow> fold_state \<Rightarrow> fold_state" where
  "emit_step s st =
     (case s of
        StaticStep cur \<Rightarrow>
          if fs_last_static st then
            (if fs_n st \<le> MAX_DEPTH then
               (case fs_out st ! (fs_n st - 1) of
                  StaticStep prev \<Rightarrow> st\<lparr>fs_out := (fs_out st)[fs_n st - 1 := StaticStep (iso3_mul prev cur)]\<rparr>
                | _ \<Rightarrow> st)
             else st)
          else append_step s st
      | _ \<Rightarrow> append_step s st)"

fun fold_loop :: "(edge_id \<Rightarrow> edge_meta option) \<Rightarrow> (edge_id \<times> bool) list \<Rightarrow> fold_state \<Rightarrow> lookup_error + fold_state" where
  "fold_loop edge_meta [] st = Inr st"
| "fold_loop edge_meta ((edge, inverted) # path) st =
     rbind (ok_or (edge_meta edge) (UnknownEdge edge)) (\<lambda>meta.
     rbind (resolve_edge meta edge inverted (fs_domain st)) (\<lambda>(s, dmn).
       fold_loop edge_meta path (emit_step s (st\<lparr>fs_domain := dmn\<rparr>))))"

definition raw_path :: "edge_id list \<Rightarrow> edge_id list \<Rightarrow> (edge_id \<times> bool) list" where
  "raw_path t_edges s_edges = map (\<lambda>e. (e, True)) t_edges @ map (\<lambda>e. (e, False)) (rev s_edges)"

definition fold_into :: "plan \<Rightarrow> edge_id list \<Rightarrow> edge_id list \<Rightarrow> (edge_id \<Rightarrow> edge_meta option) \<Rightarrow> lookup_error + plan" where
  "fold_into p t_edges s_edges edge_meta =
     rbind (fold_loop edge_meta (raw_path t_edges s_edges) (fold_start (plan_array p))) (\<lambda>st.
       if fs_n st > MAX_DEPTH then Inl (TreeTooDeep (fs_n st))
       else Inr (p\<lparr>plan_array := fs_out st, plan_len := fs_n st,
                   plan_domain := (case fs_domain st of None \<Rightarrow> 0 | Some d \<Rightarrow> d),
                   plan_dyn_count := fs_dyn_count st, plan_first_dyn := fs_first_dyn st\<rparr>))"

subsection \<open>What a folded plan is\<close>

text \<open>The reference: resolve every edge, then merge neighbouring constants, on lists without a bound.\<close>

fun raw_steps :: "(edge_id \<Rightarrow> edge_meta option) \<Rightarrow> (edge_id \<times> bool) list \<Rightarrow> nat option \<Rightarrow>
    lookup_error + step list \<times> nat option" where
  "raw_steps edge_meta [] dmn = Inr ([], dmn)"
| "raw_steps edge_meta ((edge, inverted) # path) dmn =
     rbind (ok_or (edge_meta edge) (UnknownEdge edge)) (\<lambda>meta.
     rbind (resolve_edge meta edge inverted dmn) (\<lambda>(s, dmn').
     rbind (raw_steps edge_meta path dmn') (\<lambda>(ss, dmn''). Inr (s # ss, dmn''))))"

fun merge_step :: "step list \<Rightarrow> step \<Rightarrow> step list" where
  "merge_step ls (Dyn e i) = ls @ [Dyn e i]"
| "merge_step ls (StaticStep cur) =
     (case rev ls of
        StaticStep prev # before \<Rightarrow> rev before @ [StaticStep (iso3_mul prev cur)]
      | _ \<Rightarrow> ls @ [StaticStep cur])"

definition collapse :: "step list \<Rightarrow> step list" where
  "collapse ss = foldl merge_step [] ss"

fun is_static :: "step \<Rightarrow> bool" where
  "is_static (StaticStep m) \<longleftrightarrow> True"
| "is_static (Dyn e i) \<longleftrightarrow> False"

fun dyn_edges :: "step list \<Rightarrow> edge_id list" where
  "dyn_edges [] = []"
| "dyn_edges (StaticStep m # ss) = dyn_edges ss"
| "dyn_edges (Dyn e i # ss) = e # dyn_edges ss"

lemma dyn_edges_append [simp]: "dyn_edges (xs @ ys) = dyn_edges xs @ dyn_edges ys"
  by (induction xs rule: dyn_edges.induct) simp_all

definition fold_ref :: "plan \<Rightarrow> (edge_id \<times> bool) list \<Rightarrow> (edge_id \<Rightarrow> edge_meta option) \<Rightarrow> lookup_error + u64 \<times> step list \<times> nat" where
  "fold_ref p path edge_meta =
     rbind (raw_steps edge_meta path None) (\<lambda>(raw, dmn).
       if length (collapse raw) > MAX_DEPTH then Inl (TreeTooDeep (length (collapse raw)))
       else Inr (plan_generation p, collapse raw, case dmn of None \<Rightarrow> 0 | Some d \<Rightarrow> d))"

text \<open>The folding state stands for a list of steps; the array holds its first 32.\<close>

definition tracks :: "fold_state \<Rightarrow> step list \<Rightarrow> bool" where
  "tracks st ls \<longleftrightarrow> fs_n st = length ls \<and> length (fs_out st) = MAX_DEPTH \<and>
     take (min (length ls) MAX_DEPTH) (fs_out st) = take MAX_DEPTH ls \<and>
     fs_last_static st = (ls \<noteq> [] \<and> is_static (last ls)) \<and>
     fs_dyn_count st = min (length (dyn_edges ls)) 255 \<and>
     fs_first_dyn st = (case dyn_edges ls of [] \<Rightarrow> 0 | e # _ \<Rightarrow> e)"

lemma tracks_nth: "tracks st ls \<Longrightarrow> i < length ls \<Longrightarrow> i < MAX_DEPTH \<Longrightarrow> fs_out st ! i = ls ! i"
proof -
  assume t: "tracks st ls" and i: "i < length ls" "i < MAX_DEPTH"
  then have "take (min (length ls) MAX_DEPTH) (fs_out st) ! i = take MAX_DEPTH ls ! i" by (simp add: tracks_def)
  then show ?thesis using i by simp
qed

lemma take_append_MAX:
  assumes "length out = MAX_DEPTH" "take (min (length ls) MAX_DEPTH) out = take MAX_DEPTH ls"
  shows "take (min (Suc (length ls)) MAX_DEPTH) (if length ls < MAX_DEPTH then out[length ls := s] else out) =
     take MAX_DEPTH (ls @ [s])"
proof (cases "length ls < MAX_DEPTH")
  case True
  then have "take (length ls) out = ls" using assms(2) by (simp add: min_def)
  then show ?thesis using True assms(1) by (simp add: min_def take_Suc_conv_app_nth take_update_swap)
next
  case False
  then show ?thesis using assms by (simp add: min_def)
qed

lemma tracks_append: "tracks st ls \<Longrightarrow> tracks (append_step s st) (ls @ [s])"
  using take_append_MAX [of "fs_out st" ls s]
  by (cases s; cases "dyn_edges ls") (auto simp: tracks_def append_step_def)

lemma tracks_emit:
  assumes t: "tracks st ls"
  shows "tracks (emit_step s st) (merge_step ls s)"
proof (cases s)
  case (Dyn e i)
  then show ?thesis using tracks_append [OF t, of s] by (simp add: emit_step_def)
next
  case (StaticStep cur)
  show ?thesis
  proof (cases "fs_last_static st")
    case False
    then have "merge_step ls s = ls @ [s]"
      using t StaticStep by (cases ls rule: rev_cases) (auto simp: tracks_def split: step.splits)
    then show ?thesis using tracks_append [OF t, of s] False StaticStep by (simp add: emit_step_def)
  next
    case True
    then obtain before prev where ls: "ls = before @ [StaticStep prev]"
      using t by (cases ls rule: rev_cases; cases "last ls") (auto simp: tracks_def)
    have m: "merge_step ls s = before @ [StaticStep (iso3_mul prev cur)]" by (simp add: ls StaticStep)
    show ?thesis
    proof (cases "fs_n st \<le> MAX_DEPTH")
      case True2: True
      then have n: "length before < MAX_DEPTH" "fs_n st = Suc (length before)" using t ls by (simp_all add: tracks_def)
      have "fs_out st ! length before = StaticStep prev"
        using tracks_nth [OF t, of "length before"] n ls by simp
      moreover have "take (length before) (take (Suc (length before)) (fs_out st)) = before"
        using t n ls by (simp add: tracks_def min_def)
      then have "take (length before) (fs_out st) = before" by (simp add: min_def)
      ultimately show ?thesis
        using t True StaticStep n ls m
        by (auto simp: emit_step_def tracks_def min_def take_Suc_conv_app_nth take_update_swap)
    next
      case False
      then show ?thesis
        using t True StaticStep ls m by (auto simp: emit_step_def tracks_def)
    qed
  qed
qed

lemma fold_loop_tracks:
  assumes "tracks st ls"
  shows "case raw_steps edge_meta path (fs_domain st) of
      Inl e \<Rightarrow> fold_loop edge_meta path st = Inl e
    | Inr (raw, dmn) \<Rightarrow> \<exists>st'. fold_loop edge_meta path st = Inr st' \<and> tracks st' (foldl merge_step ls raw) \<and> fs_domain st' = dmn"
  using assms
proof (induction path arbitrary: st ls)
  case Nil
  then show ?case by simp
next
  case (Cons ei path)
  obtain edge inverted where ei: "ei = (edge, inverted)" by (cases ei)
  show ?case
  proof (cases "edge_meta edge")
    case None
    then show ?thesis by (simp add: ei)
  next
    case (Some meta)
    show ?thesis
    proof (cases "resolve_edge meta edge inverted (fs_domain st)")
      case (Inl e)
      with Some show ?thesis by (simp add: ei)
    next
      case (Inr sd)
      obtain s dmn where sd: "sd = (s, dmn)" by (cases sd)
      let ?st = "emit_step s (st\<lparr>fs_domain := dmn\<rparr>)"
      have "tracks (st\<lparr>fs_domain := dmn\<rparr>) ls" using Cons.prems by (simp add: tracks_def)
      then have "tracks ?st (merge_step ls s)" by (rule tracks_emit)
      moreover have "fs_domain ?st = dmn" by (simp add: emit_step_def append_step_def split: step.splits)
      ultimately show ?thesis
        using Cons.IH [of ?st "merge_step ls s"] Some Inr sd
        by (auto simp: ei split: sum.splits prod.splits)
    qed
  qed
qed

lemma tracks_start: "length out = MAX_DEPTH \<Longrightarrow> tracks (fold_start out) []"
  by (simp add: tracks_def fold_start_def)

lemma fold_into_ref:
  assumes "length (plan_array p) = MAX_DEPTH"
  shows "case fold_ref p (raw_path ts ss) edge_meta of
      Inl e \<Rightarrow> fold_into p ts ss edge_meta = Inl e
    | Inr (g, steps, dmn) \<Rightarrow> \<exists>q. fold_into p ts ss edge_meta = Inr q \<and> plan_generation q = g \<and>
        plan_steps q = steps \<and> plan_domain q = dmn \<and> plan_len q = length steps \<and> length (plan_array q) = MAX_DEPTH \<and>
        plan_dyn_count q = length (dyn_edges steps) \<and>
        plan_first_dyn q = (case dyn_edges steps of [] \<Rightarrow> 0 | e # _ \<Rightarrow> e)"
proof -
  let ?st = "fold_start (plan_array p)"
  note T = fold_loop_tracks [OF tracks_start [OF assms], of edge_meta "raw_path ts ss"]
  have dom0: "fs_domain ?st = None" by (simp add: fold_start_def)
  show ?thesis
  proof (cases "raw_steps edge_meta (raw_path ts ss) None")
    case (Inl e)
    then show ?thesis using T dom0 by (simp add: fold_ref_def fold_into_def)
  next
    case (Inr rd)
    obtain raw dmn where rd: "rd = (raw, dmn)" by (cases rd)
    obtain st where st: "fold_loop edge_meta (raw_path ts ss) ?st = Inr st" "tracks st (collapse raw)" "fs_domain st = dmn"
      using T dom0 Inr rd by (auto simp: collapse_def)
    have few: "length (dyn_edges xs) \<le> length xs" for xs by (induction xs rule: dyn_edges.induct) simp_all
    show ?thesis
    proof (cases "length (collapse raw) > MAX_DEPTH")
      case True
      then show ?thesis using st Inr rd by (simp add: fold_ref_def fold_into_def tracks_def)
    next
      case False
      then have "length (dyn_edges (collapse raw)) \<le> 255"
        using few [of "collapse raw"] by (simp add: MAX_DEPTH_def)
      then show ?thesis
        using False st Inr rd by (auto simp: fold_ref_def fold_into_def tracks_def plan_steps_def min_def)
    qed
  qed
qed

subsection \<open>Evaluating steps\<close>

text \<open>The fold of a plan over a sampler: what \<open>fold_at\<close> and its variants compute.\<close>

fun eval_steps :: "(edge_id \<Rightarrow> lookup_error + iso3) \<Rightarrow> step list \<Rightarrow> iso3 \<Rightarrow> lookup_error + iso3" where
  "eval_steps S [] acc = Inr acc"
| "eval_steps S (StaticStep m # ss) acc = eval_steps S ss (iso3_mul acc m)"
| "eval_steps S (Dyn e inverted # ss) acc =
     rbind (S e) (\<lambda>p. eval_steps S ss (if inverted then iso3_mul_inv acc p else iso3_mul acc p))"

lemma eval_steps_append: "eval_steps S (xs @ ys) acc = rbind (eval_steps S xs acc) (eval_steps S ys)"
proof (induction S xs acc rule: eval_steps.induct)
  case (3 S e inverted ss acc)
  then show ?case by (cases "S e") auto
qed simp_all

lemma eval_steps_cong:
  "(\<And>e. e \<in> set (dyn_edges ss) \<Longrightarrow> S e = S' e) \<Longrightarrow> eval_steps S ss acc = eval_steps S' ss acc"
proof (induction S ss acc rule: eval_steps.induct)
  case (3 S e inverted ss acc)
  then show ?case by (cases "S' e") auto
qed simp_all

definition unit_sampler :: "(edge_id \<Rightarrow> lookup_error + iso3) \<Rightarrow> bool" where
  "unit_sampler S \<longleftrightarrow> (\<forall>e p. S e = Inr p \<longrightarrow> unit_iso p)"

definition unit_steps :: "step list \<Rightarrow> bool" where
  "unit_steps ss \<longleftrightarrow> (\<forall>m. StaticStep m \<in> set ss \<longrightarrow> unit_iso m)"

lemma unit_mul_inv [simp]: "unit_iso a \<Longrightarrow> unit_iso b \<Longrightarrow> unit_iso (iso3_mul_inv a b)"
  by (simp add: iso3_mul_inv_eq)

lemma eval_steps_unit:
  "unit_sampler S \<Longrightarrow> unit_steps ss \<Longrightarrow> unit_iso acc \<Longrightarrow> eval_steps S ss acc = Inr p \<Longrightarrow> unit_iso p"
proof (induction S ss acc rule: eval_steps.induct)
  case (3 S e inverted ss acc)
  then obtain q where q: "S e = Inr q" "eval_steps S ss (if inverted then iso3_mul_inv acc q else iso3_mul acc q) = Inr p"
    by (auto simp: rbind_iffs)
  have "unit_iso q" using 3(2) q by (auto simp: unit_sampler_def)
  then have u: "unit_iso (if inverted then iso3_mul_inv acc q else iso3_mul acc q)" using 3(4) by simp
  have "unit_steps ss" using 3(3) by (simp add: unit_steps_def)
  then show ?case using 3(1) [OF 3(2) _ u q(2)] by simp
qed (auto simp: unit_steps_def)

lemma merge_step_unit: "unit_steps ls \<Longrightarrow> unit_steps [s] \<Longrightarrow> unit_steps (merge_step ls s)"
  by (cases s; cases ls rule: rev_cases) (auto simp: unit_steps_def split: step.splits)

lemma merge_step_eval:
  assumes "unit_sampler S" "unit_steps ls" "unit_steps [s]" "unit_iso acc"
  shows "eval_steps S (merge_step ls s) acc = eval_steps S (ls @ [s]) acc"
proof (cases "\<exists>before prev cur. ls = before @ [StaticStep prev] \<and> s = StaticStep cur")
  case True
  then obtain before prev cur where ls: "ls = before @ [StaticStep prev]" "s = StaticStep cur" by blast
  have u: "unit_steps before" "unit_iso prev" using assms(2) ls by (auto simp: unit_steps_def)
  show ?thesis
  proof (cases "eval_steps S before acc")
    case (Inl e)
    then show ?thesis by (simp add: ls eval_steps_append)
  next
    case (Inr b)
    then have "unit_iso b" using eval_steps_unit [OF assms(1) u(1) assms(4)] by blast
    then show ?thesis using Inr u(2) by (simp add: ls eval_steps_append iso3_mul_assoc)
  qed
next
  case False
  then have "merge_step ls s = ls @ [s]"
    by (cases s; cases ls rule: rev_cases) (auto split: step.splits)
  then show ?thesis by simp
qed

lemma collapse_eval:
  assumes "unit_sampler S" "unit_iso acc"
  shows "unit_steps ls \<Longrightarrow> unit_steps raw \<Longrightarrow> eval_steps S (foldl merge_step ls raw) acc = eval_steps S (ls @ raw) acc"
proof (induction raw arbitrary: ls)
  case Nil
  then show ?case by simp
next
  case (Cons s raw)
  have u: "unit_steps [s]" "unit_steps raw" using Cons.prems by (auto simp: unit_steps_def)
  have "eval_steps S (foldl merge_step ls (s # raw)) acc = eval_steps S (merge_step ls s @ raw) acc"
    using Cons.IH [OF merge_step_unit [OF Cons.prems(1) u(1)] u(2)] by simp
  also have "\<dots> = eval_steps S ((ls @ [s]) @ raw) acc"
    unfolding eval_steps_append [of S _ raw] using merge_step_eval [OF assms(1) Cons.prems(1) u(1) assms(2)] by simp
  finally show ?case by simp
qed

definition apart :: "step list \<Rightarrow> bool" where
  "apart ss \<longleftrightarrow> successively (\<lambda>a b. \<not> (is_static a \<and> is_static b)) ss"

lemma apart_snoc: "apart (ls @ [s]) \<longleftrightarrow> apart ls \<and> \<not> (ls \<noteq> [] \<and> is_static (last ls) \<and> is_static s)"
  by (auto simp: apart_def successively_append_iff)

lemma merge_step_apart:
  assumes "apart ls"
  shows "apart (merge_step ls s)"
proof (cases s)
  case (StaticStep cur)
  show ?thesis
  proof (cases ls rule: rev_cases)
    case Nil
    then show ?thesis using StaticStep by (simp add: apart_def)
  next
    case (snoc ys y)
    show ?thesis
    proof (cases y)
      case (StaticStep prev)
      then show ?thesis using assms \<open>s = StaticStep cur\<close> snoc by (simp add: apart_snoc)
    next
      case (Dyn e i)
      then have "merge_step ls s = ls @ [s]" using \<open>s = StaticStep cur\<close> snoc by simp
      then show ?thesis using assms snoc Dyn apart_snoc [of ls s] by simp
    qed
  qed
next
  case (Dyn e i)
  then show ?thesis using assms by (simp add: apart_snoc)
qed

lemma collapse_apart: "apart ls \<Longrightarrow> apart (foldl merge_step ls raw)"
  by (induction raw arbitrary: ls) (simp_all add: merge_step_apart)

lemma apart_Nil [simp]: "apart []"
  by (simp add: apart_def)

text \<open>What a raw path means: the poses of its edges, inverted on the way up.\<close>

definition edge_pose :: "(edge_id \<Rightarrow> edge_meta option) \<Rightarrow> (edge_id \<Rightarrow> lookup_error + iso3) \<Rightarrow> edge_id \<Rightarrow> lookup_error + iso3" where
  "edge_pose edge_meta S e =
     (case edge_meta e of
        None \<Rightarrow> Inl (UnknownEdge e)
      | Some meta \<Rightarrow> if em_kind meta = Static then Inr (em_static_pose meta) else S e)"

fun eval_path :: "(edge_id \<Rightarrow> edge_meta option) \<Rightarrow> (edge_id \<Rightarrow> lookup_error + iso3) \<Rightarrow> (edge_id \<times> bool) list \<Rightarrow>
    iso3 \<Rightarrow> lookup_error + iso3" where
  "eval_path edge_meta S [] acc = Inr acc"
| "eval_path edge_meta S ((e, inverted) # path) acc =
     rbind (edge_pose edge_meta S e) (\<lambda>p.
       eval_path edge_meta S path (if inverted then iso3_mul acc (iso3_inverse p) else iso3_mul acc p))"

definition unit_metas :: "(edge_id \<Rightarrow> edge_meta option) \<Rightarrow> bool" where
  "unit_metas edge_meta \<longleftrightarrow>
     (\<forall>e meta. edge_meta e = Some meta \<and> em_kind meta = Static \<longrightarrow> unit_iso (em_static_pose meta))"

lemma resolve_edge_cases:
  "resolve_edge meta e i dmn = Inr (s, dmn') \<Longrightarrow>
     em_kind meta = Static \<and> dmn' = dmn \<and>
       s = StaticStep (if i then iso3_inverse (em_static_pose meta) else em_static_pose meta) \<or>
     em_kind meta \<noteq> Static \<and> s = Dyn e i \<and> dmn' = Some (em_domain meta) \<and> (dmn = None \<or> dmn = Some (em_domain meta))"
  by (cases "em_kind meta"; cases dmn) (auto simp: resolve_edge_def split: if_splits)

lemma raw_steps_eval:
  assumes S: "unit_sampler S" and m: "unit_metas edge_meta"
  shows "raw_steps edge_meta path dmn = Inr (raw, dmn') \<Longrightarrow> unit_iso acc \<Longrightarrow>
    unit_steps raw \<and> eval_steps S raw acc = eval_path edge_meta S path acc"
proof (induction path arbitrary: dmn raw acc)
  case Nil
  then show ?case by (simp add: unit_steps_def)
next
  case (Cons ei path)
  obtain e i where ei: "ei = (e, i)" by (cases ei)
  obtain meta s dmn1 rest where r: "edge_meta e = Some meta" "resolve_edge meta e i dmn = Inr (s, dmn1)"
    "raw_steps edge_meta path dmn1 = Inr (rest, dmn')" "raw = s # rest"
    using Cons.prems(1) by (auto simp: ei rbind_iffs split: prod.splits)
  from resolve_edge_cases [OF r(2)] show ?case
  proof
    assume st: "em_kind meta = Static \<and> dmn1 = dmn \<and>
       s = StaticStep (if i then iso3_inverse (em_static_pose meta) else em_static_pose meta)"
    then have u: "unit_iso (em_static_pose meta)" using m r(1) by (auto simp: unit_metas_def)
    let ?m = "if i then iso3_inverse (em_static_pose meta) else em_static_pose meta"
    have "unit_iso (iso3_mul acc ?m)" "unit_iso ?m" using u Cons.prems(2) by simp_all
    then show ?thesis
      using Cons.IH [OF r(3), of "iso3_mul acc ?m"] st r u
      by (auto simp: ei edge_pose_def unit_steps_def)
  next
    assume dy: "em_kind meta \<noteq> Static \<and> s = Dyn e i \<and> dmn1 = Some (em_domain meta) \<and> (dmn = None \<or> dmn = Some (em_domain meta))"
    have steps: "unit_steps rest" using Cons.IH [OF r(3), of iso3_IDENTITY] by simp
    show ?thesis
    proof (cases "S e")
      case (Inl err)
      then show ?thesis using dy r steps by (auto simp: ei edge_pose_def unit_steps_def)
    next
      case (Inr p)
      then have "unit_iso p" using S by (simp add: unit_sampler_def)
      let ?acc = "if i then iso3_mul acc (iso3_inverse p) else iso3_mul acc p"
      have "unit_iso ?acc" using \<open>unit_iso p\<close> Cons.prems(2) by simp
      then have "eval_steps S rest ?acc = eval_path edge_meta S path ?acc" using Cons.IH [OF r(3)] by blast
      moreover have "iso3_mul_inv acc p = iso3_mul acc (iso3_inverse p)"
        using \<open>unit_iso p\<close> Cons.prems(2) by (simp add: iso3_mul_inv_eq)
      moreover have "edge_pose edge_meta S e = Inr p" using Inr dy r(1) by (simp add: edge_pose_def)
      moreover have "unit_steps raw" using steps dy r(4) by (simp add: unit_steps_def)
      ultimately show ?thesis using Inr dy r(4) by (cases i) (simp_all add: ei)
    qed
  qed
qed

text \<open>Along a path whose edges all have a pose.\<close>

lemma eval_path_prod:
  assumes "\<forall>(e, i) \<in> set path. edge_pose edge_meta S e = Inr (P e) \<and> unit_iso (P e)" "unit_iso acc"
  shows "eval_path edge_meta S path acc =
    Inr (iso3_mul acc (iso.prod (map (\<lambda>(e, i). if i then iso3_inverse (P e) else P e) path)))"
  using assms
proof (induction path arbitrary: acc)
  case Nil
  then show ?case by simp
next
  case (Cons ei path)
  obtain e i where ei: "ei = (e, i)" by (cases ei)
  let ?f = "\<lambda>(e, i). if i then iso3_inverse (P e) else P e"
  have u: "\<forall>q \<in> set (map ?f (ei # path)). unit_iso q" using Cons.prems(1) by auto
  have p: "edge_pose edge_meta S e = Inr (P e)" "unit_iso (P e)" using Cons.prems(1) ei by auto
  let ?q = "if i then iso3_inverse (P e) else P e"
  have q: "unit_iso ?q" "unit_iso (iso3_mul acc ?q)" using p Cons.prems(2) by simp_all
  have "eval_path edge_meta S (ei # path) acc = eval_path edge_meta S path (iso3_mul acc ?q)"
    using p by (simp add: ei)
  also have "\<dots> = Inr (iso3_mul (iso3_mul acc ?q) (iso.prod (map ?f path)))"
    using Cons.IH [OF _ q(2)] Cons.prems(1) by simp
  also have "\<dots> = Inr (iso3_mul acc (iso3_mul ?q (iso.prod (map ?f path))))"
    using q Cons.prems(2) by (simp add: iso3_mul_assoc)
  also have "iso3_mul ?q (iso.prod (map ?f path)) = iso.prod (map ?f (ei # path))"
    using iso.prod_Cons [of ?q "map ?f path"] u by (simp add: ei)
  finally show ?case .
qed

subsection \<open>Properties\<close>

text \<open>C18: constant folding. For every path \<open>fold_into\<close>, with its bounded array and its counters, is the
  reference: resolve each edge, merge neighbouring constants, refuse more than 32 steps with
  their true number; defects are reported in path order. The plan it fills has at most 32 steps, no two
  neighbouring constants, and derived fields that agree with a scan of the steps.\<close>

theorem fold_into_reference:
  assumes "length (plan_array p) = MAX_DEPTH"
  shows "case fold_into p ts ss edge_meta of
      Inl e \<Rightarrow> fold_ref p (raw_path ts ss) edge_meta = Inl e
    | Inr q \<Rightarrow> fold_ref p (raw_path ts ss) edge_meta = Inr (plan_generation p, plan_steps q, plan_domain q) \<and>
        plan_generation q = plan_generation p \<and> length (plan_steps q) \<le> MAX_DEPTH \<and> apart (plan_steps q) \<and>
        (has_dynamic q \<longleftrightarrow> dyn_edges (plan_steps q) \<noteq> []) \<and>
        first_dynamic_edge q = (case dyn_edges (plan_steps q) of [e] \<Rightarrow> e | _ \<Rightarrow> 0)"
proof -
  note R = fold_into_ref [OF assms, of ts ss edge_meta]
  show ?thesis
  proof (cases "fold_ref p (raw_path ts ss) edge_meta")
    case (Inl e)
    then show ?thesis using R by simp
  next
    case (Inr gsd)
    obtain g steps dmn where gsd: "gsd = (g, steps, dmn)" by (cases gsd)
    then obtain q where q: "fold_into p ts ss edge_meta = Inr q" "plan_generation q = g" "plan_steps q = steps"
      "plan_domain q = dmn" "plan_dyn_count q = length (dyn_edges steps)"
      "plan_first_dyn q = (case dyn_edges steps of [] \<Rightarrow> 0 | e # _ \<Rightarrow> e)"
      using R Inr by auto
    have "g = plan_generation p \<and> length steps \<le> MAX_DEPTH \<and> (\<exists>raw. steps = collapse raw)"
      using Inr gsd by (auto simp: fold_ref_def rbind_iffs split: if_splits prod.splits)
    moreover from this have "apart steps" using collapse_apart [of "[]"] by (auto simp: collapse_def)
    ultimately show ?thesis
      using q Inr gsd
      by (auto simp: has_dynamic_def first_dynamic_edge_def split: list.splits)
  qed
qed

text \<open>A static edge up, a dynamic one up, two static ones down.\<close>

definition small_meta :: "edge_id \<Rightarrow> edge_meta option" where
  "small_meta e =
     (if e = 1 \<or> e = 3 \<or> e = 4 then Some \<lparr>em_kind = Static, em_domain = 0, em_static_pose = half_turn\<rparr>
      else if e = 2 then Some \<lparr>em_kind = Dynamic, em_domain = 0, em_static_pose = iso3_IDENTITY\<rparr>
      else None)"

theorem fold_into_reference_witness:
  "\<exists>q. fold_into (identity_plan 5) [1, 2] [4, 3] small_meta = Inr q \<and>
     plan_steps q = [StaticStep (iso3_inverse half_turn), Dyn 2 True, StaticStep (iso3_mul half_turn half_turn)] \<and>
     first_dynamic_edge q = 2"
proof -
  let ?f = "fold_into (identity_plan 5) [1, 2] [4, 3] small_meta"
  let ?ss = "[StaticStep (iso3_inverse half_turn), Dyn 2 True, StaticStep (iso3_mul half_turn half_turn)]"
  have l: "length (plan_array (identity_plan 5)) = MAX_DEPTH" by (simp add: identity_plan_def)
  have ref: "fold_ref (identity_plan 5) (raw_path [1, 2] [4, 3]) small_meta = Inr (5, ?ss, 0)"
    by (simp add: fold_ref_def raw_path_def small_meta_def resolve_edge_def collapse_def MAX_DEPTH_def identity_plan_def)
  note R = fold_into_reference [OF l, of "[1, 2]" "[4, 3]" small_meta]
  show ?thesis
  proof (cases ?f)
    case (Inl e)
    with R ref show ?thesis by simp
  next
    case (Inr q)
    with R ref have q: "plan_steps q = ?ss" "first_dynamic_edge q = (case dyn_edges (plan_steps q) of [e] \<Rightarrow> e | _ \<Rightarrow> 0)"
      by simp_all
    then have "first_dynamic_edge q = 2" by (simp only: q(1) dyn_edges.simps list.case)
    with Inr q show ?thesis by blast
  qed
qed

text \<open>Stamps survive the split into seconds and nanoseconds. Every 64-bit nanosecond count, before
  the epoch or after, is assembled from its floor quotient and remainder, by both constructors;
  whatever they accept is exact, and they never accept a remainder of a second or more.\<close>

theorem stamp_parts_round_trip:
  "(in_i64 t \<longrightarrow> stamp_from_parts (t div 1000000000) (nat (t mod 1000000000)) = Some t \<and>
     stamp_from_timespec (t div 1000000000) (t mod 1000000000) = Some t) \<and>
   (stamp_from_parts sec nanos = Some t \<longrightarrow> in_i64 t \<and> t div 1000000000 = sec \<and> t mod 1000000000 = int nanos) \<and>
   (stamp_from_timespec sec nsec = Some t \<longrightarrow> in_i64 t \<and> t div 1000000000 = sec \<and> t mod 1000000000 = nsec)"
proof -
  let ?b = "1000000000 :: int"
  have rem: "0 \<le> t mod ?b" "t mod ?b < ?b" "t div ?b * ?b + t mod ?b = t" by simp_all
  have parts: "stamp_from_parts sec nanos = Some t \<longleftrightarrow> int nanos < ?b \<and> t = sec * ?b + int nanos \<and> in_i64 t" for sec nanos t
    by (auto simp: stamp_from_parts_def PLAN_NANOS_PER_SEC_def in_i64_def Let_def)
  have unique: "(sec * ?b + r) div ?b = sec \<and> (sec * ?b + r) mod ?b = r" if "0 \<le> r" "r < ?b" for sec r
    using that by simp
  have spec: "stamp_from_timespec sec nsec = Some t \<longleftrightarrow> 0 \<le> nsec \<and> nsec < ?b \<and> t = sec * ?b + nsec \<and> in_i64 t" for sec nsec t
    by (auto simp: stamp_from_timespec_def PLAN_NANOS_PER_SEC_def parts)
  show ?thesis
    unfolding parts spec using rem unique [of "int nanos" sec] unique [of nsec sec] by auto
qed

theorem stamp_parts_round_trip_witness:
  "stamp_from_timespec (-1) 999999999 = Some (-1) \<and> stamp_from_parts (-9223372037) 145224192 = Some i64_min"
proof -
  have "in_i64 (-1)" "in_i64 i64_min" by (simp_all add: in_i64_def i64_min_def i64_max_def)
  then show ?thesis
    using conjunct1 [OF stamp_parts_round_trip [of "-1" 0 0 0]] conjunct1 [OF stamp_parts_round_trip [of i64_min 0 0 0]]
    by (simp add: i64_min_def)
qed

end
