(* ===== verification/Plan_Walk.thy ===== *)
theory Plan_Walk
  imports Plan_Fold Topo_Read
begin

text \<open>
  \<open>compile\<close> of \<open>tf_tree_core/src/plan.rs\<close>: the walk from two frames to where their paths to the root
  meet, under the topology word, and the fold of the edges it crossed. A walk makes its
  \<open>read_frame\<close> calls one after the other; \<open>rd k\<close> is the \<open>k\<close>-th of them, so the same definition runs at
  rest and against mutators.
\<close>

subsection \<open>One attempt\<close>

text \<open>An attempt ends with a result of \<open>compile\<close> or goes back to the head of the loop.\<close>

datatype 'a outcome = Retry | Done "lookup_error + 'a"

fun obind :: "'a outcome \<Rightarrow> ('a \<Rightarrow> 'b outcome) \<Rightarrow> 'b outcome" where
  "obind Retry f = Retry"
| "obind (Done (Inl e)) f = Done (Inl e)"
| "obind (Done (Inr x)) f = f x"

lemma obind_cong [fundef_cong]:
  "m = m' \<Longrightarrow> (\<And>x. m' = Done (Inr x) \<Longrightarrow> f x = f' x) \<Longrightarrow> obind m f = obind m' f'"
  by (cases "(m', f')" rule: obind.cases) auto

lemma obind_Done_iff:
  "obind m f = Done r \<longleftrightarrow> (\<exists>e. m = Done (Inl e) \<and> r = Inl e) \<or> (\<exists>x. m = Done (Inr x) \<and> f x = Done r)"
  by (cases "(m, f)" rule: obind.cases) auto

type_synonym frame_reads = "nat \<Rightarrow> frame_id \<Rightarrow> (nat \<times> nat \<times> nat \<times> u64) option"

definition read_at :: "frame_reads \<Rightarrow> u64 \<Rightarrow> nat \<Rightarrow> frame_id \<Rightarrow> (nat \<times> nat \<times> nat) outcome" where
  "read_at rd start_gen k f =
     (case rd k f of
        None \<Rightarrow> Done (Inl (FrameOutOfRange f))
      | Some (p, d, e, g) \<Rightarrow> if g \<noteq> start_gen then Retry else Done (Inr (p, d, e)))"

text \<open>The locals of the walk; \<open>w_reads\<close> counts the reads made so far.\<close>

record walk =
  w_a :: frame_id
  w_pa :: nat
  w_da :: nat
  w_ea :: nat
  w_b :: frame_id
  w_pb :: nat
  w_db :: nat
  w_eb :: nat
  w_t_edges :: "edge_id list"
  w_s_edges :: "edge_id list"
  w_reads :: nat

definition w_count :: "walk \<Rightarrow> nat" where
  "w_count w = length (w_t_edges w) + length (w_s_edges w)"

text \<open>The counts grow one by one from 0, so \<open>nt + ns == MAX_PATH_EDGES\<close> is the first time they reach the
  bound.\<close>

definition push_edge :: "nat \<Rightarrow> edge_id list \<Rightarrow> edge_id \<Rightarrow> frame_id \<Rightarrow> edge_id list outcome" where
  "push_edge count buf edge frame =
     (if count \<ge> MAX_PATH_EDGES then Done (Inl (TreeTooDeep (MAX_PATH_EDGES + 1)))
      else if edge = 0 then Done (Inl (MissingEdge frame))
      else Done (Inr (buf @ [edge])))"

definition frame_or_disconnect :: "nat \<Rightarrow> frame_id \<Rightarrow> frame_id \<Rightarrow> frame_id \<Rightarrow> lookup_error + frame_id" where
  "frame_or_disconnect par target source cut_at = ok_or (frame_id_new par) (Disconnected target source cut_at)"

definition read_a :: "frame_reads \<Rightarrow> u64 \<Rightarrow> frame_id \<Rightarrow> walk \<Rightarrow> walk outcome" where
  "read_a rd start_gen a w =
     obind (read_at rd start_gen (w_reads w) a) (\<lambda>(p, d, e).
       Done (Inr (w\<lparr>w_a := a, w_pa := p, w_da := d, w_ea := e, w_reads := w_reads w + 1\<rparr>)))"

definition read_b :: "frame_reads \<Rightarrow> u64 \<Rightarrow> frame_id \<Rightarrow> walk \<Rightarrow> walk outcome" where
  "read_b rd start_gen b w =
     obind (read_at rd start_gen (w_reads w) b) (\<lambda>(p, d, e).
       Done (Inr (w\<lparr>w_b := b, w_pb := p, w_db := d, w_eb := e, w_reads := w_reads w + 1\<rparr>)))"

text \<open>The bodies of the three loops.\<close>

definition climb_a_body :: "frame_reads \<Rightarrow> u64 \<Rightarrow> frame_id \<Rightarrow> frame_id \<Rightarrow> walk \<Rightarrow> walk outcome" where
  "climb_a_body rd start_gen target source w =
     obind (push_edge (w_count w) (w_t_edges w) (w_ea w) (w_a w)) (\<lambda>ts.
     obind (Done (frame_or_disconnect (w_pa w) target source (w_a w))) (\<lambda>a.
       read_a rd start_gen a (w\<lparr>w_t_edges := ts\<rparr>)))"

definition climb_b_body :: "frame_reads \<Rightarrow> u64 \<Rightarrow> frame_id \<Rightarrow> frame_id \<Rightarrow> walk \<Rightarrow> walk outcome" where
  "climb_b_body rd start_gen target source w =
     obind (push_edge (w_count w) (w_s_edges w) (w_eb w) (w_b w)) (\<lambda>ss.
     obind (Done (frame_or_disconnect (w_pb w) target source (w_b w))) (\<lambda>b.
       read_b rd start_gen b (w\<lparr>w_s_edges := ss\<rparr>)))"

definition lockstep_body :: "frame_reads \<Rightarrow> u64 \<Rightarrow> frame_id \<Rightarrow> frame_id \<Rightarrow> walk \<Rightarrow> walk outcome" where
  "lockstep_body rd start_gen target source w =
     (if w_pa w = 0 \<or> w_pb w = 0 then Done (Inl (Disconnected target source (w_a w)))
      else
        obind (push_edge (w_count w) (w_t_edges w) (w_ea w) (w_a w)) (\<lambda>ts.
        obind (push_edge (w_count (w\<lparr>w_t_edges := ts\<rparr>)) (w_s_edges w) (w_eb w) (w_b w)) (\<lambda>ss.
        obind (Done (frame_or_disconnect (w_pa w) target source (w_a w))) (\<lambda>a.
        obind (Done (frame_or_disconnect (w_pb w) target source (w_b w))) (\<lambda>b.
        obind (read_a rd start_gen a (w\<lparr>w_t_edges := ts, w_s_edges := ss\<rparr>)) (\<lambda>w1.
          obind (read_b rd start_gen b w1) (\<lambda>w2.
            Done (Inr (w2\<lparr>w_da := w_da w, w_db := w_db w\<rparr>)))))))))"

lemma push_edge_Inr: "push_edge n buf e f = Done (Inr buf') \<Longrightarrow> n < MAX_PATH_EDGES \<and> e \<noteq> 0 \<and> buf' = buf @ [e]"
  by (simp add: push_edge_def split: if_splits)

lemma read_Inr:
  "read_a rd g a w = Done (Inr w') \<Longrightarrow> w_t_edges w' = w_t_edges w \<and> w_s_edges w' = w_s_edges w"
  "read_b rd g b w = Done (Inr w') \<Longrightarrow> w_t_edges w' = w_t_edges w \<and> w_s_edges w' = w_s_edges w"
  by (auto simp: read_a_def read_b_def obind_Done_iff)

text \<open>Every round fills at least one place, so the loops end.\<close>

lemma body_count:
  "climb_a_body rd g t s w = Done (Inr w') \<Longrightarrow> w_count w < MAX_PATH_EDGES \<and> w_count w < w_count w'"
  "climb_b_body rd g t s w = Done (Inr w') \<Longrightarrow> w_count w < MAX_PATH_EDGES \<and> w_count w < w_count w'"
  "lockstep_body rd g t s w = Done (Inr w') \<Longrightarrow> w_count w < MAX_PATH_EDGES \<and> w_count w < w_count w'"
  by (auto simp: climb_a_body_def climb_b_body_def lockstep_body_def obind_Done_iff w_count_def
      dest!: push_edge_Inr read_Inr split: if_splits)

function climb_a :: "frame_reads \<Rightarrow> u64 \<Rightarrow> frame_id \<Rightarrow> frame_id \<Rightarrow> walk \<Rightarrow> walk outcome" where
  "climb_a rd g target source w =
     (if w_da w > w_db w then obind (climb_a_body rd g target source w) (climb_a rd g target source)
      else Done (Inr w))"
  by pat_completeness auto
termination
  by (relation "measure (\<lambda>(rd, g, t, s, w). MAX_PATH_EDGES - w_count w)") (auto dest!: body_count)

function climb_b :: "frame_reads \<Rightarrow> u64 \<Rightarrow> frame_id \<Rightarrow> frame_id \<Rightarrow> walk \<Rightarrow> walk outcome" where
  "climb_b rd g target source w =
     (if w_db w > w_da w then obind (climb_b_body rd g target source w) (climb_b rd g target source)
      else Done (Inr w))"
  by pat_completeness auto
termination
  by (relation "measure (\<lambda>(rd, g, t, s, w). MAX_PATH_EDGES - w_count w)") (auto dest!: body_count)

function lockstep :: "frame_reads \<Rightarrow> u64 \<Rightarrow> frame_id \<Rightarrow> frame_id \<Rightarrow> walk \<Rightarrow> walk outcome" where
  "lockstep rd g target source w =
     (if w_a w \<noteq> w_b w then obind (lockstep_body rd g target source w) (lockstep rd g target source)
      else Done (Inr w))"
  by pat_completeness auto
termination
  by (relation "measure (\<lambda>(rd, g, t, s, w). MAX_PATH_EDGES - w_count w)") (auto dest!: body_count)

declare climb_a.simps [simp del] climb_b.simps [simp del] lockstep.simps [simp del]

definition walk_start :: "frame_id \<Rightarrow> frame_id \<Rightarrow> walk" where
  "walk_start target source =
     \<lparr>w_a = target, w_pa = 0, w_da = 0, w_ea = 0, w_b = source, w_pb = 0, w_db = 0, w_eb = 0,
      w_t_edges = [], w_s_edges = [], w_reads = 0\<rparr>"

definition walk_paths :: "frame_reads \<Rightarrow> u64 \<Rightarrow> frame_id \<Rightarrow> frame_id \<Rightarrow> walk outcome" where
  "walk_paths rd g target source =
     obind (read_a rd g target (walk_start target source)) (\<lambda>w1.
     obind (read_b rd g source w1) (\<lambda>w2.
     obind (climb_a rd g target source w2) (\<lambda>w3.
     obind (climb_b rd g target source w3) (\<lambda>w4.
       lockstep rd g target source w4))))"

text \<open>What an attempt loads: the generation, its reads, the generation again.\<close>

type_synonym walk_obs = "u64 \<times> frame_reads \<times> u64"

definition compile_attempt ::
  "(edge_id \<Rightarrow> edge_meta option) \<Rightarrow> frame_id \<Rightarrow> frame_id \<Rightarrow> walk_obs \<Rightarrow> plan outcome" where
  "compile_attempt edge_meta target source obs =
     (case obs of (start_gen, rd, end_gen) \<Rightarrow>
        obind (walk_paths rd start_gen target source) (\<lambda>w.
          if end_gen \<noteq> start_gen then Retry
          else Done (fold_into (identity_plan start_gen) (w_t_edges w) (w_s_edges w) edge_meta)))"

text \<open>The loop over attempts; only an attempt that a mutation landed in is repeated.\<close>

fun compile_loop ::
  "nat \<Rightarrow> (edge_id \<Rightarrow> edge_meta option) \<Rightarrow> frame_id \<Rightarrow> frame_id \<Rightarrow> (nat \<Rightarrow> walk_obs) \<Rightarrow> (lookup_error + plan) option" where
  "compile_loop 0 edge_meta target source obs = None"
| "compile_loop (Suc n) edge_meta target source obs =
     (case compile_attempt edge_meta target source (obs 0) of
        Retry \<Rightarrow> compile_loop n edge_meta target source (\<lambda>k. obs (Suc k))
      | Done r \<Rightarrow> Some r)"

definition compile ::
  "nat \<Rightarrow> u64 \<Rightarrow> (edge_id \<Rightarrow> edge_meta option) \<Rightarrow> frame_id \<Rightarrow> frame_id \<Rightarrow> (nat \<Rightarrow> walk_obs) \<Rightarrow>
     (lookup_error + plan) option" where
  "compile fuel stable_gen edge_meta target source obs =
     (if target = source then Some (Inr (identity_plan stable_gen))
      else compile_loop fuel edge_meta target source obs)"

subsection \<open>Paths in a forest\<close>

text \<open>A frame's level counts the frames on its way up, itself included; level 0 is the reserved slot.\<close>

abbreviation level :: "nat list \<Rightarrow> frame_id \<Rightarrow> nat" where
  "level \<equiv> walk_length"

lemma level_ends:
  assumes "forest mf par" "f < mf"
  shows "up par (level par f) f = 0" "level par f < mf"
proof -
  obtain k where k: "k < mf" "up par k f = 0" using forestD(5) [OF assms] by blast
  then show "up par (level par f) f = 0" unfolding walk_length_def by (intro LeastI)
  show "level par f < mf" using walk_length_le [OF k(2)] k(1) by simp
qed

lemma level_pos:
  assumes "forest mf par" "f < mf" "f \<noteq> 0"
  shows "level par f = Suc (level par (par ! f))"
  using walk_length_step [OF assms(3) level_ends(1) [OF assms(1,2)]] .

lemma up_range: "forest mf par \<Longrightarrow> f < mf \<Longrightarrow> up par k f < mf"
  using up_in_range forestD(4) by blast

lemma level_up:
  assumes F: "forest mf par" and f: "f < mf"
  shows "level par (up par k f) = level par f - k"
proof (induction k)
  case 0
  then show ?case by simp
next
  case (Suc k)
  let ?x = "up par k f"
  show ?case
  proof (cases "?x = 0")
    case True
    then have "up par (Suc k) f = 0" using forestD(3) [OF F] by (simp add: up_Suc')
    then show ?thesis using Suc True by simp
  next
    case False
    then have "level par ?x = Suc (level par (par ! ?x))" using level_pos [OF F up_range [OF F f]] by blast
    then show ?thesis using Suc by (simp add: up_Suc')
  qed
qed

lemma level_0_iff: "forest mf par \<Longrightarrow> f < mf \<Longrightarrow> level par f = 0 \<longleftrightarrow> f = 0"
  using level_pos [of mf par f] by (cases "f = 0") simp_all

lemma up_nonzero_iff: "forest mf par \<Longrightarrow> f < mf \<Longrightarrow> up par k f \<noteq> 0 \<longleftrightarrow> k < level par f"
  using level_up [of mf par f k] level_0_iff [of mf par "up par k f"] up_range [of mf par f k] by (auto simp: not_le)

text \<open>The highest level at which the paths of two frames are still the same, and the frames below it.\<close>

definition meets :: "nat list \<Rightarrow> frame_id \<Rightarrow> frame_id \<Rightarrow> nat \<Rightarrow> bool" where
  "meets par a b l \<longleftrightarrow> l \<le> level par a \<and> l \<le> level par b \<and>
     up par (level par a - l) a = up par (level par b - l) b"

definition meet_level :: "nat list \<Rightarrow> frame_id \<Rightarrow> frame_id \<Rightarrow> nat" where
  "meet_level par a b = (GREATEST l. meets par a b l)"

definition same_tree :: "nat list \<Rightarrow> frame_id \<Rightarrow> frame_id \<Rightarrow> bool" where
  "same_tree par a b \<longleftrightarrow> (\<exists>x. x \<noteq> 0 \<and> ancestor par x a \<and> ancestor par x b)"

definition frames_below :: "nat list \<Rightarrow> nat \<Rightarrow> frame_id \<Rightarrow> frame_id list" where
  "frames_below par l f = map (\<lambda>k. up par k f) [0..<level par f - l]"

lemma meets_bound: "meets par a b l \<Longrightarrow> l \<le> level par a"
  by (simp add: meets_def)

lemma meet_level_meets:
  assumes "forest mf par" "a < mf" "b < mf"
  shows "meets par a b (meet_level par a b)"
  unfolding meet_level_def
proof (rule GreatestI_nat [OF _ meets_bound])
  show "meets par a b 0" using level_ends(1) assms by (simp add: meets_def)
qed

lemma meet_level_greatest: "meets par a b l \<Longrightarrow> l \<le> meet_level par a b"
  unfolding meet_level_def by (rule Greatest_le_nat [OF _ meets_bound])

lemma same_tree_iff:
  assumes F: "forest mf par" and ab: "a < mf" "b < mf"
  shows "same_tree par a b \<longleftrightarrow> 0 < meet_level par a b"
proof
  assume "same_tree par a b"
  then obtain x i j where x: "x \<noteq> 0" "up par i a = x" "up par j b = x" by (auto simp: same_tree_def ancestor_def)
  have "level par a - i = level par x" "level par b - j = level par x"
    using level_up [OF F ab(1), of i] level_up [OF F ab(2), of j] x by simp_all
  moreover have "0 < level par x" using x up_range [OF F ab(1), of i] level_0_iff [OF F, of x] by simp
  ultimately have "level par a - level par x = i" "level par b - level par x = j"
    "level par x \<le> level par a" "level par x \<le> level par b" "0 < level par x" by simp_all
  then have "meets par a b (level par x)" "0 < level par x" using x by (simp_all add: meets_def)
  then show "0 < meet_level par a b" using meet_level_greatest by fastforce
next
  assume pos: "0 < meet_level par a b"
  let ?m = "meet_level par a b"
  have m: "?m \<le> level par a" "up par (level par a - ?m) a = up par (level par b - ?m) b"
    using meet_level_meets [OF F ab] by (simp_all add: meets_def)
  have "level par a - ?m < level par a" using m(1) pos by simp
  then have "up par (level par a - ?m) a \<noteq> 0" using up_nonzero_iff [OF F ab(1)] by blast
  then show "same_tree par a b" unfolding same_tree_def ancestor_def using m(2) by metis
qed

subsection \<open>The walk at rest\<close>

definition rest_reads :: "topology_view \<Rightarrow> frame_reads" where
  "rest_reads v = (\<lambda>k f. read_frame v f)"

lemma read_frame_rest:
  "read_frame v f = (if f < tv_max_frames v
     then Some (parent (published v) ! f, depth (published v) ! f, edge_of_child (published v) ! f, generation v)
     else None)"
  by (simp add: read_frame_def read_frame_obs_def generation_def TOPO_RETRY_LIMIT_def numeral_eq_Suc)

lemma read_at_rest:
  "f < tv_max_frames v \<Longrightarrow> read_at (rest_reads v) (generation v) k f =
     Done (Inr (parent (published v) ! f, depth (published v) ! f, edge_of_child (published v) ! f))"
  "tv_max_frames v \<le> f \<Longrightarrow> read_at (rest_reads v) (generation v) k f = Done (Inl (FrameOutOfRange f))"
  by (simp_all add: read_at_def rest_reads_def read_frame_rest)

text \<open>Two frames of a tree whose depths do not saturate.\<close>

definition walkable :: "topology_view \<Rightarrow> frame_id \<Rightarrow> frame_id \<Rightarrow> bool" where
  "walkable v a b \<longleftrightarrow> view_ok v \<and> tv_max_frames v \<le> 2 ^ 16 \<and> 0 < a \<and> a < tv_max_frames v \<and>
     0 < b \<and> b < tv_max_frames v"

lemma depth_level:
  assumes v: "view_ok v" "tv_max_frames v \<le> 2 ^ 16" and f: "0 < f" "f < tv_max_frames v"
  shows "depth (published v) ! f = level (parent (published v)) f - 1"
proof -
  let ?p = "parent (published v)" and ?d = "depth (published v)"
  have F: "forest (tv_max_frames v) ?p" and D: "depths_ok (tv_max_frames v) ?p ?d" using v by (simp_all add: view_ok_def)
  have "0 < f \<Longrightarrow> f < tv_max_frames v \<Longrightarrow> ?d ! f = level ?p f - 1" for f
  proof (induction "level ?p f" arbitrary: f)
    case 0
    then show ?case using level_0_iff [OF F, of f] by simp
  next
    case (Suc n)
    have lv: "level ?p f = Suc (level ?p (?p ! f))" using level_pos [OF F] Suc.prems by simp
    have d: "?d ! f = (if ?p ! f = 0 then 0 else sat_add_u16 (?d ! (?p ! f)) 1)"
      using D Suc.prems by (simp add: depths_ok_def)
    show ?case
    proof (cases "?p ! f = 0")
      case True
      then show ?thesis using d lv by simp
    next
      case False
      have r: "?p ! f < tv_max_frames v" using forestD(4) [OF F] Suc.prems by blast
      then have "?d ! (?p ! f) = level ?p (?p ! f) - 1" using Suc.hyps lv False by simp
      moreover have "0 < level ?p (?p ! f)" using level_0_iff [OF F r] False by simp
      moreover have "level ?p f < 2 ^ 16" using level_ends(2) [OF F Suc.prems(2)] v(2) by simp
      ultimately show ?thesis using d lv False by (simp add: sat_add_u16_def)
    qed
  qed
  then show ?thesis using f by blast
qed

text \<open>The level at which the walk stops: where the paths meet, or the roots of two trees.\<close>

definition stop_level :: "topology_view \<Rightarrow> frame_id \<Rightarrow> frame_id \<Rightarrow> nat" where
  "stop_level v a b = max 1 (meet_level (parent (published v)) a b)"

definition edges_to :: "topology_view \<Rightarrow> nat \<Rightarrow> frame_id \<Rightarrow> edge_id list" where
  "edges_to v n f = map (\<lambda>k. edge_of_child (published v) ! up (parent (published v)) k f) [0..<n]"

definition walk_inv :: "topology_view \<Rightarrow> frame_id \<Rightarrow> frame_id \<Rightarrow> walk \<Rightarrow> bool" where
  "walk_inv v a b w \<longleftrightarrow>
     (let p = parent (published v); es = edge_of_child (published v);
          i = length (w_t_edges w); j = length (w_s_edges w); l = stop_level v a b
      in i + l \<le> level p a \<and> j + l \<le> level p b \<and> i + j \<le> MAX_PATH_EDGES \<and>
         w_a w = up p i a \<and> w_pa w = p ! w_a w \<and> w_ea w = es ! w_a w \<and>
         w_b w = up p j b \<and> w_pb w = p ! w_b w \<and> w_eb w = es ! w_b w \<and>
         w_t_edges w = edges_to v i a \<and> w_s_edges w = edges_to v j b \<and>
         0 \<notin> set (w_t_edges w) \<and> 0 \<notin> set (w_s_edges w))"

definition depth_inv :: "topology_view \<Rightarrow> walk \<Rightarrow> bool" where
  "depth_inv v w \<longleftrightarrow> w_da w = level (parent (published v)) (w_a w) - 1 \<and> w_db w = level (parent (published v)) (w_b w) - 1"

text \<open>The errors of a walk and what each says of the tree.\<close>

definition walk_error :: "topology_view \<Rightarrow> frame_id \<Rightarrow> frame_id \<Rightarrow> lookup_error \<Rightarrow> bool" where
  "walk_error v a b e \<longleftrightarrow>
     (let p = parent (published v); l = stop_level v a b
      in (\<exists>cut. e = Disconnected a b cut) \<and> \<not> same_tree p a b \<or>
         e = TreeTooDeep (MAX_PATH_EDGES + 1) \<and> (level p a - l) + (level p b - l) > MAX_PATH_EDGES \<or>
         (\<exists>f. e = MissingEdge f \<and> edge_of_child (published v) ! f = 0 \<and>
            f \<in> set (frames_below p l a) \<union> set (frames_below p l b)))"

text \<open>Either the step fails with a justified error, or it goes on to a state with \<open>P\<close>.\<close>

definition walks_to :: "topology_view \<Rightarrow> frame_id \<Rightarrow> frame_id \<Rightarrow> (walk \<Rightarrow> bool) \<Rightarrow> walk outcome \<Rightarrow> bool" where
  "walks_to v a b P m \<longleftrightarrow> (\<exists>e. m = Done (Inl e) \<and> walk_error v a b e) \<or> (\<exists>w. m = Done (Inr w) \<and> P w)"

lemma walks_to_bind:
  "walks_to v a b P m \<Longrightarrow> (\<And>w. m = Done (Inr w) \<Longrightarrow> P w \<Longrightarrow> walks_to v a b Q (f w)) \<Longrightarrow> walks_to v a b Q (obind m f)"
  unfolding walks_to_def by (elim disjE exE conjE) simp_all

lemma walks_to_mono: "walks_to v a b P m \<Longrightarrow> (\<And>w. P w \<Longrightarrow> Q w) \<Longrightarrow> walks_to v a b Q m"
  by (auto simp: walks_to_def)

lemma walks_to_Done [simp]: "walks_to v a b P (Done (Inr w)) \<longleftrightarrow> P w" "walks_to v a b P (Done (Inl e)) \<longleftrightarrow> walk_error v a b e"
  by (auto simp: walks_to_def)

lemma edges_to_Suc: "edges_to v (Suc n) f = edges_to v n f @ [edge_of_child (published v) ! up (parent (published v)) n f]"
  by (simp add: edges_to_def)

lemma frames_below_mem: "k < level p f - l \<Longrightarrow> up p k f \<in> set (frames_below p l f)"
  by (simp add: frames_below_def)

text \<open>One edge on either side, while the walk is still below the level where it stops.\<close>

lemma push_rest:
  fixes v a b
  defines "p \<equiv> parent (published v)" and "es \<equiv> edge_of_child (published v)" and "l \<equiv> stop_level v a b"
  assumes "i \<le> level p a - l" "j \<le> level p b - l"
  shows "i < level p a - l \<Longrightarrow> i + j \<le> MAX_PATH_EDGES \<Longrightarrow>
      (\<exists>e. push_edge (i + j) (edges_to v i a) (es ! up p i a) (up p i a) = Done (Inl e) \<and> walk_error v a b e) \<or>
      push_edge (i + j) (edges_to v i a) (es ! up p i a) (up p i a) = Done (Inr (edges_to v (Suc i) a)) \<and>
        i + j < MAX_PATH_EDGES \<and> es ! up p i a \<noteq> 0"
    and "j < level p b - l \<Longrightarrow> i + j \<le> MAX_PATH_EDGES \<Longrightarrow>
      (\<exists>e. push_edge (i + j) (edges_to v j b) (es ! up p j b) (up p j b) = Done (Inl e) \<and> walk_error v a b e) \<or>
      push_edge (i + j) (edges_to v j b) (es ! up p j b) (up p j b) = Done (Inr (edges_to v (Suc j) b)) \<and>
        i + j < MAX_PATH_EDGES \<and> es ! up p j b \<noteq> 0"
  using assms frames_below_mem [of i p a l] frames_below_mem [of j p b l]
  by (auto simp: push_edge_def walk_error_def Let_def edges_to_Suc)

lemma walk_forest: "walkable v a b \<Longrightarrow> forest (tv_max_frames v) (parent (published v))"
  by (simp add: walkable_def view_ok_def)

lemma stop_level_pos [simp]: "1 \<le> stop_level v a b" "0 < stop_level v a b"
  by (simp_all add: stop_level_def)

lemma walk_facts:
  assumes "walkable v a b"
  shows "level (parent (published v)) (up (parent (published v)) k a) = level (parent (published v)) a - k"
    "level (parent (published v)) (up (parent (published v)) k b) = level (parent (published v)) b - k"
    "up (parent (published v)) k a < tv_max_frames v" "up (parent (published v)) k b < tv_max_frames v"
    "up (parent (published v)) k a \<noteq> 0 \<longleftrightarrow> k < level (parent (published v)) a"
    "up (parent (published v)) k b \<noteq> 0 \<longleftrightarrow> k < level (parent (published v)) b"
proof -
  note F = walk_forest [OF assms]
  have r: "a < tv_max_frames v" "b < tv_max_frames v" using assms by (simp_all add: walkable_def)
  show "level (parent (published v)) (up (parent (published v)) k a) = level (parent (published v)) a - k"
    "level (parent (published v)) (up (parent (published v)) k b) = level (parent (published v)) b - k"
    "up (parent (published v)) k a < tv_max_frames v" "up (parent (published v)) k b < tv_max_frames v"
    "up (parent (published v)) k a \<noteq> 0 \<longleftrightarrow> k < level (parent (published v)) a"
    "up (parent (published v)) k b \<noteq> 0 \<longleftrightarrow> k < level (parent (published v)) b"
    using level_up [OF F r(1)] level_up [OF F r(2)] up_range [OF F r(1)] up_range [OF F r(2)]
      up_nonzero_iff [OF F r(1)] up_nonzero_iff [OF F r(2)] by blast+
qed

text \<open>The parent of a frame that is not yet at the root, and reading it.\<close>

lemma advance_rest:
  assumes w: "walkable v a b"
  shows "Suc k < level (parent (published v)) a \<Longrightarrow>
      frame_or_disconnect (parent (published v) ! up (parent (published v)) k a) t s c = Inr (up (parent (published v)) (Suc k) a)"
    "Suc k < level (parent (published v)) b \<Longrightarrow>
      frame_or_disconnect (parent (published v) ! up (parent (published v)) k b) t s c = Inr (up (parent (published v)) (Suc k) b)"
    "read_a (rest_reads v) (generation v) (up (parent (published v)) k a) x =
      (let f = up (parent (published v)) k a in Done (Inr (x\<lparr>w_a := f, w_pa := parent (published v) ! f,
        w_da := depth (published v) ! f, w_ea := edge_of_child (published v) ! f, w_reads := w_reads x + 1\<rparr>)))"
    "read_b (rest_reads v) (generation v) (up (parent (published v)) k b) x =
      (let f = up (parent (published v)) k b in Done (Inr (x\<lparr>w_b := f, w_pb := parent (published v) ! f,
        w_db := depth (published v) ! f, w_eb := edge_of_child (published v) ! f, w_reads := w_reads x + 1\<rparr>)))"
  using walk_facts [OF w, of k] walk_facts [OF w, of "Suc k"]
  by (simp_all add: frame_or_disconnect_def frame_id_new_def up_Suc' read_a_def read_b_def read_at_rest Let_def)

lemma climb_a_rest:
  assumes w: "walkable v a b" and inv: "walk_inv v a b x" "depth_inv v x" and g: "w_da x > w_db x"
  shows "walks_to v a b (\<lambda>y. walk_inv v a b y \<and> depth_inv v y \<and> w_db y \<le> w_da y)
    (climb_a_body (rest_reads v) (generation v) a b x)"
proof -
  let ?p = "parent (published v)" and ?l = "stop_level v a b"
  let ?i = "length (w_t_edges x)" and ?j = "length (w_s_edges x)"
  have x: "w_a x = up ?p ?i a" "w_pa x = ?p ! w_a x" "w_ea x = edge_of_child (published v) ! w_a x" "w_b x = up ?p ?j b"
    "w_t_edges x = edges_to v ?i a" "?i + ?l \<le> level ?p a" "?j + ?l \<le> level ?p b" "?i + ?j \<le> MAX_PATH_EDGES"
    using inv(1) by (simp_all add: walk_inv_def Let_def)
  have d: "level ?p a - ?i - 1 > level ?p b - ?j - 1" "w_da x = level ?p a - ?i - 1" "w_db x = level ?p b - ?j - 1"
    using g inv(2) x walk_facts(1,2) [OF w] by (simp_all add: depth_inv_def)
  have i: "?i < level ?p a - ?l" "?j \<le> level ?p b - ?l" "Suc ?i < level ?p a" "?i \<le> level ?p a - ?l"
    using d(1) x(6,7) stop_level_pos(1) [of v a b] by linarith+
  have dep: "depth (published v) ! up ?p (Suc ?i) a = level ?p (up ?p (Suc ?i) a) - 1"
    using w walk_facts(3,5) [OF w, of "Suc ?i"] i(3) by (intro depth_level) (simp_all add: walkable_def)
  from push_rest(1) [OF i(4,2,1) x(8)] show ?thesis
  proof
    assume "\<exists>e. push_edge (?i + ?j) (edges_to v ?i a) (edge_of_child (published v) ! up ?p ?i a) (up ?p ?i a) = Done (Inl e) \<and>
       walk_error v a b e"
    then show ?thesis using x by (auto simp: climb_a_body_def w_count_def)
  next
    assume p: "push_edge (?i + ?j) (edges_to v ?i a) (edge_of_child (published v) ! up ?p ?i a) (up ?p ?i a) =
        Done (Inr (edges_to v (Suc ?i) a)) \<and> ?i + ?j < MAX_PATH_EDGES \<and> edge_of_child (published v) ! up ?p ?i a \<noteq> 0"
    have len: "length (edges_to v (Suc ?i) a) = Suc ?i" by (simp add: edges_to_def)
    have z: "0 \<notin> set (edges_to v (Suc ?i) a)" using p x(5) inv(1) by (simp add: edges_to_Suc walk_inv_def Let_def)
    let ?f = "up ?p (Suc ?i) a"
    let ?y = "x\<lparr>w_t_edges := edges_to v (Suc ?i) a, w_a := ?f, w_pa := ?p ! ?f, w_da := depth (published v) ! ?f,
      w_ea := edge_of_child (published v) ! ?f, w_reads := w_reads x + 1\<rparr>"
    have "climb_a_body (rest_reads v) (generation v) a b x = Done (Inr ?y)"
      using x(1-3,5) p advance_rest(1) [OF w i(3)] advance_rest(3) [OF w, of "Suc ?i"]
      by (simp add: climb_a_body_def w_count_def Let_def)
    moreover have "walk_inv v a b ?y" using inv(1) p len z i by (simp add: walk_inv_def Let_def)
    moreover have "depth_inv v ?y" using inv(2) dep by (simp add: depth_inv_def)
    moreover have "w_db ?y \<le> w_da ?y" using dep d walk_facts(1) [OF w, of "Suc ?i"] by simp
    ultimately show ?thesis by (simp add: walks_to_def)
  qed
qed

lemma climb_b_rest:
  assumes w: "walkable v a b" and inv: "walk_inv v a b x" "depth_inv v x" and g: "w_db x > w_da x"
  shows "walks_to v a b (\<lambda>y. walk_inv v a b y \<and> depth_inv v y \<and> w_da y \<le> w_db y)
    (climb_b_body (rest_reads v) (generation v) a b x)"
proof -
  let ?p = "parent (published v)" and ?l = "stop_level v a b"
  let ?i = "length (w_t_edges x)" and ?j = "length (w_s_edges x)"
  have x: "w_b x = up ?p ?j b" "w_pb x = ?p ! w_b x" "w_eb x = edge_of_child (published v) ! w_b x" "w_a x = up ?p ?i a"
    "w_s_edges x = edges_to v ?j b" "?i + ?l \<le> level ?p a" "?j + ?l \<le> level ?p b" "?i + ?j \<le> MAX_PATH_EDGES"
    using inv(1) by (simp_all add: walk_inv_def Let_def)
  have d: "level ?p b - ?j - 1 > level ?p a - ?i - 1" "w_da x = level ?p a - ?i - 1" "w_db x = level ?p b - ?j - 1"
    using g inv(2) x walk_facts(1,2) [OF w] by (simp_all add: depth_inv_def)
  have j: "?j < level ?p b - ?l" "?i \<le> level ?p a - ?l" "Suc ?j < level ?p b" "?j \<le> level ?p b - ?l"
    using d(1) x(6,7) stop_level_pos(1) [of v a b] by linarith+
  have dep: "depth (published v) ! up ?p (Suc ?j) b = level ?p (up ?p (Suc ?j) b) - 1"
    using w walk_facts(4,6) [OF w, of "Suc ?j"] j(3) by (intro depth_level) (simp_all add: walkable_def)
  from push_rest(2) [OF j(2,4,1) x(8)] show ?thesis
  proof
    assume "\<exists>e. push_edge (?i + ?j) (edges_to v ?j b) (edge_of_child (published v) ! up ?p ?j b) (up ?p ?j b) = Done (Inl e) \<and>
       walk_error v a b e"
    then show ?thesis using x by (auto simp: climb_b_body_def w_count_def)
  next
    assume p: "push_edge (?i + ?j) (edges_to v ?j b) (edge_of_child (published v) ! up ?p ?j b) (up ?p ?j b) =
        Done (Inr (edges_to v (Suc ?j) b)) \<and> ?i + ?j < MAX_PATH_EDGES \<and> edge_of_child (published v) ! up ?p ?j b \<noteq> 0"
    have len: "length (edges_to v (Suc ?j) b) = Suc ?j" by (simp add: edges_to_def)
    have z: "0 \<notin> set (edges_to v (Suc ?j) b)" using p x(5) inv(1) by (simp add: edges_to_Suc walk_inv_def Let_def)
    let ?f = "up ?p (Suc ?j) b"
    let ?y = "x\<lparr>w_s_edges := edges_to v (Suc ?j) b, w_b := ?f, w_pb := ?p ! ?f, w_db := depth (published v) ! ?f,
      w_eb := edge_of_child (published v) ! ?f, w_reads := w_reads x + 1\<rparr>"
    have "climb_b_body (rest_reads v) (generation v) a b x = Done (Inr ?y)"
      using x(1-3,5) p advance_rest(2) [OF w j(3)] advance_rest(4) [OF w, of "Suc ?j"]
      by (simp add: climb_b_body_def w_count_def Let_def)
    moreover have "walk_inv v a b ?y" using inv(1) p len z j by (simp add: walk_inv_def Let_def)
    moreover have "depth_inv v ?y" using inv(2) dep by (simp add: depth_inv_def)
    moreover have "w_da ?y \<le> w_db ?y" using dep d walk_facts(2) [OF w, of "Suc ?j"] by simp
    ultimately show ?thesis by (simp add: walks_to_def)
  qed
qed

text \<open>In lockstep both sides are at one level.\<close>

definition same_level :: "topology_view \<Rightarrow> frame_id \<Rightarrow> frame_id \<Rightarrow> walk \<Rightarrow> bool" where
  "same_level v a b w \<longleftrightarrow> level (parent (published v)) a - length (w_t_edges w) =
     level (parent (published v)) b - length (w_s_edges w)"

lemma lockstep_above:
  assumes w: "walkable v a b" and inv: "walk_inv v a b x" "same_level v a b x" and ne: "w_a x \<noteq> w_b x"
  defines "p \<equiv> parent (published v)" and "i \<equiv> length (w_t_edges x)" and "j \<equiv> length (w_s_edges x)"
  shows "level p a - i = 1 \<and> meet_level p a b = 0 \<or> Suc i + stop_level v a b \<le> level p a \<and> Suc j + stop_level v a b \<le> level p b"
proof -
  let ?l = "stop_level v a b" and ?m = "meet_level p a b"
  have x: "w_a x = up p i a" "w_b x = up p j b" "i + ?l \<le> level p a" "j + ?l \<le> level p b"
    using inv(1) by (simp_all add: walk_inv_def Let_def p_def i_def j_def)
  have eq: "level p a - i = level p b - j" using inv(2) by (simp add: same_level_def p_def i_def j_def)
  have m: "meets p a b ?m"
    unfolding p_def by (rule meet_level_meets [OF walk_forest [OF w]]) (use w in \<open>simp_all add: walkable_def\<close>)
  have "level p a - i \<noteq> ?m"
  proof
    assume h: "level p a - i = ?m"
    then have "level p a - ?m = i" "level p b - ?m = j" using x eq by simp_all
    then show False using m ne x by (simp add: meets_def)
  qed
  then show ?thesis using x eq by (auto simp: stop_level_def p_def max_def split: if_splits)
qed

lemma lockstep_rest:
  assumes w: "walkable v a b" and inv: "walk_inv v a b x" "same_level v a b x" and ne: "w_a x \<noteq> w_b x"
  shows "walks_to v a b (\<lambda>y. walk_inv v a b y \<and> same_level v a b y)
    (lockstep_body (rest_reads v) (generation v) a b x)"
proof -
  let ?p = "parent (published v)" and ?l = "stop_level v a b"
  let ?i = "length (w_t_edges x)" and ?j = "length (w_s_edges x)"
  have x: "w_a x = up ?p ?i a" "w_pa x = ?p ! w_a x" "w_ea x = edge_of_child (published v) ! w_a x"
    "w_b x = up ?p ?j b" "w_pb x = ?p ! w_b x" "w_eb x = edge_of_child (published v) ! w_b x"
    "w_t_edges x = edges_to v ?i a" "w_s_edges x = edges_to v ?j b" "?i + ?j \<le> MAX_PATH_EDGES"
    using inv(1) by (simp_all add: walk_inv_def Let_def)
  have eq: "level ?p a - ?i = level ?p b - ?j" using inv(2) by (simp add: same_level_def)
  have conn: "same_tree ?p a b \<longleftrightarrow> 0 < meet_level ?p a b"
    by (rule same_tree_iff [OF walk_forest [OF w]]) (use w in \<open>simp_all add: walkable_def\<close>)
  from lockstep_above [OF w inv ne] show ?thesis
  proof
    assume top: "level ?p a - ?i = 1 \<and> meet_level ?p a b = 0"
    then have "\<not> Suc ?i < level ?p a" by linarith
    then have "w_pa x = 0" using x(1,2) walk_facts(5) [OF w, of "Suc ?i"] by (simp add: up_Suc')
    then have "lockstep_body (rest_reads v) (generation v) a b x = Done (Inl (Disconnected a b (w_a x)))"
      by (simp add: lockstep_body_def)
    then show ?thesis using top conn by (simp add: walk_error_def Let_def)
  next
    assume lev: "Suc ?i + ?l \<le> level ?p a \<and> Suc ?j + ?l \<le> level ?p b"
    then have i: "?i < level ?p a - ?l" "Suc ?i \<le> level ?p a - ?l" "Suc ?i < level ?p a" "?i \<le> level ?p a - ?l"
      and j: "?j < level ?p b - ?l" "?j \<le> level ?p b - ?l" "Suc ?j < level ?p b"
      using stop_level_pos(1) [of v a b] by linarith+
    have up0: "w_pa x \<noteq> 0" "w_pb x \<noteq> 0"
      using x walk_facts(5,6) [OF w, of "Suc ?i"] walk_facts(6) [OF w, of "Suc ?j"] i j by (simp_all add: up_Suc')
    let ?A = "push_edge (?i + ?j) (edges_to v ?i a) (edge_of_child (published v) ! up ?p ?i a) (up ?p ?i a)"
    let ?B = "push_edge (Suc ?i + ?j) (edges_to v ?j b) (edge_of_child (published v) ! up ?p ?j b) (up ?p ?j b)"
    have len: "length (edges_to v (Suc ?i) a) = Suc ?i" "length (edges_to v (Suc ?j) b) = Suc ?j" by (simp_all add: edges_to_def)
    show ?thesis
    proof (cases "\<exists>e. ?A = Done (Inl e) \<and> walk_error v a b e")
      case True
      then show ?thesis using x up0 by (auto simp: lockstep_body_def w_count_def)
    next
      case False
      with push_rest(1) [OF i(4) j(2) i(1) x(9)]
      have A: "?A = Done (Inr (edges_to v (Suc ?i) a))" "?i + ?j < MAX_PATH_EDGES" "edge_of_child (published v) ! up ?p ?i a \<noteq> 0"
        by blast+
      have c: "Suc ?i + ?j \<le> MAX_PATH_EDGES" using A(2) by simp
      show ?thesis
      proof (cases "\<exists>e. ?B = Done (Inl e) \<and> walk_error v a b e")
        case True
        then show ?thesis using x up0 A len by (auto simp: lockstep_body_def w_count_def)
      next
        case False
        with push_rest(2) [OF i(2) j(2) j(1) c]
        have B: "?B = Done (Inr (edges_to v (Suc ?j) b))" "Suc ?i + ?j < MAX_PATH_EDGES" "edge_of_child (published v) ! up ?p ?j b \<noteq> 0"
          by blast+
        have z: "0 \<notin> set (edges_to v (Suc ?i) a)" "0 \<notin> set (edges_to v (Suc ?j) b)"
          using A(3) B(3) x(7,8) inv(1) by (simp_all add: edges_to_Suc walk_inv_def Let_def)
        let ?f = "up ?p (Suc ?i) a" and ?h = "up ?p (Suc ?j) b"
        let ?y = "x\<lparr>w_t_edges := edges_to v (Suc ?i) a, w_s_edges := edges_to v (Suc ?j) b,
          w_a := ?f, w_pa := ?p ! ?f, w_ea := edge_of_child (published v) ! ?f,
          w_b := ?h, w_pb := ?p ! ?h, w_eb := edge_of_child (published v) ! ?h, w_reads := w_reads x + 2\<rparr>"
        have "lockstep_body (rest_reads v) (generation v) a b x = Done (Inr ?y)"
          using x up0 A(1) B(1) len advance_rest(1) [OF w i(3)] advance_rest(2) [OF w j(3)]
            advance_rest(3) [OF w, of "Suc ?i"] advance_rest(4) [OF w, of "Suc ?j"]
          by (simp add: lockstep_body_def w_count_def Let_def)
        moreover have "walk_inv v a b ?y" using inv(1) len z lev B(2) by (simp add: walk_inv_def Let_def)
        moreover have "same_level v a b ?y" using len eq by (simp add: same_level_def)
        ultimately show ?thesis by (simp add: walks_to_def)
      qed
    qed
  qed
qed

lemma climb_a_loop_rest:
  assumes "walkable v a b" "walk_inv v a b x" "depth_inv v x"
  shows "walks_to v a b (\<lambda>y. walk_inv v a b y \<and> depth_inv v y \<and> w_da y \<le> w_db y)
    (climb_a (rest_reads v) (generation v) a b x)"
  using assms
proof (induction "rest_reads v" "generation v" a b x rule: climb_a.induct)
  case (1 a b x)
  show ?case
  proof (cases "w_da x > w_db x")
    case True
    then show ?thesis
      using 1 walks_to_bind [OF climb_a_rest [OF 1(2-4) True]] by (simp add: climb_a.simps [of _ _ _ _ x])
  next
    case False
    then show ?thesis using 1 by (simp add: climb_a.simps)
  qed
qed

lemma climb_b_loop_rest:
  assumes "walkable v a b" "walk_inv v a b x" "depth_inv v x" "w_da x \<le> w_db x"
  shows "walks_to v a b (\<lambda>y. walk_inv v a b y \<and> same_level v a b y)
    (climb_b (rest_reads v) (generation v) a b x)"
  using assms
proof (induction "rest_reads v" "generation v" a b x rule: climb_b.induct)
  case (1 a b x)
  show ?case
  proof (cases "w_db x > w_da x")
    case True
    then show ?thesis
      using 1 walks_to_bind [OF climb_b_rest [OF 1(2-4) True]] by (simp add: climb_b.simps [of _ _ _ _ x])
  next
    case False
    have "length (w_t_edges x) + stop_level v a b \<le> level (parent (published v)) a"
      "length (w_s_edges x) + stop_level v a b \<le> level (parent (published v)) b"
      "w_a x = up (parent (published v)) (length (w_t_edges x)) a" "w_b x = up (parent (published v)) (length (w_s_edges x)) b"
      using 1(3) by (simp_all add: walk_inv_def Let_def)
    then have "same_level v a b x"
      using False 1(4,5) walk_facts(1,2) [OF 1(2)] stop_level_pos(1) [of v a b]
      unfolding same_level_def depth_inv_def by simp
    then show ?thesis using False 1(3) by (simp add: climb_b.simps)
  qed
qed

lemma lockstep_loop_rest:
  assumes "walkable v a b" "walk_inv v a b x" "same_level v a b x"
  shows "walks_to v a b (\<lambda>y. walk_inv v a b y \<and> same_level v a b y \<and> w_a y = w_b y)
    (lockstep (rest_reads v) (generation v) a b x)"
  using assms
proof (induction "rest_reads v" "generation v" a b x rule: lockstep.induct)
  case (1 a b x)
  show ?case
  proof (cases "w_a x = w_b x")
    case True
    then show ?thesis using 1 by (simp add: lockstep.simps)
  next
    case False
    then show ?thesis
      using 1 walks_to_bind [OF lockstep_rest [OF 1(2-4) False]] by (simp add: lockstep.simps [of _ _ _ _ x])
  qed
qed

text \<open>Where the two sides met, they met as low as they could.\<close>

definition walk_end :: "topology_view \<Rightarrow> frame_id \<Rightarrow> frame_id \<Rightarrow> walk \<Rightarrow> bool" where
  "walk_end v a b x \<longleftrightarrow> (let p = parent (published v); m = meet_level p a b
     in same_tree p a b \<and> w_t_edges x = edges_to v (level p a - m) a \<and> w_s_edges x = edges_to v (level p b - m) b \<and>
        (level p a - m) + (level p b - m) \<le> MAX_PATH_EDGES \<and> 0 \<notin> set (w_t_edges x) \<and> 0 \<notin> set (w_s_edges x))"

lemma lockstep_end:
  assumes w: "walkable v a b" and inv: "walk_inv v a b x" "same_level v a b x" "w_a x = w_b x"
  shows "walk_end v a b x"
proof -
  let ?p = "parent (published v)"
  let ?l = "stop_level v a b" and ?m = "meet_level ?p a b"
  let ?i = "length (w_t_edges x)" and ?j = "length (w_s_edges x)"
  have x: "?i + ?l \<le> level ?p a" "?j + ?l \<le> level ?p b" "?i + ?j \<le> MAX_PATH_EDGES" "up ?p ?i a = up ?p ?j b"
    "w_t_edges x = edges_to v ?i a" "w_s_edges x = edges_to v ?j b" "0 \<notin> set (w_t_edges x)" "0 \<notin> set (w_s_edges x)"
    using inv(1,3) by (simp_all add: walk_inv_def Let_def)
  let ?n = "level ?p a - ?i"
  have n: "?n = level ?p b - ?j" "level ?p a - ?n = ?i" "level ?p b - ?n = ?j" "?l \<le> ?n"
    using inv(2) x(1,2) by (simp_all add: same_level_def)
  have "meets ?p a b ?n" using n x(1,2,4) by (simp add: meets_def)
  then have "?n \<le> ?m" by (rule meet_level_greatest)
  moreover have "?m \<le> ?l" by (simp add: stop_level_def)
  ultimately have m: "?n = ?m" "0 < ?m" using n(4) stop_level_pos(2) [of v a b] by linarith+
  then have "level ?p a - ?m = ?i" "level ?p b - ?m = ?j" using n by simp_all
  moreover have "same_tree ?p a b"
    using same_tree_iff [OF walk_forest [OF w], of a b] m(2) w by (simp add: walkable_def)
  ultimately show ?thesis using x by (simp add: walk_end_def Let_def)
qed

lemma walk_paths_rest:
  assumes w: "walkable v a b"
  defines "p \<equiv> parent (published v)"
  shows "walks_to v a b (walk_end v a b)
    (walk_paths (rest_reads v) (generation v) a b)"
proof -
  let ?x = "\<lparr>w_a = a, w_pa = p ! a, w_da = depth (published v) ! a, w_ea = edge_of_child (published v) ! a,
    w_b = b, w_pb = p ! b, w_db = depth (published v) ! b, w_eb = edge_of_child (published v) ! b,
    w_t_edges = [], w_s_edges = [], w_reads = Suc (Suc 0)\<rparr>"
  have ab: "0 < a" "a < tv_max_frames v" "0 < b" "b < tv_max_frames v" using w by (simp_all add: walkable_def)
  have start: "walk_paths (rest_reads v) (generation v) a b =
      obind (climb_a (rest_reads v) (generation v) a b ?x) (\<lambda>w3.
      obind (climb_b (rest_reads v) (generation v) a b w3) (\<lambda>w4. lockstep (rest_reads v) (generation v) a b w4))"
    using ab by (simp add: walk_paths_def read_a_def read_b_def read_at_rest walk_start_def p_def)
  have m: "meet_level p a b \<le> level p a" "meet_level p a b \<le> level p b"
    using meet_level_meets [OF walk_forest [OF w] ab(2,4)] by (simp_all add: meets_def p_def)
  moreover have "0 < level p a" "0 < level p b"
    using walk_facts(5,6) [OF w, of 0] ab by (simp_all add: p_def)
  ultimately have "walk_inv v a b ?x" by (auto simp: walk_inv_def Let_def edges_to_def p_def stop_level_def)
  moreover have "depth_inv v ?x" using depth_level [of v a] depth_level [of v b] w by (simp add: depth_inv_def walkable_def p_def)
  ultimately show ?thesis
    unfolding start
    by (intro walks_to_bind [OF climb_a_loop_rest [OF w]] walks_to_bind [OF climb_b_loop_rest [OF w]]
        walks_to_mono [OF lockstep_loop_rest [OF w]])
      (auto intro: lockstep_end [OF w])
qed

text \<open>What an attempt at rest decides.\<close>

definition path_ok :: "topology_view \<Rightarrow> frame_id \<Rightarrow> frame_id \<Rightarrow> bool" where
  "path_ok v a b \<longleftrightarrow> (let p = parent (published v); m = meet_level p a b in
     same_tree p a b \<and> (level p a - m) + (level p b - m) \<le> MAX_PATH_EDGES \<and>
     0 \<notin> set (edges_to v (level p a - m) a) \<union> set (edges_to v (level p b - m) b))"

definition path_up :: "topology_view \<Rightarrow> frame_id \<Rightarrow> frame_id \<Rightarrow> edge_id list" where
  "path_up v a b = (let p = parent (published v) in edges_to v (level p a - meet_level p a b) a)"

lemma meets_commute: "meets p a b l \<longleftrightarrow> meets p b a l"
  by (auto simp: meets_def)

lemma meet_level_commute: "meet_level p a b = meet_level p b a"
  by (simp add: meet_level_def meets_commute [of p a b])

lemma path_ok_no_error:
  assumes "walkable v a b" "path_ok v a b"
  shows "\<not> walk_error v a b e"
proof -
  let ?p = "parent (published v)"
  have m: "0 < meet_level ?p a b"
    using same_tree_iff [OF walk_forest [OF assms(1)], of a b] assms by (simp add: walkable_def path_ok_def Let_def)
  then have "stop_level v a b = meet_level ?p a b" by (simp add: stop_level_def)
  then show ?thesis
    using assms(2) by (auto simp: walk_error_def path_ok_def edges_to_def frames_below_def Let_def)
qed

lemma compile_attempt_rest:
  fixes edge_meta
  assumes w: "walkable v a b"
  defines "r \<equiv> compile_attempt edge_meta a b (generation v, rest_reads v, generation v)"
  shows "if path_ok v a b then r = Done (fold_into (identity_plan (generation v)) (path_up v a b) (path_up v b a) edge_meta)
    else \<exists>e. r = Done (Inl e) \<and> walk_error v a b e"
proof -
  let ?w = "walk_paths (rest_reads v) (generation v) a b"
  from walk_paths_rest [OF w] consider
      (err) e where "?w = Done (Inl e)" "walk_error v a b e"
    | (go) x where "?w = Done (Inr x)" "path_ok v a b" "w_t_edges x = path_up v a b" "w_s_edges x = path_up v b a"
    unfolding walks_to_def walk_end_def path_ok_def path_up_def Let_def by (fastforce simp: meet_level_commute [of _ b a])
  then show ?thesis
  proof cases
    case err
    then show ?thesis using path_ok_no_error [OF w] by (auto simp: r_def compile_attempt_def)
  next
    case go
    then show ?thesis by (simp add: r_def compile_attempt_def)
  qed
qed

lemma compile_attempt_range:
  "tv_max_frames v \<le> a \<or> a < tv_max_frames v \<and> tv_max_frames v \<le> b \<Longrightarrow>
    compile_attempt edge_meta a b (generation v, rest_reads v, generation v) =
      Done (Inl (FrameOutOfRange (if tv_max_frames v \<le> a then a else b)))"
  by (auto simp: compile_attempt_def walk_paths_def read_a_def read_b_def read_at_rest walk_start_def)

subsection \<open>The pose a plan stands for\<close>

text \<open>The pose of a frame in its root: the poses of the edges above it, from the root down.\<close>

definition pose_in_root :: "(edge_id \<Rightarrow> iso3) \<Rightarrow> topology_view \<Rightarrow> frame_id \<Rightarrow> iso3" where
  "pose_in_root P v f = iso.prod (map P (rev (edges_to v (level (parent (published v)) f) f)))"

lemma edges_to_add: "edges_to v (n + k) f = edges_to v n f @ edges_to v k (up (parent (published v)) n f)"
proof -
  let ?es = "edge_of_child (published v)" and ?p = "parent (published v)"
  have "[0..<n + k] = [0..<n] @ map (\<lambda>i. i + n) [0..<k]"
    unfolding map_add_upt using upt_add_eq_append [of 0 n k] by (simp only: add.commute [of k n])
  then show ?thesis by (simp add: edges_to_def up_add [symmetric])
qed

lemma fold_into_eval:
  assumes f: "fold_into (identity_plan g) ts ss edge_meta = Inr q"
    and S: "unit_sampler S" "unit_metas edge_meta"
    and P: "\<forall>e. unit_iso (P e)" "\<forall>e \<in> set ts \<union> set ss. edge_pose edge_meta S e = Inr (P e)"
  shows "eval_steps S (plan_steps q) iso3_IDENTITY =
    Inr (iso3_mul (iso3_inverse (iso.prod (map P (rev ts)))) (iso.prod (map P (rev ss))))"
proof -
  have len: "length (plan_array (identity_plan g)) = MAX_DEPTH" by (simp add: identity_plan_def)
  have u1: "unit_iso iso3_IDENTITY" by simp
  obtain raw dmn where raw: "raw_steps edge_meta (raw_path ts ss) None = Inr (raw, dmn)" "plan_steps q = collapse raw"
    using fold_into_ref [OF len, of ts ss edge_meta] f
    by (cases "raw_steps edge_meta (raw_path ts ss) None") (auto simp: fold_ref_def split: if_splits prod.splits)
  have "unit_steps raw" "eval_steps S raw iso3_IDENTITY = eval_path edge_meta S (raw_path ts ss) iso3_IDENTITY"
    using raw_steps_eval [OF S raw(1) u1] by simp_all
  moreover have "unit_steps []" by (simp add: unit_steps_def)
  ultimately have "eval_steps S (plan_steps q) iso3_IDENTITY = eval_path edge_meta S (raw_path ts ss) iso3_IDENTITY"
    using collapse_eval [OF S(1) u1, of "[]" raw] raw(2) by (simp add: collapse_def)
  also have "\<dots> = Inr (iso.prod (map (\<lambda>(e, i). if i then iso3_inverse (P e) else P e) (raw_path ts ss)))"
    using eval_path_prod [OF _ u1, of "raw_path ts ss" edge_meta S P] P by (auto simp: raw_path_def)
  also have "map (\<lambda>(e, i). if i then iso3_inverse (P e) else P e) (raw_path ts ss) =
      map iso3_inverse (rev (map P (rev ts))) @ map P (rev ss)"
    by (simp add: raw_path_def rev_map)
  also have "iso.prod \<dots> = iso3_mul (iso3_inverse (iso.prod (map P (rev ts)))) (iso.prod (map P (rev ss)))"
    using P(1) iso.inv_prod [of "map P (rev ts)"] by (subst iso.prod_append) auto
  finally show ?thesis .
qed

lemma prod_map_append:
  "\<forall>e. unit_iso (P e) \<Longrightarrow> iso.prod (map P xs @ map P ys) = iso3_mul (iso.prod (map P xs)) (iso.prod (map P ys))"
  by (rule iso.prod_append) auto

lemma pose_in_root_split:
  assumes w: "walkable v a b" and P: "\<forall>e. unit_iso (P e)"
  defines "p \<equiv> parent (published v)"
  defines "apex \<equiv> iso.prod (map P (rev (edges_to v (meet_level p a b) (up p (level p a - meet_level p a b) a))))"
  shows "pose_in_root P v a = iso3_mul apex (iso.prod (map P (rev (path_up v a b))))"
    "pose_in_root P v b = iso3_mul apex (iso.prod (map P (rev (path_up v b a))))" "unit_iso apex"
proof -
  let ?m = "meet_level p a b"
  have "meets p a b ?m"
    unfolding p_def by (rule meet_level_meets [OF walk_forest [OF w]]) (use w in \<open>simp_all add: walkable_def\<close>)
  then have m: "level p a = level p a - ?m + ?m" "level p b = level p b - ?m + ?m"
    "up p (level p b - ?m) b = up p (level p a - ?m) a" by (simp_all add: meets_def)
  have a: "edges_to v (level p a) a = path_up v a b @ edges_to v ?m (up p (level p a - ?m) a)"
    using edges_to_add [of v "level p a - ?m" ?m a] m by (simp add: path_up_def p_def Let_def)
  have b: "edges_to v (level p b) b = path_up v b a @ edges_to v ?m (up p (level p a - ?m) a)"
    using edges_to_add [of v "level p b - ?m" ?m b] m by (simp add: path_up_def p_def Let_def meet_level_commute [of _ b a])
  show "pose_in_root P v a = iso3_mul apex (iso.prod (map P (rev (path_up v a b))))"
    "pose_in_root P v b = iso3_mul apex (iso.prod (map P (rev (path_up v b a))))" "unit_iso apex"
    using P a b by (simp_all add: pose_in_root_def apex_def prod_map_append flip: p_def)
qed

subsection \<open>Walks that depend only on what they read\<close>

text \<open>If every read that shows the starting generation agrees with a second reader, an attempt that
  returns is the attempt of the second reader, or it gave up on a read that showed nothing.\<close>

definition agrees :: "frame_reads \<Rightarrow> frame_reads \<Rightarrow> u64 \<Rightarrow> bool" where
  "agrees rd rd' g \<longleftrightarrow> (\<forall>k f. rd k f = None \<or> (\<exists>p d e g'. rd k f = Some (p, d, e, g') \<and> g' \<noteq> g) \<or> rd k f = rd' k f)"

definition gave_up :: "frame_reads \<Rightarrow> frame_reads \<Rightarrow> lookup_error \<Rightarrow> bool" where
  "gave_up rd rd' e \<longleftrightarrow> (\<exists>k f. e = FrameOutOfRange f \<and> rd k f = None \<and> rd' k f \<noteq> None)"

definition follows :: "frame_reads \<Rightarrow> frame_reads \<Rightarrow> 'a outcome \<Rightarrow> 'a outcome \<Rightarrow> bool" where
  "follows rd rd' m m' \<longleftrightarrow> m = Retry \<or> m = m' \<or> (\<exists>e. m = Done (Inl e) \<and> gave_up rd rd' e)"

lemma follows_refl [simp]: "follows rd rd' m m"
  by (simp add: follows_def)

lemma follows_bind:
  assumes "follows rd rd' m m'" "\<And>x. m = Done (Inr x) \<Longrightarrow> follows rd rd' (f x) (f' x)"
  shows "follows rd rd' (obind m f) (obind m' f')"
  using assms unfolding follows_def by (cases "(m, f)" rule: obind.cases) auto

lemma follows_if: "(\<not> c \<Longrightarrow> follows rd rd' m m') \<Longrightarrow> follows rd rd' (if c then x else m) (if c then x else m')"
  by simp

lemma follows_read: "agrees rd rd' g \<Longrightarrow> follows rd rd' (read_at rd g k f) (read_at rd' g k f)"
proof -
  assume "agrees rd rd' g"
  then consider "rd k f = None" | p d e g' where "rd k f = Some (p, d, e, g')" "g' \<noteq> g" | "rd k f = rd' k f"
    unfolding agrees_def by metis
  then show ?thesis
  proof cases
    case 1
    then show ?thesis by (cases "rd' k f") (auto simp: read_at_def follows_def gave_up_def)
  next
    case 2
    then show ?thesis by (simp add: read_at_def follows_def)
  next
    case 3
    then show ?thesis by (simp add: read_at_def follows_def)
  qed
qed

lemma follows_read_side:
  assumes "agrees rd rd' g"
  shows "follows rd rd' (read_a rd g f w) (read_a rd' g f w)" "follows rd rd' (read_b rd g f w) (read_b rd' g f w)"
  unfolding read_a_def read_b_def by (intro follows_bind follows_read assms; simp)+

lemma follows_bodies:
  assumes "agrees rd rd' g"
  shows "follows rd rd' (climb_a_body rd g a b w) (climb_a_body rd' g a b w)"
    "follows rd rd' (climb_b_body rd g a b w) (climb_b_body rd' g a b w)"
    "follows rd rd' (lockstep_body rd g a b w) (lockstep_body rd' g a b w)"
  unfolding climb_a_body_def climb_b_body_def lockstep_body_def
  by (intro follows_refl follows_if follows_read_side follows_bind assms)+

lemma follows_climb_a: "agrees rd rd' g \<Longrightarrow> follows rd rd' (climb_a rd g a b w) (climb_a rd' g a b w)"
proof (induction rd g a b w rule: climb_a.induct)
  case (1 rd g a b w)
  show ?case
  proof (cases "w_db w < w_da w")
    case True
    then have "follows rd rd' (obind (climb_a_body rd g a b w) (climb_a rd g a b)) (obind (climb_a_body rd' g a b w) (climb_a rd' g a b))"
      using 1 by (intro follows_bind follows_bodies) simp_all
    then show ?thesis using True by (simp add: climb_a.simps [of _ g a b w])
  qed (simp add: climb_a.simps)
qed

lemma follows_climb_b: "agrees rd rd' g \<Longrightarrow> follows rd rd' (climb_b rd g a b w) (climb_b rd' g a b w)"
proof (induction rd g a b w rule: climb_b.induct)
  case (1 rd g a b w)
  show ?case
  proof (cases "w_da w < w_db w")
    case True
    then have "follows rd rd' (obind (climb_b_body rd g a b w) (climb_b rd g a b)) (obind (climb_b_body rd' g a b w) (climb_b rd' g a b))"
      using 1 by (intro follows_bind follows_bodies) simp_all
    then show ?thesis using True by (simp add: climb_b.simps [of _ g a b w])
  qed (simp add: climb_b.simps)
qed

lemma follows_lockstep: "agrees rd rd' g \<Longrightarrow> follows rd rd' (lockstep rd g a b w) (lockstep rd' g a b w)"
proof (induction rd g a b w rule: lockstep.induct)
  case (1 rd g a b w)
  show ?case
  proof (cases "w_a w \<noteq> w_b w")
    case True
    then have "follows rd rd' (obind (lockstep_body rd g a b w) (lockstep rd g a b)) (obind (lockstep_body rd' g a b w) (lockstep rd' g a b))"
      using 1 by (intro follows_bind follows_bodies) simp_all
    then show ?thesis using True by (simp add: lockstep.simps [of _ g a b w])
  qed (simp add: lockstep.simps)
qed

lemma follows_attempt:
  assumes "agrees rd rd' g"
  shows "follows rd rd' (compile_attempt edge_meta a b (g, rd, g')) (compile_attempt edge_meta a b (g, rd', g))"
  unfolding compile_attempt_def walk_paths_def prod.case
  by (intro follows_bind follows_read_side follows_climb_a follows_climb_b follows_lockstep assms)
    (simp add: follows_def)

subsection \<open>Walks against mutators\<close>

text \<open>The times at which an attempt loads: the generation, the five loads of each round of each of its
  reads, and the generation again.\<close>

record walk_times =
  wt_start :: nat
  wt_read :: "nat \<Rightarrow> nat \<Rightarrow> frame_attempt"
  wt_end :: nat

definition last_load :: "frame_attempt \<Rightarrow> nat" where
  "last_load m = snd (snd (snd (snd m)))"

definition times_ok :: "walk_times \<Rightarrow> bool" where
  "times_ok ts \<longleftrightarrow> wt_start ts \<le> wt_end ts \<and>
     (\<forall>k n. frame_in_order (wt_read ts k n) \<and> wt_start ts \<le> fst (wt_read ts k n) \<and> last_load (wt_read ts k n) \<le> wt_end ts)"

definition run_reads :: "(nat \<Rightarrow> mutator) \<Rightarrow> walk_times \<Rightarrow> frame_reads" where
  "run_reads run ts = (\<lambda>k f. read_frame_obs (tv_max_frames (view (run (wt_start ts)))) f
     (\<lambda>n. observe_frame run f (wt_read ts k n)))"

definition observe_walk :: "(nat \<Rightarrow> mutator) \<Rightarrow> walk_times \<Rightarrow> walk_obs" where
  "observe_walk run ts =
     (generation (view (run (wt_start ts))), run_reads run ts, generation (view (run (wt_end ts))))"

lemma times_okD:
  "times_ok ts \<Longrightarrow> frame_in_order (wt_read ts k n) \<and> wt_start ts \<le> fst (wt_read ts k n) \<and> last_load (wt_read ts k n) \<le> wt_end ts"
  by (simp add: times_ok_def)

lemma frame_in_order_ends: "frame_in_order m \<Longrightarrow> fst m \<le> last_load m"
  by (cases m) (simp add: frame_in_order_def last_load_def)

lemma run_reads_agree:
  assumes run: "mutator_ok (run 0)" "\<forall>n. tstep (run n) (run (Suc n))"
    and ts: "times_ok ts" and wrap: "pubs (run (wt_end ts)) < pubs (run (wt_start ts)) + 2 ^ 56"
  defines "v \<equiv> view (run (wt_start ts))"
  shows "agrees (run_reads run ts) (rest_reads v) (generation v)"
  unfolding agrees_def
proof (intro allI)
  fix k f
  let ?tm = "wt_read ts k"
  have ord: "frame_in_order (?tm n)" "wt_start ts \<le> fst (?tm n)" "last_load (?tm n) \<le> wt_end ts"
    "fst (?tm n) \<le> last_load (?tm n)" for n
    using ts frame_in_order_ends [of "?tm n"] by (simp_all add: times_ok_def)
  note ok = topo.ok_run [OF run] and mono = topo.rank_run [OF run]
  show "run_reads run ts k f = None \<or> (\<exists>p d e g'. run_reads run ts k f = Some (p, d, e, g') \<and> g' \<noteq> generation v) \<or>
      run_reads run ts k f = rest_reads v k f"
  proof (cases "run_reads run ts k f")
    case None
    then show ?thesis by simp
  next
    case (Some r)
    obtain p d e g where r: "r = (p, d, e, g)" by (cases r)
    have "\<forall>n < TOPO_RETRY_LIMIT. pubs (run (last_load (?tm n))) < pubs (run (fst (?tm n))) + 2 ^ 56"
      using mono [OF ord(3)] mono [OF ord(2)] wrap by (meson add_le_mono1 le_less_trans less_le_trans)
    then obtain n where n: "f < tv_max_frames v"
      "let u = view (run (fst (?tm n))) in view_ok u \<and> p = parent (published u) ! f \<and> d = depth (published u) ! f \<and>
         e = edge_of_child (published u) ! f \<and> g = generation u"
      using read_frame_consistent [OF run, of ?tm "tv_max_frames v" f p d e g] ord(1) Some r
      by (auto simp: run_reads_def v_def last_load_def)
    let ?t = "fst (?tm n)"
    show ?thesis
    proof (cases "g = generation v")
      case False
      then show ?thesis using Some r by blast
    next
      case True
      have "pubs (run (wt_start ts)) = pubs (run ?t)"
      proof (rule same_word_same_pubs)
        show "(word_of_nat (pubs (run (wt_start ts))) :: u64) AND mask 56 = word_of_nat (pubs (run ?t)) AND mask 56"
          using True n(2) ok [of ?t] ok [of "wt_start ts"] by (simp add: mutator_ok_def v_def Let_def)
        show "pubs (run (wt_start ts)) \<le> pubs (run ?t)" using mono [OF ord(2)] .
        show "pubs (run ?t) < pubs (run (wt_start ts)) + 2 ^ 56"
          using mono [of ?t "wt_end ts"] ord(3,4) [of n] wrap by fastforce
      qed
      then have "published (view (run ?t)) = published v"
        using topo.snapshot [OF run, where i = "wt_start ts" and j = ?t and k = ?t] ord(2) by (simp add: v_def)
      then show ?thesis using n True Some r by (simp add: rest_reads_def read_frame_rest Let_def)
    qed
  qed
qed

text \<open>With no publication between the first and the last load, every read succeeds at once.\<close>

lemma run_reads_quiet:
  assumes run: "mutator_ok (run 0)" "\<forall>n. tstep (run n) (run (Suc n))"
    and ts: "times_ok ts" and quiet: "pubs (run (wt_end ts)) = pubs (run (wt_start ts))"
  defines "v \<equiv> view (run (wt_start ts))"
  shows "run_reads run ts = rest_reads v" "generation (view (run (wt_end ts))) = generation v"
proof -
  note mono = topo.rank_run [OF run]
  have same: "topo (view (run t)) = topo v \<and> published (view (run t)) = published v"
    if "wt_start ts \<le> t" "t \<le> wt_end ts" for t
    using topo.snapshot [OF run, where i = "wt_start ts" and j = "wt_end ts" and k = t] that quiet by (simp add: v_def)
  then show "generation (view (run (wt_end ts))) = generation v"
    using ts by (simp add: times_ok_def generation_def)
  show "run_reads run ts = rest_reads v"
  proof (intro ext)
    fix k f
    obtain t0 tp td te t1 where m: "wt_read ts k 0 = (t0, tp, td, te, t1)" by (cases "wt_read ts k 0")
    have "t0 \<le> tp" "tp \<le> td" "td \<le> te" "te \<le> t1" "wt_start ts \<le> t0" "t1 \<le> wt_end ts"
      using times_okD [OF ts, of k 0] m by (simp_all add: frame_in_order_def last_load_def)
    then have s: "topo (view (run t)) = topo v \<and> published (view (run t)) = published v" if "t \<in> {t0, tp, td, te, t1}" for t
      using that by (intro same) auto
    have "blocks (view (run t)) ! word_block (topo v) = published v" if "t \<in> {t0, tp, td, te, t1}" for t
      using conjunct2 [OF s [OF that]]
      unfolding published_def active_block_def word_block_def conjunct1 [OF s [OF that]] .
    then show "run_reads run ts k f = rest_reads v k f"
      using s m by (simp add: run_reads_def rest_reads_def read_frame_rest read_frame_obs_def observe_frame_def Let_def
          TOPO_RETRY_LIMIT_def numeral_eq_Suc v_def generation_def)
  qed
qed

lemma compile_attempt_quiet:
  assumes "mutator_ok (run 0)" "\<forall>n. tstep (run n) (run (Suc n))"
    and "times_ok ts" and "pubs (run (wt_end ts)) = pubs (run (wt_start ts))"
  shows "compile_attempt edge_meta a b (observe_walk run ts) =
    compile_attempt edge_meta a b (generation (view (run (wt_start ts))), rest_reads (view (run (wt_start ts))),
      generation (view (run (wt_start ts))))"
  using run_reads_quiet [OF assms] by (simp add: observe_walk_def)

lemma compile_loop_Some:
  "k < n \<Longrightarrow> compile_attempt edge_meta a b (obs k) \<noteq> Retry \<Longrightarrow> \<exists>r. compile_loop n edge_meta a b obs = Some r"
proof (induction n edge_meta a b obs arbitrary: k rule: compile_loop.induct)
  case (2 n edge_meta a b obs)
  show ?case
  proof (cases "compile_attempt edge_meta a b (obs 0)")
    case Retry
    with 2(3) obtain j where "k = Suc j" by (cases k) auto
    then show ?thesis using 2(1) [OF Retry, of j] 2(2,3) Retry by simp
  qed simp
qed simp

subsection \<open>Properties\<close>

lemma compile_attempt_total:
  assumes "view_ok v" "tv_max_frames v \<le> 2 ^ 16" "0 < a" "0 < b"
  shows "compile_attempt edge_meta a b (generation v, rest_reads v, generation v) \<noteq> Retry"
proof (cases "tv_max_frames v \<le> a \<or> a < tv_max_frames v \<and> tv_max_frames v \<le> b")
  case True
  then show ?thesis using compile_attempt_range [OF True, of edge_meta] by simp
next
  case False
  then have "walkable v a b" using assms by (auto simp: walkable_def)
  then show ?thesis using compile_attempt_rest [of v a b edge_meta] by (auto split: if_splits)
qed

text \<open>C19: \<open>compile\<close> decides every lookup at its first attempt when no mutation is under way. Equal frames
  give the identity plan, a frame out of range is named. Otherwise, if the two frames are in one tree,
  the path through their lowest common ancestor has at most 64 edges and each of its links records an
  edge, the plan is the fold of exactly those edges; if not, the error says what is wrong:
  \<open>Disconnected\<close> only for frames of two trees, \<open>TreeTooDeep 65\<close> only for more than 64 links,
  \<open>MissingEdge\<close> only for a link on the path with no edge.\<close>

theorem compile_at_rest:
  assumes "view_ok v" "tv_max_frames v \<le> 2 ^ 16" "0 < a" "0 < b"
  shows "\<exists>r. compile (Suc n) (stable_generation v) edge_meta a b (\<lambda>_. (generation v, rest_reads v, generation v)) = Some r \<and>
    (if a = b then r = Inr (identity_plan (generation v))
     else if tv_max_frames v \<le> a then r = Inl (FrameOutOfRange a)
     else if tv_max_frames v \<le> b then r = Inl (FrameOutOfRange b)
     else if path_ok v a b then
       r = fold_into (identity_plan (generation v)) (path_up v a b) (path_up v b a) edge_meta
     else \<exists>e. r = Inl e \<and> walk_error v a b e)"
proof -
  consider "a = b" | "a \<noteq> b" "tv_max_frames v \<le> a" | "a \<noteq> b" "a < tv_max_frames v" "tv_max_frames v \<le> b" |
    "a \<noteq> b" "a < tv_max_frames v" "b < tv_max_frames v" "walkable v a b"
    using assms by (auto simp: walkable_def not_le) linarith
  then show ?thesis
  proof cases
    case 4
    then show ?thesis
      using compile_attempt_rest [OF 4(4), of edge_meta] by (auto simp: compile_def split: if_splits)
  qed (use compile_attempt_range [of v a b edge_meta] in \<open>auto simp: compile_def stable_generation_def\<close>)
qed

text \<open>Frame 1 under frame 2 by edge 7, and frame 3 under frame 2 by edge 5.\<close>

definition link_view :: topology_view where
  "link_view = \<lparr>topo = 0,
     blocks = replicate 4 \<lparr>parent = [0, 2, 0, 2], edge_of_child = [0, 7, 0, 5], depth = [0, 1, 0, 1]\<rparr>,
     tv_max_frames = 4\<rparr>"

lemma link_view_published:
  "parent (published link_view) = [0, 2, 0, 2]" "edge_of_child (published link_view) = [0, 7, 0, 5]"
  "depth (published link_view) = [0, 1, 0, 1]" "tv_max_frames link_view = 4" "generation link_view = 0"
proof -
  have "active_block link_view < 4" using blocks_lt(1) [of link_view] by (simp add: TOPO_BLOCKS_def)
  then have "published link_view = \<lparr>parent = [0, 2, 0, 2], edge_of_child = [0, 7, 0, 5], depth = [0, 1, 0, 1]\<rparr>"
    by (simp add: published_def) (simp add: link_view_def)
  then show "parent (published link_view) = [0, 2, 0, 2]" "edge_of_child (published link_view) = [0, 7, 0, 5]"
    "depth (published link_view) = [0, 1, 0, 1]" by simp_all
  show "tv_max_frames link_view = 4" "generation link_view = 0"
    by (simp_all add: link_view_def generation_def unpack_topo_def)
qed

lemma link_view_ok: "view_ok link_view"
proof -
  have "forest 4 [0, 2, 0, 2]"
    by (simp add: forest_def numeral_eq_Suc upt_rec) (auto simp: up_def less_Suc_eq intro: exI [of _ "2 :: nat"])
  then show ?thesis
    by (simp add: view_ok_def link_view_published depths_ok_def sat_add_u16_def upt_rec)
      (simp add: link_view_def TOPO_BLOCKS_def block_ok_def)
qed

lemma link_view_paths:
  "path_ok link_view 1 3" "path_up link_view 1 3 = [7]" "path_up link_view 3 1 = [5]" "walkable link_view 1 3"
proof -
  let ?p = "[0, 2, 0, 2] :: nat list"
  have F: "forest 4 ?p" using link_view_ok by (simp add: view_ok_def link_view_published)
  have l: "level ?p 2 = 1" using level_pos [OF F, of 2] by simp
  then have l: "level ?p 1 = 2" "level ?p 3 = 2" using level_pos [OF F, of 1] level_pos [OF F, of 3] by simp_all
  note l = l l(1) [unfolded One_nat_def]
  have "meets ?p 1 3 1" by (simp add: meets_def l up_Suc)
  moreover have "\<not> meets ?p 1 3 2" by (simp add: meets_def l)
  moreover have "meet_level ?p 1 3 \<le> 2"
    using meet_level_meets [OF F, of 1 3] l by (simp add: meets_def)
  ultimately have m: "meet_level ?p 1 3 = 1"
    using meet_level_greatest [of ?p 1 3 1] meet_level_meets [OF F, of 1 3] by (cases "meet_level ?p 1 3 = 2") auto
  then have m': "meet_level ?p 3 1 = 1" using meet_level_commute by metis
  note ms = m m' m [unfolded One_nat_def] m' [unfolded One_nat_def]
  show "path_up link_view 1 3 = [7]" "path_up link_view 3 1 = [5]"
    by (simp_all add: path_up_def link_view_published ms l edges_to_def Let_def)
  have "same_tree ?p 1 3" using same_tree_iff [OF F, of 1 3] m by simp
  then show "path_ok link_view 1 3"
    by (simp add: path_ok_def link_view_published ms l edges_to_def MAX_PATH_EDGES_def Let_def)
  show "walkable link_view 1 3" by (simp add: walkable_def link_view_ok link_view_published)
qed

definition turn_meta :: "edge_id \<Rightarrow> edge_meta option" where
  "turn_meta e = (if e = 5 \<or> e = 7 then Some \<lparr>em_kind = Static, em_domain = 0, em_static_pose = half_turn\<rparr> else None)"

theorem compile_at_rest_witness:
  "compile 1 0 turn_meta 1 3 (\<lambda>_. (0, rest_reads link_view, 0)) = Some (fold_into (identity_plan 0) [7] [5] turn_meta)"
  using compile_at_rest [of link_view 1 3 0 turn_meta] link_view_ok link_view_paths
  by (simp add: link_view_published stable_generation_def)

lemma compiled_plan_eval:
  assumes v: "view_ok v" "tv_max_frames v \<le> 2 ^ 16" "0 < a" "0 < b"
    and c: "compile (Suc n) (stable_generation v) edge_meta a b (\<lambda>_. (generation v, rest_reads v, generation v)) = Some (Inr q)"
    and S: "unit_sampler S" "unit_metas edge_meta"
    and P: "\<forall>e. unit_iso (P e)" "\<forall>e \<in> set (path_up v a b) \<union> set (path_up v b a). edge_pose edge_meta S e = Inr (P e)"
  shows "eval_steps S (plan_steps q) iso3_IDENTITY =
    Inr (iso3_mul (iso3_inverse (pose_in_root P v a)) (pose_in_root P v b))"
proof (cases "a = b")
  case True
  then have "q = identity_plan (stable_generation v)" using c by (simp add: compile_def)
  moreover have "unit_iso (pose_in_root P v b)" using P(1) by (simp add: pose_in_root_def)
  ultimately show ?thesis using True by (simp add: identity_plan_def plan_steps_def)
next
  case False
  then have attempt: "compile_attempt edge_meta a b (generation v, rest_reads v, generation v) = Done (Inr q)"
    using c compile_attempt_total [OF v, of edge_meta] by (simp add: compile_def split: outcome.splits)
  then have "\<not> (tv_max_frames v \<le> a \<or> a < tv_max_frames v \<and> tv_max_frames v \<le> b)"
    using compile_attempt_range [of v a b edge_meta] by auto
  then have w: "walkable v a b" using v by (auto simp: walkable_def)
  then have "fold_into (identity_plan (generation v)) (path_up v a b) (path_up v b a) edge_meta = Inr q"
    using compile_attempt_rest [OF w, of edge_meta] attempt by (simp split: if_splits)
  note ev = fold_into_eval [OF this S P]
  let ?A = "iso.prod (map P (rev (path_up v a b)))" and ?B = "iso.prod (map P (rev (path_up v b a)))"
  obtain T where T: "pose_in_root P v a = iso3_mul T ?A" "pose_in_root P v b = iso3_mul T ?B" "unit_iso T"
    using pose_in_root_split [OF w P(1)] by blast
  have u: "unit_iso ?A" "unit_iso ?B" using P(1) by simp_all
  have "iso3_mul (iso3_inverse (iso3_mul T ?A)) (iso3_mul T ?B) =
      iso3_mul (iso3_inverse ?A) (iso3_mul (iso3_inverse T) (iso3_mul T ?B))"
    using u T(3) by (simp add: iso.inv_mul_distrib iso3_mul_assoc)
  also have "\<dots> = iso3_mul (iso3_inverse ?A) ?B" using u T(3) iso.mul_cancel_left' by simp
  finally show ?thesis using ev T by simp
qed

text \<open>C20: a compiled plan stands for the transform between its frames. Whatever the tree, if the plan
  compiles and every edge of its path yields a unit pose, evaluating its steps gives
  \<open>inverse (pose of target in the root) * (pose of source in the root)\<close>: the direction of every step, the
  reversal of the source side and the merging of constants are right.\<close>

theorem compiled_plan_pose:
  assumes v: "view_ok v" "tv_max_frames v \<le> 2 ^ 16" "0 < a" "0 < b"
    and c: "compile (Suc n) (stable_generation v) edge_meta a b (\<lambda>_. (generation v, rest_reads v, generation v)) = Some (Inr q)"
    and S: "unit_sampler S" "unit_metas edge_meta"
    and P: "\<forall>e. unit_iso (P e)" "\<forall>e \<in> set (path_up v a b) \<union> set (path_up v b a). edge_pose edge_meta S e = Inr (P e)"
  shows "eval_steps S (plan_steps q) iso3_IDENTITY =
    Inr (iso3_mul (iso3_inverse (pose_in_root P v a)) (pose_in_root P v b))"
  using assms by (rule compiled_plan_eval)

theorem compiled_plan_pose_witness:
  "\<exists>q. compile 1 0 (\<lambda>e. Some \<lparr>em_kind = Static, em_domain = 0, em_static_pose = half_turn\<rparr>) 1 3
      (\<lambda>_. (0, rest_reads link_view, 0)) = Some (Inr q) \<and>
    eval_steps (\<lambda>e. Inl (NoData e)) (plan_steps q) iso3_IDENTITY =
      Inr (iso3_mul (iso3_inverse (pose_in_root (\<lambda>_. half_turn) link_view 1)) (pose_in_root (\<lambda>_. half_turn) link_view 3))"
proof -
  let ?meta = "\<lambda>e. Some \<lparr>em_kind = Static, em_domain = 0, em_static_pose = half_turn\<rparr>"
  let ?obs = "\<lambda>_ :: nat. (0 :: u64, rest_reads link_view, 0 :: u64)"
  obtain q where f: "fold_into (identity_plan 0) [7] [5] ?meta = Inr q"
    by (simp add: fold_into_def raw_path_def resolve_edge_def fold_start_def emit_step_def append_step_def MAX_DEPTH_def
        identity_plan_def)
  have att: "compile_attempt ?meta 1 3 (0, rest_reads link_view, 0) = Done (Inr q)"
    using compile_attempt_rest [OF link_view_paths(4), of ?meta] link_view_paths f by (simp add: link_view_published)
  then have "compile (Suc 0) (stable_generation link_view) ?meta 1 3 ?obs = Some (Inr q)" by (simp add: compile_def)
  moreover from this have "eval_steps (\<lambda>e. Inl (NoData e)) (plan_steps q) iso3_IDENTITY =
      Inr (iso3_mul (iso3_inverse (pose_in_root (\<lambda>_. half_turn) link_view 1)) (pose_in_root (\<lambda>_. half_turn) link_view 3))"
    by (intro compiled_plan_pose [where v = link_view and edge_meta = ?meta and n = 0])
      (simp_all add: link_view_ok link_view_published unit_sampler_def unit_metas_def edge_pose_def)
  ultimately show ?thesis by (simp add: stable_generation_def link_view_published)
qed


definition idle_link :: mutator where
  "idle_link = \<lparr>view = link_view, mtodo = [], pubs = 0\<rparr>"


text \<open>C22: \<open>compile\<close> ends. Its loop has no bound of its own, and each round is bounded by the 64 edges of the
  path; as soon as one of its attempts falls between two publications it returns, so with that
  many rounds of fuel there is a result, and at rest it is there in the first.\<close>

theorem compile_returns:
  assumes run: "mutator_ok (run 0)" "\<forall>n. tstep (run n) (run (Suc n))"
    and ts: "times_ok (ts k)" and quiet: "pubs (run (wt_end (ts k))) = pubs (run (wt_start (ts k)))"
    and frames: "tv_max_frames (view (run (wt_start (ts k)))) \<le> 2 ^ 16" "0 < a" "0 < b"
  shows "\<exists>r. compile (Suc k) g edge_meta a b (\<lambda>i. observe_walk run (ts i)) = Some r"
proof -
  have "view_ok (view (run (wt_start (ts k))))" using topo.ok_run [OF run] by (simp add: mutator_ok_def)
  then have "compile_attempt edge_meta a b (observe_walk run (ts k)) \<noteq> Retry"
    using compile_attempt_total [OF _ frames] compile_attempt_quiet [OF run ts quiet] by simp
  then show ?thesis
    using compile_loop_Some [of k "Suc k" edge_meta a b "\<lambda>i. observe_walk run (ts i)"] by (simp add: compile_def)
qed

theorem compile_returns_witness:
  "\<exists>r. compile 4 0 turn_meta 1 3 (\<lambda>i. observe_walk (\<lambda>_. idle_link)
     \<lparr>wt_start = 5 * i, wt_read = \<lambda>_ _. (5 * i, 5 * i, 5 * i, 5 * i, 5 * i), wt_end = 5 * i\<rparr>) = Some r"
proof -
  have "mutator_ok idle_link"
    using link_view_ok by (simp add: mutator_ok_def idle_link_def link_view_published)
  then have "\<exists>r. compile (Suc 3) 0 turn_meta 1 3 (\<lambda>i. observe_walk (\<lambda>_. idle_link)
     \<lparr>wt_start = 5 * i, wt_read = \<lambda>_ _. (5 * i, 5 * i, 5 * i, 5 * i, 5 * i), wt_end = 5 * i\<rparr>) = Some r"
    by (intro compile_returns)
      (simp_all add: tidle idle_link_def link_view_published times_ok_def frame_in_order_def last_load_def)
  then show ?thesis by simp
qed

end
