(* ===== verification/Plan_Eval.thy ===== *)
theory Plan_Eval
  imports Plan_Fold Arena_View Sample
begin

unbundle bit_operations_syntax

text \<open>
  The evaluation of compiled plans, \<open>Guard\<close> and the methods of \<open>Plan\<close> in
  \<open>tf_tree_core/src/plan.rs\<close>: scalar and batch evaluation, extrapolation, the newest common stamp, the
  per-step cursors and the diagnostic counters. A guard carries the arena it reads; the counters
  are the only part of it an evaluation writes. Nothing is published while one call runs (reads against
  publishers are in \<open>Seqlock\<close>), so the head a read loads at its end is the head of its ring.
\<close>

subsection \<open>Guards\<close>

definition DETACHED :: u64 where "DETACHED = 0xFFFFFFFFFFFFFFFF"

text \<open>The fork check keeps the generation at creation; what it reads later is a parameter of
  \<open>guard_flush\<close>.\<close>

record guard =
  g_arena :: arena
  g_view :: view_ctx
  g_generation :: u64
  g_ok :: nat
  g_ok_edge :: "edge_id option"
  g_cursor :: "nat list"
  g_fork :: "nat option"

definition guard_new :: "arena \<Rightarrow> view_ctx \<Rightarrow> guard" where
  "guard_new a v = \<lparr>g_arena = a, g_view = v, g_generation = stable_generation (ar_topology a), g_ok = 0,
     g_ok_edge = None, g_cursor = replicate MAX_DEPTH 0, g_fork = None\<rparr>"

definition with_fork_check :: "nat \<Rightarrow> guard \<Rightarrow> guard" where
  "with_fork_check born g = g\<lparr>g_fork := Some born\<rparr>"

definition guard_detached :: "arena \<Rightarrow> view_ctx \<Rightarrow> guard" where
  "guard_detached a v = (guard_new a v)\<lparr>g_generation := DETACHED\<rparr>"

definition poison :: "guard \<Rightarrow> lookup_error option" where
  "poison g = (if g_generation g = DETACHED then Some LookupChildDetached else None)"

subsection \<open>Counters\<close>

datatype counter_field = CExtrapBefore | CExtrapAfter | CNoData | CSlotRecycled | CSlotContended

definition fetch_add_u64 :: "nat \<Rightarrow> nat \<Rightarrow> nat" where
  "fetch_add_u64 n x = (x + n) mod 2 ^ 64"

fun bump :: "counter_field \<Rightarrow> edge_counters \<Rightarrow> edge_counters" where
  "bump CExtrapBefore c = c\<lparr>ec_extrap_before := fetch_add_u64 1 (ec_extrap_before c)\<rparr>"
| "bump CExtrapAfter c = c\<lparr>ec_extrap_after := fetch_add_u64 1 (ec_extrap_after c)\<rparr>"
| "bump CNoData c = c\<lparr>ec_no_data := fetch_add_u64 1 (ec_no_data c)\<rparr>"
| "bump CSlotRecycled c = c\<lparr>ec_slot_recycled := fetch_add_u64 1 (ec_slot_recycled c)\<rparr>"
| "bump CSlotContended c = c\<lparr>ec_slot_contended := fetch_add_u64 1 (ec_slot_contended c)\<rparr>"

fun bump_participant :: "counter_field \<Rightarrow> participant_counters \<Rightarrow> participant_counters" where
  "bump_participant CExtrapBefore p = p\<lparr>pc_extrap_before := fetch_add_u64 1 (pc_extrap_before p)\<rparr>"
| "bump_participant CExtrapAfter p = p\<lparr>pc_extrap_after := fetch_add_u64 1 (pc_extrap_after p)\<rparr>"
| "bump_participant CNoData p = p\<lparr>pc_no_data := fetch_add_u64 1 (pc_no_data p)\<rparr>"
| "bump_participant CSlotRecycled p = p\<lparr>pc_slot_recycled := fetch_add_u64 1 (pc_slot_recycled p)\<rparr>"
| "bump_participant CSlotContended p = p\<lparr>pc_slot_contended := fetch_add_u64 1 (pc_slot_contended p)\<rparr>"

definition counter_of :: "lookup_error \<Rightarrow> (edge_id \<times> counter_field) option" where
  "counter_of err =
     (case err of
        Extrapolation edge requested oldest newest \<Rightarrow>
          Some (edge, if requested > newest then CExtrapAfter else CExtrapBefore)
      | NoData edge \<Rightarrow> Some (edge, CNoData)
      | SlotRecycled edge \<Rightarrow> Some (edge, CSlotRecycled)
      | SlotContended edge \<Rightarrow> Some (edge, CSlotContended)
      | _ \<Rightarrow> None)"

definition note_ok :: "edge_id \<Rightarrow> guard \<Rightarrow> guard" where
  "note_ok edge g =
     (let g1 = g\<lparr>g_ok := min (g_ok g + 1) (2 ^ 32 - 1)\<rparr>
      in if edge = 0 then g1\<lparr>g_ok_edge := None\<rparr>
         else case g_ok_edge g1 of
             None \<Rightarrow> if g_ok g1 = 1 then g1\<lparr>g_ok_edge := Some edge\<rparr> else g1
           | Some e \<Rightarrow> if e \<noteq> edge then g1\<lparr>g_ok_edge := None\<rparr> else g1)"

text \<open>What a failure writes into the two counter records.\<close>

definition err_stamp :: "lookup_error \<Rightarrow> int" where
  "err_stamp err = (case err of Extrapolation edge requested oldest newest \<Rightarrow> requested | _ \<Rightarrow> 0)"

definition err_participant :: "edge_id \<Rightarrow> counter_field \<Rightarrow> lookup_error \<Rightarrow> participant_counters \<Rightarrow> participant_counters" where
  "err_participant edge field err p =
     (bump_participant field p)\<lparr>pc_last_err_edge := edge, pc_last_err_nanos := err_stamp err\<rparr>"

definition err_edge :: "counter_field \<Rightarrow> lookup_error \<Rightarrow> edge_counters \<Rightarrow> edge_counters" where
  "err_edge field err c =
     (let c1 = (bump field c)\<lparr>ec_last_err_nanos := err_stamp err\<rparr>
      in case err of
           Extrapolation edge requested oldest newest \<Rightarrow>
             let gap = (if requested > newest then sat_i64 (requested - newest) else sat_i64 (oldest - requested))
             in c1\<lparr>ec_worst_extrap_gap_ns := max (ec_worst_extrap_gap_ns c1) gap\<rparr>
         | _ \<Rightarrow> c1)"

definition upd_participant_counters :: "nat \<Rightarrow> (participant_counters \<Rightarrow> participant_counters) \<Rightarrow> arena \<Rightarrow> arena" where
  "upd_participant_counters sl f a =
     (case participant_counters_at a sl of
        None \<Rightarrow> a
      | Some p \<Rightarrow> a\<lparr>ar_participant_counters := (ar_participant_counters a)[sl := f p]\<rparr>)"

definition upd_edge_counters :: "edge_id \<Rightarrow> (edge_counters \<Rightarrow> edge_counters) \<Rightarrow> arena \<Rightarrow> arena" where
  "upd_edge_counters e f a =
     (case edge_counters_at a e of
        None \<Rightarrow> a
      | Some c \<Rightarrow> a\<lparr>ar_edge_counters := (ar_edge_counters a)[e := f c]\<rparr>)"

definition note_err :: "lookup_error \<Rightarrow> guard \<Rightarrow> guard" where
  "note_err err g =
     (if \<not> vw_writable (g_view g) then g
      else case counter_of err of
          None \<Rightarrow> g
        | Some (edge, field) \<Rightarrow>
            let a1 = (case interning_identity (g_view g) of
                  None \<Rightarrow> g_arena g
                | Some sl \<Rightarrow> upd_participant_counters sl (err_participant edge field err) (g_arena g))
            in g\<lparr>g_arena := upd_edge_counters edge (err_edge field err) a1\<rparr>)"

text \<open>The destructor flushes the successes; \<open>now\<close> is what the fork check reads then. The result is the
  arena it leaves.\<close>

definition guard_flush :: "nat \<Rightarrow> guard \<Rightarrow> arena" where
  "guard_flush now g =
     (if g_ok g = 0 \<or> \<not> vw_writable (g_view g) then g_arena g
      else if (case g_fork g of Some born \<Rightarrow> now \<noteq> born | None \<Rightarrow> False) then g_arena g
      else
        let a1 = (case g_ok_edge g of
              None \<Rightarrow> g_arena g
            | Some edge \<Rightarrow> upd_edge_counters edge (\<lambda>c. c\<lparr>ec_lookups_ok := fetch_add_u64 (g_ok g) (ec_lookups_ok c)\<rparr>) (g_arena g))
        in case interning_identity (g_view g) of
             None \<Rightarrow> a1
           | Some sl \<Rightarrow> upd_participant_counters sl (\<lambda>p. p\<lparr>pc_lookups_ok := fetch_add_u64 (g_ok g) (pc_lookups_ok p)\<rparr>) a1)"

subsection \<open>Sampling through a guard\<close>

definition interp_of :: "nat \<Rightarrow> interp" where
  "interp_of i = (case interp_policy_from_u8 i of LerpSlerp \<Rightarrow> lerp_slerp_eval | ScLerp \<Rightarrow> sclerp_eval)"

definition guard_sample :: "arena \<Rightarrow> edge_id \<Rightarrow> int \<Rightarrow> extrap_policy \<Rightarrow> lookup_error + iso3" where
  "guard_sample a edge t policy =
     rbind (ok_or (sampler a edge) (UnknownEdge edge)) (\<lambda>(i, ring).
       sample (interp_of i) (head ring) t policy ring)"

definition guard_sample_from :: "arena \<Rightarrow> edge_id \<Rightarrow> int \<Rightarrow> extrap_policy \<Rightarrow> nat \<Rightarrow> (lookup_error + iso3) \<times> nat" where
  "guard_sample_from a edge t policy cursor =
     (case sampler a edge of
        None \<Rightarrow> (Inl (UnknownEdge edge), cursor)
      | Some (i, ring) \<Rightarrow> sample_from (interp_of i) (head ring) t policy cursor ring)"

definition guard_sample_with_twist :: "arena \<Rightarrow> edge_id \<Rightarrow> int \<Rightarrow> extrap_policy \<Rightarrow> lookup_error + iso3 \<times> twist" where
  "guard_sample_with_twist a edge t policy =
     rbind (ok_or (sampler a edge) (UnknownEdge edge)) (\<lambda>(i, ring).
       case interp_policy_from_u8 i of
         ScLerp \<Rightarrow> sample_with_twist (head ring) t policy ring
       | LerpSlerp \<Rightarrow> Inl (DerivativesUnavailable edge i))"

definition guard_sample_with_twist_from ::
  "arena \<Rightarrow> edge_id \<Rightarrow> int \<Rightarrow> extrap_policy \<Rightarrow> nat \<Rightarrow> (lookup_error + iso3 \<times> twist) \<times> nat" where
  "guard_sample_with_twist_from a edge t policy cursor =
     (case sampler a edge of
        None \<Rightarrow> (Inl (UnknownEdge edge), cursor)
      | Some (i, ring) \<Rightarrow>
          (case interp_policy_from_u8 i of
             ScLerp \<Rightarrow> sample_with_twist_from (head ring) t policy cursor ring
           | LerpSlerp \<Rightarrow> (Inl (DerivativesUnavailable edge i), cursor)))"

text \<open>The guard's own cursors, packed with the edge they belong to.\<close>

definition sample_hinted :: "nat \<Rightarrow> edge_id \<Rightarrow> int \<Rightarrow> extrap_policy \<Rightarrow> guard \<Rightarrow> (lookup_error + iso3) \<times> guard" where
  "sample_hinted k edge t policy g =
     (if k \<ge> length (g_cursor g) then (guard_sample (g_arena g) edge t policy, g)
      else
        let packed = g_cursor g ! k;
            cursor = (if drop_bit 32 packed mod 2 ^ 32 = edge then packed AND mask 32 else 0);
            (out, cursor') = guard_sample_from (g_arena g) edge t policy cursor
        in (out, case out of
                   Inl e \<Rightarrow> g
                 | Inr p \<Rightarrow> g\<lparr>g_cursor := (g_cursor g)[k := push_bit 32 edge OR (cursor' AND mask 32)]\<rparr>))"

definition guard_newest_stamp :: "arena \<Rightarrow> edge_id \<Rightarrow> lookup_error + int" where
  "guard_newest_stamp a edge =
     rbind (ok_or (arena_ring a edge) (UnknownEdge edge)) (\<lambda>ring. ok_or (newest_stamp ring) (NoData edge))"

definition window :: "arena \<Rightarrow> edge_id \<Rightarrow> lookup_error + int \<times> int" where
  "window a edge =
     rbind (ok_or (arena_ring a edge) (UnknownEdge edge)) (\<lambda>ring.
       case (oldest_stamp ring, newest_stamp ring) of
         (Some oldest, Some newest) \<Rightarrow> Inr (oldest, newest)
       | _ \<Rightarrow> Inl (NoData edge))"

definition guard_nominal_rate :: "arena \<Rightarrow> edge_id \<Rightarrow> lookup_error + nat" where
  "guard_nominal_rate a edge = rbind (ok_or (arena_edge a edge) (UnknownEdge edge)) (\<lambda>rec. Inr (er_nominal_rate_mhz rec))"

subsection \<open>Folding a plan\<close>

text \<open>The loop over the steps, with the state its sampler threads through: the guard, or the
  cursors of a batch.\<close>

fun fold_steps :: "(nat \<Rightarrow> edge_id \<Rightarrow> 's \<Rightarrow> (lookup_error + iso3) \<times> 's) \<Rightarrow> nat \<Rightarrow> step list \<Rightarrow> iso3 \<Rightarrow> 's \<Rightarrow>
    (lookup_error + iso3) \<times> 's" where
  "fold_steps f k [] acc s = (Inr acc, s)"
| "fold_steps f k (StaticStep m # ss) acc s = fold_steps f (k + 1) ss (iso3_mul acc m) s"
| "fold_steps f k (Dyn edge inverted # ss) acc s =
     (case f k edge s of
        (Inl e, s') \<Rightarrow> (Inl e, s')
      | (Inr p, s') \<Rightarrow> fold_steps f (k + 1) ss (if inverted then iso3_mul_inv acc p else iso3_mul acc p) s')"

definition fold_at_policy :: "plan \<Rightarrow> int \<Rightarrow> extrap_policy \<Rightarrow> guard \<Rightarrow> (lookup_error + iso3) \<times> guard" where
  "fold_at_policy p t policy g =
     fold_steps (\<lambda>k edge g. sample_hinted k edge t policy g) 0 (plan_steps p) iso3_IDENTITY g"

definition fold_at :: "plan \<Rightarrow> int \<Rightarrow> guard \<Rightarrow> (lookup_error + iso3) \<times> guard" where
  "fold_at p t g = fold_steps (\<lambda>k edge g. sample_hinted k edge t ErrorPolicy g) 0 (plan_steps p) iso3_IDENTITY g"

text \<open>A cursor is passed by reference, so it moves whether or not the read succeeds.\<close>

definition at_cursor :: "(nat \<Rightarrow> 'b \<times> nat) \<Rightarrow> nat \<Rightarrow> nat list \<Rightarrow> 'b \<times> nat list" where
  "at_cursor f k cursors = (let (out, c) = f (cursors ! k) in (out, cursors[k := c]))"

definition fold_at_cursors :: "plan \<Rightarrow> arena \<Rightarrow> int \<Rightarrow> nat list \<Rightarrow> (lookup_error + iso3) \<times> nat list" where
  "fold_at_cursors p a t cursors =
     fold_steps (\<lambda>k edge. at_cursor (guard_sample_from a edge t ErrorPolicy) k) 0 (plan_steps p) iso3_IDENTITY cursors"

fun fold_with_derivatives :: "(nat \<Rightarrow> edge_id \<Rightarrow> 's \<Rightarrow> (lookup_error + iso3 \<times> twist) \<times> 's) \<Rightarrow> nat \<Rightarrow> step list \<Rightarrow>
    iso3 \<Rightarrow> twist \<Rightarrow> 's \<Rightarrow> (lookup_error + iso3 \<times> twist) \<times> 's" where
  "fold_with_derivatives f k [] acc vel s = (Inr (acc, vel), s)"
| "fold_with_derivatives f k (StaticStep m # ss) acc vel s =
     fold_with_derivatives f (k + 1) ss (iso3_mul acc m) (adjoint_inv m vel) s"
| "fold_with_derivatives f k (Dyn edge inverted # ss) acc vel s =
     (case f k edge s of
        (Inl e, s') \<Rightarrow> (Inl e, s')
      | (Inr (p, vp), s') \<Rightarrow>
          if inverted then fold_with_derivatives f (k + 1) ss (iso3_mul_inv acc p) (adjoint p (twist_sub vel vp)) s'
          else fold_with_derivatives f (k + 1) ss (iso3_mul acc p) (twist_add (adjoint_inv p vel) vp) s')"

definition fold_at_with_derivatives :: "plan \<Rightarrow> arena \<Rightarrow> int \<Rightarrow> lookup_error + iso3 \<times> twist" where
  "fold_at_with_derivatives p a t =
     fst (fold_with_derivatives (\<lambda>k edge s. (guard_sample_with_twist a edge t ErrorPolicy, s)) 0 (plan_steps p)
       iso3_IDENTITY twist_ZERO ())"

definition fold_at_with_derivatives_cursors ::
  "plan \<Rightarrow> arena \<Rightarrow> int \<Rightarrow> nat list \<Rightarrow> (lookup_error + iso3 \<times> twist) \<times> nat list" where
  "fold_at_with_derivatives_cursors p a t cursors =
     fold_with_derivatives (\<lambda>k edge. at_cursor (guard_sample_with_twist_from a edge t ErrorPolicy) k) 0 (plan_steps p)
       iso3_IDENTITY twist_ZERO cursors"

definition fold_latest :: "plan \<Rightarrow> arena \<Rightarrow> lookup_error + iso3" where
  "fold_latest p a =
     eval_steps (\<lambda>edge. rbind (guard_newest_stamp a edge) (\<lambda>t. guard_sample a edge t ErrorPolicy)) (plan_steps p) iso3_IDENTITY"

fun newest_common_loop :: "arena \<Rightarrow> step list \<Rightarrow> int \<times> edge_id \<times> bool \<Rightarrow> lookup_error + int \<times> edge_id \<times> bool" where
  "newest_common_loop a [] st = Inr st"
| "newest_common_loop a (StaticStep m # ss) st = newest_common_loop a ss st"
| "newest_common_loop a (Dyn edge inverted # ss) (common, which, any) =
     rbind (guard_newest_stamp a edge) (\<lambda>newest.
       newest_common_loop a ss (if \<not> any \<or> newest < common then (newest, edge, True) else (common, which, True)))"

definition newest_common :: "plan \<Rightarrow> arena \<Rightarrow> lookup_error + (int \<times> edge_id) option" where
  "newest_common p a =
     rbind (newest_common_loop a (plan_steps p) (i64_max, 0, False)) (\<lambda>(common, which, any).
       Inr (if any then Some (common, which) else None))"

fun static_only_loop :: "step list \<Rightarrow> iso3 \<Rightarrow> iso3" where
  "static_only_loop [] acc = acc"
| "static_only_loop (StaticStep m # ss) acc = static_only_loop ss (iso3_mul acc m)"
| "static_only_loop (Dyn edge inverted # ss) acc = static_only_loop ss acc"

definition static_only :: "plan \<Rightarrow> iso3" where
  "static_only p = static_only_loop (plan_steps p) iso3_IDENTITY"

definition fold_latest_common :: "plan \<Rightarrow> guard \<Rightarrow> (lookup_error + iso3) \<times> guard" where
  "fold_latest_common p g =
     (case newest_common p (g_arena g) of
        Inl e \<Rightarrow> (Inl e, g)
      | Inr None \<Rightarrow> (Inr (static_only p), g)
      | Inr (Some (common, which)) \<Rightarrow> fold_at p common g)"

subsection \<open>Evaluation\<close>

definition check_generation :: "plan \<Rightarrow> guard \<Rightarrow> lookup_error + unit" where
  "check_generation p g =
     (let cur = g_generation g
      in if cur = plan_generation p then Inr ()
         else if cur = DETACHED then Inl LookupChildDetached
         else Inl (TopologyChanged (plan_generation p) cur))"

definition check_domain_tag :: "plan \<Rightarrow> nat \<Rightarrow> lookup_error + unit" where
  "check_domain_tag p dmn =
     (if has_dynamic p \<and> dmn \<noteq> plan_domain p then Inl (TimeDomainMismatch (plan_domain p) dmn) else Inr ())"

definition note_result :: "edge_id \<Rightarrow> (lookup_error + 'a) \<times> guard \<Rightarrow> (lookup_error + 'a) \<times> guard" where
  "note_result edge rg = (case rg of (Inr v, g) \<Rightarrow> (Inr v, note_ok edge g) | (Inl e, g) \<Rightarrow> (Inl e, note_err e g))"

text \<open>The checks in front of every call, and \<open>?\<close> on them.\<close>

definition after :: "lookup_error + unit \<Rightarrow> 's \<Rightarrow> (lookup_error + 'a) \<times> 's \<Rightarrow> (lookup_error + 'a) \<times> 's" where
  "after c s r = (case c of Inl e \<Rightarrow> (Inl e, s) | Inr u \<Rightarrow> r)"

definition at_tagged :: "plan \<Rightarrow> int \<Rightarrow> nat \<Rightarrow> guard \<Rightarrow> (lookup_error + iso3) \<times> guard" where
  "at_tagged p nanos dmn g =
     after (check_generation p g) g (after (check_domain_tag p dmn) g
       (note_result (first_dynamic_edge p) (fold_at p nanos g)))"

record plan_sample =
  ps_pose :: iso3
  ps_twist :: twist
  ps_accel :: "twist option"

definition at_with_derivatives_tagged :: "plan \<Rightarrow> int \<Rightarrow> nat \<Rightarrow> guard \<Rightarrow> (lookup_error + plan_sample) \<times> guard" where
  "at_with_derivatives_tagged p nanos dmn g =
     after (check_generation p g) g (after (check_domain_tag p dmn) g
       (case note_result (first_dynamic_edge p) (fold_at_with_derivatives p (g_arena g) nanos, g) of
          (Inl e, g') \<Rightarrow> (Inl e, g')
        | (Inr (q, v), g') \<Rightarrow> (Inr \<lparr>ps_pose = q, ps_twist = v, ps_accel = None\<rparr>, g')))"

definition latest :: "plan \<Rightarrow> guard \<Rightarrow> (lookup_error + iso3) \<times> guard" where
  "latest p g = after (check_generation p g) g (note_result (first_dynamic_edge p) (fold_latest p (g_arena g), g))"

definition latest_common :: "plan \<Rightarrow> guard \<Rightarrow> (lookup_error + iso3) \<times> guard" where
  "latest_common p g = after (check_generation p g) g (note_result (first_dynamic_edge p) (fold_latest_common p g))"

definition plan_query :: "plan \<Rightarrow> nat \<Rightarrow> query \<Rightarrow> guard \<Rightarrow> (lookup_error + iso3) \<times> guard" where
  "plan_query p dmn q g =
     (case q of At t \<Rightarrow> at_tagged p t dmn g | Latest \<Rightarrow> latest p g | LatestCommon \<Rightarrow> latest_common p g)"

record extrapolated =
  xp_pose :: iso3
  xp_by_ns :: int
  xp_edge :: edge_id

definition at_extrapolating_tagged ::
  "plan \<Rightarrow> int \<Rightarrow> nat \<Rightarrow> extrap_policy \<Rightarrow> guard \<Rightarrow> (lookup_error + extrapolated) \<times> guard" where
  "at_extrapolating_tagged p nanos dmn policy g =
     after (check_generation p g) g (after (check_domain_tag p dmn) g
       (let common = newest_common p (g_arena g)
        in case note_result (first_dynamic_edge p) (fold_at_policy p nanos policy g) of
             (Inl e, g') \<Rightarrow> (Inl e, g')
           | (Inr q, g') \<Rightarrow>
               (case common of
                  Inl e \<Rightarrow> (Inl e, g')
                | Inr (Some (c, which)) \<Rightarrow>
                    (Inr \<lparr>xp_pose = q, xp_by_ns = max (sat_i64 (nanos - c)) 0, xp_edge = which\<rparr>, g')
                | Inr None \<Rightarrow> (Inr \<lparr>xp_pose = q, xp_by_ns = 0, xp_edge = 0\<rparr>, g'))))"

fun span_loop :: "arena \<Rightarrow> step list \<Rightarrow> (int \<times> int) option \<Rightarrow> lookup_error + (int \<times> int) option" where
  "span_loop a [] sp = Inr sp"
| "span_loop a (StaticStep m # ss) sp = span_loop a ss sp"
| "span_loop a (Dyn edge inverted # ss) sp =
     rbind (window a edge) (\<lambda>(oldest, newest).
       span_loop a ss (Some (case sp of None \<Rightarrow> (oldest, newest) | Some (lo, hi) \<Rightarrow> (max lo oldest, min hi newest))))"

definition plan_span :: "plan \<Rightarrow> guard \<Rightarrow> lookup_error + (int \<times> int) option" where
  "plan_span p g = rbind (check_generation p g) (\<lambda>_. span_loop (g_arena g) (plan_steps p) None)"

fun slowest_loop :: "arena \<Rightarrow> step list \<Rightarrow> nat option \<Rightarrow> lookup_error + nat option" where
  "slowest_loop a [] slowest = Inr slowest"
| "slowest_loop a (StaticStep m # ss) slowest = slowest_loop a ss slowest"
| "slowest_loop a (Dyn edge inverted # ss) slowest =
     rbind (guard_nominal_rate a edge) (\<lambda>mhz.
       slowest_loop a ss (if mhz = 0 then slowest else Some (case slowest of None \<Rightarrow> mhz | Some cur \<Rightarrow> min cur mhz)))"

definition slowest_nominal_rate_mhz :: "plan \<Rightarrow> guard \<Rightarrow> lookup_error + nat option" where
  "slowest_nominal_rate_mhz p g = rbind (check_generation p g) (\<lambda>_. slowest_loop (g_arena g) (plan_steps p) None)"

subsection \<open>Batches\<close>

definition FOLD_LANES :: nat where "FOLD_LANES = 16"
definition FOLD_MIN_BATCH :: nat where "FOLD_MIN_BATCH = 3"

text \<open>A loop over the stamps zipped with the exact chunks of the output: row \<open>i\<close> is \<open>elems\<close> elements, and
  the loop ends when either side does.\<close>

fun batch_rows :: "(int \<Rightarrow> 's \<Rightarrow> (lookup_error + 'v) \<times> 's) \<Rightarrow> ('v \<Rightarrow> 'b list) \<Rightarrow> nat \<Rightarrow> nat \<Rightarrow> int list \<Rightarrow> 'b list \<Rightarrow> 's \<Rightarrow>
    (lookup_error + unit) \<times> 'b list \<times> 's" where
  "batch_rows f write el i [] out s = (Inr (), out, s)"
| "batch_rows f write el i (t # ts) out s =
     (if (i + 1) * el > length out then (Inr (), out, s)
      else case f t s of
          (Inl e, s') \<Rightarrow> (Inl e, out, s')
        | (Inr v, s') \<Rightarrow> batch_rows f write el (i + 1) ts (put_segment (i * el) (write v) out) s')"

text \<open>One evaluation with local cursors, noted against the guard.\<close>

definition noted_cursors :: "edge_id \<Rightarrow> (arena \<Rightarrow> nat list \<Rightarrow> (lookup_error + 'v) \<times> nat list) \<Rightarrow> nat list \<times> guard \<Rightarrow>
    (lookup_error + 'v) \<times> nat list \<times> guard" where
  "noted_cursors edge f s =
     (case s of (cursors, g) \<Rightarrow> let (r, cursors') = f (g_arena g) cursors; (r', g') = note_result edge (r, g)
        in (r', cursors', g'))"

definition without_cursors :: "(lookup_error + unit) \<times> 'b list \<times> nat list \<times> guard \<Rightarrow> (lookup_error + unit) \<times> 'b list \<times> guard" where
  "without_cursors x = (case x of (r, out, cursors, g) \<Rightarrow> (r, out, g))"

text \<open>The two phases of a chunk: read the bracket of every live lane, then interpolate and compose them.\<close>

fun read_lanes :: "sample_ring \<Rightarrow> int list \<Rightarrow> nat \<Rightarrow> bracket_read list \<times> lookup_error option \<times> nat" where
  "read_lanes ring [] cursor = ([], None, cursor)"
| "read_lanes ring (t # ts) cursor =
     (case read_from Exact Between (head ring) t ErrorPolicy cursor ring of
        (Inl err, c) \<Rightarrow> ([], Some err, c)
      | (Inr b, c) \<Rightarrow> (case read_lanes ring ts c of (bs, err, c') \<Rightarrow> (b # bs, err, c')))"

definition fold_lanes :: "interp \<Rightarrow> bool \<Rightarrow> iso3 list \<Rightarrow> bracket_read list \<Rightarrow> iso3 list" where
  "fold_lanes ev inverted acc brackets =
     map2 (\<lambda>a b. if inverted then iso3_mul_inv a (bracket_eval ev b) else iso3_mul a (bracket_eval ev b)) acc brackets"

text \<open>The steps of a chunk; the live lanes are the length of \<open>acc\<close>.\<close>

fun chunk_steps :: "arena \<Rightarrow> int list \<Rightarrow> nat \<Rightarrow> step list \<Rightarrow> iso3 list \<Rightarrow> lookup_error option \<Rightarrow> nat list \<Rightarrow>
    iso3 list \<times> lookup_error option \<times> nat list" where
  "chunk_steps a chunk k [] acc failure cursors = (acc, failure, cursors)"
| "chunk_steps a chunk k (StaticStep m # ss) acc failure cursors =
     chunk_steps a chunk (k + 1) ss (map (\<lambda>x. iso3_mul x m) acc) failure cursors"
| "chunk_steps a chunk k (Dyn edge inverted # ss) acc failure cursors =
     (case sampler a edge of
        None \<Rightarrow> ([], Some (UnknownEdge edge), cursors)
      | Some (i, ring) \<Rightarrow>
          (case read_lanes ring (take (length acc) chunk) (cursors ! k) of
             (brackets, err, c) \<Rightarrow>
               let acc' = fold_lanes (interp_of i) inverted acc brackets;
                   failure' = (case err of None \<Rightarrow> failure | Some e \<Rightarrow> Some e);
                   cursors' = cursors[k := c]
               in if acc' = [] then (acc', failure', cursors')
                  else chunk_steps a chunk (k + 1) ss acc' failure' cursors'))"

fun write_rows :: "('v \<Rightarrow> 'b list) \<Rightarrow> nat \<Rightarrow> nat \<Rightarrow> 'v list \<Rightarrow> 'b list \<Rightarrow> 'b list" where
  "write_rows write el i [] out = out"
| "write_rows write el i (v # vs) out =
     (if (i + 1) * el > length out then out
      else write_rows write el (i + 1) vs (put_segment (i * el) (write v) out))"

function fold_chunks :: "plan \<Rightarrow> edge_id \<Rightarrow> nat \<Rightarrow> int list \<Rightarrow> (iso3 \<Rightarrow> 'b list) \<Rightarrow> nat \<Rightarrow> 'b list \<Rightarrow> nat list \<Rightarrow> guard \<Rightarrow>
    (lookup_error + unit) \<times> 'b list \<times> guard" where
  "fold_chunks p edge i sts write el out cursors g =
     (if sts = [] \<or> i * el \<ge> length out then (Inr (), out, g)
      else
        let chunk = take FOLD_LANES sts
        in case chunk_steps (g_arena g) chunk 0 (plan_steps p) (replicate (length chunk) iso3_IDENTITY) None cursors of
             (acc, failure, cursors') \<Rightarrow>
               let out' = write_rows write el i acc out; g' = (note_ok edge ^^ length acc) g
               in case failure of
                    Some err \<Rightarrow> (Inl err, out', note_err err g')
                  | None \<Rightarrow> fold_chunks p edge (i + FOLD_LANES) (drop FOLD_LANES sts) write el out' cursors' g')"
  by pat_completeness auto
termination
  by (relation "measure (\<lambda>(p, edge, i, sts, write, el, out, cursors, g). length sts)") (auto simp: FOLD_LANES_def)

declare fold_chunks.simps [simp del]

definition monotone_stamps :: "int list \<Rightarrow> bool" where
  "monotone_stamps sts \<longleftrightarrow> successively (\<le>) sts"

definition fold_batch :: "plan \<Rightarrow> int list \<Rightarrow> (iso3 \<Rightarrow> 'b list) \<Rightarrow> nat \<Rightarrow> 'b list \<Rightarrow> guard \<Rightarrow>
    (lookup_error + unit) \<times> 'b list \<times> guard" where
  "fold_batch p sts write el out g =
     (let edge = first_dynamic_edge p
      in if \<not> monotone_stamps sts then
           batch_rows (\<lambda>t g. note_result edge (fold_at p t g)) write el 0 sts out g
         else if length sts < FOLD_MIN_BATCH then
           without_cursors (batch_rows (\<lambda>t. noted_cursors edge (\<lambda>a. fold_at_cursors p a t)) write el 0 sts out
             (replicate MAX_DEPTH 0, g))
         else fold_chunks p edge 0 sts write el out (replicate MAX_DEPTH 0) g)"

definition fold_batch_with_twist :: "plan \<Rightarrow> int list \<Rightarrow> nat \<Rightarrow> real list \<Rightarrow> guard \<Rightarrow> (lookup_error + unit) \<times> real list \<times> guard" where
  "fold_batch_with_twist p sts el out g =
     (let edge = first_dynamic_edge p; write = (\<lambda>(q, v). write_quat_twist q v)
      in if monotone_stamps sts then
           without_cursors (batch_rows (\<lambda>t. noted_cursors edge (\<lambda>a. fold_at_with_derivatives_cursors p a t))
             write el 0 sts out (replicate MAX_DEPTH 0, g))
         else
           batch_rows (\<lambda>t g. note_result edge (fold_at_with_derivatives p (g_arena g) t, g)) write el 0 sts out g)"

text \<open>The refusals come before anything is written.\<close>

definition batch_after :: "lookup_error + unit \<Rightarrow> 'b list \<Rightarrow> guard \<Rightarrow> (lookup_error + unit) \<times> 'b list \<times> guard \<Rightarrow>
    (lookup_error + unit) \<times> 'b list \<times> guard" where
  "batch_after c out g r = (case c of Inl e \<Rightarrow> (Inl e, out, g) | Inr u \<Rightarrow> r)"

definition at_many :: "plan \<Rightarrow> nat \<Rightarrow> int list \<Rightarrow> iso3 list \<Rightarrow> guard \<Rightarrow> (lookup_error + unit) \<times> iso3 list \<times> guard" where
  "at_many p dmn sts out g =
     (if length out < length sts then (Inl (BufferTooSmall (length sts) (length out)), out, g)
      else batch_after (check_generation p g) out g (batch_after (check_domain_tag p dmn) out g
        (fold_batch p sts (\<lambda>q. [q]) 1 out g)))"

definition at_many_into_tagged :: "plan \<Rightarrow> int list \<Rightarrow> nat \<Rightarrow> output_layout \<Rightarrow> real list \<Rightarrow> guard \<Rightarrow>
    (lookup_error + unit) \<times> real list \<times> guard" where
  "at_many_into_tagged p sts dmn layout out g =
     (if is_f32 layout then (Inl WrongElementType, out, g)
      else let need = min (length sts * elems layout) (2 ^ 64 - 1)
        in if length out < need then (Inl (BufferTooSmall need (length out)), out, g)
           else batch_after (check_generation p g) out g (batch_after (check_domain_tag p dmn) out g
             (case layout of
                Mat4 \<Rightarrow> fold_batch p sts write_mat4 (elems layout) out g
              | QuatLayout \<Rightarrow> fold_batch p sts write_quat (elems layout) out g
              | QuatTwist \<Rightarrow> fold_batch_with_twist p sts (elems layout) out g
              | Affine32 \<Rightarrow> (Inl WrongElementType, out, g))))"

text \<open>\<open>f\<close> rounds to single precision.\<close>

definition at_many_into_f32_tagged :: "(real \<Rightarrow> 'f) \<Rightarrow> plan \<Rightarrow> int list \<Rightarrow> nat \<Rightarrow> output_layout \<Rightarrow> 'f list \<Rightarrow> guard \<Rightarrow>
    (lookup_error + unit) \<times> 'f list \<times> guard" where
  "at_many_into_f32_tagged f p sts dmn layout out g =
     (if \<not> is_f32 layout then (Inl WrongElementType, out, g)
      else let need = min (length sts * elems layout) (2 ^ 64 - 1)
        in if length out < need then (Inl (BufferTooSmall need (length out)), out, g)
           else batch_after (check_generation p g) out g (batch_after (check_domain_tag p dmn) out g
             (fold_batch p sts (write_affine32 f) (elems layout) out g)))"

subsection \<open>What an evaluation computes\<close>

definition pose_at :: "plan \<Rightarrow> arena \<Rightarrow> int \<Rightarrow> lookup_error + iso3" where
  "pose_at p a t = eval_steps (\<lambda>edge. guard_sample a edge t ErrorPolicy) (plan_steps p) iso3_IDENTITY"

definition rings_ok :: "arena \<Rightarrow> bool" where
  "rings_ok a \<longleftrightarrow> (\<forall>e r. arena_ring a e = Some r \<longrightarrow> ring_ok r \<and> in_range r)"

text \<open>Two guards that differ in nothing but their cursors.\<close>

definition same_guard :: "guard \<Rightarrow> guard \<Rightarrow> bool" where
  "same_guard g h \<longleftrightarrow> g\<lparr>g_cursor := []\<rparr> = h\<lparr>g_cursor := []\<rparr>"

text \<open>The values before the first failure, and that failure.\<close>

fun prefix_ok :: "('e + 'a) list \<Rightarrow> 'a list \<times> 'e option" where
  "prefix_ok [] = ([], None)"
| "prefix_ok (Inl e # rs) = ([], Some e)"
| "prefix_ok (Inr x # rs) = (case prefix_ok rs of (xs, err) \<Rightarrow> (x # xs, err))"

lemma prefix_ok_append:
  "prefix_ok (xs @ ys) = (case prefix_ok xs of (vs, Some e) \<Rightarrow> (vs, Some e)
     | (vs, None) \<Rightarrow> (case prefix_ok ys of (ws, err) \<Rightarrow> (vs @ ws, err)))"
  by (induction xs rule: prefix_ok.induct) (auto split: prod.splits option.splits)

lemma prefix_ok_length: "prefix_ok rs = (vs, err) \<Longrightarrow> length vs \<le> length rs \<and> (err = None \<longrightarrow> length vs = length rs)"
  by (induction rs arbitrary: vs err rule: prefix_ok.induct) (auto split: prod.splits)

subsection \<open>Cursors never change a result\<close>

lemma same_guard_simps [simp]: "same_guard g g" "same_guard (g\<lparr>g_cursor := c\<rparr>) g" "same_guard g (g\<lparr>g_cursor := c\<rparr>)"
  by (simp_all add: same_guard_def)

lemma same_guard_arena: "same_guard g h \<Longrightarrow> g_arena g = g_arena h"
  by (simp add: same_guard_def) (metis guard.select_convs(1) guard.surjective guard.update_convs(6))

lemma same_guard_trans: "same_guard g h \<Longrightarrow> same_guard h k \<Longrightarrow> same_guard g k"
  by (simp add: same_guard_def)

lemma same_guardE:
  assumes "same_guard g h"
  obtains c where "g = h\<lparr>g_cursor := c\<rparr>"
proof -
  have "g\<lparr>g_cursor := []\<rparr>\<lparr>g_cursor := g_cursor g\<rparr> = h\<lparr>g_cursor := []\<rparr>\<lparr>g_cursor := g_cursor g\<rparr>"
    using assms by (simp only: same_guard_def)
  then have "g = h\<lparr>g_cursor := g_cursor g\<rparr>" by simp
  then show ?thesis by (rule that)
qed

lemma note_cursor:
  "note_ok e (h\<lparr>g_cursor := c\<rparr>) = (note_ok e h)\<lparr>g_cursor := c\<rparr>"
  "note_err err (h\<lparr>g_cursor := c\<rparr>) = (note_err err h)\<lparr>g_cursor := c\<rparr>"
  by (simp_all add: note_ok_def note_err_def Let_def split: option.split)

lemma note_same_guard:
  assumes "same_guard g h"
  shows "same_guard (note_ok e g) (note_ok e h)" "same_guard (note_err err g) (note_err err h)"
  using same_guardE [OF assms] by (metis note_cursor same_guard_simps(2))+

lemma sampler_ring: "sampler a e = Some (i, r) \<Longrightarrow> arena_ring a e = Some r"
  by (auto simp: sampler_eq)

lemma guard_sample_from_eq:
  assumes "rings_ok a"
  shows "fst (guard_sample_from a e t policy c) = guard_sample a e t policy"
proof (cases "sampler a e")
  case None
  then show ?thesis by (simp add: guard_sample_from_def guard_sample_def)
next
  case (Some ir)
  obtain i r where ir: "ir = (i, r)" by (cases ir)
  have "ring_ok r" "in_range r" using assms sampler_ring [of a e i r] Some ir by (auto simp: rings_ok_def)
  then have "map_sum id id (fst (read_from (\<lambda>p. p) (interp_of i) (head r) t policy c r)) = sample (interp_of i) (head r) t policy r"
    by (rule read_from_eq_sample) simp_all
  then show ?thesis using Some ir by (simp add: guard_sample_from_def guard_sample_def sample_from_def sum.map_id0)
qed

lemma guard_sample_with_twist_from_eq:
  assumes "rings_ok a"
  shows "fst (guard_sample_with_twist_from a e t policy c) = guard_sample_with_twist a e t policy"
proof (cases "sampler a e")
  case None
  then show ?thesis by (simp add: guard_sample_with_twist_from_def guard_sample_with_twist_def)
next
  case (Some ir)
  obtain i r where ir: "ir = (i, r)" by (cases ir)
  have "ring_ok r" "in_range r" using assms sampler_ring [of a e i r] Some ir by (auto simp: rings_ok_def)
  then show ?thesis
    using Some ir sample_with_twist_from_eq
    by (simp add: guard_sample_with_twist_from_def guard_sample_with_twist_def split: interp_policy.split)
qed

lemma sample_hinted_eq:
  assumes "rings_ok (g_arena g)"
  shows "fst (sample_hinted k e t policy g) = guard_sample (g_arena g) e t policy"
    "same_guard (snd (sample_hinted k e t policy g)) g"
proof -
  define c where "c = (if drop_bit 32 (g_cursor g ! k) mod 2 ^ 32 = e then g_cursor g ! k AND mask 32 else 0)"
  have "sample_hinted k e t policy g = (if k \<ge> length (g_cursor g) then (guard_sample (g_arena g) e t policy, g)
      else let (out, c') = guard_sample_from (g_arena g) e t policy c
        in (out, case out of Inl err \<Rightarrow> g
           | Inr p \<Rightarrow> g\<lparr>g_cursor := (g_cursor g)[k := push_bit 32 e OR (c' AND mask 32)]\<rparr>))"
    unfolding sample_hinted_def c_def Let_def by (rule refl)
  then show "fst (sample_hinted k e t policy g) = guard_sample (g_arena g) e t policy"
    "same_guard (snd (sample_hinted k e t policy g)) g"
    using guard_sample_from_eq [OF assms, of e t policy c] by (auto simp: Let_def split: prod.splits sum.splits)
qed

text \<open>A fold whose sampler keeps an invariant and answers as \<open>S\<close> under it.\<close>

lemma fold_steps_eval:
  assumes f: "\<And>k e s. I s \<Longrightarrow> fst (f k e s) = S e \<and> I (snd (f k e s))"
  shows "I s \<Longrightarrow> fst (fold_steps f k ss acc s) = eval_steps S ss acc \<and> I (snd (fold_steps f k ss acc s))"
proof (induction ss arbitrary: k acc s)
  case Nil
  then show ?case by simp
next
  case (Cons st ss)
  show ?case
  proof (cases st)
    case (StaticStep m)
    then show ?thesis using Cons by simp
  next
    case (Dyn e i)
    obtain r s' where r: "f k e s = (r, s')" by (cases "f k e s")
    then have "S e = r" "I s'" using f [OF Cons.prems, of k e] by simp_all
    then show ?thesis using Cons.IH r Dyn by (cases r) auto
  qed
qed

lemma fold_with_derivatives_eval:
  assumes f: "\<And>k e s. I s \<Longrightarrow> fst (f k e s) = S e \<and> I (snd (f k e s))"
  shows "I s \<Longrightarrow> fst (fold_with_derivatives f k ss acc vel s) =
      fst (fold_with_derivatives (\<lambda>k e u. (S e, u)) k' ss acc vel ()) \<and> I (snd (fold_with_derivatives f k ss acc vel s))"
proof (induction ss arbitrary: k k' acc vel s)
  case Nil
  then show ?case by simp
next
  case (Cons st ss)
  show ?case
  proof (cases st)
    case (StaticStep m)
    then show ?thesis using Cons by simp
  next
    case (Dyn e i)
    obtain r s' where r: "f k e s = (r, s')" by (cases "f k e s")
    then have "S e = r" "I s'" using f [OF Cons.prems, of k e] by simp_all
    then show ?thesis using Cons.IH r Dyn by (cases r) auto
  qed
qed

lemma fold_at_eq:
  assumes "rings_ok (g_arena g)"
  shows "fst (fold_at p t g) = pose_at p (g_arena g) t" "same_guard (snd (fold_at p t g)) g"
proof -
  have step: "fst (sample_hinted k e t ErrorPolicy h) = guard_sample (g_arena g) e t ErrorPolicy \<and>
      same_guard (snd (sample_hinted k e t ErrorPolicy h)) g" if "same_guard h g" for k e h
    using sample_hinted_eq [of h k e t ErrorPolicy] assms that same_guard_arena [OF that] same_guard_trans by metis
  show "fst (fold_at p t g) = pose_at p (g_arena g) t" "same_guard (snd (fold_at p t g)) g"
    using fold_steps_eval [where I = "\<lambda>h. same_guard h g" and S = "\<lambda>e. guard_sample (g_arena g) e t ErrorPolicy", OF step]
    by (simp_all add: fold_at_def pose_at_def)
qed

lemma fold_at_cursors_eq:
  assumes "rings_ok a"
  shows "fst (fold_at_cursors p a t cs) = pose_at p a t"
proof -
  have "fst (at_cursor (guard_sample_from a e t ErrorPolicy) k cs) = guard_sample a e t ErrorPolicy" for k e cs
    using guard_sample_from_eq [OF assms, of e t ErrorPolicy "cs ! k"]
    by (cases "guard_sample_from a e t ErrorPolicy (cs ! k)") (simp add: at_cursor_def)
  then show ?thesis
    unfolding fold_at_cursors_def pose_at_def
    by (intro conjunct1 [OF fold_steps_eval [where I = "\<lambda>_. True"]]) simp_all
qed

lemma fold_at_with_derivatives_cursors_eq:
  assumes "rings_ok a"
  shows "fst (fold_at_with_derivatives_cursors p a t cs) = fold_at_with_derivatives p a t"
proof -
  have "fst (at_cursor (guard_sample_with_twist_from a e t ErrorPolicy) k cs) = guard_sample_with_twist a e t ErrorPolicy" for k e cs
    using guard_sample_with_twist_from_eq [OF assms, of e t ErrorPolicy "cs ! k"]
    by (cases "guard_sample_with_twist_from a e t ErrorPolicy (cs ! k)") (simp add: at_cursor_def)
  then show ?thesis
    unfolding fold_at_with_derivatives_cursors_def fold_at_with_derivatives_def
    by (intro conjunct1 [OF fold_with_derivatives_eval [where I = "\<lambda>_. True"]]) simp_all
qed

subsection \<open>A batch is its stamps, one after the other\<close>

text \<open>The guard after \<open>n\<close> successes and perhaps a failure.\<close>

definition noted :: "edge_id \<Rightarrow> nat \<Rightarrow> lookup_error option \<Rightarrow> guard \<Rightarrow> guard" where
  "noted edge n err g = (let h = (note_ok edge ^^ n) g in case err of None \<Rightarrow> h | Some e \<Rightarrow> note_err e h)"

lemma noted_0: "noted edge 0 None g = g" "noted edge 0 (Some e) g = note_err e g"
  by (simp_all add: noted_def)

lemma noted_Suc: "noted edge (Suc n) err g = noted edge n err (note_ok edge g)"
  by (simp add: noted_def funpow_swap1)

lemma noted_add: "noted edge (m + n) err g = noted edge n err ((note_ok edge ^^ m) g)"
  by (simp add: noted_def funpow_add [of n m] add.commute [of m n])

lemma note_ok_arena [simp]: "g_arena (note_ok e g) = g_arena g"
  by (simp add: note_ok_def Let_def split: option.split)

lemma note_ok_pow_arena [simp]: "g_arena ((note_ok e ^^ n) g) = g_arena g"
  by (induction n) simp_all

lemma noted_same_guard:
  assumes "same_guard g h"
  shows "same_guard (noted e n err g) (noted e n err h)"
proof -
  have "same_guard ((note_ok e ^^ n) g) ((note_ok e ^^ n) h)"
    using assms by (induction n) (simp_all add: note_same_guard)
  then show ?thesis by (simp add: noted_def note_same_guard Let_def split: option.split)
qed

definition batch_result :: "lookup_error option \<Rightarrow> lookup_error + unit" where
  "batch_result err = (case err of None \<Rightarrow> Inr () | Some e \<Rightarrow> Inl e)"

text \<open>Rows from row \<open>i\<close> on: those before the first failure are written, the rest of the buffer is kept.\<close>

definition put_rows :: "('v \<Rightarrow> 'b list) \<Rightarrow> nat \<Rightarrow> nat \<Rightarrow> 'v list \<Rightarrow> 'b list \<Rightarrow> 'b list" where
  "put_rows write el i vs out = put_segment (i * el) (concat (map write vs)) out"

lemma length_rows: "\<forall>v. length (write v) = el \<Longrightarrow> length (concat (map write vs)) = length vs * el"
  by (induction vs) simp_all

lemma put_rows_Cons:
  assumes w: "\<forall>v. length (write v) = el" and fits: "(i + length (v # vs)) * el \<le> length out"
  shows "put_rows write el (Suc i) vs (put_segment (i * el) (write v) out) = put_rows write el i (v # vs) out"
proof -
  have l: "length (write v) = el" "length (concat (map write vs)) = length vs * el" using w length_rows [OF w] by simp_all
  have a: "i * el + el \<le> length out" using fits by (simp add: algebra_simps)
  then have "take (el + i * el) (take (i * el) out @ write v @ drop (el + i * el) out) = take (i * el) out @ write v"
    using l by (simp add: add.commute)
  moreover have "drop (el + i * el + length vs * el) (take (i * el) out @ write v @ drop (el + i * el) out) =
      drop (el + i * el + length vs * el) out"
    using l a by (simp add: add.commute add.left_commute)
  ultimately show ?thesis using l by (simp add: put_rows_def put_segment_def add.commute add.left_commute)
qed

lemma put_rows_append:
  assumes w: "\<forall>v. length (write v) = el" and fits: "(i + length us + length vs) * el \<le> length out"
  shows "put_rows write el (i + length us) vs (put_rows write el i us out) = put_rows write el i (us @ vs) out"
  using fits
proof (induction us arbitrary: i out)
  case Nil
  then show ?case by (simp add: put_rows_def put_segment_def)
next
  case (Cons u us)
  have s: "length (put_segment (i * el) (write u) out) = length out"
    using Cons.prems w by (intro length_put_segment) (simp add: algebra_simps)
  have "put_rows write el (i + length (u # us)) vs (put_rows write el i (u # us) out) =
      put_rows write el (Suc i + length us) vs (put_rows write el (Suc i) us (put_segment (i * el) (write u) out))"
    using Cons.prems by (subst put_rows_Cons [OF w]) (simp_all add: algebra_simps)
  also have "\<dots> = put_rows write el (Suc i) (us @ vs) (put_segment (i * el) (write u) out)"
    using Cons.prems s by (intro Cons.IH) (simp add: algebra_simps)
  also have "\<dots> = put_rows write el i ((u # us) @ vs) out"
    using put_rows_Cons [OF w, of i u "us @ vs" out] Cons.prems by (simp add: algebra_simps)
  finally show ?case .
qed

lemma write_rows_eq:
  assumes w: "\<forall>v. length (write v) = el"
  shows "(i + length vs) * el \<le> length out \<Longrightarrow> write_rows write el i vs out = put_rows write el i vs out"
proof (induction vs arbitrary: i out)
  case Nil
  then show ?case by (simp add: put_rows_def put_segment_def)
next
  case (Cons v vs)
  have "(i + 1) * el \<le> length out" using Cons.prems by (simp add: algebra_simps)
  moreover have "length (put_segment (i * el) (write v) out) = length out"
    using Cons.prems w by (intro length_put_segment) (simp add: algebra_simps)
  ultimately show ?case
    using Cons.IH [of "Suc i" "put_segment (i * el) (write v) out"] Cons.prems put_rows_Cons [OF w Cons.prems]
    by (simp add: algebra_simps)
qed

text \<open>The scalar loop, for any way of evaluating a stamp that answers as \<open>V\<close> and notes the outcome.\<close>

lemma batch_rows_eq:
  assumes w: "\<forall>v. length (write v) = el"
    and f: "\<And>t s. I s \<Longrightarrow> fst (f t s) = V t \<and>
      (\<forall>v. V t = Inr v \<longrightarrow> I (snd (f t s)) \<and> same_guard (G (snd (f t s))) (note_ok edge (G s))) \<and>
      (\<forall>e. V t = Inl e \<longrightarrow> same_guard (G (snd (f t s))) (note_err e (G s)))"
  shows "I s \<Longrightarrow> (i + length sts) * el \<le> length out \<Longrightarrow> prefix_ok (map V sts) = (vs, err) \<Longrightarrow>
    (case batch_rows f write el i sts out s of (r, out', s') \<Rightarrow>
       r = batch_result err \<and> out' = put_rows write el i vs out \<and> same_guard (G s') (noted edge (length vs) err (G s)))"
proof (induction sts arbitrary: i out s vs)
  case Nil
  then show ?case by (simp add: batch_result_def put_rows_def put_segment_def noted_0)
next
  case (Cons t sts)
  obtain r s' where r: "f t s = (r, s')" by (cases "f t s")
  note F = f [OF Cons.prems(1), of t, unfolded r]
  have fits: "\<not> (i + 1) * el > length out" using Cons.prems(2) by (simp add: algebra_simps)
  show ?case
  proof (cases r)
    case (Inl e)
    then have "V t = Inl e" using F by simp
    then show ?thesis using Inl r F fits Cons.prems(3)
      by (auto simp: batch_result_def put_rows_def put_segment_def noted_0)
  next
    case (Inr v)
    then have v: "V t = Inr v" using F by simp
    then have s': "I s'" "same_guard (G s') (note_ok edge (G s))" using F by simp_all
    obtain ws where ws: "prefix_ok (map V sts) = (ws, err)" "vs = v # ws"
      using Cons.prems(3) v by (auto split: prod.splits)
    let ?out = "put_segment (i * el) (write v) out"
    have len: "length ?out = length out"
      using Cons.prems(2) w by (intro length_put_segment) (simp add: algebra_simps)
    have rows: "put_rows write el (Suc i) ws ?out = put_rows write el i vs out"
    proof -
      have "length ws \<le> length sts" using prefix_ok_length [OF ws(1)] by simp
      then have "(i + length (v # ws)) * el \<le> (i + length (t # sts)) * el" by (intro mult_right_mono) simp_all
      then have "(i + length (v # ws)) * el \<le> length out" using Cons.prems(2) by (rule order_trans)
      then show ?thesis using put_rows_Cons [OF w] ws(2) by simp
    qed
    have "case batch_rows f write el (Suc i) sts ?out s' of (r, out', s'') \<Rightarrow>
       r = batch_result err \<and> out' = put_rows write el (Suc i) ws ?out \<and> same_guard (G s'') (noted edge (length ws) err (G s'))"
      using Cons.IH [OF s'(1) _ ws(1), of "Suc i" ?out] Cons.prems(2) len by (simp add: algebra_simps)
    moreover have "same_guard (noted edge (length ws) err (G s')) (noted edge (length vs) err (G s))"
      using noted_same_guard [OF s'(2)] ws(2) by (simp add: noted_Suc)
    ultimately show ?thesis
      using r Inr fits rows by (auto split: prod.splits intro: same_guard_trans)
  qed
qed

text \<open>The lanes of a chunk: reading stops at the first failing one.\<close>

lemma read_lanes_eq:
  assumes ok: "ring_ok ring" "in_range ring"
  shows "case read_lanes ring sts c of (bs, err, c') \<Rightarrow>
    prefix_ok (map (\<lambda>t. sample ev (head ring) t ErrorPolicy ring) sts) = (map (bracket_eval ev) bs, err)"
proof (induction sts arbitrary: c)
  case Nil
  then show ?case by simp
next
  case (Cons t sts)
  obtain r c' where r: "read_from Exact Between (head ring) t ErrorPolicy c ring = (r, c')"
    by (cases "read_from Exact Between (head ring) t ErrorPolicy c ring")
  have "map_sum id (bracket_eval ev) (fst (read_from Exact Between (head ring) t ErrorPolicy c ring)) =
      sample ev (head ring) t ErrorPolicy ring"
    using ok by (rule read_from_eq_sample) simp_all
  then have "sample ev (head ring) t ErrorPolicy ring = map_sum id (bracket_eval ev) r" using r by simp
  then show ?case using r Cons.IH [of c'] by (cases r) (auto split: prod.splits)
qed

text \<open>Composing lane by lane keeps track of the first failure.\<close>

lemma prefix_ok_lanes:
  assumes "length us = length acc" "prefix_ok us = (ps, err)"
  shows "prefix_ok (map2 (\<lambda>u z. rbind u (E z)) us acc) =
    (case prefix_ok (map2 (\<lambda>p z. E z p) ps acc) of (vs, Some e) \<Rightarrow> (vs, Some e) | (vs, None) \<Rightarrow> (vs, err))"
  using assms
proof (induction us acc arbitrary: ps rule: list_induct2)
  case Nil
  then show ?case by simp
next
  case (Cons u us z acc)
  show ?case
  proof (cases u)
    case (Inl e)
    then show ?thesis using Cons.prems by simp
  next
    case (Inr p)
    then obtain qs where q: "prefix_ok us = (qs, err)" "ps = p # qs" using Cons.prems by (auto split: prod.splits)
    then show ?thesis using Cons.IH [OF q(1)] Inr by (cases "E z p") (auto split: prod.splits option.splits)
  qed
qed

text \<open>What the lanes of a chunk stand for: the fold of the remaining steps from each accumulator.\<close>

definition lane_values :: "arena \<Rightarrow> int list \<Rightarrow> step list \<Rightarrow> iso3 list \<Rightarrow> (lookup_error + iso3) list" where
  "lane_values a chunk ss acc =
     map2 (\<lambda>t z. eval_steps (\<lambda>e. guard_sample a e t ErrorPolicy) ss z) (take (length acc) chunk) acc"

lemma lane_values_Dyn:
  assumes s: "sampler a e = Some (i, ring)" and ok: "ring_ok ring" "in_range ring" and len: "length acc \<le> length chunk"
    and rd: "read_lanes ring (take (length acc) chunk) c = (bs, err, c')"
  shows "prefix_ok (lane_values a chunk (Dyn e inverted # ss) acc) =
    (case prefix_ok (lane_values a chunk ss (fold_lanes (interp_of i) inverted acc bs)) of
       (vs, Some x) \<Rightarrow> (vs, Some x) | (vs, None) \<Rightarrow> (vs, err))"
    "length (fold_lanes (interp_of i) inverted acc bs) = length bs" "length bs \<le> length acc"
    "err = None \<longrightarrow> length bs = length acc"
proof -
  let ?ts = "take (length acc) chunk" and ?ev = "interp_of i"
  let ?us = "map (\<lambda>t. guard_sample a e t ErrorPolicy) ?ts"
  have us: "?us = map (\<lambda>t. sample ?ev (head ring) t ErrorPolicy ring) ?ts" using s by (simp add: guard_sample_def)
  have p: "prefix_ok ?us = (map (bracket_eval ?ev) bs, err)"
    unfolding us using read_lanes_eq [OF ok, where sts = ?ts and c = c and ev = ?ev] rd by simp
  show lb: "length bs \<le> length acc" and "err = None \<longrightarrow> length bs = length acc"
    using prefix_ok_length [OF p] len by simp_all
  then show lf: "length (fold_lanes ?ev inverted acc bs) = length bs" by (simp add: fold_lanes_def)
  let ?E = "\<lambda>(t, z) q. eval_steps (\<lambda>e. guard_sample a e t ErrorPolicy) ss (if inverted then iso3_mul_inv z q else iso3_mul z q)"
  let ?zs = "zip ?ts acc"
  have z: "length ?us = length ?zs" using len by simp
  have "lane_values a chunk (Dyn e inverted # ss) acc = map2 (\<lambda>u z. rbind u (?E z)) ?us ?zs"
    using len by (intro nth_equalityI) (simp_all add: lane_values_def)
  moreover have "map2 (\<lambda>p z. ?E z p) (map (bracket_eval ?ev) bs) ?zs = lane_values a chunk ss (fold_lanes ?ev inverted acc bs)"
    using len lb by (intro nth_equalityI) (simp_all add: lane_values_def fold_lanes_def)
  ultimately show "prefix_ok (lane_values a chunk (Dyn e inverted # ss) acc) =
    (case prefix_ok (lane_values a chunk ss (fold_lanes ?ev inverted acc bs)) of
       (vs, Some x) \<Rightarrow> (vs, Some x) | (vs, None) \<Rightarrow> (vs, err))"
    using prefix_ok_lanes [OF z p, of ?E] by simp
qed

lemma chunk_steps_eq:
  assumes ok: "rings_ok a"
  shows "acc \<noteq> [] \<Longrightarrow> length acc \<le> length chunk \<Longrightarrow>
    (case chunk_steps a chunk k ss acc failure cs of (vs, f, cs') \<Rightarrow>
       (case prefix_ok (lane_values a chunk ss acc) of
          (ws, Some e) \<Rightarrow> vs = ws \<and> f = Some e | (ws, None) \<Rightarrow> vs = ws \<and> f = failure))"
proof (induction ss arbitrary: k acc failure cs)
  case Nil
  have "prefix_ok (lane_values a chunk [] acc) = (acc, None)"
    using Nil.prems(2)
  proof (induction acc arbitrary: chunk)
    case (Cons z acc)
    then show ?case by (cases chunk) (auto simp: lane_values_def)
  qed (simp add: lane_values_def)
  then show ?case by simp
next
  case (Cons st ss)
  show ?case
  proof (cases st)
    case (StaticStep m)
    have "lane_values a chunk (st # ss) acc = lane_values a chunk ss (map (\<lambda>x. iso3_mul x m) acc)"
      using Cons.prems StaticStep by (intro nth_equalityI) (simp_all add: lane_values_def)
    then show ?thesis using Cons.IH [where acc = "map (\<lambda>x. iso3_mul x m) acc" and k = "k + 1" and failure = failure and cs = cs] Cons.prems StaticStep by simp
  next
    case (Dyn e i)
    show ?thesis
    proof (cases "sampler a e")
      case None
      obtain t z ts zs where tz: "chunk = t # ts" "acc = z # zs" using Cons.prems by (cases chunk; cases acc) auto
      then have "prefix_ok (lane_values a chunk (st # ss) acc) = ([], Some (UnknownEdge e))"
        using None Dyn by (simp add: lane_values_def guard_sample_def)
      then show ?thesis using None Dyn by simp
    next
      case (Some pr)
      obtain n ring where pr: "pr = (n, ring)" by (cases pr)
      obtain bs err c where rd: "read_lanes ring (take (length acc) chunk) (cs ! k) = (bs, err, c)"
        by (cases "read_lanes ring (take (length acc) chunk) (cs ! k)")
      have "ring_ok ring" "in_range ring" using ok sampler_ring [of a e n ring] Some pr by (auto simp: rings_ok_def)
      note L = lane_values_Dyn [OF Some [unfolded pr] this Cons.prems(2) rd]
      note L = L(1) [of i ss] L(2) [of i] L(3,4)
      let ?acc = "fold_lanes (interp_of n) i acc bs"
      let ?f = "case err of None \<Rightarrow> failure | Some x \<Rightarrow> Some x"
      show ?thesis
      proof (cases "?acc = []")
        case True
        then have "bs = []" using L(2) by simp
        then have "err \<noteq> None" using L(4) Cons.prems(1) by auto
        moreover have "lane_values a chunk ss [] = []" by (simp add: lane_values_def)
        ultimately show ?thesis using True L(1) Some pr rd Dyn by (auto simp: Let_def)
      next
        case False
        have "length ?acc \<le> length chunk" using L(2,3) Cons.prems(2) by simp
        then show ?thesis
          using Cons.IH [OF False, where k = "k + 1" and failure = ?f and cs = "cs[k := c]"] L(1) False Some pr rd Dyn
          by (auto simp: Let_def split: prod.splits option.splits)
      qed
    qed
  qed
qed

lemma lane_values_start:
  "lane_values a chunk (plan_steps p) (replicate (length chunk) iso3_IDENTITY) = map (pose_at p a) chunk"
  by (intro nth_equalityI) (simp_all add: lane_values_def pose_at_def)

lemma put_rows_length:
  assumes "\<forall>v. length (write v) = el" "(i + length vs) * el \<le> length out"
  shows "length (put_rows write el i vs out) = length out"
  using assms length_rows [OF assms(1), of vs] by (simp add: put_rows_def algebra_simps)

lemma fold_chunks_eq:
  assumes w: "\<forall>v. length (write v) = el" and el: "0 < el" and ok: "rings_ok a"
  shows "g_arena g = a \<Longrightarrow> (i + length sts) * el \<le> length out \<Longrightarrow>
    prefix_ok (map (pose_at p a) sts) = (vs, err) \<Longrightarrow>
    fold_chunks p edge i sts write el out cs g =
      (batch_result err, put_rows write el i vs out, noted edge (length vs) err g)"
proof (induction "length sts" arbitrary: sts i out cs g vs rule: less_induct)
  case less
  show ?case
  proof (cases "sts = []")
    case True
    then show ?thesis using less.prems(3)
      by (simp add: fold_chunks.simps batch_result_def put_rows_def put_segment_def noted_0)
  next
    case False
    let ?chunk = "take FOLD_LANES sts" and ?rest = "drop FOLD_LANES sts"
    have c: "?chunk \<noteq> []" "length ?rest < length sts" using False by (simp_all add: FOLD_LANES_def)
    have room: "\<not> i * el \<ge> length out"
    proof -
      have "i * el < (i + length sts) * el" using el False by simp
      then have "i * el < length out" using less.prems(2) by (rule order.strict_trans2)
      then show ?thesis by simp
    qed
    obtain acc f cs' where st: "chunk_steps a ?chunk 0 (plan_steps p) (replicate (length ?chunk) iso3_IDENTITY) None cs = (acc, f, cs')"
      by (cases "chunk_steps a ?chunk 0 (plan_steps p) (replicate (length ?chunk) iso3_IDENTITY) None cs")
    have accf: "prefix_ok (map (pose_at p a) ?chunk) = (acc, f)"
      using chunk_steps_eq [OF ok, where acc = "replicate (length ?chunk) iso3_IDENTITY" and chunk = ?chunk and k = 0 and
          ss = "plan_steps p" and failure = None and cs = cs, unfolded lane_values_start st prod.case] c(1)
      by (auto split: prod.splits option.splits)
    have split: "map (pose_at p a) sts = map (pose_at p a) ?chunk @ map (pose_at p a) ?rest"
      by (simp add: map_append [symmetric] del: map_append)
    have la: "length acc \<le> length ?chunk" "f = None \<longrightarrow> length acc = length ?chunk"
      using prefix_ok_length [OF accf] by simp_all
    have "(i + length acc) * el \<le> (i + length sts) * el" using la by (intro mult_right_mono) simp_all
    then have fit: "(i + length acc) * el \<le> length out" using less.prems(2) by (rule order_trans)
    note wr = write_rows_eq [OF w fit]
    show ?thesis
    proof (cases f)
      case (Some e)
      then have "vs = acc" "err = Some e" using less.prems(3) accf unfolding split prefix_ok_append by simp_all
      then show ?thesis
        using Some st less.prems(1) False room wr
        by (simp add: fold_chunks.simps [of p edge i sts] Let_def batch_result_def noted_def)
    next
      case None
      obtain ws where ws: "prefix_ok (map (pose_at p a) ?rest) = (ws, err)" "vs = acc @ ws"
        using less.prems(3) accf None unfolding split prefix_ok_append by (auto split: prod.splits)
      have lc: "length acc = min (length sts) FOLD_LANES" using la None by simp
      let ?out = "put_rows write el i acc out" and ?g = "(note_ok edge ^^ length acc) g"
      have lw: "length ws \<le> length ?rest" using prefix_ok_length [OF ws(1)] by simp
      show ?thesis
      proof (cases "?rest = []")
        case True
        then have "ws = []" "err = None" using ws by simp_all
        then show ?thesis
          using None st less.prems(1) False room wr True ws
          by (simp add: fold_chunks.simps [of p edge i sts] Let_def fold_chunks.simps [of _ _ _ "[]"] batch_result_def noted_def)
      next
        case False2: False
        then have full: "length acc = FOLD_LANES" using lc by simp
        have "(i + FOLD_LANES + length ?rest) * el \<le> length ?out"
          using less.prems(2) put_rows_length [OF w fit] lc full by (simp add: algebra_simps)
        then have IH: "fold_chunks p edge (i + FOLD_LANES) ?rest write el ?out cs' ?g =
            (batch_result err, put_rows write el (i + FOLD_LANES) ws ?out, noted edge (length ws) err ?g)"
          using less.hyps [OF c(2) _ _ ws(1), of ?g "i + FOLD_LANES" ?out cs'] less.prems(1) by simp
        have "(i + length acc + length ws) * el \<le> (i + length sts) * el"
          using lw full lc by (intro mult_right_mono) simp_all
        then have "(i + length acc + length ws) * el \<le> length out" using less.prems(2) by (rule order_trans)
        then have "put_rows write el (i + FOLD_LANES) ws ?out = put_rows write el i vs out"
          using put_rows_append [OF w] ws(2) full by metis
        moreover have "noted edge (length ws) err ?g = noted edge (length vs) err g"
          using ws(2) by (simp add: noted_add)
        ultimately show ?thesis
          using None st less.prems(1) False room wr IH
          by (simp add: fold_chunks.simps [of p edge i sts] Let_def)
      qed
    qed
  qed
qed

lemma fold_batch_eq:
  assumes ok: "rings_ok (g_arena g)" and w: "\<forall>v. length (write v) = el" and el: "0 < el"
    and fits: "length sts * el \<le> length out" and p: "prefix_ok (map (pose_at p (g_arena g)) sts) = (vs, err)"
  shows "case fold_batch p sts write el out g of (r, out', g') \<Rightarrow>
    r = batch_result err \<and> out' = put_rows write el 0 vs out \<and>
    same_guard g' (noted (first_dynamic_edge p) (length vs) err g)"
proof -
  let ?edge = "first_dynamic_edge p" and ?a = "g_arena g"
  consider "\<not> monotone_stamps sts" | "monotone_stamps sts" "length sts < FOLD_MIN_BATCH" |
    "monotone_stamps sts" "\<not> length sts < FOLD_MIN_BATCH" by blast
  then show ?thesis
  proof cases
    case 1
    have step: "fst (note_result ?edge (fold_at p t h)) = pose_at p ?a t \<and>
        (\<forall>v. pose_at p ?a t = Inr v \<longrightarrow> g_arena (snd (note_result ?edge (fold_at p t h))) = ?a \<and>
           same_guard (snd (note_result ?edge (fold_at p t h))) (note_ok ?edge h)) \<and>
        (\<forall>e. pose_at p ?a t = Inl e \<longrightarrow> same_guard (snd (note_result ?edge (fold_at p t h))) (note_err e h))"
      if "g_arena h = ?a" for t h
    proof -
      have okh: "rings_ok (g_arena h)" using ok that by simp
      obtain r h' where r: "fold_at p t h = (r, h')" by (cases "fold_at p t h")
      then have "r = pose_at p ?a t" "same_guard h' h" using fold_at_eq [OF okh, of p t] that by simp_all
      then show ?thesis
        using r that note_same_guard [of h' h] same_guard_arena [of h' h]
        by (cases "pose_at p ?a t") (simp_all add: note_result_def)
    qed
    show ?thesis
      using batch_rows_eq [where I = "\<lambda>h. g_arena h = ?a" and G = "\<lambda>h. h" and V = "pose_at p ?a" and edge = ?edge
          and s = g and i = 0, OF w step _ _ p] fits 1
      by (simp add: fold_batch_def Let_def)
  next
    case 2
    let ?f = "\<lambda>t. noted_cursors ?edge (\<lambda>a. fold_at_cursors p a t)"
    have step: "fst (?f t s) = pose_at p ?a t \<and>
        (\<forall>v. pose_at p ?a t = Inr v \<longrightarrow> g_arena (snd (snd (?f t s))) = ?a \<and>
           same_guard (snd (snd (?f t s))) (note_ok ?edge (snd s))) \<and>
        (\<forall>e. pose_at p ?a t = Inl e \<longrightarrow> same_guard (snd (snd (?f t s))) (note_err e (snd s)))"
      if "g_arena (snd s) = ?a" for t s
    proof -
      obtain c h where s: "s = (c, h)" by (cases s)
      obtain r c' where r: "fold_at_cursors p ?a t c = (r, c')" by (cases "fold_at_cursors p ?a t c")
      then have "r = pose_at p ?a t" using fold_at_cursors_eq [OF ok, of p t c] by simp
      then show ?thesis
        using r s that by (cases "pose_at p ?a t") (simp_all add: noted_cursors_def note_result_def)
    qed
    have "case batch_rows ?f write el 0 sts out (replicate MAX_DEPTH 0, g) of (r, out', s') \<Rightarrow>
        r = batch_result err \<and> out' = put_rows write el 0 vs out \<and> same_guard (snd s') (noted ?edge (length vs) err g)"
      using batch_rows_eq [where I = "\<lambda>s. g_arena (snd s) = ?a" and G = snd and V = "pose_at p ?a" and edge = ?edge
          and s = "(replicate MAX_DEPTH 0, g)" and i = 0, OF w step _ _ p] fits by simp
    then show ?thesis using 2 by (auto simp: fold_batch_def Let_def without_cursors_def split: prod.splits)
  next
    case 3
    then show ?thesis
      using fold_chunks_eq [OF w el ok refl, of 0 sts out p vs err] fits p by (simp add: fold_batch_def Let_def)
  qed
qed

lemma fold_batch_with_twist_eq:
  assumes ok: "rings_ok (g_arena g)" and el: "el = elems QuatTwist" and fits: "length sts * el \<le> length out"
    and p: "prefix_ok (map (fold_at_with_derivatives p (g_arena g)) sts) = (vs, err)"
  shows "case fold_batch_with_twist p sts el out g of (r, out', g') \<Rightarrow>
    r = batch_result err \<and> out' = put_rows (\<lambda>(q, v). write_quat_twist q v) el 0 vs out \<and>
    same_guard g' (noted (first_dynamic_edge p) (length vs) err g)"
proof -
  let ?edge = "first_dynamic_edge p" and ?a = "g_arena g" and ?wr = "\<lambda>(q, v). write_quat_twist q v"
  have w: "\<forall>v. length (?wr v) = el" by (simp add: el write_layout_lengths split: prod.split)
  show ?thesis
  proof (cases "monotone_stamps sts")
    case False
    let ?f = "\<lambda>t h. note_result ?edge (fold_at_with_derivatives p (g_arena h) t, h)"
    have step: "fst (?f t h) = fold_at_with_derivatives p ?a t \<and>
        (\<forall>v. fold_at_with_derivatives p ?a t = Inr v \<longrightarrow> g_arena (snd (?f t h)) = ?a \<and> same_guard (snd (?f t h)) (note_ok ?edge h)) \<and>
        (\<forall>e. fold_at_with_derivatives p ?a t = Inl e \<longrightarrow> same_guard (snd (?f t h)) (note_err e h))"
      if "g_arena h = ?a" for t h
      using that by (cases "fold_at_with_derivatives p ?a t") (simp_all add: note_result_def)
    show ?thesis
      using batch_rows_eq [where I = "\<lambda>h. g_arena h = ?a" and G = "\<lambda>h. h" and V = "fold_at_with_derivatives p ?a" and edge = ?edge
          and s = g and i = 0, OF w step _ _ p] fits False
      by (simp add: fold_batch_with_twist_def Let_def)
  next
    case True
    let ?f = "\<lambda>t. noted_cursors ?edge (\<lambda>a. fold_at_with_derivatives_cursors p a t)"
    have step: "fst (?f t s) = fold_at_with_derivatives p ?a t \<and>
        (\<forall>v. fold_at_with_derivatives p ?a t = Inr v \<longrightarrow> g_arena (snd (snd (?f t s))) = ?a \<and>
           same_guard (snd (snd (?f t s))) (note_ok ?edge (snd s))) \<and>
        (\<forall>e. fold_at_with_derivatives p ?a t = Inl e \<longrightarrow> same_guard (snd (snd (?f t s))) (note_err e (snd s)))"
      if "g_arena (snd s) = ?a" for t s
    proof -
      obtain c h where s: "s = (c, h)" by (cases s)
      obtain r c' where r: "fold_at_with_derivatives_cursors p ?a t c = (r, c')"
        by (cases "fold_at_with_derivatives_cursors p ?a t c")
      then have "r = fold_at_with_derivatives p ?a t" using fold_at_with_derivatives_cursors_eq [OF ok, of p t c] by simp
      then show ?thesis
        using r s that by (cases "fold_at_with_derivatives p ?a t") (simp_all add: noted_cursors_def note_result_def)
    qed
    have "case batch_rows ?f ?wr el 0 sts out (replicate MAX_DEPTH 0, g) of (r, out', s') \<Rightarrow>
        r = batch_result err \<and> out' = put_rows ?wr el 0 vs out \<and> same_guard (snd s') (noted ?edge (length vs) err g)"
      using batch_rows_eq [where I = "\<lambda>s. g_arena (snd s) = ?a" and G = snd and V = "fold_at_with_derivatives p ?a" and edge = ?edge
          and s = "(replicate MAX_DEPTH 0, g)" and i = 0, OF w step _ _ p] fits by simp
    then show ?thesis using True by (auto simp: fold_batch_with_twist_def Let_def without_cursors_def split: prod.splits)
  qed
qed

text \<open>The pose of the derivative fold is the pose of the plain one.\<close>

lemma guard_twist_pose:
  assumes "rings_ok a" "in_i64 t" "guard_sample_with_twist a e t policy = Inr (q, v)"
  shows "guard_sample a e t policy = Inr q"
proof -
  obtain i r where ir: "sampler a e = Some (i, r)" using assms(3)
    by (cases "sampler a e") (auto simp: guard_sample_with_twist_def)
  then have "ring_ok r" "in_range r" using assms(1) sampler_ring [of a e i r] by (auto simp: rings_ok_def)
  then show ?thesis
    using ir assms(2,3) sample_with_twist_pose [of r t "head r" policy q v]
    by (auto simp: guard_sample_with_twist_def guard_sample_def interp_of_def split: interp_policy.splits)
qed

lemma fold_with_derivatives_pose:
  assumes S: "\<And>e q v. S e = Inr (q, v) \<Longrightarrow> S' e = Inr q"
  shows "fst (fold_with_derivatives (\<lambda>k e u. (S e, u)) k ss acc vel ()) = Inr (q, w) \<Longrightarrow> eval_steps S' ss acc = Inr q"
proof (induction ss arbitrary: k acc vel)
  case (Cons st ss)
  then show ?case
  proof (cases st)
    case (Dyn e i)
    then show ?thesis using Cons S by (cases "S e") (auto split: if_splits)
  qed simp
qed simp

subsection \<open>The newest common stamp\<close>

lemma newest_common_loop_Inr:
  "newest_common_loop a ss (c, w, any) = Inr (c', w', any') \<Longrightarrow>
    any' = (any \<or> dyn_edges ss \<noteq> []) \<and>
    (\<forall>e \<in> set (dyn_edges ss). \<exists>n. guard_newest_stamp a e = Inr n \<and> c' \<le> n) \<and> (any \<longrightarrow> c' \<le> c) \<and>
    (c' = c \<and> w' = w \<and> (any \<or> dyn_edges ss = []) \<or> w' \<in> set (dyn_edges ss) \<and> guard_newest_stamp a w' = Inr c')"
proof (induction a ss "(c, w, any)" arbitrary: c w any rule: newest_common_loop.induct)
  case (3 a e i ss c w any)
  obtain n where n: "guard_newest_stamp a e = Inr n" using 3(2) by (auto simp: rbind_iffs)
  let ?st = "if \<not> any \<or> n < c then (n, e, True) else (c, w, True)"
  obtain c1 w1 where st: "?st = (c1, w1, True)" by (cases "\<not> any \<or> n < c") simp_all
  have "newest_common_loop a ss (c1, w1, True) = Inr (c', w', any')" using 3(2) n st by simp
  note IH = 3(1) [OF st this]
  have c1: "c1 \<le> n" "any \<longrightarrow> c1 \<le> c" "c1 = c \<and> w1 = w \<and> any \<or> c1 = n \<and> w1 = e" using st by (auto split: if_splits)
  show ?case using IH n c1 by auto
qed auto

lemma newest_common_spec:
  assumes "newest_common p a = Inr r"
  shows "case r of
      None \<Rightarrow> dyn_edges (plan_steps p) = []
    | Some (c, w) \<Rightarrow> w \<in> set (dyn_edges (plan_steps p)) \<and> guard_newest_stamp a w = Inr c \<and>
        (\<forall>e \<in> set (dyn_edges (plan_steps p)). \<exists>n. guard_newest_stamp a e = Inr n \<and> c \<le> n)"
proof -
  obtain c w any where l: "newest_common_loop a (plan_steps p) (i64_max, 0, False) = Inr (c, w, any)"
    "r = (if any then Some (c, w) else None)" using assms by (auto simp: newest_common_def rbind_iffs)
  then show ?thesis using newest_common_loop_Inr [OF l(1)] by (auto split: if_splits)
qed

end
