(* ===== verification/Plan_Queries.thy ===== *)
theory Plan_Queries
  imports Plan_Walk Plan_Eval
begin

text \<open>
  The properties of plan evaluation, and of compilation and evaluation together: what
  \<open>tf_tree\<close>'s \<open>Tree::plan\<close> and \<open>Plan::at\<close> compute on one arena. \<open>arena_edge_meta\<close> is \<open>edge_meta\<close> of
  \<open>tf_tree/src/tree.rs\<close>.
\<close>

definition arena_edge_meta :: "arena \<Rightarrow> edge_id \<Rightarrow> edge_meta option" where
  "arena_edge_meta a e =
     map_option (\<lambda>rec. \<lparr>em_kind = edge_kind_from_u8 (er_kind rec), em_domain = er_domain rec,
       em_static_pose = from_bits (er_static_pose rec)\<rparr>) (arena_edge a e)"

subsection \<open>Batches\<close>

text \<open>C25: a batch is its stamps evaluated one after the other. Whatever the order of the stamps, the size of
  the batch and the state of the cursors, \<open>fold_batch\<close> writes exactly the rows before the first stamp
  that fails, in stamp order, keeps the rest of the buffer, returns that stamp's own error, and
  notes the same successes and the same failure as the scalar calls; and the scalar call is the
  fold of the plan over plain reads, however stale the guard's cursors are.\<close>

theorem batch_equals_scalar:
  assumes "rings_ok (g_arena g)" "\<forall>v. length (write v) = el" "0 < el" "length sts * el \<le> length out"
  shows "(case prefix_ok (map (pose_at p (g_arena g)) sts) of (vs, err) \<Rightarrow>
    case fold_batch p sts write el out g of (r, out', g') \<Rightarrow>
      r = batch_result err \<and> out' = concat (map write vs) @ drop (length vs * el) out \<and>
      same_guard g' (noted (first_dynamic_edge p) (length vs) err g)) \<and>
    fst (fold_at p t g) = pose_at p (g_arena g) t"
proof -
  obtain vs err where p: "prefix_ok (map (pose_at p (g_arena g)) sts) = (vs, err)"
    by (cases "prefix_ok (map (pose_at p (g_arena g)) sts)")
  have "put_rows write el 0 vs out = concat (map write vs) @ drop (length vs * el) out"
    using length_rows [OF assms(2), of vs] by (simp add: put_rows_def put_segment_def)
  then show ?thesis using fold_batch_eq [OF assms p] fold_at_eq(1) [OF assms(1)] p by simp
qed

text \<open>The arena of two dynamic edges with nothing published, and a plan over one of them.\<close>

definition edge_plan :: plan where
  "edge_plan = (identity_plan 0)\<lparr>plan_array := (replicate MAX_DEPTH (StaticStep iso3_IDENTITY))[0 := Dyn 1 True],
     plan_len := 1, plan_dyn_count := 1, plan_first_dyn := 1\<rparr>"

lemma edge_plan_steps: "plan_steps edge_plan = [Dyn 1 True]" "first_dynamic_edge edge_plan = 1" "has_dynamic edge_plan"
  by (simp_all add: edge_plan_def plan_steps_def first_dynamic_edge_def has_dynamic_def MAX_DEPTH_def identity_plan_def
      numeral_eq_Suc)

lemma ring_new_in_range: "in_range (ring_new e cap)"
  by (simp add: in_range_def ring_new_def in_i64_def i64_min_def i64_max_def)

lemma two_edges_rings_ok: "rings_ok two_edges"
proof -
  have "ring_ok (ring_new e 4)" for e by (rule ring_new_ok) simp_all
  moreover have "e = 0 \<or> e = 1" if "arena_ring two_edges e = Some r" for e r
    using that by (auto simp: arena_ring_eq two_edges_def)
  ultimately show ?thesis
    using two_edges_rings ring_new_in_range unfolding rings_ok_def by (metis option.inject)
qed

theorem batch_equals_scalar_witness:
  "fst (fold_batch edge_plan [5, 6, 7, 4] write_quat 7 (replicate 28 0) (guard_new two_edges arena_view_new)) = Inl (NoData 1)"
proof -
  let ?g = "guard_new two_edges arena_view_new"
  have ar: "g_arena ?g = two_edges" by (simp add: guard_new_def)
  have "guard_sample two_edges 1 t ErrorPolicy = Inl (NoData 1)" for t
    using two_edges_rings(4) by (simp add: guard_sample_def sampler_eq sample_def ring_new_def Let_def)
  then have "pose_at edge_plan two_edges t = Inl (NoData 1)" for t by (simp add: pose_at_def edge_plan_steps)
  then have "prefix_ok (map (pose_at edge_plan (g_arena ?g)) [5, 6, 7, 4]) = ([], Some (NoData 1))" using ar by simp
  then show ?thesis
    using batch_equals_scalar [of ?g write_quat 7 "[5, 6, 7, 4]" "replicate 28 0" edge_plan 0] ar two_edges_rings_ok
      write_layout_lengths(2)
    by (auto simp: batch_result_def split: prod.splits)
qed

definition row_at :: "output_layout \<Rightarrow> plan \<Rightarrow> arena \<Rightarrow> int \<Rightarrow> lookup_error + real list" where
  "row_at layout p a t =
     (case layout of
        QuatTwist \<Rightarrow> map_sum id (\<lambda>(q, v). write_quat_twist q v) (fold_at_with_derivatives p a t)
      | Mat4 \<Rightarrow> map_sum id write_mat4 (pose_at p a t)
      | _ \<Rightarrow> map_sum id write_quat (pose_at p a t))"

lemma prefix_ok_map: "prefix_ok rs = (vs, err) \<Longrightarrow> prefix_ok (map (map_sum id h) rs) = (map h vs, err)"
  by (induction rs arbitrary: vs rule: prefix_ok.induct) (auto split: prod.splits)

lemma put_rows_rows:
  assumes "\<forall>v. length (write v) = el"
  shows "put_rows write el 0 vs out = concat (map write vs) @ drop (length vs * el) out"
  using length_rows [OF assms, of vs] by (simp add: put_rows_def put_segment_def)

lemma layout_batch:
  assumes ok: "rings_ok (g_arena g)" and l: "layout = Mat4 \<and> write = write_mat4 \<or> layout = QuatLayout \<and> write = write_quat"
    and fits: "length sts * elems layout \<le> length out"
    and p: "prefix_ok (map (row_at layout p (g_arena g)) sts) = (rows, err)"
  shows "case fold_batch p sts write (elems layout) out g of (r, out', g') \<Rightarrow>
    r = batch_result err \<and> out' = concat rows @ drop (length rows * elems layout) out \<and>
    same_guard g' (noted (first_dynamic_edge p) (length rows) err g)"
proof -
  obtain vs e where vs: "prefix_ok (map (pose_at p (g_arena g)) sts) = (vs, e)"
    by (cases "prefix_ok (map (pose_at p (g_arena g)) sts)")
  have w: "\<forall>v. length (write v) = elems layout" using l write_layout_lengths by auto
  have "map (row_at layout p (g_arena g)) sts = map (map_sum id write) (map (pose_at p (g_arena g)) sts)"
    using l by (auto simp: row_at_def)
  then have "prefix_ok (map (row_at layout p (g_arena g)) sts) = (map write vs, e)"
    by (simp only: prefix_ok_map [OF vs])
  then have "rows = map write vs" "err = e" using p by simp_all
  moreover have "0 < elems layout" using l by auto
  ultimately show ?thesis using fold_batch_eq [OF ok w _ fits vs] put_rows_rows [OF w, of vs out] by simp
qed

lemma twist_batch:
  assumes ok: "rings_ok (g_arena g)" and fits: "length sts * elems QuatTwist \<le> length out"
    and p: "prefix_ok (map (row_at QuatTwist p (g_arena g)) sts) = (rows, err)"
  shows "case fold_batch_with_twist p sts (elems QuatTwist) out g of (r, out', g') \<Rightarrow>
    r = batch_result err \<and> out' = concat rows @ drop (length rows * elems QuatTwist) out \<and>
    same_guard g' (noted (first_dynamic_edge p) (length rows) err g)"
proof -
  let ?wr = "\<lambda>(q, v). write_quat_twist q v"
  obtain vs e where vs: "prefix_ok (map (fold_at_with_derivatives p (g_arena g)) sts) = (vs, e)"
    by (cases "prefix_ok (map (fold_at_with_derivatives p (g_arena g)) sts)")
  have w: "\<forall>v. length (?wr v) = elems QuatTwist" by (simp add: write_layout_lengths split: prod.split)
  have "map (row_at QuatTwist p (g_arena g)) sts = map (map_sum id ?wr) (map (fold_at_with_derivatives p (g_arena g)) sts)"
    by (simp add: row_at_def)
  then have "prefix_ok (map (row_at QuatTwist p (g_arena g)) sts) = (map ?wr vs, e)"
    by (simp only: prefix_ok_map [OF vs])
  then have "rows = map ?wr vs" "err = e" using p by simp_all
  then show ?thesis
    using fold_batch_with_twist_eq [OF ok refl fits vs] put_rows_rows [OF w, of vs out] by simp
qed

text \<open>C26: \<open>at_many_into\<close> refuses before it writes. A layout of the wrong element type, a buffer too small for
  every row, a plan of another generation and a stamp of another time domain are reported in that order, and
  then neither the buffer nor the guard changes. Otherwise the rows are those of \<open>at\<close>, or for
  \<open>QuatTwist\<close> those of \<open>at_with_derivatives\<close>, up to the first stamp that fails.\<close>

theorem at_many_into_spec:
  assumes "rings_ok (g_arena g)" "length sts * elems layout < 2 ^ 64"
  shows "if is_f32 layout then at_many_into_tagged p sts dmn layout out g = (Inl WrongElementType, out, g)
    else if length out < length sts * elems layout then
      at_many_into_tagged p sts dmn layout out g = (Inl (BufferTooSmall (length sts * elems layout) (length out)), out, g)
    else if g_generation g \<noteq> plan_generation p then
      at_many_into_tagged p sts dmn layout out g =
        (Inl (if g_generation g = DETACHED then LookupChildDetached
              else TopologyChanged (plan_generation p) (g_generation g)), out, g)
    else if has_dynamic p \<and> dmn \<noteq> plan_domain p then
      at_many_into_tagged p sts dmn layout out g = (Inl (TimeDomainMismatch (plan_domain p) dmn), out, g)
    else case prefix_ok (map (row_at layout p (g_arena g)) sts) of (rows, err) \<Rightarrow>
      case at_many_into_tagged p sts dmn layout out g of (r, out', g') \<Rightarrow>
        r = batch_result err \<and> out' = concat rows @ drop (length rows * elems layout) out \<and>
        same_guard g' (noted (first_dynamic_edge p) (length rows) err g)"
proof -
  have need: "min (length sts * elems layout) (2 ^ 64 - 1) = length sts * elems layout" using assms(2) by simp
  have refuse: "is_f32 layout \<Longrightarrow> at_many_into_tagged p sts dmn layout out g = (Inl WrongElementType, out, g)"
    "\<not> is_f32 layout \<Longrightarrow> length out < length sts * elems layout \<Longrightarrow> at_many_into_tagged p sts dmn layout out g =
      (Inl (BufferTooSmall (length sts * elems layout) (length out)), out, g)"
    unfolding at_many_into_tagged_def need Let_def by simp_all
  have go: "at_many_into_tagged p sts dmn layout out g =
      batch_after (check_generation p g) out g (batch_after (check_domain_tag p dmn) out g
        (case layout of Mat4 \<Rightarrow> fold_batch p sts write_mat4 (elems layout) out g
          | QuatLayout \<Rightarrow> fold_batch p sts write_quat (elems layout) out g
          | QuatTwist \<Rightarrow> fold_batch_with_twist p sts (elems layout) out g
          | Affine32 \<Rightarrow> (Inl WrongElementType, out, g)))"
    if "\<not> is_f32 layout" "\<not> length out < length sts * elems layout"
    using that unfolding at_many_into_tagged_def need Let_def by simp
  show ?thesis
  proof (cases "is_f32 layout \<or> length out < length sts * elems layout \<or> g_generation g \<noteq> plan_generation p \<or>
      has_dynamic p \<and> dmn \<noteq> plan_domain p")
    case True
    then show ?thesis using refuse go by (auto simp: batch_after_def check_generation_def check_domain_tag_def Let_def)
  next
    case False
    obtain rows err where p: "prefix_ok (map (row_at layout p (g_arena g)) sts) = (rows, err)"
      by (cases "prefix_ok (map (row_at layout p (g_arena g)) sts)")
    have c: "\<not> is_f32 layout" "\<not> length out < length sts * elems layout" "\<not> g_generation g \<noteq> plan_generation p"
      "\<not> (has_dynamic p \<and> dmn \<noteq> plan_domain p)" using False by blast+
    then have fits: "length sts * elems layout \<le> length out"
      and ck: "check_generation p g = Inr ()" "check_domain_tag p dmn = Inr ()"
      by (simp_all add: check_generation_def check_domain_tag_def)
    show ?thesis
      unfolding if_not_P [OF c(1)] if_not_P [OF c(2)] if_not_P [OF c(3)] if_not_P [OF c(4)] p prod.case go [OF c(1,2)] ck
      using c(1) layout_batch [OF assms(1) _ fits p] twist_batch [OF assms(1), of sts out p rows err] p fits
      by (cases layout) (simp_all add: batch_after_def)
  qed
qed

theorem at_many_into_spec_witness:
  "at_many_into_tagged edge_plan [5, 6] 3 Mat4 (replicate 40 1) (guard_new two_edges arena_view_new) =
     (Inl (TimeDomainMismatch 0 3), replicate 40 1, guard_new two_edges arena_view_new)"
proof -
  have "g_arena (guard_new two_edges arena_view_new) = two_edges"
    "g_generation (guard_new two_edges arena_view_new) = 0"
    by (simp_all add: guard_new_def two_edges_def stable_generation_def generation_def zero_view_def unpack_topo_def)
  moreover have "plan_generation edge_plan = 0" "plan_domain edge_plan = 0" by (simp_all add: edge_plan_def identity_plan_def)
  ultimately show ?thesis
    using at_many_into_spec [of "guard_new two_edges arena_view_new" "[5, 6]" Mat4 edge_plan 3 "replicate 40 1"]
      two_edges_rings_ok edge_plan_steps by simp
qed

subsection \<open>Extrapolation\<close>

lemma fold_at_policy_eq:
  assumes "rings_ok (g_arena g)"
  shows "fst (fold_at_policy p t policy g) = eval_steps (\<lambda>e. guard_sample (g_arena g) e t policy) (plan_steps p) iso3_IDENTITY"
proof -
  have step: "fst (sample_hinted k e t policy h) = guard_sample (g_arena g) e t policy \<and>
      same_guard (snd (sample_hinted k e t policy h)) g" if "same_guard h g" for k e h
    using sample_hinted_eq [of h k e t policy] assms that same_guard_arena [OF that] same_guard_trans by metis
  show ?thesis
    using fold_steps_eval [where I = "\<lambda>h. same_guard h g" and S = "\<lambda>e. guard_sample (g_arena g) e t policy", OF step]
    by (simp add: fold_at_policy_def)
qed

lemma eval_steps_dyn: "eval_steps S ss acc = Inr q \<Longrightarrow> e \<in> set (dyn_edges ss) \<Longrightarrow> \<exists>p. S e = Inr p"
  by (induction S ss acc rule: eval_steps.induct) (auto simp: rbind_iffs)

lemma sample_error_inside:
  "sample ev h2 t ErrorPolicy r = Inr p \<Longrightarrow> \<exists>n. newest_stamp r = Some n \<and> t \<le> n"
  by (auto simp: sample_def newest_stamp_def stamp_at_def Let_def split: if_splits)

lemma guard_sample_error_inside:
  "guard_sample a e t ErrorPolicy = Inr p \<Longrightarrow> \<exists>n. guard_newest_stamp a e = Inr n \<and> t \<le> n"
  using sampler_ring [of a e] sample_error_inside
  by (fastforce simp: guard_sample_def guard_newest_stamp_def rbind_iffs)

text \<open>Extrapolation cannot go unnoticed. When \<open>at_extrapolating\<close> answers, its pose is the fold of the
  reads under the policy, and what it reports comes from the dynamic edge whose newest sample is
  oldest: it names that edge and how far the query lies past it, saturating at 64 bits. The report
  is 0 exactly if every edge has data up to the query, and always under \<open>Error\<close>.\<close>

theorem extrapolation_reported:
  assumes "rings_ok (g_arena g)" "in_i64 nanos" "at_extrapolating_tagged p nanos dmn policy g = (Inr x, g')"
  shows "eval_steps (\<lambda>e. guard_sample (g_arena g) e nanos policy) (plan_steps p) iso3_IDENTITY = Inr (xp_pose x) \<and>
    (dyn_edges (plan_steps p) = [] \<longrightarrow> xp_by_ns x = 0 \<and> xp_edge x = 0) \<and>
    (dyn_edges (plan_steps p) \<noteq> [] \<longrightarrow>
       (\<exists>c. xp_edge x \<in> set (dyn_edges (plan_steps p)) \<and> guard_newest_stamp (g_arena g) (xp_edge x) = Inr c \<and>
          (\<forall>e \<in> set (dyn_edges (plan_steps p)). \<exists>n. guard_newest_stamp (g_arena g) e = Inr n \<and> c \<le> n) \<and>
          xp_by_ns x = max (sat_i64 (nanos - c)) 0)) \<and>
    (xp_by_ns x = 0 \<longleftrightarrow> (\<forall>e \<in> set (dyn_edges (plan_steps p)). \<exists>n. guard_newest_stamp (g_arena g) e = Inr n \<and> nanos \<le> n)) \<and>
    (policy = ErrorPolicy \<longrightarrow> xp_by_ns x = 0)"
proof -
  let ?a = "g_arena g" and ?d = "dyn_edges (plan_steps p)"
  obtain q h r where run: "fold_at_policy p nanos policy g = (Inr q, h)" "newest_common p ?a = Inr r"
    and x: "x = (case r of Some (c, w) \<Rightarrow> \<lparr>xp_pose = q, xp_by_ns = max (sat_i64 (nanos - c)) 0, xp_edge = w\<rparr>
      | None \<Rightarrow> \<lparr>xp_pose = q, xp_by_ns = 0, xp_edge = 0\<rparr>)"
    using assms(3)
    by (auto simp: at_extrapolating_tagged_def after_def note_result_def Let_def split: sum.splits prod.splits option.splits)
  have pose: "eval_steps (\<lambda>e. guard_sample ?a e nanos policy) (plan_steps p) iso3_IDENTITY = Inr (xp_pose x)"
    using fold_at_policy_eq [OF assms(1), of p nanos policy] run(1) x by (simp split: option.split prod.split)
  have inside: "\<exists>n. guard_newest_stamp ?a e = Inr n \<and> nanos \<le> n" if "policy = ErrorPolicy" "e \<in> set ?d" for e
    using eval_steps_dyn [OF pose that(2)] guard_sample_error_inside that(1) by blast
  have sat: "sat_i64 (nanos - c) \<le> 0 \<longleftrightarrow> nanos \<le> c" for c
    using sat_i64_pos [of "nanos - c"] sat_i64_nonpos [of "nanos - c"] by linarith
  show ?thesis
  proof (cases r)
    case None
    then show ?thesis using newest_common_spec [OF run(2)] x pose by simp
  next
    case (Some cw)
    obtain c w where cw: "cw = (c, w)" by (cases cw)
    have n: "w \<in> set ?d" "guard_newest_stamp ?a w = Inr c" "\<forall>e \<in> set ?d. \<exists>n. guard_newest_stamp ?a e = Inr n \<and> c \<le> n"
      using newest_common_spec [OF run(2)] Some cw by auto
    have xs: "xp_edge x = w" "xp_by_ns x = max (sat_i64 (nanos - c)) 0" using x Some cw by simp_all
    have zero: "xp_by_ns x = 0 \<longleftrightarrow> nanos \<le> c" using xs(2) sat [of c] by auto
    have all: "nanos \<le> c \<longleftrightarrow> (\<forall>e \<in> set ?d. \<exists>n. guard_newest_stamp ?a e = Inr n \<and> nanos \<le> n)"
      using n by (metis Inr_inject order_trans)
    have "policy = ErrorPolicy \<longrightarrow> xp_by_ns x = 0" using inside zero all by blast
    moreover have "?d \<noteq> []" using n(1) by auto
    ultimately show ?thesis using pose n xs zero all by blast
  qed
qed

text \<open>The two samples of edge 1 in that arena.\<close>

definition fed_ring :: sample_ring where
  "fed_ring = two_samples\<lparr>ring_edge := 1\<rparr>"

definition fed_arena :: arena where
  "fed_arena = put_ring 1 fed_ring two_edges"

lemma fed_ring_ok: "ring_ok fed_ring" "in_range fed_ring" "head fed_ring = 2" "newest_stamp fed_ring = Some 20"
  "read_slot fed_ring (phys fed_ring 1) = Inr third_turn" "stamp_at fed_ring 1 = 20" "stamp_at fed_ring 0 = 10"
  "oldest_logical fed_ring = 0" "retained fed_ring = 3"
proof -
  note defs = fed_ring_def ring_ok_def ring_shape_def slots_stable_def stamps_sorted_def phys_def ring_mask_def capacity_def
    retained_def oldest_logical_def stamp_at_def
  have st: "stamp_at fed_ring = stamp_at two_samples" by (rule ext) (simp add: defs)
  show ok: "ring_ok fed_ring"
    using two_samples_ok(1) unfolding ring_ok_def stamps_sorted_def st by (simp add: defs)
  show "in_range fed_ring" using two_samples_ok(2) by (simp add: in_range_def fed_ring_def)
  show h: "head fed_ring = 2" by (simp add: fed_ring_def two_samples_def)
  show o: "oldest_logical fed_ring = 0" "retained fed_ring = 3" by (simp_all add: defs two_samples_def)
  have m: "ring_mask fed_ring = 3" by (simp add: fed_ring_def two_samples_def ring_mask_def capacity_def)
  have ph: "phys fed_ring 0 = 0" "phys fed_ring 1 = 1" "phys fed_ring (Suc 0) = 1"
    using mask_eq_mod [of 4 0] mask_eq_mod [of 4 1] by (simp_all add: phys_def m)
  show st: "stamp_at fed_ring 1 = 20" "stamp_at fed_ring 0 = 10"
    unfolding stamp_at_def ph by (simp_all add: fed_ring_def two_samples_def)
  show "newest_stamp fed_ring = Some 20"
    using st(1) h by (simp add: newest_stamp_def stamp_at_def)
  have "contents fed_ring = [(10, half_turn), (20, third_turn)]"
  proof -
    have "sample_of fed_ring = sample_of two_samples" by (rule ext) (simp add: sample_of_def defs)
    moreover have "oldest_logical fed_ring = oldest_logical two_samples" "head fed_ring = head two_samples" by (simp_all add: defs)
    ultimately show ?thesis using two_samples_ok(3) by (simp add: contents_def)
  qed
  moreover have "contents fed_ring = [sample_of fed_ring 0, sample_of fed_ring 1]"
    using o h by (simp add: contents_def numeral_eq_Suc)
  ultimately have "snd (sample_of fed_ring 1) = third_turn" by simp
  then show "read_slot fed_ring (phys fed_ring 1) = Inr third_turn"
    using read_slot_window [OF ok, of 1] o h by simp
qed

lemma fed_arena_rings: "arena_ring fed_arena 1 = Some fed_ring" "rings_ok fed_arena" "sampler fed_arena 1 = Some (0, fed_ring)"
  "arena_ring fed_arena 0 = Some (ring_new 0 4)"
proof -
  have c: "capacity fed_ring = capacity (ring_new 1 4)" "length (stamps fed_ring) = length (stamps (ring_new 1 4))"
    "ring_edge fed_ring = 1" "heartbeat fed_ring < 2 ^ 64"
    by (simp_all add: fed_ring_def two_samples_def ring_new_def capacity_def)
  show r1: "arena_ring fed_arena 1 = Some fed_ring"
    unfolding fed_arena_def using two_edges_rings(1,4) c by (rule put_ring_get)
  have "rings_apart (ar_edges two_edges ! 1) (ar_edges two_edges ! 0)" using two_edges_rings(2) by (auto simp: rings_apart_def)
  then show r0: "arena_ring fed_arena 0 = Some (ring_new 0 4)"
    unfolding fed_arena_def using put_ring_other [OF two_edges_rings(1,4) c(1,2) two_edges_rings(3)] by simp
  have "e = 0 \<or> e = 1" if "arena_ring fed_arena e = Some r" for e r
    using that by (auto simp: arena_ring_eq two_edges_def fed_arena_def put_ring_def Let_def)
  moreover have "ring_ok (ring_new 0 4)" by (rule ring_new_ok) simp_all
  ultimately show "rings_ok fed_arena"
    using r0 r1 fed_ring_ok(1,2) ring_new_in_range unfolding rings_ok_def by (metis option.inject)
  have "er_interp (ar_edges fed_arena ! 1) = 0"
    by (simp add: fed_arena_def put_ring_def Let_def two_edges_def edge_record_dynamic_def)
  then show "sampler fed_arena 1 = Some (0, fed_ring)" using r1 by (simp add: sampler_eq)
qed

theorem extrapolation_reported_witness:
  "\<exists>x g. at_extrapolating_tagged edge_plan 25 0 Hold (guard_new fed_arena arena_view_new) = (Inr x, g) \<and>
     xp_by_ns x = 5 \<and> xp_edge x = 1"
proof -
  let ?g = "guard_new fed_arena arena_view_new"
  have ar: "g_arena ?g = fed_arena" by (simp add: guard_new_def)
  have gen: "g_generation ?g = 0"
    by (simp add: guard_new_def fed_arena_def put_ring_def Let_def two_edges_def stable_generation_def generation_def
        zero_view_def unpack_topo_def)
  have "guard_sample fed_arena 1 25 Hold = Inr third_turn"
    using fed_ring_ok by (simp add: guard_sample_def fed_arena_rings(3) [unfolded One_nat_def] sample_def Let_def revalidated_def)
  then have "fst (fold_at_policy edge_plan 25 Hold ?g) = Inr (iso3_mul_inv iso3_IDENTITY third_turn)"
    using fold_at_policy_eq [of ?g edge_plan 25 Hold] fed_arena_rings(2) ar by (simp add: edge_plan_steps)
  then obtain h where fold: "fold_at_policy edge_plan 25 Hold ?g = (Inr (iso3_mul_inv iso3_IDENTITY third_turn), h)"
    by (metis prod.collapse)
  have nw: "guard_newest_stamp fed_arena 1 = Inr 20"
    by (simp add: guard_newest_stamp_def fed_arena_rings(1) [unfolded One_nat_def] fed_ring_ok(4))
  have "plan_generation edge_plan = 0" "plan_domain edge_plan = 0" by (simp_all add: edge_plan_def identity_plan_def)
  then obtain x g where run: "at_extrapolating_tagged edge_plan 25 0 Hold ?g = (Inr x, g)"
    using fold nw gen ar
    by (simp add: at_extrapolating_tagged_def after_def check_generation_def check_domain_tag_def newest_common_def
        edge_plan_steps note_result_def Let_def)
  moreover have sat: "sat_i64 5 = 5" by (rule sat_i64_id) (simp add: in_i64_def i64_min_def i64_max_def)
  moreover have "xp_edge x = 1 \<and> xp_by_ns x = 5"
    using extrapolation_reported [OF _ _ run] fed_arena_rings(2) ar nw sat
    by (auto simp: edge_plan_steps in_i64_def i64_min_def i64_max_def)
  ultimately show ?thesis by simp
qed

subsection \<open>Counters\<close>

lemma note_ok_sel:
  "g_ok (note_ok e g) = min (g_ok g + 1) (2 ^ 32 - 1)"
  "g_ok_edge (note_ok e g) = (if e = 0 then None else case g_ok_edge g of
     None \<Rightarrow> if min (g_ok g + 1) (2 ^ 32 - 1) = 1 then Some e else None | Some d \<Rightarrow> if d \<noteq> e then None else Some d)"
  "g_view (note_ok e g) = g_view g" "g_fork (note_ok e g) = g_fork g"
  by (simp_all add: note_ok_def Let_def min_def split: option.split)

lemma note_ok_list:
  assumes "g_ok g = 0" "g_ok_edge g = None"
  shows "g_ok (fold note_ok es g) = min (length es) (2 ^ 32 - 1) \<and>
    g_ok_edge (fold note_ok es g) = (if es \<noteq> [] \<and> hd es \<noteq> 0 \<and> set es = {hd es} then Some (hd es) else None) \<and>
    g_arena (fold note_ok es g) = g_arena g \<and> g_view (fold note_ok es g) = g_view g \<and>
    g_fork (fold note_ok es g) = g_fork g"
proof (induction es rule: rev_induct)
  case Nil
  then show ?case using assms by simp
next
  case (snoc e es)
  define h where "h = fold note_ok es g"
  have sat: "min (min n m + 1) m = min (n + 1) m" for n m :: nat by simp
  have one: "min (g_ok h + 1) (2 ^ 32 - 1) = 1 \<longleftrightarrow> es = []"
    using snoc unfolding h_def [symmetric] by (cases es) simp_all
  have "g_ok_edge (note_ok e h) = (if es @ [e] \<noteq> [] \<and> hd (es @ [e]) \<noteq> 0 \<and> set (es @ [e]) = {hd (es @ [e])}
      then Some (hd (es @ [e])) else None)"
    unfolding note_ok_sel one using snoc unfolding h_def [symmetric] by (cases es) auto
  then show ?case
    using snoc sat [of "length es" "2 ^ 32 - 1"] unfolding fold_append comp_apply h_def [symmetric]
    by (simp add: note_ok_sel h_def [symmetric])
qed

lemma upd_edge_counters_nth:
  assumes "e < length (ar_edge_counters a)" "length (ar_edge_counters a) = h_max_edges (ar_header a)"
  shows "ar_edge_counters (upd_edge_counters d f a) ! e =
    (if d = e then f (ar_edge_counters a ! e) else ar_edge_counters a ! e)"
  using assms by (auto simp: upd_edge_counters_def edge_counters_at_def nth_list_update split: option.split)

lemma upd_participant_counters_edges [simp]: "ar_edge_counters (upd_participant_counters sl f a) = ar_edge_counters a"
  by (simp add: upd_participant_counters_def split: option.split)

text \<open>The flush credits an edge only with lookups that went through it. After any sequence of noted
  successes a guard over a writable arena adds their number (which saturates at 32 bits) to the
  counter of one edge exactly when every one of them named that edge; a plan over several edges names none,
  and then, as for a mixed sequence, no edge is credited. A guard that outlived a \<open>fork\<close>, or
  that only reads, leaves the arena alone.\<close>

theorem guard_credits_one_edge:
  fixes es :: "edge_id list"
  assumes "length (ar_edge_counters (g_arena g)) = h_max_edges (ar_header (g_arena g))" "g_ok g = 0" "g_ok_edge g = None"
    and "e < h_max_edges (ar_header (g_arena g))"
  defines "h \<equiv> fold note_ok es g"
  shows "ec_lookups_ok (ar_edge_counters (guard_flush now h) ! e) =
      (if vw_writable (g_view g) \<and> (\<forall>born. g_fork g = Some born \<longrightarrow> now = born) \<and> e \<noteq> 0 \<and> es \<noteq> [] \<and> set es = {e}
       then (ec_lookups_ok (ar_edge_counters (g_arena g) ! e) + min (length es) (2 ^ 32 - 1)) mod 2 ^ 64
       else ec_lookups_ok (ar_edge_counters (g_arena g) ! e)) \<and>
    (\<not> vw_writable (g_view g) \<or> (\<exists>born. g_fork g = Some born \<and> now \<noteq> born) \<longrightarrow> guard_flush now h = g_arena g)"
proof -
  note L = note_ok_list [OF assms(2,3), of es, folded h_def]
  have quiet: "guard_flush now h = g_arena g" if "\<not> vw_writable (g_view g) \<or> (\<exists>born. g_fork g = Some born \<and> now \<noteq> born) \<or> es = []"
    using that L by (auto simp: guard_flush_def)
  show ?thesis
  proof (cases "\<not> vw_writable (g_view g) \<or> (\<exists>born. g_fork g = Some born \<and> now \<noteq> born) \<or> es = []")
    case True
    then show ?thesis using quiet by auto
  next
    case False
    then have act: "vw_writable (g_view g)" "\<forall>born. g_fork g = Some born \<longrightarrow> now = born" "es \<noteq> []" by auto
    have nz: "g_ok h \<noteq> 0" using L act(3) by (cases es) (simp_all add: min_def)
    let ?add = "\<lambda>c. c\<lparr>ec_lookups_ok := fetch_add_u64 (g_ok h) (ec_lookups_ok c)\<rparr>"
    have "ar_edge_counters (guard_flush now h) = ar_edge_counters
        (case g_ok_edge h of None \<Rightarrow> g_arena g | Some d \<Rightarrow> upd_edge_counters d ?add (g_arena g))"
      using act conjunct2 [OF L] nz by (auto simp: guard_flush_def Let_def split: option.split)
    moreover have "ec_lookups_ok (ar_edge_counters (case g_ok_edge h of None \<Rightarrow> g_arena g
        | Some d \<Rightarrow> upd_edge_counters d ?add (g_arena g)) ! e) =
        (if e \<noteq> 0 \<and> set es = {e} then (ec_lookups_ok (ar_edge_counters (g_arena g) ! e) + min (length es) (2 ^ 32 - 1)) mod 2 ^ 64
         else ec_lookups_ok (ar_edge_counters (g_arena g) ! e))"
    proof (cases "hd es \<noteq> 0 \<and> set es = {hd es}")
      case True
      then have "g_ok_edge h = Some (hd es)" "e \<noteq> 0 \<and> set es = {e} \<longleftrightarrow> hd es = e" using L act(3) by auto
      then show ?thesis using conjunct1 [OF L] assms(1,4) by (simp add: upd_edge_counters_nth fetch_add_u64_def)
    next
      case False
      then have "g_ok_edge h = None" using L by simp
      moreover have "\<not> (e \<noteq> 0 \<and> set es = {e})" using False act(3) by (cases es) auto
      ultimately show ?thesis by auto
    qed
    ultimately show ?thesis using act by auto
  qed
qed

theorem guard_credits_one_edge_witness:
  "ec_lookups_ok (ar_edge_counters (guard_flush 0 (fold note_ok [1, 1, 1]
     (guard_new two_edges (writable True arena_view_new)))) ! 1) = 3"
proof -
  let ?g = "guard_new two_edges (writable True arena_view_new)"
  have g: "g_arena ?g = two_edges" "g_view ?g = writable True arena_view_new" "g_ok ?g = 0" "g_ok_edge ?g = None" "g_fork ?g = None"
    by (simp_all add: guard_new_def)
  show ?thesis
    using guard_credits_one_edge [of ?g 1 0 "[1, 1, 1]"] g
    by (simp add: writable_def two_edges_def edge_counters_default_def)
qed

end
