(* ===== verification/Plan_Adaptive.thy ===== *)
theory Plan_Adaptive
  imports Plan_Queries
begin

text \<open>
  Adaptive evaluation, \<open>Plan::at_adaptive\<close> of \<open>tf_tree_core/src/plan.rs\<close>: recursive bisection of a span
  into knots between which interpolation is close to the exact poses.
\<close>

subsection \<open>The bisection\<close>

definition MAX_KNOTS :: nat where "MAX_KNOTS = 4096"
definition MAX_ADAPTIVE_DEPTH :: nat where "MAX_ADAPTIVE_DEPTH = 16"

record err_bound =
  eb_rot_rad :: real
  eb_trans :: real

definition err_bound_new :: "real \<Rightarrow> real \<Rightarrow> err_bound" where
  "err_bound_new rot_rad tr = \<lparr>eb_rot_rad = rot_rad, eb_trans = tr\<rparr>"

text \<open>The vectors the knots are pushed to; their capacity is \<open>MAX_KNOTS\<close>.\<close>

record adaptive_scratch =
  as_stamps :: "int list"
  as_poses :: "iso3 list"

definition adaptive_scratch_new :: adaptive_scratch where
  "adaptive_scratch_new = \<lparr>as_stamps = [], as_poses = []\<rparr>"

definition push_knot :: "int \<Rightarrow> iso3 \<Rightarrow> adaptive_scratch \<Rightarrow> adaptive_scratch" where
  "push_knot t p sc = \<lparr>as_stamps = as_stamps sc @ [t], as_poses = as_poses sc @ [p]\<rparr>"

definition within_tol :: "err_bound \<Rightarrow> iso3 \<Rightarrow> iso3 \<Rightarrow> bool" where
  "within_tol tol approx exct =
     (let dq = quat_mul (conjugate (iq approx)) (iq exct);
          angle = vec3_norm (log_so3_native dq);
          tr = vec3_norm (vec3_sub (it approx) (it exct))
      in angle \<le> eb_rot_rad tol \<and> tr \<le> eb_trans tol)"

definition wrap_i64 :: "int \<Rightarrow> int" where
  "wrap_i64 x = (x + 2 ^ 63) mod 2 ^ 64 - 2 ^ 63"

text \<open>Whether a segment may still be split: depth, width, and room for the knots the callers will push.\<close>

definition can_split :: "nat \<Rightarrow> int \<Rightarrow> int \<Rightarrow> nat \<Rightarrow> bool" where
  "can_split d a b len \<longleftrightarrow> d < MAX_ADAPTIVE_DEPTH \<and> wrap_u64 (b - a) > 1 \<and> len + MAX_ADAPTIVE_DEPTH + 1 < MAX_KNOTS"

definition midpoint :: "int \<Rightarrow> int \<Rightarrow> int" where
  "midpoint a b = wrap_i64 (a + wrap_i64 (int (wrap_u64 (b - a) div 2)))"

definition mid_approx :: "int \<Rightarrow> int \<Rightarrow> iso3 \<Rightarrow> iso3 \<Rightarrow> iso3" where
  "mid_approx a b a_p b_p =
     lerp_slerp_eval a_p b_p (real (wrap_u64 (midpoint a b - a)) / real (wrap_u64 (b - a)))"

function subdivide :: "plan \<Rightarrow> int \<Rightarrow> iso3 \<Rightarrow> int \<Rightarrow> iso3 \<Rightarrow> nat \<Rightarrow> err_bound \<Rightarrow> adaptive_scratch \<Rightarrow> guard \<Rightarrow>
    (lookup_error + unit) \<times> adaptive_scratch \<times> guard" where
  "subdivide p a a_p b b_p d tol sc g =
     (if can_split d a b (length (as_stamps sc)) then
        case fold_at p (midpoint a b) g of
          (Inl e, g1) \<Rightarrow> (Inl e, sc, g1)
        | (Inr m_p, g1) \<Rightarrow>
            if \<not> within_tol tol (mid_approx a b a_p b_p) m_p then
              (case subdivide p a a_p (midpoint a b) m_p (d + 1) tol sc g1 of
                 (Inl e, sc2, g2) \<Rightarrow> (Inl e, sc2, g2)
               | (Inr u, sc2, g2) \<Rightarrow> subdivide p (midpoint a b) m_p b b_p (d + 1) tol sc2 g2)
            else (Inr (), push_knot b b_p sc, g1)
      else (Inr (), push_knot b b_p sc, g))"
  by pat_completeness auto
termination
  by (relation "measure (\<lambda>(p, a, a_p, b, b_p, d, tol, sc, g). MAX_ADAPTIVE_DEPTH - d)") (auto simp: can_split_def)

declare subdivide.simps [simp del]

definition fold_adaptive :: "plan \<Rightarrow> int \<times> int \<Rightarrow> err_bound \<Rightarrow> adaptive_scratch \<Rightarrow> guard \<Rightarrow>
    ((lookup_error + unit) \<times> adaptive_scratch) \<times> guard" where
  "fold_adaptive p seg tol sc g =
     (case seg of (a, b) \<Rightarrow>
        case fold_at p a g of
          (Inl e, g1) \<Rightarrow> ((Inl e, adaptive_scratch_new), g1)
        | (Inr a_p, g1) \<Rightarrow>
            let sc1 = push_knot a a_p adaptive_scratch_new
            in if b \<le> a then ((Inr (), sc1), g1)
               else case fold_at p b g1 of
                   (Inl e, g2) \<Rightarrow> ((Inl e, sc1), g2)
                 | (Inr b_p, g2) \<Rightarrow>
                     (case subdivide p a a_p b b_p 0 tol sc1 g2 of (r, sc2, g3) \<Rightarrow> ((r, sc2), g3)))"

text \<open>The result borrows the scratch: the slices of the caller are its two vectors.\<close>

definition at_adaptive_tagged :: "plan \<Rightarrow> int \<times> int \<Rightarrow> nat \<Rightarrow> err_bound \<Rightarrow> adaptive_scratch \<Rightarrow> guard \<Rightarrow>
    ((lookup_error + int list \<times> iso3 list) \<times> adaptive_scratch) \<times> guard" where
  "at_adaptive_tagged p seg dmn tol sc g =
     (case check_generation p g of
        Inl e \<Rightarrow> ((Inl e, sc), g)
      | Inr u \<Rightarrow>
          (case check_domain_tag p dmn of
             Inl e \<Rightarrow> ((Inl e, sc), g)
           | Inr u \<Rightarrow>
               (case fold_adaptive p seg tol sc g of ((r, sc'), g1) \<Rightarrow>
                  case note_result (first_dynamic_edge p) (r, g1) of
                    (Inl e, g2) \<Rightarrow> ((Inl e, sc'), g2)
                  | (Inr u, g2) \<Rightarrow> ((Inr (as_stamps sc', as_poses sc'), sc'), g2))))"

subsection \<open>How many knots\<close>

lemma push_knot_sel [simp]:
  "as_stamps (push_knot t q sc) = as_stamps sc @ [t]" "as_poses (push_knot t q sc) = as_poses sc @ [q]"
  by (simp_all add: push_knot_def)

text \<open>The runs of the recursion, for rule induction.\<close>

inductive bisects :: "plan \<Rightarrow> err_bound \<Rightarrow> int \<Rightarrow> iso3 \<Rightarrow> int \<Rightarrow> iso3 \<Rightarrow> nat \<Rightarrow> adaptive_scratch \<Rightarrow> guard \<Rightarrow>
    lookup_error + unit \<Rightarrow> adaptive_scratch \<Rightarrow> guard \<Rightarrow> bool" for p tol where
  spent: "\<not> can_split d a b (length (as_stamps sc)) \<Longrightarrow> bisects p tol a a_p b b_p d sc g (Inr ()) (push_knot b b_p sc) g"
| close: "can_split d a b (length (as_stamps sc)) \<Longrightarrow> fold_at p (midpoint a b) g = (Inr m_p, g1) \<Longrightarrow>
    within_tol tol (mid_approx a b a_p b_p) m_p \<Longrightarrow> bisects p tol a a_p b b_p d sc g (Inr ()) (push_knot b b_p sc) g1"
| failed: "can_split d a b (length (as_stamps sc)) \<Longrightarrow> fold_at p (midpoint a b) g = (Inl e, g1) \<Longrightarrow>
    bisects p tol a a_p b b_p d sc g (Inl e) sc g1"
| failed_left: "can_split d a b (length (as_stamps sc)) \<Longrightarrow> fold_at p (midpoint a b) g = (Inr m_p, g1) \<Longrightarrow>
    bisects p tol a a_p (midpoint a b) m_p (d + 1) sc g1 (Inl e) sc2 g2 \<Longrightarrow> bisects p tol a a_p b b_p d sc g (Inl e) sc2 g2"
| halves: "can_split d a b (length (as_stamps sc)) \<Longrightarrow> fold_at p (midpoint a b) g = (Inr m_p, g1) \<Longrightarrow>
    bisects p tol a a_p (midpoint a b) m_p (d + 1) sc g1 (Inr ()) sc2 g2 \<Longrightarrow>
    bisects p tol (midpoint a b) m_p b b_p (d + 1) sc2 g2 r sc3 g3 \<Longrightarrow> bisects p tol a a_p b b_p d sc g r sc3 g3"

lemma subdivide_bisects:
  "subdivide p a a_p b b_p d tol sc g = (r, sc', g') \<Longrightarrow> bisects p tol a a_p b b_p d sc g r sc' g'"
proof (induction p a a_p b b_p d tol sc g arbitrary: r sc' g' rule: subdivide.induct)
  case (1 p a a_p b b_p d tol sc g)
  note unfold = subdivide.simps [of p a a_p b b_p d tol sc g]
  obtain f g1 where fold: "fold_at p (midpoint a b) g = (f, g1)" by (cases "fold_at p (midpoint a b) g")
  consider "\<not> can_split d a b (length (as_stamps sc))" | e where "can_split d a b (length (as_stamps sc))" "f = Inl e"
    | m_p where "can_split d a b (length (as_stamps sc))" "f = Inr m_p" "within_tol tol (mid_approx a b a_p b_p) m_p"
    | m_p where "can_split d a b (length (as_stamps sc))" "f = Inr m_p" "\<not> within_tol tol (mid_approx a b a_p b_p) m_p"
    by (cases f) auto
  then show ?case
  proof cases
    case 4
    obtain r2 sc2 g2 where left: "subdivide p a a_p (midpoint a b) m_p (d + 1) tol sc g1 = (r2, sc2, g2)"
      by (metis prod_cases3)
    have l: "bisects p tol a a_p (midpoint a b) m_p (d + 1) sc g1 r2 sc2 g2"
      using "1.IH"(1) [OF 4(1) fold [symmetric] 4(2,3) left] .
    show ?thesis
    proof (cases r2)
      case (Inl e)
      then show ?thesis using "1.prems" unfold 4 fold left l by (auto intro: bisects.failed_left)
    next
      case (Inr u)
      then have right: "subdivide p (midpoint a b) m_p b b_p (d + 1) tol sc2 g2 = (r, sc', g')"
        using "1.prems" unfold 4 fold left by simp
      show ?thesis
        using "1.IH"(2) [OF 4(1) fold [symmetric] 4(2,3) left [symmetric] Inr refl right] 4 fold l Inr
        by (auto intro: bisects.halves)
    qed
  qed (use "1.prems" unfold fold in \<open>auto intro: bisects.intros\<close>)
qed

text \<open>The reserve of \<open>can_split\<close> pays for the pending right endpoints of all callers.\<close>

lemma bisects_count:
  "bisects p tol a a_p b b_p d sc g r sc' g' \<Longrightarrow> d \<le> MAX_ADAPTIVE_DEPTH \<Longrightarrow>
    length (as_stamps sc') \<le> max (length (as_stamps sc) + 1) (MAX_KNOTS - 1 - d)"
  by (induction rule: bisects.induct) (auto simp: can_split_def MAX_KNOTS_def MAX_ADAPTIVE_DEPTH_def)

subsection \<open>Which knots\<close>

lemma midpoint_eq:
  assumes "in_i64 a" "in_i64 b" "can_split d a b n" "a < b"
  shows "midpoint a b = a + (b - a) div 2" "a < midpoint a b" "midpoint a b < b" "in_i64 (midpoint a b)" "1 < b - a"
proof -
  have w: "int (wrap_u64 (b - a)) = b - a" using assms by (intro wrap_u64_diff) simp_all
  then show gap: "1 < b - a" using assms(3) by (simp add: can_split_def)
  have half: "int (wrap_u64 (b - a) div 2) = (b - a) div 2" using w by (simp add: zdiv_int)
  have "wrap_i64 ((b - a) div 2) = (b - a) div 2" using assms by (simp add: wrap_i64_def arith_defs)
  moreover have "wrap_i64 (a + (b - a) div 2) = a + (b - a) div 2"
    using assms by (simp add: wrap_i64_def arith_defs)
  ultimately show m: "midpoint a b = a + (b - a) div 2" by (simp add: midpoint_def half)
  show "a < midpoint a b" "midpoint a b < b" "in_i64 (midpoint a b)" using gap assms by (auto simp: m arith_defs)
qed

text \<open>Why a segment was not split further: it is accepted at its midpoint, it has no interior stamp, it is a
  \<open>2\<^sup>n\<close>-th of the span it came from, or the budget of knots is spent.\<close>

definition segment_done :: "plan \<Rightarrow> arena \<Rightarrow> err_bound \<Rightarrow> nat \<Rightarrow> int \<Rightarrow> nat \<Rightarrow> int \<Rightarrow> int \<Rightarrow> bool" where
  "segment_done p a tol n width len x y \<longleftrightarrow>
     (\<exists>x_p y_p m_p. pose_at p a x = Inr x_p \<and> pose_at p a y = Inr y_p \<and> pose_at p a (midpoint x y) = Inr m_p \<and>
        within_tol tol (mid_approx x y x_p y_p) m_p) \<or>
     y - x \<le> 1 \<or> (y - x) * 2 ^ n < width + 2 ^ n \<or> MAX_KNOTS \<le> len + MAX_ADAPTIVE_DEPTH + 1"

lemma segment_done_halves:
  assumes "segment_done p a tol n w len x y" "2 * w \<le> width + 1" "len \<le> len'"
  shows "segment_done p a tol (Suc n) width len' x y"
proof -
  have "(y - x) * 2 ^ Suc n < width + 2 ^ Suc n" if "(y - x) * 2 ^ n < w + 2 ^ n"
  proof -
    have "(y - x) * 2 ^ n \<le> w + 2 ^ n - 1" using that by linarith
    then have "2 * ((y - x) * 2 ^ n) \<le> 2 * w + 2 * 2 ^ n - 2" by linarith
    then show ?thesis using assms(2) by simp
  qed
  then show ?thesis using assms(1,3) unfolding segment_done_def by fastforce
qed

definition segments :: "int \<Rightarrow> int list \<Rightarrow> (int \<times> int) set" where
  "segments a ks = set (zip (a # ks) ks)"

lemma segments_append: "ks \<noteq> [] \<Longrightarrow> segments a (ks @ ls) = segments a ks \<union> segments (last ks) ls"
proof (induction ks arbitrary: a)
  case (Cons k ks)
  then show ?case by (cases ks) (auto simp: segments_def)
qed simp

text \<open>A run of knots after \<open>a\<close> up to \<open>b\<close>, with the poses at them.\<close>

definition knots :: "plan \<Rightarrow> arena \<Rightarrow> err_bound \<Rightarrow> nat \<Rightarrow> nat \<Rightarrow> int \<Rightarrow> int \<Rightarrow> int list \<Rightarrow> iso3 list \<Rightarrow> bool" where
  "knots p A tol n len a b ks ps \<longleftrightarrow>
     ks \<noteq> [] \<and> last ks = b \<and> sorted_wrt (<) (a # ks) \<and> map (pose_at p A) ks = map Inr ps \<and>
     (\<forall>(x, y) \<in> segments a ks. segment_done p A tol n (b - a) len x y)"

lemma knots_single:
  assumes "segment_done p A tol n (b - a) len a b" "a < b" "pose_at p A b = Inr b_p"
  shows "knots p A tol n len a b [b] [b_p]"
  using assms by (simp add: knots_def segments_def)

lemma knots_range: "knots p A tol n len a b ks ps \<Longrightarrow> k \<in> set ks \<Longrightarrow> a < k \<and> k \<le> b"
  by (cases ks rule: rev_cases) (auto simp: knots_def sorted_wrt_append)

lemma knots_join:
  assumes l: "knots p A tol n len a m ks ps" and r: "knots p A tol n len' m b ls qs"
    and w: "2 * (m - a) \<le> b - a + 1" "2 * (b - m) \<le> b - a + 1" "len \<le> len'"
  shows "knots p A tol (Suc n) len' a b (ks @ ls) (ps @ qs)"
proof -
  have "sorted_wrt (<) (a # ks @ ls)"
  proof -
    have "x < y" if x: "x \<in> set (a # ks)" and y: "y \<in> set ls" for x y
    proof -
      have k: "ks \<noteq> []" "last ks = m" using l by (simp_all add: knots_def)
      then have "m \<in> set ks" using last_in_set [of ks] by simp
      then have "a < m" using knots_range [OF l] by blast
      then have "x \<le> m" using x knots_range [OF l, of x] by auto
      then show ?thesis using knots_range [OF r y] by simp
    qed
    then show ?thesis using l r by (auto simp: knots_def sorted_wrt_append)
  qed
  moreover have "segment_done p A tol (Suc n) (b - a) len' x y" if xy: "(x, y) \<in> segments a (ks @ ls)" for x y
  proof -
    have "(x, y) \<in> segments a ks \<or> (x, y) \<in> segments m ls"
      using xy l segments_append [of ks a ls] by (auto simp: knots_def)
    then show ?thesis
    proof
      assume "(x, y) \<in> segments a ks"
      then have "segment_done p A tol n (m - a) len x y" using l by (auto simp: knots_def)
      then show ?thesis using w(1,3) by (rule segment_done_halves)
    next
      assume "(x, y) \<in> segments m ls"
      then have "segment_done p A tol n (b - m) len' x y" using r by (auto simp: knots_def)
      then show ?thesis using w(2) order_refl by (rule segment_done_halves)
    qed
  qed
  ultimately show ?thesis using l r by (auto simp: knots_def)
qed

definition bisected :: "plan \<Rightarrow> arena \<Rightarrow> err_bound \<Rightarrow> nat \<Rightarrow> int \<Rightarrow> int \<Rightarrow> adaptive_scratch \<Rightarrow>
    lookup_error + unit \<Rightarrow> adaptive_scratch \<Rightarrow> bool" where
  "bisected p A tol n a b sc r sc' \<longleftrightarrow>
     (case r of
        Inl e \<Rightarrow> \<exists>t. a < t \<and> t < b \<and> pose_at p A t = Inl e
      | Inr u \<Rightarrow> \<exists>ks ps. as_stamps sc' = as_stamps sc @ ks \<and> as_poses sc' = as_poses sc @ ps \<and>
          knots p A tol n (length (as_stamps sc')) a b ks ps)"

lemma bisects_knots:
  assumes "bisects p tol a a_p b b_p d sc g r sc' g'" "rings_ok A"
  shows "in_i64 a \<Longrightarrow> in_i64 b \<Longrightarrow> a < b \<Longrightarrow> g_arena g = A \<Longrightarrow> pose_at p A a = Inr a_p \<Longrightarrow> pose_at p A b = Inr b_p \<Longrightarrow>
    d \<le> MAX_ADAPTIVE_DEPTH \<Longrightarrow> same_guard g' g \<and> bisected p A tol (MAX_ADAPTIVE_DEPTH - d) a b sc r sc'"
  using assms(1)
proof (induction rule: bisects.induct)
  case (spent d a b sc a_p b_p g)
  have "segment_done p A tol (MAX_ADAPTIVE_DEPTH - d) (b - a) (length (as_stamps sc) + 1) a b"
  proof -
    have "int (wrap_u64 (b - a)) = b - a" using spent by (intro wrap_u64_diff) simp_all
    then consider "d = MAX_ADAPTIVE_DEPTH" | "b - a \<le> 1" | "MAX_KNOTS \<le> length (as_stamps sc) + MAX_ADAPTIVE_DEPTH + 1"
      using spent by (force simp: can_split_def)
    then show ?thesis by cases (auto simp: segment_done_def)
  qed
  then show ?case using spent by (auto simp: bisected_def intro: knots_single)
next
  case (close d a b sc g m_p g1 a_p b_p)
  have f: "pose_at p A (midpoint a b) = Inr m_p" "same_guard g1 g"
    using fold_at_eq [of g p "midpoint a b"] close assms(2) by simp_all
  then have "segment_done p A tol (MAX_ADAPTIVE_DEPTH - d) (b - a) (length (as_stamps sc) + 1) a b"
    using close by (auto simp: segment_done_def)
  then show ?case using close f by (auto simp: bisected_def intro: knots_single)
next
  case (failed d a b sc g e g1 a_p b_p)
  have "pose_at p A (midpoint a b) = Inl e" "same_guard g1 g"
    using fold_at_eq [of g p "midpoint a b"] failed assms(2) by simp_all
  then show ?case
    using midpoint_eq(2,3) [OF failed.prems(1,2) failed.hyps(1) failed.prems(3)] by (auto simp: bisected_def)
next
  case (failed_left d a b sc g m_p g1 a_p e sc2 g2 b_p)
  note m = midpoint_eq [OF failed_left.prems(1,2) failed_left.hyps(1) failed_left.prems(3)]
  have f: "pose_at p A (midpoint a b) = Inr m_p" "same_guard g1 g"
    using fold_at_eq [of g p "midpoint a b"] failed_left assms(2) by simp_all
  then have "g_arena g1 = A" using same_guard_arena failed_left.prems by metis
  then have "same_guard g2 g1 \<and> bisected p A tol (MAX_ADAPTIVE_DEPTH - (d + 1)) a (midpoint a b) sc (Inl e) sc2"
    using failed_left m f by (intro failed_left.IH) (auto simp: can_split_def)
  then show ?case using f(2) m same_guard_trans by (fastforce simp: bisected_def)
next
  case (halves d a b sc g m_p g1 a_p sc2 g2 b_p r sc3 g3)
  note m = midpoint_eq [OF halves.prems(1,2) halves.hyps(1) halves.prems(3)]
  have d: "d + 1 \<le> MAX_ADAPTIVE_DEPTH" "MAX_ADAPTIVE_DEPTH - d = Suc (MAX_ADAPTIVE_DEPTH - (d + 1))"
    using halves.hyps(1) by (simp_all add: can_split_def Suc_diff_Suc)
  have f: "pose_at p A (midpoint a b) = Inr m_p" "same_guard g1 g"
    using fold_at_eq [of g p "midpoint a b"] halves assms(2) by simp_all
  then have g1: "g_arena g1 = A" using same_guard_arena halves.prems by metis
  have l: "same_guard g2 g1" "bisected p A tol (MAX_ADAPTIVE_DEPTH - (d + 1)) a (midpoint a b) sc (Inr ()) sc2"
    using halves.IH(1) halves.prems m f g1 d by auto
  then have g2: "g_arena g2 = A" using same_guard_arena g1 by metis
  then have r: "same_guard g3 g2" "bisected p A tol (MAX_ADAPTIVE_DEPTH - (d + 1)) (midpoint a b) b sc2 r sc3"
    using halves.IH(2) halves.prems m f d by auto
  have "bisected p A tol (MAX_ADAPTIVE_DEPTH - d) a b sc r sc3"
  proof (cases r)
    case (Inl e)
    then obtain t where "midpoint a b < t" "t < b" "pose_at p A t = Inl e" using r(2) by (auto simp: bisected_def)
    then have "a < t \<and> t < b \<and> pose_at p A t = Inl e" using m(2) by linarith
    then show ?thesis using Inl by (auto simp: bisected_def)
  next
    case (Inr u)
    obtain ks ps ls qs where k: "as_stamps sc2 = as_stamps sc @ ks" "as_poses sc2 = as_poses sc @ ps"
      "knots p A tol (MAX_ADAPTIVE_DEPTH - (d + 1)) (length (as_stamps sc2)) a (midpoint a b) ks ps"
      "as_stamps sc3 = as_stamps sc2 @ ls" "as_poses sc3 = as_poses sc2 @ qs"
      "knots p A tol (MAX_ADAPTIVE_DEPTH - (d + 1)) (length (as_stamps sc3)) (midpoint a b) b ls qs"
      using l(2) r(2) Inr by (auto simp: bisected_def)
    have "knots p A tol (Suc (MAX_ADAPTIVE_DEPTH - (d + 1))) (length (as_stamps sc3)) a b (ks @ ls) (ps @ qs)"
      using k(3,6) by (rule knots_join) (use m k in auto)
    then show ?thesis using k Inr d(2) by (auto simp: bisected_def)
  qed
  then show ?case using f(2) l(1) r(1) same_guard_trans by blast
qed

text \<open>What the result of a span must be.\<close>

definition knots_of_span :: "plan \<Rightarrow> arena \<Rightarrow> err_bound \<Rightarrow> int \<Rightarrow> int \<Rightarrow> int list \<Rightarrow> iso3 list \<Rightarrow> bool" where
  "knots_of_span p A tol a b ks ps \<longleftrightarrow>
     length ks < MAX_KNOTS \<and> sorted_wrt (<) ks \<and> ks \<noteq> [] \<and> hd ks = a \<and> map (pose_at p A) ks = map Inr ps \<and>
     (if b \<le> a then ks = [a]
      else last ks = b \<and> (\<forall>(x, y) \<in> set (zip ks (tl ks)). segment_done p A tol MAX_ADAPTIVE_DEPTH (b - a) (length ks) x y))"

lemma subdivide_span:
  assumes "rings_ok A" "in_i64 a" "in_i64 b" "a < b" "g_arena g = A" "pose_at p A a = Inr a_p" "pose_at p A b = Inr b_p"
    and run: "subdivide p a a_p b b_p 0 tol (push_knot a a_p adaptive_scratch_new) g = (r, sc, g')"
  shows "case r of Inr u \<Rightarrow> knots_of_span p A tol a b (as_stamps sc) (as_poses sc)
    | Inl e \<Rightarrow> \<exists>t. a \<le> t \<and> t \<le> max a b \<and> pose_at p A t = Inl e"
proof -
  note bis = subdivide_bisects [OF run]
  have ok: "bisected p A tol MAX_ADAPTIVE_DEPTH a b (push_knot a a_p adaptive_scratch_new) r sc"
    using bisects_knots [OF bis assms(1)] assms by simp
  have count: "length (as_stamps sc) < MAX_KNOTS"
    using bisects_count [OF bis] by (simp add: MAX_KNOTS_def adaptive_scratch_new_def)
  show ?thesis
  proof (cases r)
    case (Inl e)
    then obtain t where "a < t" "t < b" "pose_at p A t = Inl e" using ok by (auto simp: bisected_def)
    then show ?thesis using Inl by (auto intro!: exI [of _ t])
  next
    case (Inr u)
    then obtain ks ps where "as_stamps sc = a # ks" "as_poses sc = a_p # ps"
      "knots p A tol MAX_ADAPTIVE_DEPTH (length (as_stamps sc)) a b ks ps"
      using ok by (auto simp: bisected_def adaptive_scratch_new_def)
    then show ?thesis
      using Inr count assms(4,6) by (auto simp: knots_of_span_def knots_def segments_def)
  qed
qed

lemma fold_adaptive_span:
  assumes "rings_ok (g_arena g)" "in_i64 a" "in_i64 b" "fold_adaptive p (a, b) tol sc g = ((r, sc'), g')"
  shows "case r of Inr u \<Rightarrow> knots_of_span p (g_arena g) tol a b (as_stamps sc') (as_poses sc')
    | Inl e \<Rightarrow> \<exists>t. a \<le> t \<and> t \<le> max a b \<and> pose_at p (g_arena g) t = Inl e"
proof -
  let ?A = "g_arena g"
  obtain f g1 where fa: "fold_at p a g = (f, g1)" by (cases "fold_at p a g")
  have f: "f = pose_at p ?A a" "g_arena g1 = ?A"
    using fold_at_eq [OF assms(1), of p a] fa same_guard_arena by auto
  obtain f2 g2 where fb: "fold_at p b g1 = (f2, g2)" by (cases "fold_at p b g1")
  have f2: "f2 = pose_at p ?A b" "g_arena g2 = ?A"
    using fold_at_eq [of g1 p b] assms(1) f(2) fb same_guard_arena [of g2 g1] by simp_all
  consider e where "f = Inl e" | a_p where "f = Inr a_p" "b \<le> a" | a_p e where "f = Inr a_p" "a < b" "f2 = Inl e"
    | a_p b_p where "f = Inr a_p" "a < b" "f2 = Inr b_p" by (cases f; cases f2; cases "b \<le> a") auto
  then show ?thesis
  proof cases
    case 1
    then show ?thesis using assms(4) fa f(1) by (auto simp: fold_adaptive_def intro!: exI [of _ a])
  next
    case 2
    then have "pose_at p ?A a = Inr a_p" using f(1) by simp
    then show ?thesis
      using assms(4) fa 2 by (auto simp: fold_adaptive_def Let_def adaptive_scratch_new_def knots_of_span_def MAX_KNOTS_def)
  next
    case 3
    then have "pose_at p ?A b = Inl e" using f2(1) by simp
    then show ?thesis using assms(4) fa fb 3 by (auto simp: fold_adaptive_def Let_def intro!: exI [of _ b])
  next
    case 4
    obtain r' sc2 g3 where run: "subdivide p a a_p b b_p 0 tol (push_knot a a_p adaptive_scratch_new) g2 = (r', sc2, g3)"
      by (metis prod_cases3)
    then have eq: "r = r'" "sc' = sc2" using assms(4) fa fb 4 by (simp_all add: fold_adaptive_def)
    have "pose_at p ?A a = Inr a_p" "pose_at p ?A b = Inr b_p" using f(1) f2(1) 4 by simp_all
    then show ?thesis unfolding eq using assms(1-3) 4(2) f2(2) run by (intro subdivide_span)
  qed
qed

text \<open>C27: adaptive evaluation yields exact poses on a bounded, strictly increasing set of stamps. The knots
  start at \<open>a\<close> and end at \<open>b\<close>, the pose at each is the plan's pose there, and there are fewer than
  \<open>MAX_KNOTS\<close>, the capacity of the scratch. Between two neighbours, interpolation meets the
  tolerance at the midpoint, or no stamp lies between them, or they are no further apart than a
  \<open>2\<^sup>1\<^sup>6\<close>-th of the span (rounded up), or the budget of knots is spent. An empty span gives one
  knot. An error is the check's or the pose's at some stamp of the span.\<close>

theorem adaptive_knots:
  assumes "rings_ok (g_arena g)" "in_i64 a" "in_i64 b"
  shows "case at_adaptive_tagged p (a, b) dmn tol sc g of
      ((Inr (ks, ps), sc'), g') \<Rightarrow>
        length ks < MAX_KNOTS \<and> sorted_wrt (<) ks \<and> ks \<noteq> [] \<and> hd ks = a \<and> map (pose_at p (g_arena g)) ks = map Inr ps \<and>
        as_stamps sc' = ks \<and> as_poses sc' = ps \<and>
        (if b \<le> a then ks = [a]
         else last ks = b \<and>
           (\<forall>(x, y) \<in> set (zip ks (tl ks)). segment_done p (g_arena g) tol MAX_ADAPTIVE_DEPTH (b - a) (length ks) x y))
    | ((Inl e, sc'), g') \<Rightarrow>
        check_generation p g = Inl e \<or> check_domain_tag p dmn = Inl e \<or>
        (\<exists>t. a \<le> t \<and> t \<le> max a b \<and> pose_at p (g_arena g) t = Inl e)"
proof -
  obtain r sc' g' where run: "fold_adaptive p (a, b) tol sc g = ((r, sc'), g')" by (metis prod.collapse)
  consider e where "check_generation p g = Inl e" | e where "check_generation p g = Inr ()" "check_domain_tag p dmn = Inl e"
    | "check_generation p g = Inr ()" "check_domain_tag p dmn = Inr ()" by (metis old.unit.exhaust sum.exhaust)
  then show ?thesis
  proof cases
    case 3
    then show ?thesis
      using fold_adaptive_span [OF assms run] run
      by (cases r) (auto simp: at_adaptive_tagged_def note_result_def knots_of_span_def)
  qed (auto simp: at_adaptive_tagged_def)
qed

theorem adaptive_knots_witness:
  "\<exists>ps sc g. at_adaptive_tagged edge_plan (20, 20) 0 (err_bound_new 0 0) adaptive_scratch_new
     (guard_new fed_arena arena_view_new) = ((Inr ([20], ps), sc), g)"
proof -
  let ?g = "guard_new fed_arena arena_view_new" and ?tol = "err_bound_new 0 0"
  have g: "g_arena ?g = fed_arena" "g_generation ?g = 0"
    by (simp_all add: guard_new_def fed_arena_def put_ring_def Let_def two_edges_def stable_generation_def generation_def
        zero_view_def unpack_topo_def)
  have p: "plan_generation edge_plan = 0" "plan_domain edge_plan = 0" by (simp_all add: edge_plan_def identity_plan_def)
  then have checks: "check_generation edge_plan ?g = Inr ()" "check_domain_tag edge_plan 0 = Inr ()"
    using g by (simp_all add: check_generation_def check_domain_tag_def)
  have "guard_sample fed_arena 1 20 ErrorPolicy = Inr third_turn"
    using fed_ring_ok by (simp add: guard_sample_def fed_arena_rings(3) [unfolded One_nat_def] sample_def Let_def revalidated_def)
  then have at: "pose_at edge_plan fed_arena 20 = Inr (iso3_mul_inv iso3_IDENTITY third_turn)"
    by (simp add: pose_at_def edge_plan_steps)
  obtain r sc h where run: "at_adaptive_tagged edge_plan (20, 20) 0 ?tol adaptive_scratch_new ?g = ((r, sc), h)"
    by (metis prod.collapse)
  have "in_i64 20" by (simp add: arith_defs)
  then show ?thesis
    using adaptive_knots [of ?g 20 20 edge_plan 0 ?tol adaptive_scratch_new] fed_arena_rings(2) g run checks at
    by (cases r) auto
qed

end
