(* ===== verification/Interning.thy ===== *)
theory Interning
  imports Core_Types Arena_View
begin

unbundle bit_operations_syntax

text \<open>
  The lock-free interning of frame names, \<open>tf_tree_core/src/frame.rs\<close>: frame records, the three
  parallel arrays, and \<open>intern_core\<close> and \<open>find_core\<close> as the sequences of their atomic accesses, run by any
  number of processes that may stop for ever at any point. Sequentially consistent; the name hash is the
  third-party BLAKE3 and a parameter.
\<close>

subsection \<open>Records\<close>

definition ID_UNPUBLISHED :: nat where "ID_UNPUBLISHED = 0"
definition ID_FAILED :: nat where "ID_FAILED = 2 ^ 32 - 1"
definition CLAIM_ANONYMOUS :: nat where "CLAIM_ANONYMOUS = 2 ^ 32 - 1"
definition INTERN_SPIN_LIMIT :: nat where "INTERN_SPIN_LIMIT = 10000"
definition READER_UNRECORDED_ROUNDS :: nat where "READER_UNRECORDED_ROUNDS = 4"

type_synonym name = "u8 list"

record frame_record =
  fr_name_hash :: nat
  fr_name :: "u8 list"
  fr_name_len :: nat
  fr_flags :: nat
  fr_frame_kind :: nat

definition for_name :: "name \<Rightarrow> nat \<Rightarrow> frame_record" where
  "for_name nm hash =
     (let n = min (length nm) 48
      in \<lparr>fr_name_hash = hash, fr_name = take n nm @ replicate (48 - n) 0, fr_name_len = n, fr_flags = 0, fr_frame_kind = 0\<rparr>)"

definition name_matches :: "frame_record \<Rightarrow> name \<Rightarrow> bool" where
  "name_matches rec nm \<longleftrightarrow> (let n = min (length nm) 48 in fr_name_len rec = n \<and> take n (fr_name rec) = take n nm)"

lemma take_min_length: "take (min (length x) n) x = take n x"
  by (simp add: min_def)

lemma name_matches_for_name: "name_matches (for_name a h) b \<longleftrightarrow> take 48 a = take 48 b"
proof (cases "min (length a) 48 = min (length b) 48")
  case True
  have "take (min (length b) 48) (fr_name (for_name a h)) = take 48 a"
    unfolding True [symmetric] by (simp add: for_name_def Let_def take_min_length)
  then show ?thesis using True by (simp add: name_matches_def for_name_def Let_def take_min_length)
next
  case False
  then have "take 48 a \<noteq> take 48 b" by (metis length_take)
  then show ?thesis using False by (simp add: name_matches_def for_name_def Let_def)
qed

subsection \<open>The table\<close>

text \<open>The arrays, the id allocator, and the frame table behind \<open>name_matches\<close> and \<open>write_record\<close>.\<close>

record intern_table =
  it_hashes :: "nat list"
  it_ids :: "nat list"
  it_claiming :: "nat list"
  it_count :: nat
  it_capacity :: nat
  it_records :: "frame_record list"

definition matches_id :: "intern_table \<Rightarrow> name \<Rightarrow> nat \<Rightarrow> bool" where
  "matches_id m nm i \<longleftrightarrow> i < length (it_records m) \<and> name_matches (it_records m ! i) nm"

definition write_record :: "name \<Rightarrow> nat \<Rightarrow> nat \<Rightarrow> intern_table \<Rightarrow> intern_table" where
  "write_record nm hash i m =
     (if i < length (it_records m) then m\<lparr>it_records := (it_records m)[i := for_name nm hash]\<rparr> else m)"

definition resolve :: "intern_table \<Rightarrow> name \<Rightarrow> nat \<Rightarrow> nat \<Rightarrow> frame_error + nat" where
  "resolve m nm hash i =
     (if i = ID_FAILED then Inl FrameCapacityExceeded
      else if matches_id m nm i then Inr i
      else Inl (FrameHashCollision (of_nat hash)))"

text \<open>\<open>compare_exchange\<close> on an element; \<open>Inl\<close> is the value found instead.\<close>

definition cas_at :: "nat \<Rightarrow> nat \<Rightarrow> nat \<Rightarrow> nat list \<Rightarrow> (nat + unit) \<times> nat list" where
  "cas_at i old new xs = (if xs ! i = old then (Inr (), xs[i := new]) else (Inl (xs ! i), xs))"

definition slot_mask :: "intern_table \<Rightarrow> nat" where
  "slot_mask m = length (it_hashes m) - 1"

definition home :: "intern_table \<Rightarrow> nat \<Rightarrow> nat" where
  "home m hash = hash AND slot_mask m"

definition next_slot :: "intern_table \<Rightarrow> nat \<Rightarrow> nat" where
  "next_slot m i = (i + 1) AND slot_mask m"

subsection \<open>Interning, access by access\<close>

text \<open>Where an interner is: in the probe loop with a number of iterations left (\<open>Probe\<close>, \<open>Room\<close>, \<open>ClaimHash\<close>,
  \<open>Mark\<close>), in \<open>finish\<close> (\<open>Allocate\<close> to \<open>Publish\<close>), in \<open>wait_for_publish\<close> with its two counters (\<open>Spin\<close>,
  \<open>LoadClaimant\<close>, \<open>Takeover\<close>, \<open>Recheck\<close>), or about to look at the record of an id.\<close>

datatype intern_pc =
    Probe nat nat
  | Room nat nat
  | ClaimHash nat nat
  | Mark nat nat
  | Allocate nat
  | Undo nat
  | Fail nat
  | WriteRec nat nat
  | Publish nat nat
  | Spin nat nat nat
  | LoadClaimant nat nat
  | Takeover nat nat nat
  | Recheck nat
  | Resolve nat
  | Returned "frame_error + nat"

definition intern_start :: "intern_table \<Rightarrow> nat \<Rightarrow> intern_pc" where
  "intern_start m hash = Probe (home m hash) (2 * length (it_hashes m))"

text \<open>What an interner makes of the claimant of an entry it waits for.\<close>

definition judge :: "(nat \<Rightarrow> bool) \<Rightarrow> nat \<Rightarrow> nat \<Rightarrow> nat \<Rightarrow> nat \<Rightarrow> intern_pc" where
  "judge alive me i rounds owner =
     (if owner = CLAIM_ANONYMOUS then
        if rounds + 1 \<ge> READER_UNRECORDED_ROUNDS then Returned (Inl InternContended) else Spin i 0 (rounds + 1)
      else if (if owner = CLAIM_UNRECORDED then me \<noteq> CLAIM_UNRECORDED else \<not> alive owner) then Takeover i owner rounds
      else Spin i 0 rounds)"

fun intern_step :: "(nat \<Rightarrow> bool) \<Rightarrow> name \<Rightarrow> nat \<Rightarrow> nat \<Rightarrow> intern_pc \<times> intern_table \<Rightarrow> intern_pc \<times> intern_table" where
  "intern_step alive nm hash me (Probe i 0, m) = (Returned (Inl FrameCapacityExceeded), m)"
| "intern_step alive nm hash me (Probe i (Suc k), m) =
     (let cur = it_hashes m ! i
      in (if cur = hash then Spin i 0 0 else if cur = 0 then Room i k else Probe (next_slot m i) k, m))"
| "intern_step alive nm hash me (Room i k, m) =
     (if it_count m \<ge> it_capacity m then Returned (Inl FrameCapacityExceeded) else ClaimHash i k, m)"
| "intern_step alive nm hash me (ClaimHash i k, m) =
     (case cas_at i 0 hash (it_hashes m) of
        (Inr _, hs) \<Rightarrow> (Mark i k, m\<lparr>it_hashes := hs\<rparr>)
      | (Inl _, hs) \<Rightarrow> (Probe i k, m))"
| "intern_step alive nm hash me (Mark i k, m) =
     (case cas_at i CLAIM_UNRECORDED (if me = CLAIM_UNRECORDED then CLAIM_ANONYMOUS else me) (it_claiming m) of
        (Inr _, cs) \<Rightarrow> (Allocate i, m\<lparr>it_claiming := cs\<rparr>)
      | (Inl _, cs) \<Rightarrow> (Probe i k, m))"
| "intern_step alive nm hash me (Allocate i, m) =
     (if it_count m \<ge> it_capacity m then Undo i else WriteRec i (it_count m + 1), m\<lparr>it_count := it_count m + 1\<rparr>)"
| "intern_step alive nm hash me (Undo i, m) = (Fail i, m\<lparr>it_count := it_count m - 1\<rparr>)"
| "intern_step alive nm hash me (Fail i, m) =
     (case cas_at i ID_UNPUBLISHED ID_FAILED (it_ids m) of
        (Inr _, xs) \<Rightarrow> (Returned (Inl FrameCapacityExceeded), m\<lparr>it_ids := xs\<rparr>)
      | (Inl other, xs) \<Rightarrow> (if other = ID_FAILED then Returned (Inl FrameCapacityExceeded) else Resolve other, m))"
| "intern_step alive nm hash me (WriteRec i fid, m) = (Publish i fid, write_record nm hash fid m)"
| "intern_step alive nm hash me (Publish i fid, m) =
     (case cas_at i ID_UNPUBLISHED fid (it_ids m) of
        (Inr _, xs) \<Rightarrow> (Returned (Inr fid), m\<lparr>it_ids := xs\<rparr>)
      | (Inl other, xs) \<Rightarrow> (if other = fid then Returned (Inr fid) else Resolve other, m))"
| "intern_step alive nm hash me (Spin i spins rounds, m) =
     (let fid = it_ids m ! i
      in (if fid \<noteq> ID_UNPUBLISHED then Resolve fid
          else if spins + 1 \<ge> INTERN_SPIN_LIMIT then LoadClaimant i rounds
          else Spin i (spins + 1) rounds, m))"
| "intern_step alive nm hash me (LoadClaimant i rounds, m) = (judge alive me i rounds (it_claiming m ! i), m)"
| "intern_step alive nm hash me (Takeover i owner rounds, m) =
     (case cas_at i owner me (it_claiming m) of
        (Inr _, cs) \<Rightarrow> (Recheck i, m\<lparr>it_claiming := cs\<rparr>)
      | (Inl _, cs) \<Rightarrow> (Spin i 0 rounds, m))"
| "intern_step alive nm hash me (Recheck i, m) =
     (let fid = it_ids m ! i in (if fid \<noteq> ID_UNPUBLISHED then Resolve fid else Allocate i, m))"
| "intern_step alive nm hash me (Resolve fid, m) = (Returned (resolve m nm hash fid), m)"
| "intern_step alive nm hash me (Returned r, m) = (Returned r, m)"

text \<open>A lookup, which never writes.\<close>

datatype find_pc =
    FindProbe nat nat
  | FindSpin nat nat nat
  | FindClaimant nat nat
  | FindResolve nat
  | Found "frame_error + nat option"

definition find_start :: "intern_table \<Rightarrow> nat \<Rightarrow> find_pc" where
  "find_start m hash = FindProbe (home m hash) (length (it_hashes m))"

definition reader_judge :: "(nat \<Rightarrow> bool) \<Rightarrow> nat \<Rightarrow> nat \<Rightarrow> nat \<Rightarrow> find_pc" where
  "reader_judge alive i rounds owner =
     (if owner = CLAIM_ANONYMOUS then
        if rounds + 1 \<ge> READER_UNRECORDED_ROUNDS then Found (Inl InternContended) else FindSpin i 0 (rounds + 1)
      else if owner \<noteq> CLAIM_UNRECORDED \<and> \<not> alive owner then Found (Inr None)
      else if owner = CLAIM_UNRECORDED then
        if rounds + 1 \<ge> READER_UNRECORDED_ROUNDS then Found (Inr None) else FindSpin i 0 (rounds + 1)
      else FindSpin i 0 rounds)"

fun find_step :: "(nat \<Rightarrow> bool) \<Rightarrow> name \<Rightarrow> nat \<Rightarrow> intern_table \<Rightarrow> find_pc \<Rightarrow> find_pc" where
  "find_step alive nm hash m (FindProbe i 0) = Found (Inr None)"
| "find_step alive nm hash m (FindProbe i (Suc k)) =
     (let cur = it_hashes m ! i
      in if cur = 0 then Found (Inr None)
         else if cur = hash then FindSpin i 0 0
         else FindProbe (next_slot m i) k)"
| "find_step alive nm hash m (FindSpin i spins rounds) =
     (let fid = it_ids m ! i
      in if fid \<noteq> ID_UNPUBLISHED then if fid = ID_FAILED then Found (Inr None) else FindResolve fid
         else if spins + 1 \<ge> INTERN_SPIN_LIMIT then FindClaimant i rounds
         else FindSpin i (spins + 1) rounds)"
| "find_step alive nm hash m (FindClaimant i rounds) = reader_judge alive i rounds (it_claiming m ! i)"
| "find_step alive nm hash m (FindResolve fid) = Found (map_sum id Some (resolve m nm hash fid))"
| "find_step alive nm hash m (Found r) = Found r"

subsection \<open>Interners running together\<close>

text \<open>Any number of interners, each at its own place, under any answers of the liveness predicate, even wrong
  ones; one that dies is never scheduled again. \<open>given\<close> counts the ids handed out within capacity.\<close>

record interner =
  in_name :: name
  in_me :: nat

record intern_sys =
  im :: intern_table
  ip :: "nat \<Rightarrow> (interner \<times> intern_pc) option"
  given :: nat

fun granted :: "intern_table \<Rightarrow> intern_pc \<Rightarrow> nat" where
  "granted m (Allocate i) = (if it_count m < it_capacity m then 1 else 0)"
| "granted m pc = 0"

inductive istep :: "(name \<Rightarrow> nat) \<Rightarrow> intern_sys \<Rightarrow> intern_sys \<Rightarrow> bool" for H where
  istart: "ip s t = None \<Longrightarrow> H (in_name x) \<noteq> 0 \<Longrightarrow> in_me x < CLAIM_ANONYMOUS \<Longrightarrow>
    istep H s (s\<lparr>ip := (ip s)(t := Some (x, intern_start (im s) (H (in_name x))))\<rparr>)"
| iaccess: "ip s t = Some (x, pc) \<Longrightarrow> intern_step alive (in_name x) (H (in_name x)) (in_me x) (pc, im s) = (pc', m') \<Longrightarrow>
    istep H s (s\<lparr>im := m', ip := (ip s)(t := Some (x, pc')), given := given s + granted (im s) pc\<rparr>)"
| ireturn: "ip s t = Some (x, Returned r) \<Longrightarrow> istep H s (s\<lparr>ip := (ip s)(t := None)\<rparr>)"

definition intern_table_new :: "nat \<Rightarrow> nat \<Rightarrow> intern_table" where
  "intern_table_new n cap = \<lparr>it_hashes = replicate n 0, it_ids = replicate n ID_UNPUBLISHED,
     it_claiming = replicate n CLAIM_UNRECORDED, it_count = 0, it_capacity = cap,
     it_records = replicate (cap + 1) (for_name [] 0)\<rparr>"

definition intern_init :: "nat \<Rightarrow> nat \<Rightarrow> intern_sys" where
  "intern_init n cap = \<lparr>im = intern_table_new n cap, ip = (\<lambda>_. None), given = 0\<rparr>"

subsection \<open>What a step can do\<close>

fun holds_id :: "intern_pc \<Rightarrow> nat option" where
  "holds_id (WriteRec i fid) = Some fid"
| "holds_id (Publish i fid) = Some fid"
| "holds_id pc = None"

fun undoing :: "intern_pc \<Rightarrow> bool" where
  "undoing (Undo i) = True"
| "undoing pc = False"

lemma judge_quiet [simp]: "holds_id (judge alive me i rounds owner) = None" "\<not> undoing (judge alive me i rounds owner)"
  by (simp_all add: judge_def)

lemma intern_step_cases:
  assumes "intern_step alive nm hash me (pc, m) = (pc', m')"
  obtains (quiet) cs where "m' = m\<lparr>it_claiming := cs\<rparr>" "holds_id pc = None" "holds_id pc' = None" "\<not> undoing pc" "\<not> undoing pc'"
      "granted m pc = 0"
  | (claim) i k where "pc = ClaimHash i k" "it_hashes m ! i = 0" "pc' = Mark i k" "m' = m\<lparr>it_hashes := (it_hashes m)[i := hash]\<rparr>"
  | (alloc) i where "pc = Allocate i" "it_count m < it_capacity m" "pc' = WriteRec i (it_count m + 1)"
      "m' = m\<lparr>it_count := it_count m + 1\<rparr>"
  | (full) i where "pc = Allocate i" "it_capacity m \<le> it_count m" "pc' = Undo i" "m' = m\<lparr>it_count := it_count m + 1\<rparr>"
  | (undo) i where "pc = Undo i" "pc' = Fail i" "m' = m\<lparr>it_count := it_count m - 1\<rparr>"
  | (fail) i where "pc = Fail i" "it_ids m ! i = ID_UNPUBLISHED" "pc' = Returned (Inl FrameCapacityExceeded)"
      "m' = m\<lparr>it_ids := (it_ids m)[i := ID_FAILED]\<rparr>"
  | (record_written) i fid where "pc = WriteRec i fid" "pc' = Publish i fid" "m' = write_record nm hash fid m"
  | (publish) i fid where "pc = Publish i fid" "it_ids m ! i = ID_UNPUBLISHED" "pc' = Returned (Inr fid)"
      "m' = m\<lparr>it_ids := (it_ids m)[i := fid]\<rparr>"
  | (lost) i fid where "pc = Publish i fid" "it_ids m ! i \<noteq> ID_UNPUBLISHED" "m' = m"
      "pc' = Resolve (it_ids m ! i) \<or> pc' = Returned (Inr fid) \<and> it_ids m ! i = fid"
proof -
  note keep = quiet [of "it_claiming m"]
  show thesis
  proof (cases pc)
    case (Probe i k)
    then show thesis using assms by (cases k) (auto intro!: keep simp: Let_def split: if_splits)
  next
    case (Room i k)
    then show thesis using assms by (auto intro!: keep split: if_splits)
  next
    case (ClaimHash i k)
    then show thesis using assms by (auto intro: keep claim simp: cas_at_def split: if_splits)
  next
    case (Mark i k)
    then show thesis using assms by (auto intro: keep quiet simp: cas_at_def split: if_splits)
  next
    case (Allocate i)
    then show thesis using assms by (auto intro: alloc full split: if_splits)
  next
    case (Undo i)
    then show thesis using assms by (auto intro: undo)
  next
    case (Fail i)
    then show thesis using assms by (auto intro: fail keep simp: cas_at_def split: if_splits)
  next
    case (WriteRec i fid)
    then show thesis using assms by (auto intro: record_written)
  next
    case (Publish i fid)
    then show thesis using assms by (auto intro: publish lost simp: cas_at_def split: if_splits)
  next
    case (Spin i sp rounds)
    then show thesis using assms by (auto intro!: keep simp: Let_def split: if_splits)
  next
    case (LoadClaimant i rounds)
    then show thesis using assms by (auto intro!: keep)
  next
    case (Takeover i owner rounds)
    then show thesis using assms by (auto intro: keep quiet simp: cas_at_def split: if_splits)
  next
    case (Recheck i)
    then show thesis using assms by (auto intro!: keep simp: Let_def split: if_splits)
  next
    case (Resolve fid)
    then show thesis using assms by (auto intro!: keep)
  next
    case (Returned r)
    then show thesis using assms by (auto intro!: keep)
  qed
qed

subsection \<open>Ids are handed out once\<close>

definition held :: "intern_sys \<Rightarrow> nat \<Rightarrow> nat option" where
  "held s t = (case ip s t of None \<Rightarrow> None | Some (x, pc) \<Rightarrow> holds_id pc)"

definition undoers :: "intern_sys \<Rightarrow> nat set" where
  "undoers s = {t. case ip s t of None \<Rightarrow> False | Some (x, pc) \<Rightarrow> undoing pc}"

text \<open>An id proper, neither of the two sentinels.\<close>

definition real_id :: "nat \<Rightarrow> bool" where
  "real_id fid \<longleftrightarrow> fid \<noteq> ID_UNPUBLISHED \<and> fid \<noteq> ID_FAILED"

definition ids_distinct :: "nat list \<Rightarrow> bool" where
  "ids_distinct ids \<longleftrightarrow>
     (\<forall>i < length ids. \<forall>j < length ids. ids ! i = ids ! j \<and> real_id (ids ! i) \<longrightarrow> i = j)"

lemma ids_distinct_store:
  assumes "ids_distinct ids" "real_id fid \<longrightarrow> fid \<notin> set ids"
  shows "ids_distinct (ids[i := fid])"
  unfolding ids_distinct_def
proof (intro allI impI, elim conjE)
  fix a b assume ab: "a < length (ids[i := fid])" "b < length (ids[i := fid])" "ids[i := fid] ! a = ids[i := fid] ! b"
    "real_id (ids[i := fid] ! a)"
  consider "a = i" | "b = i" | "a \<noteq> i" "b \<noteq> i" by blast
  then show "a = b"
  proof cases
    case 1
    then show ?thesis using ab assms(2) nth_mem [of b ids] by (cases "b = i") (auto simp: nth_list_update)
  next
    case 2
    then show ?thesis using ab assms(2) nth_mem [of a ids] by (cases "a = i") (auto simp: nth_list_update)
  next
    case 3
    then show ?thesis using ab assms(1) by (simp add: ids_distinct_def)
  qed
qed

text \<open>The books of the allocator: who is taking its increment back, the counter, the ids handed out, who
  holds which, and the ids published.\<close>

definition books_ok :: "nat set \<Rightarrow> nat \<Rightarrow> nat \<Rightarrow> nat \<Rightarrow> (nat \<Rightarrow> nat option) \<Rightarrow> nat list \<Rightarrow> bool" where
  "books_ok U n g cap h ids \<longleftrightarrow>
     finite U \<and> n = g + card U \<and> g \<le> cap \<and> (U \<noteq> {} \<longrightarrow> g = cap) \<and> cap < ID_FAILED \<and>
     (\<forall>t fid. h t = Some fid \<longrightarrow> 0 < fid \<and> fid \<le> g \<and> fid \<notin> set ids) \<and>
     (\<forall>t t' fid. h t = Some fid \<and> h t' = Some fid \<longrightarrow> t = t') \<and>
     (\<forall>fid \<in> set ids. real_id fid \<longrightarrow> fid \<le> g) \<and> ids_distinct ids"

lemma books_release: "books_ok U n g cap h ids \<Longrightarrow> books_ok U n g cap (h(t := None)) ids"
  by (simp add: books_ok_def)

lemma books_hold: "books_ok U n g cap h ids \<Longrightarrow> h t = x \<Longrightarrow> books_ok U n g cap (h(t := x)) ids"
  by (metis fun_upd_triv)

lemma books_alloc:
  assumes ok: "books_ok U n g cap h ids" and room: "n < cap"
  shows "books_ok U (n + 1) (g + 1) cap (h(t := Some (n + 1))) ids"
proof -
  have "U = {}"
  proof (rule ccontr)
    assume "U \<noteq> {}"
    then have "g = cap" "n = g + card U" using ok by (simp_all add: books_ok_def)
    then show False using room by simp
  qed
  then have U: "U = {}" "n = g" using ok by (simp_all add: books_ok_def)
  have "n + 1 \<notin> set ids"
  proof
    assume "n + 1 \<in> set ids"
    moreover have "real_id (n + 1)" using ok room by (simp add: books_ok_def real_id_def ID_UNPUBLISHED_def)
    ultimately have "n + 1 \<le> g" using ok by (auto simp: books_ok_def)
    then show False using U by simp
  qed
  moreover have "h q \<noteq> Some (n + 1)" for q
  proof
    assume "h q = Some (n + 1)"
    then have "n + 1 \<le> g" using ok by (auto simp: books_ok_def)
    then show False using U by simp
  qed
  ultimately show ?thesis
    using ok room U unfolding books_ok_def by (auto split: if_splits intro: le_SucI)
qed

lemma books_full:
  assumes ok: "books_ok U n g cap h ids" and full: "cap \<le> n" and t: "t \<notin> U"
  shows "books_ok (insert t U) (n + 1) g cap h ids"
proof -
  have "g = cap" using ok full by (cases "U = {}") (auto simp: books_ok_def)
  then show ?thesis using ok t unfolding books_ok_def by simp
qed

lemma books_undo:
  assumes ok: "books_ok U n g cap h ids" and t: "t \<in> U"
  shows "books_ok (U - {t}) (n - 1) g cap h ids"
proof -
  have "card U = Suc (card (U - {t}))" using ok t unfolding books_ok_def by (metis card_Suc_Diff1)
  then have "n - 1 = g + card (U - {t})" "finite (U - {t})" "g = cap" using ok t by (auto simp: books_ok_def)
  then show ?thesis using ok by (simp add: books_ok_def)
qed

lemma books_store:
  assumes ok: "books_ok U n g cap h ids" and i: "i < length ids" and fid: "fid = ID_FAILED \<or> h t = Some fid"
  shows "books_ok U n g cap (h(t := None)) (ids[i := fid])"
proof -
  have sub: "set (ids[i := fid]) \<subseteq> insert fid (set ids)" by (rule set_update_subset_insert)
  have small: "fid' \<noteq> ID_FAILED" if "h q = Some fid'" for q fid'
  proof -
    have "fid' \<le> g" using ok that by (auto simp: books_ok_def)
    then show ?thesis using ok by (auto simp: books_ok_def)
  qed
  have "fid' \<notin> set (ids[i := fid])" if "q \<noteq> t" "h q = Some fid'" for q fid'
  proof -
    have "fid' \<notin> set ids" using ok that by (auto simp: books_ok_def)
    moreover have "fid' \<noteq> fid" using fid that small ok unfolding books_ok_def by blast
    ultimately show ?thesis using sub by auto
  qed
  moreover have "f \<le> g" if "f \<in> set (ids[i := fid])" "real_id f" for f
    using that sub ok fid unfolding books_ok_def by (auto simp: real_id_def)
  moreover have "ids_distinct (ids[i := fid])"
    using ok fid by (intro ids_distinct_store) (auto simp: books_ok_def real_id_def)
  ultimately show ?thesis using ok unfolding books_ok_def by (auto split: if_splits)
qed

definition ids_ok :: "intern_sys \<Rightarrow> bool" where
  "ids_ok s \<longleftrightarrow> books_ok (undoers s) (it_count (im s)) (given s) (it_capacity (im s)) (held s) (it_ids (im s))"

lemma held_upd: "held (s\<lparr>im := m', ip := (ip s)(t := Some (x, pc')), given := g\<rparr>) = (held s)(t := holds_id pc')"
  by (rule ext) (simp add: held_def)

lemma undoers_upd: "undoers (s\<lparr>im := m', ip := (ip s)(t := Some (x, pc')), given := g\<rparr>) =
    (if undoing pc' then insert t (undoers s) else undoers s - {t})"
  by (auto simp: undoers_def)

lemma held_ip: "ip s t = Some (x, pc) \<Longrightarrow> held s t = holds_id pc"
  by (simp add: held_def)

lemma undoers_ip: "ip s t = Some (x, pc) \<Longrightarrow> t \<in> undoers s \<longleftrightarrow> undoing pc"
  by (simp add: undoers_def)

text \<open>Only these two store into \<open>ids\<close>.\<close>

definition in_slots :: "intern_table \<Rightarrow> intern_pc \<Rightarrow> bool" where
  "in_slots m pc \<longleftrightarrow> (case pc of Fail i \<Rightarrow> i < length (it_ids m) | Publish i fid \<Rightarrow> i < length (it_ids m) | _ \<Rightarrow> True)"

lemma ids_ok_step:
  assumes ok: "ids_ok s" and t: "ip s t = Some (x, pc)" and slots: "in_slots (im s) pc"
    and step: "intern_step alive nm hash me (pc, im s) = (pc', m')"
  shows "ids_ok (s\<lparr>im := m', ip := (ip s)(t := Some (x, pc')), given := given s + granted (im s) pc\<rparr>)"
proof -
  note tu = undoers_ip [OF t] and th = held_ip [OF t] and ok' = ok [unfolded ids_ok_def]
  have stay: "undoers s - {t} = undoers s" if "\<not> undoing pc" using that tu by auto
  have "books_ok (if undoing pc' then insert t (undoers s) else undoers s - {t}) (it_count m')
      (given s + granted (im s) pc) (it_capacity m') ((held s)(t := holds_id pc')) (it_ids m')"
    using step
  proof (cases rule: intern_step_cases)
    case (quiet cs)
    then show ?thesis using books_release [OF ok'] stay by simp
  next
    case (claim i k)
    then show ?thesis using books_release [OF ok'] stay by simp
  next
    case (alloc i)
    then show ?thesis using books_alloc [OF ok'] stay by simp
  next
    case (full i)
    then show ?thesis using books_full [OF books_release [OF ok']] tu by simp
  next
    case (undo i)
    then show ?thesis using books_undo [OF books_release [OF ok']] tu by simp
  next
    case (fail i)
    then show ?thesis using books_store [OF ok', of i ID_FAILED t] stay slots by (simp add: in_slots_def)
  next
    case (record_written i fid)
    then show ?thesis using books_hold [OF ok' th] stay by (simp add: write_record_def)
  next
    case (publish i fid)
    then show ?thesis using books_store [OF ok', of i fid t] th stay slots by (simp add: in_slots_def)
  next
    case (lost i fid)
    then show ?thesis using books_release [OF ok'] stay by auto
  qed
  then show ?thesis unfolding ids_ok_def held_upd undoers_upd by simp
qed

subsection \<open>One slot per hash\<close>

text \<open>Slot \<open>i\<close> is where a probe for \<open>h\<close> stands after \<open>d\<close> slots that were taken by other hashes.\<close>

definition reaches :: "intern_table \<Rightarrow> nat \<Rightarrow> nat \<Rightarrow> nat \<Rightarrow> bool" where
  "reaches m h d i \<longleftrightarrow> i = (h + d) mod length (it_hashes m) \<and>
     (\<forall>j < d. it_hashes m ! ((h + j) mod length (it_hashes m)) \<notin> {0, h})"

definition slot_ok :: "(name \<Rightarrow> nat) \<Rightarrow> intern_table \<Rightarrow> nat \<Rightarrow> bool" where
  "slot_ok H m i \<longleftrightarrow>
     (it_hashes m ! i \<noteq> 0 \<longrightarrow> (\<exists>d. reaches m (it_hashes m ! i) d i)) \<and>
     (it_hashes m ! i = 0 \<longrightarrow> it_ids m ! i = ID_UNPUBLISHED) \<and>
     (real_id (it_ids m ! i) \<longrightarrow> it_ids m ! i < length (it_records m) \<and>
        (\<exists>a. H a = it_hashes m ! i \<and> it_records m ! (it_ids m ! i) = for_name a (H a)))"

definition shape_ok :: "intern_table \<Rightarrow> bool" where
  "shape_ok m \<longleftrightarrow> is_power_of_two (length (it_hashes m)) \<and> length (it_ids m) = length (it_hashes m) \<and>
     length (it_claiming m) = length (it_hashes m) \<and> length (it_records m) = it_capacity m + 1"

definition tab_ok :: "(name \<Rightarrow> nat) \<Rightarrow> intern_table \<Rightarrow> bool" where
  "tab_ok H m \<longleftrightarrow> shape_ok m \<and> (\<forall>i < length (it_hashes m). slot_ok H m i)"

lemma reaches_frame [simp]:
  "reaches (m\<lparr>it_ids := xs\<rparr>) = reaches m" "reaches (m\<lparr>it_claiming := xs\<rparr>) = reaches m"
  "reaches (m\<lparr>it_count := n\<rparr>) = reaches m" "reaches (m\<lparr>it_records := rs\<rparr>) = reaches m"
  by (simp_all add: reaches_def fun_eq_iff)

text \<open>What never changes again.\<close>

definition evolves :: "intern_table \<Rightarrow> intern_table \<Rightarrow> bool" where
  "evolves m m' \<longleftrightarrow> length (it_hashes m') = length (it_hashes m) \<and> it_capacity m' = it_capacity m \<and>
     length (it_records m') = length (it_records m) \<and>
     (\<forall>i < length (it_hashes m). it_hashes m ! i \<noteq> 0 \<longrightarrow> it_hashes m' ! i = it_hashes m ! i) \<and>
     (\<forall>i < length (it_hashes m). it_ids m ! i \<noteq> ID_UNPUBLISHED \<longrightarrow> it_ids m' ! i = it_ids m ! i) \<and>
     (\<forall>i < length (it_hashes m). real_id (it_ids m ! i) \<longrightarrow> it_records m' ! (it_ids m ! i) = it_records m ! (it_ids m ! i))"

text \<open>An entry for \<open>h\<close>, and one with its id published.\<close>

definition entry_at :: "intern_table \<Rightarrow> nat \<Rightarrow> nat \<Rightarrow> bool" where
  "entry_at m h i \<longleftrightarrow> i < length (it_hashes m) \<and> it_hashes m ! i = h"

definition published_id :: "intern_table \<Rightarrow> nat \<Rightarrow> nat \<Rightarrow> bool" where
  "published_id m h fid \<longleftrightarrow> (\<exists>i. entry_at m h i \<and> it_ids m ! i = fid) \<and> fid \<noteq> ID_UNPUBLISHED"

definition pc_ok :: "(name \<Rightarrow> nat) \<Rightarrow> intern_table \<Rightarrow> interner \<Rightarrow> intern_pc \<Rightarrow> bool" where
  "pc_ok H m x pc \<longleftrightarrow> (let h = H (in_name x) in 0 < h \<and>
     (case pc of
        Probe i k \<Rightarrow> \<exists>d. reaches m h d i
      | Room i k \<Rightarrow> \<exists>d. reaches m h d i
      | ClaimHash i k \<Rightarrow> \<exists>d. reaches m h d i
      | Mark i k \<Rightarrow> entry_at m h i \<and> (\<exists>d. reaches m h d i)
      | Allocate i \<Rightarrow> entry_at m h i
      | Undo i \<Rightarrow> entry_at m h i
      | Fail i \<Rightarrow> entry_at m h i
      | WriteRec i fid \<Rightarrow> entry_at m h i \<and> fid < length (it_records m)
      | Publish i fid \<Rightarrow> entry_at m h i \<and> fid < length (it_records m) \<and> it_records m ! fid = for_name (in_name x) h
      | Spin i spins rounds \<Rightarrow> entry_at m h i
      | LoadClaimant i rounds \<Rightarrow> entry_at m h i
      | Takeover i owner rounds \<Rightarrow> entry_at m h i
      | Recheck i \<Rightarrow> entry_at m h i
      | Resolve fid \<Rightarrow> published_id m h fid
      | Returned r \<Rightarrow> (case r of Inl e \<Rightarrow> True
          | Inr fid \<Rightarrow> published_id m h fid \<and> real_id fid \<and> matches_id m (in_name x) fid)))"

lemma slot_mod:
  assumes "is_power_of_two (length (it_hashes m))"
  shows "home m h = h mod length (it_hashes m)" "next_slot m i = (i + 1) mod length (it_hashes m)"
  using mask_eq_mod [OF assms] by (simp_all add: home_def next_slot_def slot_mask_def)

lemma reaches_next:
  assumes "is_power_of_two (length (it_hashes m))" "reaches m h d i" "it_hashes m ! i \<notin> {0, h}"
  shows "reaches m h (Suc d) (next_slot m i)"
  using assms(2,3) unfolding reaches_def slot_mod(2) [OF assms(1)]
  by (auto simp: less_Suc_eq mod_simps)

lemma reaches_less: "is_power_of_two (length (it_hashes m)) \<Longrightarrow> reaches m h d i \<Longrightarrow> i < length (it_hashes m)"
  using is_power_of_two_pos [of "length (it_hashes m)"] mod_less_divisor [of "length (it_hashes m)" "h + d"]
  by (simp add: reaches_def)

text \<open>Two entries for one hash are the same.\<close>

lemma entry_unique:
  assumes "tab_ok H m" "entry_at m h i" "entry_at m h j" "h \<noteq> 0"
  shows "i = j"
proof -
  have "\<exists>d. reaches m h d l" if "entry_at m h l" for l
    using assms(1,4) that by (auto simp: tab_ok_def slot_ok_def entry_at_def)
  then obtain d e where d: "reaches m h d i" "reaches m h e j" using assms(2,3) by blast
  have "\<not> d < e" "\<not> e < d" using d assms by (auto simp: reaches_def entry_at_def)
  then show ?thesis using d by (simp add: reaches_def)
qed

lemma reaches_stays:
  assumes "reaches m h d i" "evolves m m'" "is_power_of_two (length (it_hashes m))"
  shows "reaches m' h d i"
proof -
  have "0 < length (it_hashes m)" using assms(3) by (rule is_power_of_two_pos)
  then show ?thesis using assms(1,2) by (simp add: reaches_def evolves_def)
qed

lemma entry_stays: "entry_at m h i \<Longrightarrow> 0 < h \<Longrightarrow> evolves m m' \<Longrightarrow> entry_at m' h i"
  by (auto simp: entry_at_def evolves_def)

lemma published_stays: "published_id m h fid \<Longrightarrow> 0 < h \<Longrightarrow> evolves m m' \<Longrightarrow> published_id m' h fid"
  by (auto simp: published_id_def entry_at_def evolves_def)

lemma matches_stays:
  assumes "published_id m h fid" "real_id fid" "evolves m m'" "matches_id m nm fid"
  shows "matches_id m' nm fid"
  using assms by (auto simp: published_id_def entry_at_def evolves_def matches_id_def)

lemma pc_ok_stays:
  assumes "pc_ok H m x pc" "evolves m m'" "is_power_of_two (length (it_hashes m))"
    and "\<forall>fid. holds_id pc = Some fid \<longrightarrow> it_records m' ! fid = it_records m ! fid"
  shows "pc_ok H m' x pc"
proof -
  have "length (it_records m') = length (it_records m)" using assms(2) by (simp add: evolves_def)
  then show ?thesis
    using assms reaches_stays [OF _ assms(2,3)] entry_stays [OF _ _ assms(2)] published_stays [OF _ _ assms(2)]
      matches_stays [OF _ _ assms(2)]
    unfolding pc_ok_def Let_def by (cases pc) (auto split: sum.splits)
qed

lemma evolves_refl [simp]: "evolves m m" "evolves m (m\<lparr>it_claiming := cs\<rparr>)" "evolves m (m\<lparr>it_count := n\<rparr>)"
  by (simp_all add: evolves_def)

lemma tab_ok_quiet:
  "tab_ok H m \<Longrightarrow> length cs = length (it_claiming m) \<Longrightarrow> tab_ok H (m\<lparr>it_claiming := cs\<rparr>)"
  "tab_ok H (m\<lparr>it_count := n\<rparr>) = tab_ok H m"
proof -
  have "slot_ok H (m\<lparr>it_claiming := cs\<rparr>) = slot_ok H m" "slot_ok H (m\<lparr>it_count := n\<rparr>) = slot_ok H m" for cs n
    by (simp_all add: slot_ok_def fun_eq_iff)
  then show "tab_ok H m \<Longrightarrow> length cs = length (it_claiming m) \<Longrightarrow> tab_ok H (m\<lparr>it_claiming := cs\<rparr>)"
    "tab_ok H (m\<lparr>it_count := n\<rparr>) = tab_ok H m"
    by (simp_all add: tab_ok_def shape_ok_def)
qed

lemma tab_ok_power [simp]: "tab_ok H m \<Longrightarrow> is_power_of_two (length (it_hashes m))"
  by (simp add: tab_ok_def shape_ok_def)

text \<open>A hash that takes the empty slot its probe has reached.\<close>

lemma claim_ok:
  assumes ok: "tab_ok H m" and r: "reaches m h d i" and free: "it_hashes m ! i = 0" and h: "0 < h"
  defines "m' \<equiv> m\<lparr>it_hashes := (it_hashes m)[i := h]\<rparr>"
  shows "tab_ok H m'" "evolves m m'" "entry_at m' h i" "reaches m' h d i"
proof -
  let ?len = "length (it_hashes m)"
  have p2: "is_power_of_two ?len" using ok by simp
  have i: "i < ?len" using reaches_less [OF p2 r] .
  have "it_hashes m' ! l = it_hashes m ! l" if "it_hashes m ! l \<noteq> 0" for l
    using free that by (cases "l = i") (simp_all add: m'_def)
  then show ev: "evolves m m'" by (simp add: evolves_def) (simp add: m'_def)
  show "entry_at m' h i" using i by (simp add: entry_at_def m'_def)
  show r': "reaches m' h d i" using reaches_stays [OF r ev p2] .
  have "slot_ok H m' l" if l: "l < ?len" for l
  proof (cases "l = i")
    case True
    moreover have "\<not> real_id (it_ids m ! i)" using ok free i by (simp add: tab_ok_def slot_ok_def real_id_def)
    ultimately show ?thesis using r' i h by (auto simp: slot_ok_def m'_def)
  next
    case False
    have "slot_ok H m l" using ok l by (simp add: tab_ok_def)
    then show ?thesis using False reaches_stays [OF _ ev p2] by (fastforce simp: slot_ok_def m'_def)
  qed
  then show "tab_ok H m'" using ok by (simp add: tab_ok_def shape_ok_def m'_def)
qed

lemma publish_ok:
  assumes ok: "tab_ok H m" and e: "entry_at m h i" "0 < h" "it_ids m ! i = ID_UNPUBLISHED"
    and fid: "real_id fid \<longrightarrow> fid < length (it_records m) \<and> (\<exists>a. H a = h \<and> it_records m ! fid = for_name a (H a))"
  shows "tab_ok H (m\<lparr>it_ids := (it_ids m)[i := fid]\<rparr>)" "evolves m (m\<lparr>it_ids := (it_ids m)[i := fid]\<rparr>)"
proof -
  let ?m = "m\<lparr>it_ids := (it_ids m)[i := fid]\<rparr>"
  have len: "i < length (it_ids m)" using ok e(1) by (simp add: tab_ok_def shape_ok_def entry_at_def)
  have "it_ids ?m ! l = it_ids m ! l" if "it_ids m ! l \<noteq> ID_UNPUBLISHED" for l
    using e(3) that by (cases "l = i") simp_all
  then show "evolves m ?m" by (simp add: evolves_def)
  have "slot_ok H ?m l" if "l < length (it_hashes m)" for l
  proof -
    have "slot_ok H m l" using ok that by (simp add: tab_ok_def)
    then show ?thesis using e len fid by (cases "l = i") (auto simp: slot_ok_def entry_at_def)
  qed
  then show "tab_ok H ?m" using ok by (simp add: tab_ok_def shape_ok_def)
qed

lemma write_record_ok:
  assumes ok: "tab_ok H m" and fid: "fid \<notin> set (it_ids m)"
  shows "tab_ok H (write_record nm h fid m)" "evolves m (write_record nm h fid m)"
proof -
  let ?m = "write_record nm h fid m"
  have other: "it_records ?m ! (it_ids m ! i) = it_records m ! (it_ids m ! i)" if "i < length (it_hashes m)" for i
  proof -
    have "it_ids m ! i \<noteq> fid" using fid that ok nth_mem [of i "it_ids m"] by (auto simp: tab_ok_def shape_ok_def)
    then show ?thesis by (simp add: write_record_def)
  qed
  have same: "it_hashes ?m = it_hashes m" "it_ids ?m = it_ids m" "it_capacity ?m = it_capacity m"
    "it_claiming ?m = it_claiming m" "length (it_records ?m) = length (it_records m)" "reaches ?m = reaches m"
    by (simp_all add: write_record_def)
  show "evolves m ?m" using other by (simp add: evolves_def same)
  have "slot_ok H ?m i" if "i < length (it_hashes m)" for i
    using ok other [OF that] that by (simp add: tab_ok_def slot_ok_def same)
  then show "tab_ok H ?m" using ok unfolding tab_ok_def shape_ok_def same by simp
qed

lemma intern_step_length:
  "intern_step alive nm h me (pc, m) = (pc', m') \<Longrightarrow> length (it_claiming m') = length (it_claiming m)"
  by (cases "(alive, nm, h, me, pc, m)" rule: intern_step.cases)
    (auto simp: cas_at_def Let_def write_record_def split: if_splits)

lemma intern_step_ok:
  assumes ok: "tab_ok H m" and pc: "pc_ok H m x pc" and cap: "it_capacity m < ID_FAILED"
    and fresh: "\<forall>fid. holds_id pc = Some fid \<longrightarrow> real_id fid \<and> fid \<notin> set (it_ids m)"
    and step: "intern_step alive (in_name x) (H (in_name x)) (in_me x) (pc, m) = (pc', m')"
  shows "tab_ok H m' \<and> evolves m m' \<and>
    (\<forall>fid. holds_id pc \<noteq> Some fid \<longrightarrow> fid < length (it_records m) \<longrightarrow> it_records m' ! fid = it_records m ! fid)"
  using step
proof (cases rule: intern_step_cases)
  case (quiet cs)
  then show ?thesis using tab_ok_quiet(1) [OF ok] intern_step_length [OF step] by simp
next
  case (claim i k)
  then obtain d where "reaches m (H (in_name x)) d i" "0 < H (in_name x)" using pc by (auto simp: pc_ok_def Let_def)
  then show ?thesis using claim claim_ok(1,2) [OF ok _ claim(2)] by auto
next
  case (fail i)
  then show ?thesis using pc publish_ok [OF ok, of "H (in_name x)" i ID_FAILED] by (auto simp: pc_ok_def Let_def real_id_def)
next
  case (record_written i fid)
  then show ?thesis using write_record_ok [OF ok, of fid] fresh by (auto simp: write_record_def)
next
  case (publish i fid)
  then show ?thesis using pc publish_ok [OF ok, of "H (in_name x)" i fid] by (auto simp: pc_ok_def Let_def)
qed (use ok in \<open>auto simp: tab_ok_quiet\<close>)

text \<open>Where the interner itself has got to.\<close>

lemma pc_ok_judge: "pc_ok H m x (judge alive me i rounds owner) = (0 < H (in_name x) \<and>
    (entry_at m (H (in_name x)) i \<or> judge alive me i rounds owner = Returned (Inl InternContended)))"
  by (simp add: judge_def pc_ok_def Let_def)

lemma resolve_Inr: "resolve m nm h fid = Inr f \<longleftrightarrow> f = fid \<and> fid \<noteq> ID_FAILED \<and> matches_id m nm fid"
  by (auto simp: resolve_def)

lemma pc_ok_access:
  assumes ok: "tab_ok H m" and pc: "pc_ok H m x pc" and cap: "it_capacity m < ID_FAILED"
    and fresh: "\<forall>fid. holds_id pc = Some fid \<longrightarrow> real_id fid \<and> fid \<notin> set (it_ids m)"
    and step: "intern_step alive (in_name x) (H (in_name x)) (in_me x) (pc, m) = (pc', m')"
  shows "pc_ok H m' x pc'"
proof -
  let ?h = "H (in_name x)"
  have h: "0 < ?h" using pc by (simp add: pc_ok_def Let_def)
  have p2: "is_power_of_two (length (it_hashes m))" using ok by simp
  have pub: "published_id m ?h (it_ids m ! i)" if "entry_at m ?h i" "it_ids m ! i \<noteq> ID_UNPUBLISHED" for i
    using that by (auto simp: published_id_def)
  have slot: "i < length (it_ids m)" if "entry_at m ?h i" for i
    using that ok by (simp add: entry_at_def tab_ok_def shape_ok_def)
  note defs = pc_ok_def Let_def cas_at_def entry_at_def published_id_def
  show ?thesis
  proof (cases pc)
    case (Probe i k)
    then obtain d where d: "reaches m ?h d i" using pc by (auto simp: defs)
    then have "i < length (it_hashes m)" using reaches_less [OF p2] by simp
    moreover have "\<exists>d. reaches m ?h d (next_slot m i)" if "it_hashes m ! i \<noteq> 0" "it_hashes m ! i \<noteq> ?h"
      using reaches_next [OF p2 d] that by auto
    ultimately show ?thesis using Probe step d h by (cases k) (auto simp: defs split: if_splits)
  next
    case (Room i k)
    then show ?thesis using step pc by (auto simp: pc_ok_def Let_def split: if_splits)
  next
    case (ClaimHash i k)
    then obtain d where d: "reaches m ?h d i" using pc by (auto simp: defs)
    show ?thesis
    proof (cases "it_hashes m ! i = 0")
      case True
      then show ?thesis
        using ClaimHash step h claim_ok(3,4) [OF ok d True h] by (auto simp: pc_ok_def Let_def cas_at_def)
    next
      case False
      then show ?thesis using ClaimHash step pc by (auto simp: pc_ok_def Let_def cas_at_def)
    qed
  next
    case (Mark i k)
    then show ?thesis using step pc by (auto simp: pc_ok_def Let_def cas_at_def entry_at_def split: if_splits)
  next
    case (Allocate i)
    then show ?thesis
      using step pc ok by (auto simp: pc_ok_def Let_def entry_at_def tab_ok_def shape_ok_def split: if_splits)
  next
    case (Undo i)
    then show ?thesis using step pc by (auto simp: pc_ok_def Let_def entry_at_def)
  next
    case (Fail i)
    then show ?thesis using step pc pub by (auto simp: pc_ok_def Let_def cas_at_def split: if_splits)
  next
    case (WriteRec i fid)
    then show ?thesis using step pc by (auto simp: pc_ok_def Let_def entry_at_def write_record_def)
  next
    case (Publish i fid)
    then have e: "entry_at m ?h i" "it_records m ! fid = for_name (in_name x) ?h" "fid < length (it_records m)"
      using pc by (simp_all add: pc_ok_def Let_def)
    have f: "real_id fid" "fid \<notin> set (it_ids m)" using fresh Publish by simp_all
    then have "it_ids m ! i \<noteq> fid" using slot [OF e(1)] nth_mem by metis
    then show ?thesis
      using Publish step e f h pub [OF e(1)] slot [OF e(1)]
      by (auto simp: defs matches_id_def name_matches_for_name real_id_def intro!: exI [of _ i] split: if_splits)
  next
    case (Spin i spins rounds)
    then show ?thesis using step pc pub by (auto simp: pc_ok_def Let_def split: if_splits)
  next
    case (LoadClaimant i rounds)
    then have "0 < ?h" "entry_at m ?h i" using pc by (simp_all add: pc_ok_def Let_def)
    then show ?thesis using LoadClaimant step by (auto simp: pc_ok_judge)
  next
    case (Takeover i owner rounds)
    then show ?thesis using step pc by (auto simp: pc_ok_def Let_def cas_at_def entry_at_def split: if_splits)
  next
    case (Recheck i)
    then show ?thesis using step pc pub by (auto simp: pc_ok_def Let_def split: if_splits)
  next
    case (Resolve fid)
    then show ?thesis
      using step pc by (auto simp: pc_ok_def Let_def resolve_Inr real_id_def published_id_def split: sum.splits)
  next
    case (Returned r)
    then show ?thesis using step pc by simp
  qed
qed

definition intern_ok :: "(name \<Rightarrow> nat) \<Rightarrow> intern_sys \<Rightarrow> bool" where
  "intern_ok H s \<longleftrightarrow> tab_ok H (im s) \<and> ids_ok s \<and> (\<forall>t x pc. ip s t = Some (x, pc) \<longrightarrow> pc_ok H (im s) x pc)"

lemma ids_ok_fresh:
  assumes "ids_ok s" "held s t = Some fid"
  shows "real_id fid" "fid \<notin> set (it_ids (im s))" "held s q = Some fid \<Longrightarrow> q = t"
proof -
  have b: "books_ok (undoers s) (it_count (im s)) (given s) (it_capacity (im s)) (held s) (it_ids (im s))"
    using assms(1) by (simp add: ids_ok_def)
  have "0 < fid \<and> fid \<le> given s \<and> fid \<notin> set (it_ids (im s))" using b assms(2) unfolding books_ok_def by blast
  then show "real_id fid" "fid \<notin> set (it_ids (im s))"
    using b by (auto simp: books_ok_def real_id_def ID_UNPUBLISHED_def)
  show "held s q = Some fid \<Longrightarrow> q = t" using b assms(2) unfolding books_ok_def by blast
qed

lemma intern_ok_step:
  assumes ok: "intern_ok H s" and step: "istep H s s'"
  shows "intern_ok H s' \<and> evolves (im s) (im s')"
  using step
proof cases
  case (istart t x)
  have "held s' = held s" "undoers s' = undoers s"
    using istart by (auto simp: held_def undoers_def fun_eq_iff intern_start_def)
  then have "ids_ok s'" using ok istart(1) by (simp add: intern_ok_def ids_ok_def)
  moreover have "pc_ok H (im s) x (intern_start (im s) (H (in_name x)))"
    using ok istart(3) slot_mod(1) by (auto simp: intern_ok_def pc_ok_def Let_def intern_start_def reaches_def intro!: exI [of _ 0])
  ultimately show ?thesis using ok istart by (auto simp: intern_ok_def)
next
  case (iaccess t x pc alive pc' m')
  have tab: "tab_ok H (im s)" and ids: "ids_ok s" and pc: "pc_ok H (im s) x pc"
    using ok iaccess(2) by (auto simp: intern_ok_def)
  have cap: "it_capacity (im s) < ID_FAILED" using ids by (simp add: ids_ok_def books_ok_def)
  have fresh: "\<forall>fid. holds_id pc = Some fid \<longrightarrow> real_id fid \<and> fid \<notin> set (it_ids (im s))"
    using ids_ok_fresh [OF ids] held_ip [OF iaccess(2)] by auto
  have "in_slots (im s) pc"
    using pc tab by (cases pc) (auto simp: in_slots_def pc_ok_def Let_def entry_at_def tab_ok_def shape_ok_def)
  then have ids': "ids_ok s'" using ids_ok_step [OF ids iaccess(2) _ iaccess(3)] iaccess(1) by simp
  note st = intern_step_ok [OF tab pc cap fresh iaccess(3)]
  have "pc_ok H m' y qc" if q: "q \<noteq> t" "ip s q = Some (y, qc)" for q y qc
  proof -
    have "pc_ok H (im s) y qc" using ok q(2) by (simp add: intern_ok_def)
    moreover have "it_records m' ! fid = it_records (im s) ! fid" if "holds_id qc = Some fid" for fid
    proof -
      have "held s q = Some fid" using held_ip [OF q(2)] that by simp
      then have "holds_id pc \<noteq> Some fid" using ids_ok_fresh(3) [OF ids] held_ip [OF iaccess(2)] q(1) by metis
      moreover have "fid < length (it_records (im s))"
        using \<open>pc_ok H (im s) y qc\<close> that by (cases qc) (auto simp: pc_ok_def Let_def)
      ultimately show ?thesis using st by blast
    qed
    ultimately show ?thesis using pc_ok_stays st tab tab_ok_power by blast
  qed
  moreover have "pc_ok H m' x pc'" using pc_ok_access [OF tab pc cap fresh iaccess(3)] .
  ultimately show ?thesis using st ids' iaccess(1) by (auto simp: intern_ok_def)
next
  case (ireturn t x r)
  have "held s' = held s" "undoers s' = undoers s"
    using ireturn by (auto simp: held_def undoers_def fun_eq_iff)
  then have "ids_ok s'" using ok ireturn(1) by (simp add: intern_ok_def ids_ok_def)
  then show ?thesis using ok ireturn by (auto simp: intern_ok_def)
qed

lemma intern_init_ok: "is_power_of_two n \<Longrightarrow> cap < ID_FAILED \<Longrightarrow> intern_ok H (intern_init n cap)"
  by (auto simp: intern_ok_def tab_ok_def shape_ok_def slot_ok_def ids_ok_def books_ok_def intern_init_def intern_table_new_def
      held_def undoers_def real_id_def ids_distinct_def)

lemma evolves_id: "evolves a b \<Longrightarrow> i < length (it_hashes a) \<Longrightarrow> it_ids a ! i \<noteq> ID_UNPUBLISHED \<Longrightarrow> it_ids b ! i = it_ids a ! i"
  by (simp add: evolves_def)

lemma evolves_record:
  "evolves a b \<Longrightarrow> i < length (it_hashes a) \<Longrightarrow> it_ids a ! i = fid \<Longrightarrow> real_id fid \<Longrightarrow> it_records b ! fid = it_records a ! fid"
  by (auto simp: evolves_def)

lemma evolves_hash: "evolves a b \<Longrightarrow> i < length (it_hashes a) \<Longrightarrow> it_hashes a ! i \<noteq> 0 \<Longrightarrow> it_hashes b ! i = it_hashes a ! i"
  by (simp add: evolves_def)

lemma evolves_trans:
  assumes "evolves a b" "evolves b c"
  shows "evolves a c"
proof -
  have len: "length (it_hashes b) = length (it_hashes a)" using assms(1) by (simp add: evolves_def)
  have "it_hashes c ! i = it_hashes a ! i" if "i < length (it_hashes a)" "it_hashes a ! i \<noteq> 0" for i
    using evolves_hash [OF assms(1) that] evolves_hash [OF assms(2), of i] that len by simp
  moreover have "it_ids c ! i = it_ids a ! i" if "i < length (it_hashes a)" "it_ids a ! i \<noteq> ID_UNPUBLISHED" for i
    using evolves_id [OF assms(1) that] evolves_id [OF assms(2), of i] that len by simp
  moreover have "it_records c ! (it_ids a ! i) = it_records a ! (it_ids a ! i)"
    if i: "i < length (it_hashes a)" "real_id (it_ids a ! i)" for i
  proof -
    have "it_ids b ! i = it_ids a ! i" using evolves_id [OF assms(1)] i by (simp add: real_id_def)
    then have "it_records c ! (it_ids a ! i) = it_records b ! (it_ids a ! i)"
      using evolves_record [OF assms(2), of i "it_ids a ! i"] i len by simp
    then show ?thesis using evolves_record [OF assms(1) i(1) refl i(2)] by simp
  qed
  ultimately show ?thesis unfolding evolves_def using assms by (simp add: evolves_def)
qed

lemma intern_ok_steps:
  assumes "(istep H)\<^sup>*\<^sup>* s s'" "intern_ok H s"
  shows "intern_ok H s' \<and> evolves (im s) (im s')"
  using assms
proof (induction rule: rtranclp_induct)
  case base
  then show ?case by simp
next
  case (step u v)
  have "intern_ok H v" "evolves (im u) (im v)" using intern_ok_step [OF _ step(2)] step by blast+
  then show ?case using step evolves_trans by blast
qed

text \<open>One interner running on its own.\<close>

definition intern_run :: "nat \<Rightarrow> (nat \<Rightarrow> bool) \<Rightarrow> name \<Rightarrow> nat \<Rightarrow> nat \<Rightarrow> intern_pc \<times> intern_table \<Rightarrow> intern_pc \<times> intern_table" where
  "intern_run k alive nm hash me = intern_step alive nm hash me ^^ k"

lemma intern_run_Suc: "intern_run (Suc k) alive nm hash me c = intern_run k alive nm hash me (intern_step alive nm hash me c)"
  by (simp add: intern_run_def funpow_swap1)

lemma intern_run_0 [simp]: "intern_run 0 alive nm hash me c = c"
  by (simp add: intern_run_def)

lemma solo_steps:
  assumes "ip s t = Some (x, pc)" "intern_run k alive (in_name x) (H (in_name x)) (in_me x) (pc, im s) = (pc', m')"
  shows "\<exists>g. (istep H)\<^sup>*\<^sup>* s (s\<lparr>im := m', ip := (ip s)(t := Some (x, pc')), given := g\<rparr>)"
  using assms
proof (induction k arbitrary: s pc)
  case 0
  then have "s\<lparr>im := m', ip := (ip s)(t := Some (x, pc')), given := given s\<rparr> = s" by (auto simp: fun_upd_idem)
  then show ?case by (metis rtranclp.rtrancl_refl)
next
  case (Suc k)
  obtain pc1 m1 where one: "intern_step alive (in_name x) (H (in_name x)) (in_me x) (pc, im s) = (pc1, m1)"
    by (cases "intern_step alive (in_name x) (H (in_name x)) (in_me x) (pc, im s)")
  define s1 where "s1 = s\<lparr>im := m1, ip := (ip s)(t := Some (x, pc1)), given := given s + granted (im s) pc\<rparr>"
  have "istep H s s1" unfolding s1_def using Suc.prems(1) one by (rule istep.iaccess)
  moreover have "ip s1 t = Some (x, pc1)" "intern_run k alive (in_name x) (H (in_name x)) (in_me x) (pc1, im s1) = (pc', m')"
    using Suc.prems(2) one by (simp_all add: s1_def intern_run_Suc)
  then obtain g where "(istep H)\<^sup>*\<^sup>* s1 (s1\<lparr>im := m', ip := (ip s1)(t := Some (x, pc')), given := g\<rparr>)"
    using Suc.IH by blast
  ultimately have "(istep H)\<^sup>*\<^sup>* s (s1\<lparr>im := m', ip := (ip s1)(t := Some (x, pc')), given := g\<rparr>)"
    by (rule converse_rtranclp_into_rtranclp)
  moreover have "s1\<lparr>im := m', ip := (ip s1)(t := Some (x, pc')), given := g\<rparr> = s\<lparr>im := m', ip := (ip s)(t := Some (x, pc')), given := g\<rparr>"
    by (simp add: s1_def)
  ultimately show ?case by metis
qed

text \<open>C28: a frame name has one id, for good. However many interners run, die at any access, or are taken over
  by rescuers, and whatever the liveness predicate answers, two calls that return ids, at any two
  times, return the same id exactly when the hashes of their names agree; ids are within capacity
  and never 0; and equal ids mean names that agree on their first 48 bytes.\<close>

theorem interning_one_id:
  assumes "is_power_of_two n" "cap < ID_FAILED" "(istep H)\<^sup>*\<^sup>* (intern_init n cap) s" "(istep H)\<^sup>*\<^sup>* s s'"
    and "ip s t = Some (x, Returned (Inr fid))" "ip s' t' = Some (y, Returned (Inr fid'))"
  shows "0 < fid \<and> fid \<le> cap \<and> (H (in_name x) = H (in_name y) \<longleftrightarrow> fid = fid') \<and>
    (fid = fid' \<longrightarrow> take 48 (in_name x) = take 48 (in_name y))"
proof -
  let ?m = "im s'"
  have ok: "intern_ok H s" "intern_ok H s'" "evolves (im s) ?m" "evolves (im (intern_init n cap)) ?m"
    using intern_ok_steps [OF assms(3)] intern_ok_steps [OF assms(4)] intern_ok_steps [OF rtranclp_trans [OF assms(3,4)]]
      intern_init_ok [OF assms(1,2), of H] by auto
  have px: "pc_ok H (im s) x (Returned (Inr fid))" and py: "pc_ok H ?m y (Returned (Inr fid'))"
    using ok(1,2) assms(5,6) by (auto simp: intern_ok_def)
  have tab: "tab_ok H ?m" using ok(2) by (simp add: intern_ok_def)
  have "pc_ok H ?m x (Returned (Inr fid))"
    using pc_ok_stays [OF px ok(3)] ok(1) tab_ok_power by (auto simp: intern_ok_def)
  then have x: "0 < H (in_name x)" "published_id ?m (H (in_name x)) fid" "real_id fid" "matches_id ?m (in_name x) fid"
    by (simp_all add: pc_ok_def Let_def)
  have y: "0 < H (in_name y)" "published_id ?m (H (in_name y)) fid'" "matches_id ?m (in_name y) fid'"
    using py by (simp_all add: pc_ok_def Let_def)
  obtain i j where i: "entry_at ?m (H (in_name x)) i" "it_ids ?m ! i = fid" and j: "entry_at ?m (H (in_name y)) j" "it_ids ?m ! j = fid'"
    using x(2) y(2) by (auto simp: published_id_def)
  have slot: "slot_ok H ?m i" using tab i(1) by (simp add: tab_ok_def entry_at_def)
  then obtain a where a: "it_records ?m ! fid = for_name a (H a)" "fid < length (it_records ?m)"
    using x(3) i(2) by (auto simp: slot_ok_def)
  have "length (it_records ?m) = cap + 1" using ok(4) by (simp add: evolves_def intern_init_def intern_table_new_def)
  then have "fid \<le> cap" using a(2) by simp
  moreover have "H (in_name x) = H (in_name y) \<longleftrightarrow> fid = fid'"
  proof
    assume "H (in_name x) = H (in_name y)"
    then have "i = j" using entry_unique [OF tab i(1), of j] j(1) x(1) by simp
    then show "fid = fid'" using i(2) j(2) by simp
  next
    assume eq: "fid = fid'"
    have "ids_distinct (it_ids ?m)" using ok(2) by (simp add: intern_ok_def ids_ok_def books_ok_def)
    moreover have "i < length (it_ids ?m)" "j < length (it_ids ?m)"
      using i(1) j(1) tab by (simp_all add: entry_at_def tab_ok_def shape_ok_def)
    ultimately have "i = j" using i(2) j(2) eq x(3) unfolding ids_distinct_def by metis
    then show "H (in_name x) = H (in_name y)" using i(1) j(1) by (simp add: entry_at_def)
  qed
  moreover have "fid = fid' \<longrightarrow> take 48 (in_name x) = take 48 (in_name y)"
    using x(4) y(3) a(1) by (auto simp: matches_id_def name_matches_for_name)
  ultimately show ?thesis using x(3) by (simp add: real_id_def ID_UNPUBLISHED_def)
qed

text \<open>A hash for the examples, and a first interner running alone.\<close>

definition length_hash :: "name \<Rightarrow> nat" where "length_hash nm = length nm + 1"

definition interned_sys :: "nat \<Rightarrow> intern_sys" where
  "interned_sys g = \<lparr>im = (intern_table_new 4 1)\<lparr>it_hashes := [0, 1, 0, 0], it_ids := [0, 1, 0, 0], it_claiming := [0, 5, 0, 0],
       it_count := 1, it_records := (replicate 2 (for_name [] 0))[1 := for_name [] 1]\<rparr>,
     ip = (\<lambda>_. None)(0 := Some (\<lparr>in_name = [], in_me = 5\<rparr>, Returned (Inr 1))), given = g\<rparr>"

lemma start_example: "intern_start (intern_table_new 4 1) 1 = Probe 1 (Suc 7)"
  by (simp add: intern_start_def home_def slot_mask_def intern_table_new_def)

lemma interned_reachable: "\<exists>g. (istep length_hash)\<^sup>*\<^sup>* (intern_init 4 1) (interned_sys g)"
proof -
  let ?x = "\<lparr>in_name = [], in_me = 5\<rparr> :: interner"
  let ?s = "(intern_init 4 1)\<lparr>ip := (ip (intern_init 4 1))(0 := Some (?x, intern_start (im (intern_init 4 1)) 1))\<rparr>"
  have "istep length_hash (intern_init 4 1) ?s"
    using istep.istart [of "intern_init 4 1" 0 length_hash ?x] by (simp add: intern_init_def length_hash_def CLAIM_ANONYMOUS_def)
  moreover have "intern_run 7 (\<lambda>_. True) [] 1 5 (intern_start (im ?s) 1, im ?s) = (Returned (Inr 1), im (interned_sys 0))"
    unfolding intern_init_def intern_sys.simps start_example
    by (simp add: eval_nat_numeral intern_run_Suc intern_table_new_def cas_at_def interned_sys_def ID_UNPUBLISHED_def
        CLAIM_UNRECORDED_def write_record_def)
  then obtain g where "(istep length_hash)\<^sup>*\<^sup>* ?s (?s\<lparr>im := im (interned_sys 0), ip := (ip ?s)(0 := Some (?x, Returned (Inr 1))), given := g\<rparr>)"
    using solo_steps [of ?s 0 ?x "intern_start (im ?s) 1" 7 "\<lambda>_. True" length_hash "Returned (Inr 1)" "im (interned_sys 0)"]
    by (auto simp: length_hash_def)
  ultimately have "(istep length_hash)\<^sup>*\<^sup>* (intern_init 4 1)
      (?s\<lparr>im := im (interned_sys 0), ip := (ip ?s)(0 := Some (?x, Returned (Inr 1))), given := g\<rparr>)"
    by (rule converse_rtranclp_into_rtranclp)
  moreover have "?s\<lparr>im := im (interned_sys 0), ip := (ip ?s)(0 := Some (?x, Returned (Inr 1))), given := g\<rparr> = interned_sys g"
    by (simp add: interned_sys_def intern_init_def fun_eq_iff)
  ultimately show ?thesis by metis
qed

lemma power_of_two_4: "is_power_of_two 4"
  by (simp add: is_power_of_two.simps)

theorem interning_one_id_witness: "\<exists>s :: intern_sys. ip s 0 = Some (\<lparr>in_name = [], in_me = 5\<rparr>, Returned (Inr 1)) \<and> 0 < (1::nat) \<and> (1::nat) \<le> 1 \<and>
  (length_hash [] = length_hash [] \<longleftrightarrow> (1::nat) = 1)"
proof -
  obtain g where g: "(istep length_hash)\<^sup>*\<^sup>* (intern_init 4 1) (interned_sys g)" using interned_reachable by blast
  have here: "ip (interned_sys g) 0 = Some (\<lparr>in_name = [], in_me = 5\<rparr>, Returned (Inr 1))" by (simp add: interned_sys_def)
  have "0 < (1::nat) \<and> (1::nat) \<le> 1 \<and> (length_hash [] = length_hash [] \<longleftrightarrow> (1::nat) = 1)"
    using interning_one_id [OF power_of_two_4 _ g rtranclp.rtrancl_refl here here] by (simp add: ID_FAILED_def)
  with here show ?thesis by (intro exI [of _ "interned_sys g"]) simp
qed

end
