(* ===== verification/Interning_Live.thy ===== *)
theory Interning_Live
  imports Interning
begin

text \<open>
  Interning and lookups that come to an end: an interner whose competitors are all dead or finished returns
  within a bound of its own, and a name that has been interned is found by every later lookup, whatever
  runs beside it.
\<close>

subsection \<open>An interner on its own\<close>

text \<open>Every entry without an id is unclaimed or claimed by a participant known to be dead; and there is room
  for another name: an id, an empty slot, and no entry that was given up.\<close>

definition rescuable :: "(nat \<Rightarrow> bool) \<Rightarrow> intern_table \<Rightarrow> bool" where
  "rescuable alive m \<longleftrightarrow> (\<forall>i < length (it_hashes m). it_ids m ! i = ID_UNPUBLISHED \<longrightarrow>
     it_claiming m ! i = CLAIM_UNRECORDED \<or> it_claiming m ! i \<noteq> CLAIM_ANONYMOUS \<and> \<not> alive (it_claiming m ! i))"

definition roomy :: "intern_table \<Rightarrow> bool" where
  "roomy m \<longleftrightarrow> it_count m < it_capacity m \<and> ID_FAILED \<notin> set (it_ids m)"

text \<open>Where an undisturbed interner can be.\<close>

fun solo_ok :: "(nat \<Rightarrow> bool) \<Rightarrow> intern_table \<Rightarrow> intern_pc \<Rightarrow> bool" where
  "solo_ok alive m (Probe i k) = (i < length (it_hashes m) \<and> rescuable alive m)"
| "solo_ok alive m (Room i k) = (i < length (it_hashes m) \<and> rescuable alive m)"
| "solo_ok alive m (ClaimHash i k) = (i < length (it_hashes m) \<and> rescuable alive m)"
| "solo_ok alive m (Mark i k) = (i < length (it_hashes m) \<and> rescuable alive m)"
| "solo_ok alive m (Spin i spins rounds) = (i < length (it_hashes m) \<and> rescuable alive m \<and> spins < INTERN_SPIN_LIMIT)"
| "solo_ok alive m (LoadClaimant i rounds) = (i < length (it_hashes m) \<and> rescuable alive m \<and> it_ids m ! i = ID_UNPUBLISHED)"
| "solo_ok alive m (Takeover i owner rounds) = (i < length (it_hashes m) \<and> it_claiming m ! i = owner)"
| "solo_ok alive m (Recheck i) = (i < length (it_hashes m))"
| "solo_ok alive m (Returned r) = (r \<noteq> Inl InternContended)"
| "solo_ok alive m pc = True"

fun remaining :: "intern_pc \<Rightarrow> nat" where
  "remaining (Probe i k) = INTERN_SPIN_LIMIT + 8 + 4 * k"
| "remaining (Room i k) = INTERN_SPIN_LIMIT + 8 + 4 * k + 3"
| "remaining (ClaimHash i k) = INTERN_SPIN_LIMIT + 8 + 4 * k + 2"
| "remaining (Mark i k) = INTERN_SPIN_LIMIT + 8 + 4 * k + 1"
| "remaining (Spin i spins rounds) = 8 + (INTERN_SPIN_LIMIT - spins)"
| "remaining (LoadClaimant i rounds) = 7"
| "remaining (Takeover i owner rounds) = 6"
| "remaining (Recheck i) = 5"
| "remaining (Allocate i) = 4"
| "remaining (WriteRec i fid) = 3"
| "remaining (Undo i) = 3"
| "remaining (Publish i fid) = 2"
| "remaining (Fail i) = 2"
| "remaining (Resolve fid) = 1"
| "remaining (Returned r) = 0"

lemma shape_ok_claiming [simp]: "length cs = length (it_claiming m) \<Longrightarrow> shape_ok (m\<lparr>it_claiming := cs\<rparr>) = shape_ok m"
  and shape_ok_count [simp]: "shape_ok (m\<lparr>it_count := n\<rparr>) = shape_ok m"
  and shape_ok_ids [simp]: "length ids = length (it_ids m) \<Longrightarrow> shape_ok (m\<lparr>it_ids := ids\<rparr>) = shape_ok m"
  and shape_ok_hashes [simp]: "length hs = length (it_hashes m) \<Longrightarrow> shape_ok (m\<lparr>it_hashes := hs\<rparr>) = shape_ok m"
  and shape_ok_record [simp]: "shape_ok (write_record nm h i m) = shape_ok m"
  by (simp_all add: shape_ok_def write_record_def)

lemma next_slot_less: "shape_ok m \<Longrightarrow> next_slot m i < length (it_hashes m)"
  using is_power_of_two_pos [of "length (it_hashes m)"] by (simp add: shape_ok_def slot_mod(2))

lemma spin_limit_pos: "0 < INTERN_SPIN_LIMIT"
  by (simp add: INTERN_SPIN_LIMIT_def)

lemma rescuable_hashes [simp]: "length hs = length (it_hashes m) \<Longrightarrow> rescuable alive (m\<lparr>it_hashes := hs\<rparr>) = rescuable alive m"
  by (simp add: rescuable_def)

lemma solo_progress:
  assumes "shape_ok m" "solo_ok alive m pc" "me \<noteq> CLAIM_UNRECORDED" "\<nexists>r. pc = Returned r"
    and "intern_step alive nm h me (pc, m) = (pc', m')"
  shows "shape_ok m' \<and> solo_ok alive m' pc' \<and> remaining pc' < remaining pc"
proof (cases pc)
  case (Probe i k)
  then show ?thesis
    using assms next_slot_less spin_limit_pos by (cases k) (auto simp: Let_def split: if_splits)
next
  case (LoadClaimant i rounds)
  then have "it_claiming m ! i = CLAIM_UNRECORDED \<or> it_claiming m ! i \<noteq> CLAIM_ANONYMOUS \<and> \<not> alive (it_claiming m ! i)"
    using assms(2) by (simp add: rescuable_def)
  moreover have "CLAIM_UNRECORDED \<noteq> CLAIM_ANONYMOUS" by (simp add: CLAIM_UNRECORDED_def CLAIM_ANONYMOUS_def)
  ultimately show ?thesis using LoadClaimant assms by (auto simp: judge_def)
next
  case (Resolve fid)
  then show ?thesis using assms by (auto simp: resolve_def split: if_splits)
qed (use assms spin_limit_pos in \<open>auto simp: cas_at_def Let_def split: if_splits\<close>)

lemma solo_returns:
  assumes "shape_ok m" "solo_ok alive m pc" "me \<noteq> CLAIM_UNRECORDED"
  shows "\<exists>k \<le> remaining pc. \<exists>r m'. intern_run k alive nm h me (pc, m) = (Returned r, m') \<and> r \<noteq> Inl InternContended"
  using assms
proof (induction "remaining pc" arbitrary: pc m rule: less_induct)
  case less
  show ?case
  proof (cases "\<exists>r. pc = Returned r")
    case True
    then show ?thesis using less.prems by (auto intro!: exI [of _ 0])
  next
    case False
    obtain pc' m' where one: "intern_step alive nm h me (pc, m) = (pc', m')" by fastforce
    have next_ok: "shape_ok m'" "solo_ok alive m' pc'" "remaining pc' < remaining pc"
      using solo_progress [OF less.prems _ one] False by auto
    then obtain k r m'' where k: "k \<le> remaining pc'" "intern_run k alive nm h me (pc', m') = (Returned r, m'')" "r \<noteq> Inl InternContended"
      using less.hyps less.prems(3) by blast
    have "intern_run (Suc k) alive nm h me (pc, m) = (Returned r, m'')" using k(2) one by (simp add: intern_run_Suc)
    moreover have "Suc k \<le> remaining pc" using k(1) next_ok(3) by simp
    ultimately show ?thesis using k(3) by blast
  qed
qed

subsection \<open>Room for one more\<close>

text \<open>An undisturbed interner keeps its probe budget above the slots that can be taken.\<close>

fun room_ok :: "intern_table \<Rightarrow> nat \<Rightarrow> intern_pc \<Rightarrow> bool" where
  "room_ok m h (Probe i k) = (roomy m \<and> (it_hashes m ! i = h \<and> 0 < k \<or>
     0 \<in> set (it_hashes m) \<and> (\<exists>d. reaches m h d i \<and> 2 * length (it_hashes m) \<le> k + d)))"
| "room_ok m h (Room i k) = (roomy m \<and> it_hashes m ! i = 0 \<and> 0 < k)"
| "room_ok m h (ClaimHash i k) = (roomy m \<and> it_hashes m ! i = 0 \<and> 0 < k)"
| "room_ok m h (Mark i k) = (roomy m \<and> it_hashes m ! i = h \<and> 0 < k)"
| "room_ok m h (Allocate i) = (roomy m \<and> i < length (it_ids m))"
| "room_ok m h (WriteRec i fid) = (ID_FAILED \<notin> set (it_ids m) \<and> i < length (it_ids m))"
| "room_ok m h (Publish i fid) = (ID_FAILED \<notin> set (it_ids m) \<and> i < length (it_ids m))"
| "room_ok m h (Resolve fid) = (fid \<noteq> ID_FAILED)"
| "room_ok m h (Undo i) = False"
| "room_ok m h (Fail i) = False"
| "room_ok m h (Returned r) = (r \<noteq> Inl FrameCapacityExceeded)"
| "room_ok m h pc = roomy m"

lemma probe_budget:
  assumes "shape_ok m" "0 \<in> set (it_hashes m)" "reaches m h d i"
  shows "d < length (it_hashes m)"
proof (rule ccontr)
  let ?n = "length (it_hashes m)"
  assume far: "\<not> d < ?n"
  obtain j where j: "j < ?n" "it_hashes m ! j = 0" using assms(2) by (auto simp: in_set_conv_nth)
  define e where "e = (j + (?n - h mod ?n)) mod ?n"
  have n: "0 < ?n" using j(1) by linarith
  have "(h + e) mod ?n = (h mod ?n + (j + (?n - h mod ?n))) mod ?n" by (simp add: e_def mod_simps)
  also have "h mod ?n + (j + (?n - h mod ?n)) = j + ?n" using mod_less_divisor [OF n, of h] by linarith
  finally have "(h + e) mod ?n = j" using j(1) by simp
  moreover have "e < d" using far mod_less_divisor [OF n, of "j + (?n - h mod ?n)"] by (simp add: e_def)
  ultimately show False using assms(3) j(2) by (auto simp: reaches_def)
qed

lemma roomy_frames [simp]: "roomy (m\<lparr>it_hashes := hs\<rparr>) = roomy m" "roomy (m\<lparr>it_claiming := cs\<rparr>) = roomy m"
  by (simp_all add: roomy_def)

lemma not_failed: "roomy m \<Longrightarrow> shape_ok m \<Longrightarrow> i < length (it_hashes m) \<Longrightarrow> it_ids m ! i \<noteq> ID_FAILED"
  unfolding roomy_def shape_ok_def by (metis nth_mem)

lemma room_progress:
  assumes "shape_ok m" "room_ok m h pc" "solo_ok alive m pc" "0 < h" "\<nexists>r. pc = Returned r"
    and "intern_step alive nm h me (pc, m) = (pc', m')"
  shows "room_ok m' h pc'"
proof (cases pc)
  case (Probe i k)
  have p2: "is_power_of_two (length (it_hashes m))" using assms(1) by (simp add: shape_ok_def)
  have k: "0 < k"
    using assms(2) Probe probe_budget [OF assms(1)] by fastforce
  then obtain l where l: "k = Suc l" using gr0_implies_Suc by blast
  show ?thesis
  proof (cases "it_hashes m ! i = h")
    case True
    then show ?thesis using assms Probe l by (auto simp: Let_def)
  next
    case False
    then obtain d where d: "0 \<in> set (it_hashes m)" "reaches m h d i" "2 * length (it_hashes m) \<le> k + d" "roomy m"
      using assms(2) Probe by auto
    have "0 < l" using probe_budget [OF assms(1) d(1,2)] d(3) l by simp
    moreover have "\<exists>d. reaches m h d (next_slot m i) \<and> 2 * length (it_hashes m) \<le> l + d" if "it_hashes m ! i \<noteq> 0"
      using reaches_next [OF p2 d(2)] False that d(3) l by (intro exI [of _ "Suc d"]) simp
    ultimately show ?thesis using assms(6) Probe l False d by (auto simp: Let_def)
  qed
next
  case (LoadClaimant i rounds)
  then show ?thesis using assms by (auto simp: judge_def)
next
  case (Resolve fid)
  then show ?thesis using assms by (auto simp: resolve_def split: if_splits)
next
  case (Publish i fid)
  then have "it_ids m ! i \<in> set (it_ids m)" "ID_FAILED \<notin> set (it_ids m)" using assms(2) by simp_all
  then have "it_ids m ! i \<noteq> ID_FAILED" by metis
  then show ?thesis using Publish assms by (auto simp: cas_at_def split: if_splits)
next
  case (Spin i spins rounds)
  then have "it_ids m ! i \<noteq> ID_FAILED" using assms(2,3) not_failed [OF _ assms(1)] by simp
  then show ?thesis using Spin assms by (auto simp: Let_def split: if_splits)
next
  case (Recheck i)
  then have "it_ids m ! i \<noteq> ID_FAILED" using assms(2,3) not_failed [OF _ assms(1)] by simp
  moreover have "length (it_ids m) = length (it_hashes m)" using assms(1) by (simp add: shape_ok_def)
  ultimately show ?thesis using Recheck assms by (auto simp: Let_def split: if_splits)
next
  case (WriteRec i fid)
  then show ?thesis using assms by (auto simp: write_record_def split: if_splits)
qed (use assms in \<open>auto simp: cas_at_def Let_def roomy_def shape_ok_def split: if_splits\<close>)

lemma room_returns:
  assumes "shape_ok m" "solo_ok alive m pc" "room_ok m h pc" "me \<noteq> CLAIM_UNRECORDED" "0 < h"
    and "intern_run k alive nm h me (pc, m) = (Returned r, m')"
  shows "r \<noteq> Inl FrameCapacityExceeded"
  using assms
proof (induction k arbitrary: pc m)
  case 0
  then show ?case by simp
next
  case (Suc k)
  show ?case
  proof (cases "\<exists>q. pc = Returned q")
    case True
    then have "intern_run k alive nm h me (pc, m) = (Returned r, m')"
      using Suc.prems(6) by (auto simp: intern_run_Suc)
    then show ?thesis using Suc.IH Suc.prems by blast
  next
    case False
    obtain pc1 m1 where one: "intern_step alive nm h me (pc, m) = (pc1, m1)" by fastforce
    have "shape_ok m1" "solo_ok alive m1 pc1" "room_ok m1 h pc1"
      using solo_progress [OF Suc.prems(1,2,4) _ one] room_progress [OF Suc.prems(1,3,2,5) _ one] False by auto
    then show ?thesis using Suc.IH Suc.prems(4,5,6) one by (auto simp: intern_run_Suc)
  qed
qed

text \<open>C29: interning comes to an end. From any reachable state in which every entry without an id is
  unclaimed or claimed by a participant that is known to be dead, a registered interner that runs from now
  on undisturbed returns within \<open>INTERN_SPIN_LIMIT + 8 + 8 n\<close> accesses of a table of \<open>n\<close> slots, taking over
  what it has to, and never with \<open>InternContended\<close>; and with an id and a slot free and no entry given up, it
  does not return \<open>FrameCapacityExceeded\<close> either, so it returns an id or reports a hash collision.\<close>

theorem interning_returns:
  assumes "is_power_of_two n" "cap < ID_FAILED" "(istep H)\<^sup>*\<^sup>* (intern_init n cap) s"
    and "H (in_name x) \<noteq> 0" "in_me x \<noteq> CLAIM_UNRECORDED" "in_me x < CLAIM_ANONYMOUS"
    and "ip s t = None" "rescuable alive (im s)"
  shows "\<exists>k \<le> INTERN_SPIN_LIMIT + 8 + 8 * n. \<exists>r s'.
    intern_run k alive (in_name x) (H (in_name x)) (in_me x) (intern_start (im s) (H (in_name x)), im s) = (Returned r, im s') \<and>
    (istep H)\<^sup>*\<^sup>* s s' \<and> ip s' t = Some (x, Returned r) \<and> r \<noteq> Inl InternContended \<and>
    (roomy (im s) \<and> 0 \<in> set (it_hashes (im s)) \<longrightarrow> r \<noteq> Inl FrameCapacityExceeded)"
proof -
  let ?h = "H (in_name x)"
  have ok: "intern_ok H s" and len: "length (it_hashes (im s)) = n"
    using intern_ok_steps [OF assms(3) intern_init_ok [OF assms(1,2)]]
    by (simp_all add: evolves_def intern_init_def intern_table_new_def)
  have shape: "shape_ok (im s)" using ok by (simp add: intern_ok_def tab_ok_def)
  have start: "intern_start (im s) ?h = Probe (?h mod n) (2 * n)"
    using slot_mod(1) assms(1) len by (simp add: intern_start_def)
  have n: "0 < n" using assms(1) by (rule is_power_of_two_pos)
  have solo: "solo_ok alive (im s) (intern_start (im s) ?h)" using assms(8) len n by (simp add: start)
  obtain k r m' where k: "k \<le> INTERN_SPIN_LIMIT + 8 + 8 * n" "r \<noteq> Inl InternContended"
      "intern_run k alive (in_name x) ?h (in_me x) (intern_start (im s) ?h, im s) = (Returned r, m')"
    using solo_returns [OF shape solo assms(5), of "in_name x" ?h] by (auto simp: start)
  have room: "room_ok (im s) ?h (intern_start (im s) ?h)" if "roomy (im s)" "0 \<in> set (it_hashes (im s))"
    using that len by (auto simp: start reaches_def intro: exI [of _ 0])
  let ?u = "s\<lparr>ip := (ip s)(t := Some (x, intern_start (im s) ?h))\<rparr>"
  have "istep H s ?u" using assms(4,6,7) by (intro istep.istart) auto
  moreover obtain g where "(istep H)\<^sup>*\<^sup>* ?u (?u\<lparr>im := m', ip := (ip ?u)(t := Some (x, Returned r)), given := g\<rparr>)"
    using solo_steps [of ?u t x "intern_start (im s) ?h" k alive H "Returned r" m'] k(3) by auto
  ultimately have "(istep H)\<^sup>*\<^sup>* s (?u\<lparr>im := m', ip := (ip ?u)(t := Some (x, Returned r)), given := g\<rparr>)"
    by (rule converse_rtranclp_into_rtranclp)
  moreover have "r \<noteq> Inl FrameCapacityExceeded" if "roomy (im s)" "0 \<in> set (it_hashes (im s))"
    using room_returns [OF shape solo room [OF that] assms(5) _ k(3)] assms(4) by simp
  ultimately show ?thesis using k
    by (intro exI [of _ k] exI [of _ r] exI [of _ "?u\<lparr>im := m', ip := (ip ?u)(t := Some (x, Returned r)), given := g\<rparr>"] conjI) auto
qed

theorem interning_returns_witness:
  "\<exists>k \<le> INTERN_SPIN_LIMIT + 40. \<exists>r s'.
     intern_run k (\<lambda>_. False) [7] 2 3 (intern_start (im (intern_init 4 1)) 2, im (intern_init 4 1)) = (Returned r, im (s' :: intern_sys)) \<and>
     r \<noteq> Inl InternContended \<and> r \<noteq> Inl FrameCapacityExceeded"
proof -
  let ?s = "intern_init 4 1" and ?x = "\<lparr>in_name = [7], in_me = 3\<rparr> :: interner"
  have ok: "rescuable (\<lambda>_. False) (im ?s)" "roomy (im ?s) \<and> 0 \<in> set (it_hashes (im ?s))" "ip ?s 0 = None"
    by (simp_all add: rescuable_def roomy_def intern_init_def intern_table_new_def ID_UNPUBLISHED_def ID_FAILED_def)
  have x: "length_hash (in_name ?x) \<noteq> 0" "in_me ?x \<noteq> CLAIM_UNRECORDED" "in_me ?x < CLAIM_ANONYMOUS" "1 < ID_FAILED"
    by (simp_all add: length_hash_def CLAIM_UNRECORDED_def CLAIM_ANONYMOUS_def ID_FAILED_def)
  obtain k r s' where "k \<le> INTERN_SPIN_LIMIT + 8 + 8 * 4"
      "intern_run k (\<lambda>_. False) (in_name ?x) (length_hash (in_name ?x)) (in_me ?x) (intern_start (im ?s) (length_hash (in_name ?x)), im ?s)
        = (Returned r, im (s' :: intern_sys))" "r \<noteq> Inl InternContended" "r \<noteq> Inl FrameCapacityExceeded"
    using interning_returns [of 4 1 length_hash ?s ?x 0 "\<lambda>_. False", OF power_of_two_4 x(4) rtranclp.rtrancl_refl x(1-3) ok(3,1)]
      ok(2) by blast
  then show ?thesis
    by (intro exI [of _ k] exI [of _ r] exI [of _ s'] conjI) (simp_all add: length_hash_def numeral_2_eq_2)
qed

subsection \<open>Lookups beside the interners\<close>

text \<open>A lookup whose \<open>j\<close>th access meets the table of the \<open>j\<close>th state.\<close>

primrec find_trace :: "(nat \<Rightarrow> nat \<Rightarrow> bool) \<Rightarrow> name \<Rightarrow> nat \<Rightarrow> (nat \<Rightarrow> intern_table) \<Rightarrow> nat \<Rightarrow> find_pc" where
  "find_trace alive nm h T 0 = find_start (T 0) h"
| "find_trace alive nm h T (Suc j) = find_step (alive j) nm h (T j) (find_trace alive nm h T j)"

text \<open>What an entry that has its id looks like to any later reader.\<close>

lemma find_trace_reaches:
  assumes "\<forall>j. evolves m (T j)" "is_power_of_two (length (it_hashes m))" "reaches m h d i" "0 < h"
    and "j \<le> d" "d < length (it_hashes m)"
  shows "find_trace alive nm h T j = FindProbe ((h + j) mod length (it_hashes m)) (length (it_hashes m) - j)"
  using assms(5)
proof (induction j)
  case 0
  have "length (it_hashes (T 0)) = length (it_hashes m)" using assms(1) by (simp add: evolves_def)
  then show ?case using slot_mod(1) [of "T 0"] assms(2) by (simp add: find_start_def)
next
  case (Suc j)
  let ?n = "length (it_hashes m)" let ?i = "(h + j) mod ?n"
  have len: "length (it_hashes (T j)) = ?n" using assms(1) by (simp add: evolves_def)
  have "it_hashes m ! ?i \<notin> {0, h}" using assms(3) Suc.prems by (simp add: reaches_def)
  moreover have "?i < ?n" using is_power_of_two_pos [OF assms(2)] by simp
  ultimately have "it_hashes (T j) ! ?i \<notin> {0, h}" using evolves_hash [of m "T j" ?i] assms(1) by simp
  moreover have "?n - j = Suc (?n - Suc j)" using Suc.prems assms(6) by simp
  ultimately show ?case
    using Suc slot_mod(2) [of "T j" ?i] len assms(2) by (simp add: Let_def mod_simps)
qed

lemma reaches_within:
  assumes "reaches m h d i" "it_hashes m ! i = h" "0 < length (it_hashes m)"
  shows "d < length (it_hashes m)"
proof (rule ccontr)
  assume "\<not> d < length (it_hashes m)"
  then obtain e where e: "d = length (it_hashes m) + e" using le_Suc_ex not_less by blast
  then have "(h + e) mod length (it_hashes m) = i" using assms(1)
    by (simp add: reaches_def add.left_commute [of h])
  moreover have "e < d" using e assms(3) by simp
  ultimately show False using assms(1,2) by (auto simp: reaches_def)
qed

text \<open>C30: what is interned stays findable. Once a call has returned the id of a name, a lookup that starts at
  any later time ends within \<open>n + 2\<close> accesses, without one spin, whatever interners do between its accesses
  and whatever the liveness predicate says: it returns that id for every name with the same hash and the
  same first 48 bytes, and a hash collision for every other name with that hash.\<close>

theorem interned_is_found:
  assumes "is_power_of_two n" "cap < ID_FAILED" "(istep H)\<^sup>*\<^sup>* (intern_init n cap) s"
    and "ip s t = Some (x, Returned (Inr fid))" "H nm = H (in_name x)" "\<forall>j. (istep H)\<^sup>*\<^sup>* s (S j)"
  shows "\<exists>j \<le> n + 2. find_trace alive nm (H nm) (\<lambda>j. im (S j)) j =
    Found (if take 48 nm = take 48 (in_name x) then Inr (Some fid) else Inl (FrameHashCollision (of_nat (H nm))))"
proof -
  let ?m = "im s" and ?T = "\<lambda>j. im (S j)" and ?h = "H nm"
  have ok: "intern_ok H s" and len: "length (it_hashes ?m) = n"
    using intern_ok_steps [OF assms(3) intern_init_ok [OF assms(1,2)]]
    by (simp_all add: evolves_def intern_init_def intern_table_new_def)
  have ev: "evolves ?m (?T j)" for j using intern_ok_steps [OF _ ok] assms(6) by blast
  have "pc_ok H ?m x (Returned (Inr fid))" using ok assms(4) by (simp add: intern_ok_def)
  then obtain i where i: "0 < ?h" "entry_at ?m ?h i" "it_ids ?m ! i = fid" "real_id fid" "matches_id ?m (in_name x) fid"
    by (auto simp: pc_ok_def Let_def published_id_def assms(5))
  have "slot_ok H ?m i" using ok i(2) by (simp add: intern_ok_def tab_ok_def entry_at_def)
  then obtain d a where d: "reaches ?m ?h d i" and a: "it_records ?m ! fid = for_name a (H a)" "fid < length (it_records ?m)"
    using i by (auto simp: slot_ok_def entry_at_def)
  have dn: "d < n" using reaches_within [OF d] i(2) len by (auto simp: entry_at_def)
  have il: "i < length (it_hashes ?m)" "it_hashes ?m ! i = ?h" "i = (?h + d) mod n"
    using i(2) d len by (simp_all add: entry_at_def reaches_def)
  have p2: "is_power_of_two (length (it_hashes ?m))" using assms(1) len by simp
  have "find_trace alive nm ?h ?T d = FindProbe i (n - d)"
    using find_trace_reaches [of ?m ?T ?h d i d alive nm] ev p2 d i(1) dn len il(3) by simp
  moreover have "n - d = Suc (n - Suc d)" using dn by simp
  moreover have "it_hashes (?T d) ! i = ?h" using evolves_hash [OF ev il(1)] il(2) i(1) by simp
  ultimately have "find_trace alive nm ?h ?T (Suc d) = FindSpin i 0 0" using i(1) by simp
  moreover have "it_ids (?T (Suc d)) ! i = fid"
    using evolves_id [OF ev il(1)] i(3,4) by (simp add: real_id_def)
  ultimately have "find_trace alive nm ?h ?T (Suc (Suc d)) = FindResolve fid" using i(4) by (simp add: real_id_def)
  moreover have "it_records (?T (Suc (Suc d))) ! fid = for_name a (H a)" "fid < length (it_records (?T (Suc (Suc d))))"
    using evolves_record [OF ev il(1) i(3,4)] a ev [of "Suc (Suc d)"] by (simp_all add: evolves_def)
  moreover have "take 48 a = take 48 (in_name x)"
    using i(5) a(1) by (simp add: matches_id_def name_matches_for_name)
  ultimately have "find_trace alive nm ?h ?T (Suc (Suc (Suc d))) =
      Found (if take 48 nm = take 48 (in_name x) then Inr (Some fid) else Inl (FrameHashCollision (of_nat ?h)))"
    using i(4) by (auto simp: resolve_def matches_id_def name_matches_for_name real_id_def)
  then show ?thesis using dn by (intro exI [of _ "Suc (Suc (Suc d))"]) simp
qed

theorem interned_is_found_witness:
  "\<exists>g. \<exists>j \<le> 4 + 2. find_trace (\<lambda>_ _. True) [] 1 (\<lambda>j. im (interned_sys g)) j = Found (Inr (Some 1))"
proof -
  obtain g where g: "(istep length_hash)\<^sup>*\<^sup>* (intern_init 4 1) (interned_sys g)" using interned_reachable by blast
  have "ip (interned_sys g) 0 = Some (\<lparr>in_name = [], in_me = 5\<rparr>, Returned (Inr 1))" by (simp add: interned_sys_def)
  then have "\<exists>j \<le> 4 + 2. find_trace (\<lambda>_ _. True) [] 1 (\<lambda>j. im (interned_sys g)) j = Found (Inr (Some 1))"
    using interned_is_found [OF power_of_two_4 _ g, where nm = "[]" and S = "\<lambda>_. interned_sys g" and alive = "\<lambda>_ _. True"]
    by (simp add: ID_FAILED_def length_hash_def)
  then show ?thesis by blast
qed

end
