(* ===== verification/Intern_Rest.thy ===== *)
theory Intern_Rest
  imports Interning "HOL-Library.Multiset"
begin

text \<open>
  Interning at rest: what \<open>intern_core\<close> returns on a table no one else is using, as a function of the names
  interned so far. The frame with id \<open>i + 1\<close> is the \<open>i\<close>th name.
\<close>

subsection \<open>Running a call to its end\<close>

fun intern_exec :: "nat \<Rightarrow> (nat \<Rightarrow> bool) \<Rightarrow> name \<Rightarrow> nat \<Rightarrow> nat \<Rightarrow> intern_pc \<times> intern_table \<Rightarrow>
    ((frame_error + nat) \<times> intern_table) option" where
  "intern_exec 0 alive nm h me c = (case c of (Returned r, m) \<Rightarrow> Some (r, m) | _ \<Rightarrow> None)"
| "intern_exec (Suc k) alive nm h me c =
     (case c of (Returned r, m) \<Rightarrow> Some (r, m) | _ \<Rightarrow> intern_exec k alive nm h me (intern_step alive nm h me c))"

lemma intern_exec_returned [simp]: "intern_exec k alive nm h me (Returned r, m) = Some (r, m)"
  by (cases k) simp_all

lemma intern_exec_step:
  "\<nexists>q. fst c = Returned q \<Longrightarrow>
    intern_exec 0 alive nm h me c = None \<and>
    intern_exec (Suc k) alive nm h me c = intern_exec k alive nm h me (intern_step alive nm h me c)"
  by (cases c; cases "fst c") auto

lemma intern_exec_more: "intern_exec k alive nm h me c = Some x \<Longrightarrow> k \<le> k' \<Longrightarrow> intern_exec k' alive nm h me c = Some x"
proof (induction k arbitrary: c k')
  case 0
  then show ?case using intern_exec_step [of c] by (cases c) fastforce
next
  case (Suc k)
  then obtain j where j: "k' = Suc j" "k \<le> j" by (cases k') auto
  show ?case
  proof (cases "\<exists>q. fst c = Returned q")
    case True
    then show ?thesis using Suc.prems(1) by (cases c) auto
  next
    case False
    then show ?thesis using Suc j intern_exec_step [of c] by metis
  qed
qed

lemma intern_exec_run: "intern_run k alive nm h me c = (Returned r, m) \<Longrightarrow> intern_exec k alive nm h me c = Some (r, m)"
proof (induction k arbitrary: c)
  case 0
  then show ?case by simp
next
  case (Suc k)
  show ?case
  proof (cases "\<exists>q. fst c = Returned q")
    case True
    then obtain q t where c: "c = (Returned q, t)" by (cases c) auto
    have "intern_run j alive nm h me (Returned q, t) = (Returned q, t)" for j
      by (induction j) (simp_all add: intern_run_Suc)
    then show ?thesis using Suc.prems c by simp
  next
    case False
    then have "intern_exec (Suc k) alive nm h me c = intern_exec k alive nm h me (intern_step alive nm h me c)"
      using intern_exec_step by blast
    then show ?thesis using Suc by (simp add: intern_run_Suc)
  qed
qed

text \<open>\<open>ArenaView::intern\<close> on a table; the fuel is enough at rest.\<close>

definition intern_fuel :: "intern_table \<Rightarrow> nat" where
  "intern_fuel m = 8 * length (it_hashes m) + 16"

definition intern_now :: "(name \<Rightarrow> nat) \<Rightarrow> nat \<Rightarrow> name \<Rightarrow> intern_table \<Rightarrow> ((frame_error + nat) \<times> intern_table) option" where
  "intern_now H me nm m =
     map_option (\<lambda>(r, m'). (rbind r (\<lambda>i. ok_or (frame_id_new i) FrameCapacityExceeded), m'))
       (intern_exec (intern_fuel m) (\<lambda>_. True) nm (H nm) me (intern_start m (H nm), m))"

subsection \<open>A table at rest\<close>

definition slot_free :: "intern_table \<Rightarrow> nat \<Rightarrow> bool" where
  "slot_free m j \<longleftrightarrow> it_hashes m ! j = 0 \<and> it_ids m ! j = ID_UNPUBLISHED \<and> it_claiming m ! j = CLAIM_UNRECORDED"

definition slot_taken :: "(name \<Rightarrow> nat) \<Rightarrow> name list \<Rightarrow> intern_table \<Rightarrow> nat \<Rightarrow> bool" where
  "slot_taken H ns m j \<longleftrightarrow> (\<exists>i < length ns. it_hashes m ! j = H (ns ! i) \<and> it_ids m ! j = i + 1)"

definition name_held :: "(name \<Rightarrow> nat) \<Rightarrow> name list \<Rightarrow> intern_table \<Rightarrow> nat \<Rightarrow> bool" where
  "name_held H ns m i \<longleftrightarrow> it_records m ! (i + 1) = for_name (ns ! i) (H (ns ! i)) \<and>
     (\<exists>d j. reaches m (H (ns ! i)) d j \<and> it_hashes m ! j = H (ns ! i) \<and> it_ids m ! j = i + 1)"

definition quiet :: "(name \<Rightarrow> nat) \<Rightarrow> name list \<Rightarrow> intern_table \<Rightarrow> bool" where
  "quiet H ns m \<longleftrightarrow> shape_ok m \<and> it_count m = length ns \<and> it_capacity m < ID_FAILED \<and>
     length ns \<le> it_capacity m \<and> it_capacity m < length (it_hashes m) \<and>
     count (mset (it_hashes m)) 0 + length ns = length (it_hashes m) \<and>
     (\<forall>j < length (it_hashes m). if it_hashes m ! j = 0 then slot_free m j else slot_taken H ns m j) \<and>
     (\<forall>i < length ns. name_held H ns m i)"

text \<open>Where the probe of a hash comes to rest: the first slot that is empty or holds it.\<close>

lemma probe_ends:
  assumes "shape_ok m" "0 \<in> set (it_hashes m)"
  obtains d i where "reaches m h d i" "it_hashes m ! i \<in> {0, h}" "d < length (it_hashes m)" "i < length (it_hashes m)"
proof -
  let ?n = "length (it_hashes m)"
  have p2: "is_power_of_two ?n" using assms(1) by (simp add: shape_ok_def)
  then have n: "0 < ?n" by (rule is_power_of_two_pos)
  let ?P = "\<lambda>d. it_hashes m ! ((h + d) mod ?n) \<in> {0, h}"
  obtain j where j: "j < ?n" "it_hashes m ! j = 0" using assms(2) by (auto simp: in_set_conv_nth)
  define e where "e = (j + (?n - h mod ?n)) mod ?n"
  have "(h + e) mod ?n = (h mod ?n + (j + (?n - h mod ?n))) mod ?n" by (simp add: e_def mod_simps)
  also have "h mod ?n + (j + (?n - h mod ?n)) = j + ?n" using mod_less_divisor [OF n, of h] by linarith
  finally have e: "?P e" "e < ?n" using j n by (auto simp: e_def)
  define d where "d = (LEAST d. ?P d)"
  have "?P d" unfolding d_def using LeastI [of ?P e] e by blast
  moreover have "d < ?n" unfolding d_def using Least_le [of ?P e] e by simp
  moreover have "reaches m h d ((h + d) mod ?n)" using not_less_Least [of _ ?P] by (auto simp: reaches_def d_def)
  ultimately show thesis using that n by fastforce
qed

lemma probe_run:
  assumes "is_power_of_two (length (it_hashes m))" "reaches m h d i" "d < length (it_hashes m)"
  shows "intern_run d alive nm h me (intern_start m h, m) = (Probe i (2 * length (it_hashes m) - d), m)"
proof -
  have "j \<le> d \<Longrightarrow> intern_run j alive nm h me (intern_start m h, m) =
      (Probe ((h + j) mod length (it_hashes m)) (2 * length (it_hashes m) - j), m)" for j
  proof (induction j)
    case 0
    then show ?case using slot_mod(1) [OF assms(1)] by (simp add: intern_start_def)
  next
    case (Suc j)
    let ?n = "length (it_hashes m)" and ?i = "(h + j) mod length (it_hashes m)"
    have "it_hashes m ! ?i \<notin> {0, h}" using assms(2) Suc.prems by (simp add: reaches_def)
    moreover have "2 * ?n - j = Suc (2 * ?n - Suc j)" using Suc.prems assms(3) by simp
    ultimately have "intern_step alive nm h me (Probe ?i (2 * ?n - j), m) = (Probe (next_slot m ?i) (2 * ?n - Suc j), m)"
      by (simp add: Let_def)
    moreover have "next_slot m ?i = (h + Suc j) mod ?n" using slot_mod(2) [OF assms(1)] by (simp add: mod_simps)
    ultimately show ?case using Suc by (simp add: intern_run_def)
  qed
  from this [of d] show ?thesis using assms(2) by (simp add: reaches_def)
qed

lemma intern_run_add: "intern_run (a + b) alive nm h me c = intern_run b alive nm h me (intern_run a alive nm h me c)"
  unfolding intern_run_def add.commute [of a b] funpow_add by simp

lemma quiet_room:
  assumes "quiet H ns m"
  shows "shape_ok m" "0 \<in> set (it_hashes m)" "is_power_of_two (length (it_hashes m))" "0 < length (it_hashes m)"
proof -
  have "length ns < length (it_hashes m)" "count (mset (it_hashes m)) 0 + length ns = length (it_hashes m)"
    using assms by (auto simp: quiet_def)
  then have "count (mset (it_hashes m)) 0 \<noteq> 0" by linarith
  then show "0 \<in> set (it_hashes m)" unfolding count_mset_0_iff by blast
  show "shape_ok m" "is_power_of_two (length (it_hashes m))" using assms by (simp_all add: quiet_def shape_ok_def)
  then show "0 < length (it_hashes m)" using is_power_of_two_pos by blast
qed

text \<open>From the slot the probe ends at.\<close>

lemma intern_from_slot:
  assumes "quiet H ns m" "reaches m (H nm) d i" "d < length (it_hashes m)"
    and "intern_run j (\<lambda>_. True) nm (H nm) me (Probe i (2 * length (it_hashes m) - d), m) = (Returned r, m')" "j \<le> 16"
  shows "intern_now H me nm m = Some (rbind r (\<lambda>i. ok_or (frame_id_new i) FrameCapacityExceeded), m')"
proof -
  have "intern_run (d + j) (\<lambda>_. True) nm (H nm) me (intern_start m (H nm), m) = (Returned r, m')"
    using probe_run [OF quiet_room(3) [OF assms(1)] assms(2,3)] assms(4) by (simp add: intern_run_add)
  then have "intern_exec (d + j) (\<lambda>_. True) nm (H nm) me (intern_start m (H nm), m) = Some (r, m')"
    by (rule intern_exec_run)
  then have "intern_exec (intern_fuel m) (\<lambda>_. True) nm (H nm) me (intern_start m (H nm), m) = Some (r, m')"
    by (rule intern_exec_more) (use assms(3,5) in \<open>simp add: intern_fuel_def\<close>)
  then show ?thesis by (simp add: intern_now_def)
qed

lemma reaches_end:
  assumes "reaches m h d i" "it_hashes m ! i \<in> {0, h}" "reaches m h e j" "it_hashes m ! j \<in> {0, h}"
  shows "d = e \<and> i = j"
proof -
  have "\<not> d < e" "\<not> e < d" using assms by (auto simp: reaches_def)
  then show ?thesis using assms by (simp add: reaches_def)
qed

lemma intern_known:
  assumes q: "quiet H ns m" and i: "i < length ns" and h: "H nm = H (ns ! i)" "0 < H nm"
  shows "intern_now H me nm m =
    Some (if take 48 nm = take 48 (ns ! i) then Inr (i + 1) else Inl (FrameHashCollision (of_nat (H nm))), m)"
proof -
  obtain e j where j: "reaches m (H nm) e j" "it_hashes m ! j \<in> {0, H nm}" "e < length (it_hashes m)" "j < length (it_hashes m)"
    using probe_ends [OF quiet_room(1,2) [OF q]] by blast
  have held: "name_held H ns m i" using q i by (simp add: quiet_def)
  then obtain d k where k: "reaches m (H nm) d k" "it_hashes m ! k = H nm" "it_ids m ! k = i + 1"
    by (auto simp: name_held_def h(1))
  have jk: "k = j" using reaches_end [OF k(1) _ j(1,2)] k(2) by simp
  have rec: "it_records m ! (i + 1) = for_name (ns ! i) (H (ns ! i))" "i + 1 < length (it_records m)" "i + 1 \<noteq> ID_FAILED"
    using held q i by (auto simp: name_held_def quiet_def shape_ok_def)
  have "0 < 2 * length (it_hashes m) - e" using j(3) by simp
  then obtain l where l: "2 * length (it_hashes m) - e = Suc l" using gr0_implies_Suc by blast
  have "intern_run 3 (\<lambda>_. True) nm (H nm) me (Probe j (2 * length (it_hashes m) - e), m) =
      (Returned (resolve m nm (H nm) (i + 1)), m)"
    unfolding l using k jk h(2) by (simp add: eval_nat_numeral intern_run_Suc Let_def ID_UNPUBLISHED_def)
  moreover have "resolve m nm (H nm) (i + 1) =
      (if take 48 nm = take 48 (ns ! i) then Inr (i + 1) else Inl (FrameHashCollision (of_nat (H nm))))"
    using rec by (auto simp: resolve_def matches_id_def name_matches_for_name)
  ultimately show ?thesis using intern_from_slot [OF q j(1,3), of 3 me] by (auto split: if_splits)
qed

lemma slot_taken_hash: "slot_taken H ns m j \<Longrightarrow> it_hashes m ! j \<in> H ` set ns"
  by (auto simp: slot_taken_def)

lemma new_name_slot:
  assumes q: "quiet H ns m" and new: "H nm \<notin> H ` set ns"
  obtains d j where "reaches m (H nm) d j" "it_hashes m ! j = 0" "d < length (it_hashes m)" "j < length (it_hashes m)" "slot_free m j"
proof -
  obtain d j where j: "reaches m (H nm) d j" "it_hashes m ! j \<in> {0, H nm}" "d < length (it_hashes m)" "j < length (it_hashes m)"
    using probe_ends [OF quiet_room(1,2) [OF q]] by blast
  have slot: "if it_hashes m ! j = 0 then slot_free m j else slot_taken H ns m j" using q j(4) by (simp add: quiet_def)
  then have "it_hashes m ! j = 0" using slot_taken_hash [of H ns m j] new j(2) by (auto split: if_splits)
  then show thesis using that j slot by simp
qed

lemma intern_full:
  assumes q: "quiet H ns m" and new: "H nm \<notin> H ` set ns" and h: "0 < H nm" and full: "length ns = it_capacity m"
  shows "intern_now H me nm m = Some (Inl FrameCapacityExceeded, m)"
proof -
  obtain d j where j: "reaches m (H nm) d j" "it_hashes m ! j = 0" "d < length (it_hashes m)"
    using new_name_slot [OF q new] by blast
  have "0 < 2 * length (it_hashes m) - d" using j(3) by simp
  then obtain l where l: "2 * length (it_hashes m) - d = Suc l" using gr0_implies_Suc by blast
  have "it_count m = it_capacity m" using q full by (simp add: quiet_def)
  then have "intern_run 2 (\<lambda>_. True) nm (H nm) me (Probe j (2 * length (it_hashes m) - d), m) = (Returned (Inl FrameCapacityExceeded), m)"
    unfolding l using j(2) h by (simp add: eval_nat_numeral intern_run_Suc Let_def)
  then show ?thesis using intern_from_slot [OF q j(1,3), of 2 me] by simp
qed

text \<open>The table after a name was added in an empty slot.\<close>

definition add_name :: "nat \<Rightarrow> name \<Rightarrow> nat \<Rightarrow> nat \<Rightarrow> nat \<Rightarrow> intern_table \<Rightarrow> intern_table" where
  "add_name j nm h me fid m =
     m\<lparr>it_hashes := (it_hashes m)[j := h], it_ids := (it_ids m)[j := fid],
       it_claiming := (it_claiming m)[j := (if me = CLAIM_UNRECORDED then CLAIM_ANONYMOUS else me)],
       it_count := fid, it_records := (it_records m)[fid := for_name nm h]\<rparr>"

lemma add_name_run:
  assumes q: "quiet H ns m" and j: "j < length (it_hashes m)" "slot_free m j" and h: "0 < h" and room: "length ns < it_capacity m"
  shows "intern_run 7 alive nm h me (Probe j (Suc l), m) = (Returned (Inr (length ns + 1)), add_name j nm h me (length ns + 1) m)"
proof -
  have m: "it_count m = length ns" "length ns + 1 < length (it_records m)" "j < length (it_ids m)" "j < length (it_claiming m)"
    using q room j(1) by (auto simp: quiet_def shape_ok_def)
  then show ?thesis
    using j(2) h room
    by (simp add: eval_nat_numeral intern_run_Suc slot_free_def cas_at_def write_record_def add_name_def Let_def ID_UNPUBLISHED_def)
qed

lemma reaches_add:
  assumes "reaches m h' d i" "it_hashes m ! j = 0"
  shows "reaches (add_name j nm h me fid m) h' d i"
proof -
  have "j \<noteq> (h' + e) mod length (it_hashes m)" if "e < d" for e using assms that by (auto simp: reaches_def)
  then show ?thesis using assms(1) by (simp add: reaches_def add_name_def)
qed

lemma quiet_add:
  assumes q: "quiet H ns m" and new: "H nm \<notin> H ` set ns" "0 < H nm" and room: "length ns < it_capacity m"
    and j: "reaches m (H nm) d j" "j < length (it_hashes m)" "slot_free m j"
  shows "quiet H (ns @ [nm]) (add_name j nm (H nm) me (length ns + 1) m)"
proof -
  let ?m = "add_name j nm (H nm) me (length ns + 1) m"
  have sh: "length (it_ids m) = length (it_hashes m)" "length (it_claiming m) = length (it_hashes m)"
    "length (it_records m) = it_capacity m + 1" using q by (simp_all add: quiet_def shape_ok_def)
  have z: "it_hashes m ! j = 0" using j(3) by (simp add: slot_free_def)
  have shape: "shape_ok ?m" using q by (simp add: quiet_def shape_ok_def add_name_def)
  have "count (mset (it_hashes ?m)) 0 = count (mset (it_hashes m)) 0 - 1"
    using new(2) j(2) z by (simp add: add_name_def mset_update)
  moreover have "count (mset (it_hashes m)) 0 + length ns = length (it_hashes m)" "0 < length (it_hashes m)"
    using q j(2) by (auto simp: quiet_def)
  moreover have "0 < count (mset (it_hashes m)) 0" using z j(2) nth_mem [OF j(2)] by simp
  ultimately have "count (mset (it_hashes ?m)) 0 + (length ns + 1) = length (it_hashes m)" by linarith
  then have cnt: "count (mset (it_hashes ?m)) 0 + length (ns @ [nm]) = length (it_hashes ?m)"
    by (simp add: add_name_def)
  have slots: "if it_hashes ?m ! l = 0 then slot_free ?m l else slot_taken H (ns @ [nm]) ?m l" if l: "l < length (it_hashes m)" for l
  proof (cases "l = j")
    case True
    then show ?thesis using new(2) j(2) sh by (auto simp: slot_taken_def add_name_def intro!: exI [of _ "length ns"])
  next
    case False
    have "if it_hashes m ! l = 0 then slot_free m l else slot_taken H ns m l" using q l by (simp add: quiet_def)
    then show ?thesis using False by (auto simp: slot_free_def slot_taken_def add_name_def nth_append split: if_splits)
  qed
  have names: "name_held H (ns @ [nm]) ?m i" if i: "i < length (ns @ [nm])" for i
  proof (cases "i = length ns")
    case True
    have "reaches ?m (H nm) d j \<and> it_hashes ?m ! j = H nm \<and> it_ids ?m ! j = length ns + 1"
      using reaches_add [OF j(1) z] j(2) sh by (simp add: add_name_def)
    moreover have "it_records ?m ! (length ns + 1) = for_name nm (H nm)" using sh room by (simp add: add_name_def)
    ultimately show ?thesis using True unfolding name_held_def by (simp only: nth_append_length) blast
  next
    case False
    then have i: "i < length ns" using i by simp
    then have "name_held H ns m i" using q by (simp add: quiet_def)
    then obtain e l where e: "reaches m (H (ns ! i)) e l" "it_hashes m ! l = H (ns ! i)" "it_ids m ! l = i + 1"
        "it_records m ! (i + 1) = for_name (ns ! i) (H (ns ! i))" by (auto simp: name_held_def)
    have "l \<noteq> j" using e(3) j(3) by (auto simp: slot_free_def ID_UNPUBLISHED_def)
    then have "reaches ?m (H (ns ! i)) e l \<and> it_hashes ?m ! l = H (ns ! i) \<and> it_ids ?m ! l = i + 1"
      using reaches_add [OF e(1) z] e by (simp add: add_name_def)
    moreover have "it_records ?m ! (i + 1) = for_name (ns ! i) (H (ns ! i))" using e(4) i by (simp add: add_name_def)
    moreover have "(ns @ [nm]) ! i = ns ! i" using i by (simp add: nth_append)
    ultimately show ?thesis unfolding name_held_def by metis
  qed
  have sel: "it_count ?m = length (ns @ [nm])" "it_capacity ?m = it_capacity m" "length (it_hashes ?m) = length (it_hashes m)"
    by (simp_all add: add_name_def)
  have "\<forall>l < length (it_hashes ?m). if it_hashes ?m ! l = 0 then slot_free ?m l else slot_taken H (ns @ [nm]) ?m l"
    unfolding sel(3) using slots by blast
  moreover have "\<forall>i < length (ns @ [nm]). name_held H (ns @ [nm]) ?m i" using names by blast
  moreover have "it_capacity m < ID_FAILED" "it_capacity m < length (it_hashes m)" using q by (simp_all add: quiet_def)
  ultimately show ?thesis
    unfolding quiet_def sel using shape cnt room by (intro conjI) (simp_all only: sel length_append_singleton Suc_leI)
qed

lemma intern_new:
  assumes q: "quiet H ns m" and new: "H nm \<notin> H ` set ns" "0 < H nm" and room: "length ns < it_capacity m"
  obtains m' where "intern_now H me nm m = Some (Inr (length ns + 1), m')" "quiet H (ns @ [nm]) m'"
    "it_capacity m' = it_capacity m" "length (it_hashes m') = length (it_hashes m)"
proof -
  obtain d j where j: "reaches m (H nm) d j" "d < length (it_hashes m)" "j < length (it_hashes m)" "slot_free m j"
    using new_name_slot [OF q new(1)] by blast
  have "0 < 2 * length (it_hashes m) - d" using j(2) by simp
  then obtain l where l: "2 * length (it_hashes m) - d = Suc l" using gr0_implies_Suc by blast
  have "intern_now H me nm m = Some (Inr (length ns + 1), add_name j nm (H nm) me (length ns + 1) m)"
    using intern_from_slot [OF q j(1,2), of 7 me] add_name_run [OF q j(3,4) new(2) room, of "\<lambda>_. True" nm me l] l
    by (simp add: frame_id_new_def)
  then show thesis using that quiet_add [OF q new room j(1,3,4)] by (simp add: add_name_def)
qed

lemma quiet_new:
  assumes "is_power_of_two n" "cap < n" "cap < ID_FAILED"
  shows "quiet H [] (intern_table_new n cap)"
  using assms by (simp add: quiet_def shape_ok_def intern_table_new_def slot_free_def)

text \<open>Interning names one after the other.\<close>

fun intern_all :: "(name \<Rightarrow> nat) \<Rightarrow> nat \<Rightarrow> name list \<Rightarrow> intern_table \<Rightarrow> ((frame_error + unit) \<times> intern_table) option" where
  "intern_all H me [] m = Some (Inr (), m)"
| "intern_all H me (nm # ns) m =
     (case intern_now H me nm m of
        None \<Rightarrow> None
      | Some (Inl e, m') \<Rightarrow> Some (Inl e, m')
      | Some (Inr i, m') \<Rightarrow> intern_all H me ns m')"

lemma intern_all_new:
  assumes "quiet H ns m" "inj_on H (set (ns @ ms))" "distinct (ns @ ms)" "\<forall>nm \<in> set ms. 0 < H nm"
    and "length (ns @ ms) \<le> it_capacity m"
  shows "\<exists>m'. intern_all H me ms m = Some (Inr (), m') \<and> quiet H (ns @ ms) m' \<and> it_capacity m' = it_capacity m"
  using assms
proof (induction ms arbitrary: ns m)
  case Nil
  then show ?case by simp
next
  case (Cons nm ms)
  have "H nm \<notin> H ` set ns" using Cons.prems(2,3) by (auto simp: inj_on_def)
  then obtain m1 where m1: "intern_now H me nm m = Some (Inr (length ns + 1), m1)" "quiet H (ns @ [nm]) m1"
      "it_capacity m1 = it_capacity m"
    by (rule intern_new [OF Cons.prems(1), of nm me]) (use Cons.prems(4,5) in auto)
  then show ?case using Cons.IH [OF m1(2)] Cons.prems by simp
qed

end
