(* ===== verification/Plan_Lookup.thy ===== *)
theory Plan_Lookup
  imports Plan_Queries
begin

unbundle bit_operations_syntax

text \<open>
  Compilation and evaluation together on one arena: what a lookup of \<open>tf_tree\<close> computes, and what
  happens to compiled plans when the frame tree is mutated.
\<close>

subsection \<open>Generations\<close>

lemma fold_into_generation: "fold_into p ts ss edge_meta = Inr q \<Longrightarrow> length (plan_array p) = MAX_DEPTH \<Longrightarrow>
    plan_generation q = plan_generation p"
  using fold_into_ref [of p ts ss edge_meta]
  by (cases "raw_steps edge_meta (raw_path ts ss) None") (auto simp: fold_ref_def split: if_splits prod.splits)

text \<open>A plan carries the generation of the tree it was compiled on.\<close>

lemma compile_generation:
  assumes v: "view_ok v" "tv_max_frames v \<le> 2 ^ 16" "0 < a" "0 < b"
    and c: "compile (Suc n) (stable_generation v) edge_meta a b (\<lambda>_. (generation v, rest_reads v, generation v)) = Some (Inr q)"
  shows "plan_generation q = generation v"
proof (cases "a = b")
  case True
  then show ?thesis using c by (auto simp: compile_def identity_plan_def stable_generation_def)
next
  case False
  then have att: "compile_attempt edge_meta a b (generation v, rest_reads v, generation v) = Done (Inr q)"
    using c compile_attempt_total [OF v, of edge_meta] by (simp add: compile_def split: outcome.splits)
  then obtain ts ss where "fold_into (identity_plan (generation v)) ts ss edge_meta = Inr q"
    by (auto simp: compile_attempt_def obind_Done_iff split: if_splits)
  then show ?thesis using fold_into_generation by (auto simp: identity_plan_def)
qed

text \<open>A sequence of mutations, and how many of them published.\<close>

fun mutations :: "(frame_id \<times> frame_id \<times> edge_id) list \<Rightarrow> topology_view \<Rightarrow> nat \<times> topology_view" where
  "mutations [] v = (0, v)"
| "mutations ((c, p, e) # ms) v =
     (case set_parent c p e v of
        (Inl err, v1) \<Rightarrow> mutations ms v1
      | (Inr u, v1) \<Rightarrow> (case mutations ms v1 of (n, v2) \<Rightarrow> (Suc n, v2)))"

lemma unat_generation: "unat (generation v) < 2 ^ 56"
proof -
  have "unat (topo v) < 2 ^ 56 * 2 ^ 8" using unsigned_less [of "topo v", where ?'a = nat] by simp
  then have "unat (topo v) div 2 ^ 8 < 2 ^ 56" by (rule less_mult_imp_div_less)
  moreover have "unat (generation v) = unat (topo v) div 2 ^ 8"
    unfolding generation_def unpack_topo_def fst_conv unat_drop_bit_eq by (rule drop_bit_eq_div)
  ultimately show ?thesis by simp
qed

lemma mutations_generation:
  assumes "view_ok v" "\<forall>m \<in> set ms. 0 < fst m"
  shows "case mutations ms v of (n, v') \<Rightarrow>
    view_ok v' \<and> unat (generation v') = (unat (generation v) + n) mod 2 ^ 56"
  using assms
proof (induction ms v rule: mutations.induct)
  case (1 v)
  then show ?case using unat_generation [of v] by simp
next
  case (2 c p e ms v)
  have c: "0 < c" and rest: "\<forall>m \<in> set ms. 0 < fst m" using "2.prems" by auto
  from "2.prems"(1) c show ?case
  proof (cases rule: set_parent_cases [of v c p e])
    case (unknown f)
    then show ?thesis using "2.IH"(1) [of "Inl (TopologyUnknownFrame f)" v] "2.prems"(1) rest by simp
  next
    case (cycle v')
    then have "view_ok v'" "generation v' = generation v"
      using touches_scratch [OF cycle(5)] view_ok_touches [OF cycle(5) "2.prems"(1)] by auto
    then show ?thesis using cycle "2.IH"(1) [OF _ _ _ rest] by (simp split: prod.splits)
  next
    case (ok v')
    note s = set_parent_Inr [OF "2.prems"(1) c ok(2-4), of e]
    have gen: "unat (generation v') = (unat (generation v) + 1) mod 2 ^ 56"
    proof -
      have "generation v' = (generation v + 1) AND mask 56" using s(5) ok(1) by simp
      then have "unat (generation v') = unat (generation v + 1) mod 2 ^ 56"
        by (simp only: unat_and_mask)
      also have "unat (generation v + 1) = unat (generation v) + 1"
        using unat_generation [of v] by (simp add: unat_word_ariths)
      finally show ?thesis .
    qed
    have "view_ok v'" using s(2) ok(1) by simp
    then have "case mutations ms v' of (n, w) \<Rightarrow> view_ok w \<and> unat (generation w) = (unat (generation v') + n) mod 2 ^ 56"
      using "2.IH"(2) [of "Inr ()" v' "()"] ok(1) rest by simp
    then show ?thesis using ok(1) gen by (auto split: prod.splits simp: mod_simps)
  qed
qed

subsection \<open>Lookups\<close>

text \<open>What the edges of an arena yield at a stamp, static or sampled.\<close>

definition edge_at :: "arena \<Rightarrow> int \<Rightarrow> edge_id \<Rightarrow> lookup_error + iso3" where
  "edge_at a nanos = edge_pose (arena_edge_meta a) (\<lambda>e. guard_sample a e nanos ErrorPolicy)"

lemma guard_new_sel [simp]: "g_arena (guard_new a w) = a" "g_generation (guard_new a w) = stable_generation (ar_topology a)"
  by (simp_all add: guard_new_def)

text \<open>The arena of two edges with edge 1 fed, and frame 1 attached under frame 2 by it.\<close>

definition linked_topology :: topology_view where
  "linked_topology = snd (set_parent 1 2 1 zero_view)"

definition linked_arena :: arena where
  "linked_arena = fed_arena\<lparr>ar_topology := linked_topology\<rparr>"

lemma linked_topology_ok:
  "view_ok linked_topology" "tv_max_frames linked_topology = 4" "parent (published linked_topology) = [0, 2, 0, 0]"
  "edge_of_child (published linked_topology) = [0, 1, 0, 0]" "generation linked_topology = 1"
proof -
  have "ancestor [0, 0, 0, 0] 1 2 \<longleftrightarrow> ancestor [0, 0, 0, 0] 1 0"
    using ancestor_step [of 2 1 "[0, 0, 0, 0]"] by simp
  then have nc: "\<not> ancestor (parent (published zero_view)) 1 2"
    using not_ancestor_0 [of "[0, 0, 0, 0]" 1] zero_view_ok(2) by simp
  have "active_block zero_view < 4" using blocks_lt(1) [of zero_view] by (simp add: TOPO_BLOCKS_def)
  then have "edge_of_child (published zero_view) = replicate 4 0"
    by (simp add: published_def) (simp add: zero_view_def)
  then have e: "edge_of_child (published zero_view) = [0, 0, 0, 0]" by (simp add: numeral_eq_Suc)
  have g: "generation zero_view = 0" by (simp add: generation_def zero_view_def unpack_topo_def)
  note s = set_parent_Inr [OF zero_view_ok(1) _ _ _ nc, of 1, folded linked_topology_def]
  show "view_ok linked_topology" "tv_max_frames linked_topology = 4" "parent (published linked_topology) = [0, 2, 0, 0]"
    "edge_of_child (published linked_topology) = [0, 1, 0, 0]"
    using s zero_view_ok(2,3) e by simp_all
  show "generation linked_topology = 1" using s(5) zero_view_ok(3) g by (simp add: mask_eq_exp_minus_1)
qed

lemma linked_paths:
  "path_ok linked_topology 1 2" "path_up linked_topology 1 2 = [1]" "path_up linked_topology 2 1 = []"
  "walkable linked_topology 1 2"
proof -
  let ?p = "[0, 2, 0, 0] :: nat list"
  have F: "forest 4 ?p" using linked_topology_ok by (simp add: view_ok_def)
  have l2: "level ?p 2 = 1" using level_pos [OF F, of 2] by simp
  then have l1: "level ?p 1 = 2" using level_pos [OF F, of 1] by simp
  note l = l1 l2 l1 [unfolded One_nat_def] l2 [unfolded One_nat_def]
  have "meets ?p 1 2 1" by (simp add: meets_def l up_Suc)
  moreover have "meet_level ?p 1 2 \<le> 1"
    using meet_level_meets [OF F, of 1 2] l by (simp add: meets_def)
  ultimately have m: "meet_level ?p 1 2 = 1"
    using meet_level_greatest [of ?p 1 2 1] by linarith
  then have m': "meet_level ?p 2 1 = 1" using meet_level_commute by metis
  note ms = m m' m [unfolded One_nat_def] m' [unfolded One_nat_def]
  show "path_up linked_topology 1 2 = [1]" "path_up linked_topology 2 1 = []"
    by (simp_all add: path_up_def linked_topology_ok ms l edges_to_def Let_def)
  have "same_tree ?p 1 2" using same_tree_iff [OF F, of 1 2] m by simp
  then show "path_ok linked_topology 1 2"
    by (simp add: path_ok_def linked_topology_ok ms l edges_to_def MAX_PATH_EDGES_def Let_def)
  show "walkable linked_topology 1 2" by (simp add: walkable_def linked_topology_ok)
qed

lemma linked_arena_edges:
  "arena_ring linked_arena e = arena_ring fed_arena e" "sampler linked_arena e = sampler fed_arena e"
  "arena_edge_meta linked_arena 1 = Some \<lparr>em_kind = Dynamic, em_domain = 0, em_static_pose = from_bits (replicate 7 0)\<rparr>"
  "rings_ok linked_arena"
proof -
  show r: "arena_ring linked_arena e = arena_ring fed_arena e" for e
    by (simp add: arena_ring_def arena_edge_def arena_claim_def ring_of_def linked_arena_def split: option.split prod.split)
  show "sampler linked_arena e = sampler fed_arena e"
    by (simp add: sampler_def arena_edge_def arena_claim_def ring_of_def linked_arena_def split: option.split prod.split)
  show "rings_ok linked_arena" using fed_arena_rings(2) by (simp add: rings_ok_def r)
  show "arena_edge_meta linked_arena 1 = Some \<lparr>em_kind = Dynamic, em_domain = 0, em_static_pose = from_bits (replicate 7 0)\<rparr>"
    by (simp add: arena_edge_meta_def arena_edge_def linked_arena_def fed_arena_def put_ring_def two_edges_def Let_def
        edge_record_dynamic_def edge_kind_from_u8_def)
qed


lemma linked_compiles:
  "\<exists>q. compile (Suc 0) (stable_generation linked_topology) (arena_edge_meta linked_arena) 1 2
      (\<lambda>_. (generation linked_topology, rest_reads linked_topology, generation linked_topology)) = Some (Inr q) \<and>
    plan_domain q = 0"
proof -
  obtain q where "fold_into (identity_plan 1) [1] [] (arena_edge_meta linked_arena) = Inr q" "plan_domain q = 0"
    by (simp add: fold_into_def raw_path_def resolve_edge_def fold_start_def emit_step_def append_step_def MAX_DEPTH_def
        identity_plan_def linked_arena_edges(3) [unfolded One_nat_def])
  then show ?thesis
    using compile_attempt_rest [OF linked_paths(4), of "arena_edge_meta linked_arena"] linked_paths
    by (simp add: compile_def linked_topology_ok)
qed

lemma fed_arena_edges: "h_max_edges (ar_header fed_arena) = 2" "sampler fed_arena 0 = Some (0, ring_new 0 4)"
  "e < 2 \<Longrightarrow> er_kind (ar_edges fed_arena ! e) = 0"
proof -
  show "h_max_edges (ar_header fed_arena) = 2" by (simp add: fed_arena_def put_ring_def two_edges_def Let_def)
  show "e < 2 \<Longrightarrow> er_kind (ar_edges fed_arena ! e) = 0"
    by (cases e) (auto simp: fed_arena_def put_ring_def two_edges_def edge_record_dynamic_def Let_def)
  have "er_interp (ar_edges fed_arena ! 0) = 0"
    by (simp add: fed_arena_def put_ring_def Let_def two_edges_def edge_record_dynamic_def)
  then show "sampler fed_arena 0 = Some (0, ring_new 0 4)" using fed_arena_rings(4) by (simp add: sampler_eq)
qed

lemma linked_samples:
  "unit_sampler (\<lambda>e. guard_sample linked_arena e 20 ErrorPolicy)" "unit_metas (arena_edge_meta linked_arena)"
  "edge_at linked_arena 20 1 = Inr third_turn"
proof -
  have s1: "guard_sample linked_arena 1 20 ErrorPolicy = Inr third_turn"
    using fed_ring_ok by (simp add: guard_sample_def linked_arena_edges fed_arena_rings(3) [unfolded One_nat_def] sample_def
        Let_def revalidated_def)
  have r0: "sampler fed_arena 0 = Some (0, ring_new 0 4)" by (rule fed_arena_edges(2))
  then have s0: "guard_sample linked_arena 0 20 ErrorPolicy = Inl (NoData 0)"
    by (simp add: guard_sample_def linked_arena_edges sample_def ring_new_def Let_def)
  have s: "guard_sample linked_arena e 20 ErrorPolicy = Inl (UnknownEdge e)" if "1 < e" for e
  proof -
    have "sampler fed_arena e = None" using that by (simp add: sampler_def arena_edge_def fed_arena_edges(1))
    then show ?thesis by (simp add: guard_sample_def linked_arena_edges(2))
  qed
  show "unit_sampler (\<lambda>e. guard_sample linked_arena e 20 ErrorPolicy)"
    unfolding unit_sampler_def
  proof (intro allI impI)
    fix e p assume "guard_sample linked_arena e 20 ErrorPolicy = Inr p"
    then show "unit_iso p" using s0 s1 s [of e] by (cases "e = 0 \<or> e = 1") auto
  qed
  show "unit_metas (arena_edge_meta linked_arena)"
    by (auto simp: unit_metas_def arena_edge_meta_def arena_edge_def linked_arena_def fed_arena_edges edge_kind_from_u8_def)
  show "edge_at linked_arena 20 1 = Inr third_turn"
    using s1 by (simp add: edge_at_def edge_pose_def linked_arena_edges(3) [unfolded One_nat_def])
qed

lemma linked_mutations:
  "\<exists>v'. mutations [(3, 3, 9), (3, 1, 1)] linked_topology = (1, v') \<and> generation v' = 2"
proof -
  have a: "ancestor (parent (published linked_topology)) 3 3" by simp
  note cyc = set_parent_Inl(3) [OF linked_topology_ok(1) _ _ _ a, of 9]
  obtain d where d: "set_parent 3 3 9 linked_topology = (Inl (WouldCreateCycle 3), d)"
    "touches_only (next_block linked_topology) linked_topology d"
    using cyc linked_topology_ok(2) by (cases "set_parent 3 3 9 linked_topology") simp
  note t = touches_scratch [OF d(2)] and ok = view_ok_touches [OF d(2) linked_topology_ok(1)]
  have na: "\<not> ancestor (parent (published d)) 3 1"
  proof -
    have "\<not> ancestor [0, 2, 0, 0] 3 0" using not_ancestor_0 [of "[0, 2, 0, 0]" 3] by simp
    then have "\<not> ancestor [0, 2, 0, 0] 3 2" using ancestor_step [of 2 3 "[0, 2, 0, 0]"] by simp
    then have "\<not> ancestor [0, 2, 0, 0] 3 1" using ancestor_step [of 1 3 "[0, 2, 0, 0]"] by simp
    then show ?thesis by (simp add: t linked_topology_ok)
  qed
  note s = set_parent_Inr [OF ok _ _ _ na, of 1]
  obtain v' where v': "set_parent 3 1 1 d = (Inr (), v')" "generation v' = 2"
    using s(1,5) by (cases "set_parent 3 1 1 d") (simp add: t linked_topology_ok mask_eq_exp_minus_1)
  then show ?thesis by (simp add: d(1))
qed

lemma lookup_evaluates:
  assumes v: "view_ok (ar_topology a)" "tv_max_frames (ar_topology a) \<le> 2 ^ 16" "0 < t" "0 < s"
    and c: "compile (Suc n) (stable_generation (ar_topology a)) (arena_edge_meta a) t s
      (\<lambda>_. (generation (ar_topology a), rest_reads (ar_topology a), generation (ar_topology a))) = Some (Inr q)"
    and S: "rings_ok a" "unit_sampler (\<lambda>e. guard_sample a e nanos ErrorPolicy)" "unit_metas (arena_edge_meta a)"
    and P: "\<forall>e. unit_iso (P e)"
      "\<forall>e \<in> set (path_up (ar_topology a) t s) \<union> set (path_up (ar_topology a) s t). edge_at a nanos e = Inr (P e)"
    and d: "has_dynamic q \<longrightarrow> plan_domain q = dmn"
  shows "fst (at_tagged q nanos dmn (guard_new a w)) =
    Inr (iso3_mul (iso3_inverse (pose_in_root P (ar_topology a) t)) (pose_in_root P (ar_topology a) s))"
proof -
  let ?r = "Inr (iso3_mul (iso3_inverse (pose_in_root P (ar_topology a) t)) (pose_in_root P (ar_topology a) s))"
  have "pose_at q a nanos = ?r"
    unfolding pose_at_def using compiled_plan_eval [OF v c S(2,3) P(1)] P(2) by (simp add: edge_at_def)
  then obtain h where "fold_at q nanos (guard_new a w) = (?r, h)"
    using fold_at_eq(1) [of "guard_new a w" q nanos] S(1) by (cases "fold_at q nanos (guard_new a w)") simp
  then show ?thesis
    using d compile_generation [OF v c]
    by (simp add: at_tagged_def after_def check_generation_def check_domain_tag_def note_result_def stable_generation_def)
qed

text \<open>C23: the end of a lookup. A plan compiled from the tables of an arena and evaluated at a stamp through
  a fresh guard gives \<open>inverse (pose of target in the root) * (pose of source in the root)\<close>, where each edge
  stands for its static pose or for the interpolation of its ring at that stamp; the constant
  folding, the direction of the steps, the cursors and the generation check do not show.\<close>

theorem lookup_pose:
  assumes v: "view_ok (ar_topology a)" "tv_max_frames (ar_topology a) \<le> 2 ^ 16" "0 < t" "0 < s"
    and c: "compile (Suc n) (stable_generation (ar_topology a)) (arena_edge_meta a) t s
      (\<lambda>_. (generation (ar_topology a), rest_reads (ar_topology a), generation (ar_topology a))) = Some (Inr q)"
    and S: "rings_ok a" "unit_sampler (\<lambda>e. guard_sample a e nanos ErrorPolicy)" "unit_metas (arena_edge_meta a)"
    and P: "\<forall>e. unit_iso (P e)"
      "\<forall>e \<in> set (path_up (ar_topology a) t s) \<union> set (path_up (ar_topology a) s t). edge_at a nanos e = Inr (P e)"
    and d: "has_dynamic q \<longrightarrow> plan_domain q = dmn"
  shows "fst (at_tagged q nanos dmn (guard_new a w)) =
    Inr (iso3_mul (iso3_inverse (pose_in_root P (ar_topology a) t)) (pose_in_root P (ar_topology a) s))"
  using lookup_evaluates [OF v c S P d] .

theorem lookup_pose_witness:
  "\<exists>q. compile 1 1 (arena_edge_meta linked_arena) 1 2 (\<lambda>_. (1, rest_reads linked_topology, 1)) = Some (Inr q) \<and>
     fst (at_tagged q 20 0 (guard_new linked_arena arena_view_new)) =
       Inr (iso3_mul (iso3_inverse (pose_in_root (\<lambda>_. third_turn) linked_topology 1))
         (pose_in_root (\<lambda>_. third_turn) linked_topology 2))"
proof -
  obtain q where q: "compile (Suc 0) (stable_generation linked_topology) (arena_edge_meta linked_arena) 1 2
      (\<lambda>_. (generation linked_topology, rest_reads linked_topology, generation linked_topology)) = Some (Inr q)"
    "plan_domain q = 0"
    using linked_compiles by blast
  have ok: "unit_sampler (\<lambda>e. guard_sample linked_arena e 20 ErrorPolicy)" "unit_metas (arena_edge_meta linked_arena)"
    "edge_at linked_arena 20 1 = Inr third_turn"
    using linked_samples by simp_all
  have "fst (at_tagged q 20 0 (guard_new linked_arena arena_view_new)) =
      Inr (iso3_mul (iso3_inverse (pose_in_root (\<lambda>_. third_turn) linked_topology 1))
        (pose_in_root (\<lambda>_. third_turn) linked_topology 2))"
    using lookup_pose [of linked_arena 1 2 0 q 20 "\<lambda>_. third_turn" 0 arena_view_new] q ok linked_arena_edges(4)
      linked_topology_ok linked_paths
    by (simp add: linked_arena_def)
  then show ?thesis using q by (auto simp: linked_topology_ok stable_generation_def)
qed



end
