(* ===== verification/Tree_Build.thy ===== *)
theory Tree_Build
  imports Intern_Rest Plan_Lookup
begin

text \<open>
  Declaring a tree, \<open>TreeBuilder\<close> of \<open>tf_tree/src/tree.rs\<close>: capacities and edge configurations, the builder,
  and \<open>build_with\<close>, which lays out the arena, interns the names, declares the edges and wires the topology.
  The arena of the call is private to it, so interning runs at rest; a call that would never return is \<open>None\<close>.
  Floats are exact reals.
\<close>

subsection \<open>Capacities and configurations\<close>

definition next_pow2_u32 :: "nat \<Rightarrow> nat" where
  "next_pow2_u32 n = (let p = next_pow2 n in if p > u32_max then 2 ^ 31 else p)"

definition capacity_slots :: "nat \<Rightarrow> nat" where
  "capacity_slots n = next_pow2_u32 n"

definition capacity_history :: "real \<Rightarrow> real \<Rightarrow> nat" where
  "capacity_history rate_hz secs =
     (let needed = \<lceil>rate_hz * secs\<rceil>;
          clamped = (if needed \<ge> 1 then if needed > int u32_max then u32_max else nat needed else 1)
      in next_pow2_u32 clamped)"

record edge_cfg =
  cfg_capacity :: nat
  cfg_interp :: "interp_policy option"
  cfg_domain :: "nat option"
  cfg_nominal_rate_mhz :: nat

definition edge_cfg_new :: "nat \<Rightarrow> edge_cfg" where
  "edge_cfg_new cap = \<lparr>cfg_capacity = cap, cfg_interp = None, cfg_domain = None, cfg_nominal_rate_mhz = 0\<rparr>"

definition nominal_rate_hz :: "real \<Rightarrow> edge_cfg \<Rightarrow> edge_cfg" where
  "nominal_rate_hz rate_hz cfg =
     (let mhz = rate_hz * 1000
      in cfg\<lparr>cfg_nominal_rate_mhz := (if mhz \<ge> 1 \<and> mhz \<le> real u32_max then nat (round mhz) else 0)\<rparr>)"

definition cfg_with_interp :: "interp_policy \<Rightarrow> edge_cfg \<Rightarrow> edge_cfg" where
  "cfg_with_interp i cfg = cfg\<lparr>cfg_interp := Some i\<rparr>"

definition cfg_with_domain :: "nat \<Rightarrow> edge_cfg \<Rightarrow> edge_cfg" where
  "cfg_with_domain d cfg = cfg\<lparr>cfg_domain := Some d\<rparr>"

subsection \<open>The builder\<close>

datatype edge_decl_kind = StaticDecl iso3 | DynamicDecl edge_cfg

record edge_decl =
  ed_parent :: name
  ed_child :: name
  ed_kind :: edge_decl_kind

record tree_builder =
  tb_interp :: interp_policy
  tb_domain :: nat
  tb_frames :: "name list"
  tb_edges :: "edge_decl list"
  tb_frame_headroom :: nat
  tb_edge_headroom :: nat


definition builder_new :: tree_builder where
  "builder_new = \<lparr>tb_interp = ScLerp, tb_domain = SystemDomain_TAG, tb_frames = [], tb_edges = [],
     tb_frame_headroom = 0, tb_edge_headroom = 0\<rparr>"

definition default_interp :: "interp_policy \<Rightarrow> tree_builder \<Rightarrow> tree_builder" where
  "default_interp i b = b\<lparr>tb_interp := i\<rparr>"

definition default_domain :: "nat \<Rightarrow> tree_builder \<Rightarrow> tree_builder" where
  "default_domain d b = b\<lparr>tb_domain := d\<rparr>"

definition builder_frame :: "name \<Rightarrow> tree_builder \<Rightarrow> tree_builder" where
  "builder_frame nm b = b\<lparr>tb_frames := tb_frames b @ [nm]\<rparr>"

definition static_edge :: "name \<Rightarrow> name \<Rightarrow> iso3 \<Rightarrow> tree_builder \<Rightarrow> tree_builder" where
  "static_edge p c x b = b\<lparr>tb_edges := tb_edges b @ [\<lparr>ed_parent = p, ed_child = c, ed_kind = StaticDecl x\<rparr>]\<rparr>"

definition dynamic_edge :: "name \<Rightarrow> name \<Rightarrow> edge_cfg \<Rightarrow> tree_builder \<Rightarrow> tree_builder" where
  "dynamic_edge p c cfg b = b\<lparr>tb_edges := tb_edges b @ [\<lparr>ed_parent = p, ed_child = c, ed_kind = DynamicDecl cfg\<rparr>]\<rparr>"

definition frame_headroom :: "nat \<Rightarrow> tree_builder \<Rightarrow> tree_builder" where
  "frame_headroom n b = b\<lparr>tb_frame_headroom := n\<rparr>"

definition edge_headroom :: "nat \<Rightarrow> tree_builder \<Rightarrow> tree_builder" where
  "edge_headroom n b = b\<lparr>tb_edge_headroom := n\<rparr>"

subsection \<open>Building\<close>

datatype build_error =
    DuplicateEdge u64
  | TooManyFrames
  | TooManyEdges
  | BuildLayout layout_error
  | BuildFrame frame_error
  | BuildTopology topology_error
  | BuildShm shm_error
  | BuildParticipant participant_error

fun first_seen :: "name list \<Rightarrow> name list \<Rightarrow> name list" where
  "first_seen names [] = names"
| "first_seen names (nm # rest) = (if nm \<in> set names then first_seen names rest else first_seen (names @ [nm]) rest)"

definition declared_names :: "tree_builder \<Rightarrow> name list" where
  "declared_names b = first_seen [] (tb_frames b @ concat (map (\<lambda>e. [ed_parent e, ed_child e]) (tb_edges b)))"

fun duplicate_child :: "name set \<Rightarrow> edge_decl list \<Rightarrow> name option" where
  "duplicate_child children [] = None"
| "duplicate_child children (e # es) =
     (if ed_child e \<in> children then Some (ed_child e) else duplicate_child (insert (ed_child e) children) es)"

fun fill_caps :: "nat \<Rightarrow> edge_decl list \<Rightarrow> nat list \<Rightarrow> nat list" where
  "fill_caps i [] caps = caps"
| "fill_caps i (e # es) caps =
     fill_caps (i + 1) es (case ed_kind e of DynamicDecl cfg \<Rightarrow> caps[i + 1 := cfg_capacity cfg] | StaticDecl x \<Rightarrow> caps)"

text \<open>The zeroed tables of a fresh arena.\<close>

definition fresh_view :: "nat \<Rightarrow> topology_view" where
  "fresh_view mf = \<lparr>topo = 0,
     blocks = replicate TOPO_BLOCKS \<lparr>parent = replicate mf 0, edge_of_child = replicate mf 0, depth = replicate mf 0\<rparr>,
     tv_max_frames = mf\<rparr>"

definition edge_record_zero :: edge_record where
  "edge_record_zero = \<lparr>er_parent = 0, er_child = 0, er_kind = 0, er_interp = 0, er_domain = 0, er_capacity = 0,
     er_stamp_off = 0, er_pose_off = 0, er_nominal_rate_mhz = 0, er_head = 0, er_static_pose = replicate 7 0,
     er_declared_by_slot = 0\<rparr>"

definition participant_zero :: participant_record where
  "participant_zero = \<lparr>pt_state = 0, pt_pid = 0, pt_start_time = 0, pt_incarnation = 0, pt_attached_at = 0, pt_heartbeat = 0\<rparr>"

definition participant_counters_zero :: participant_counters where
  "participant_counters_zero = participant_counters_default\<lparr>pc_last_err_edge := 0\<rparr>"

definition fresh_arena :: "arena_header \<Rightarrow> arena" where
  "fresh_arena h =
     \<lparr>ar_header = h, ar_topology = fresh_view (h_max_frames h),
      ar_edges = replicate (h_max_edges h) edge_record_zero, ar_claims = replicate (h_max_edges h) claim_record_new,
      ar_stamps = replicate (stamp_slots h) 0, ar_poses = replicate (pose_slots h) pose_slot_new,
      ar_participants = replicate (h_max_participants h) participant_zero,
      ar_edge_counters = replicate (h_max_edges h) edge_counters_default,
      ar_participant_counters = replicate (h_max_participants h) participant_counters_zero\<rparr>"

record built =
  bt_arena :: arena
  bt_frames :: intern_table
  bt_edge_count :: nat

text \<open>The record of a declaration, and where the next ring starts.\<close>

definition decl_record :: "tree_builder \<Rightarrow> frame_id \<Rightarrow> frame_id \<Rightarrow> nat \<Rightarrow> edge_decl_kind \<Rightarrow> edge_record \<times> nat" where
  "decl_record b par child running_off k =
     (case k of
        StaticDecl x \<Rightarrow> (edge_record_static par child (to_bits x) (tb_domain b), running_off)
      | DynamicDecl cfg \<Rightarrow>
          (let cap = cfg_capacity cfg;
               interp = (case cfg_interp cfg of Some i \<Rightarrow> i | None \<Rightarrow> tb_interp b);
               dmn = (case cfg_domain cfg of Some d \<Rightarrow> d | None \<Rightarrow> tb_domain b)
           in ((edge_record_dynamic par child cap running_off running_off (interp_policy_as_u8 interp) dmn)
                 \<lparr>er_nominal_rate_mhz := cfg_nominal_rate_mhz cfg\<rparr>, running_off + cap)))"

fun declare_all :: "(name \<Rightarrow> nat) \<Rightarrow> tree_builder \<Rightarrow> nat \<Rightarrow> nat \<Rightarrow> edge_decl list \<Rightarrow> built \<Rightarrow> (build_error + built) option" where
  "declare_all H b i running_off [] t = Some (Inr t)"
| "declare_all H b i running_off (e # es) t =
     (case intern_now H CLAIM_UNRECORDED (ed_parent e) (bt_frames t) of
        None \<Rightarrow> None
      | Some (Inl err, m) \<Rightarrow> Some (Inl (BuildFrame err))
      | Some (Inr par, m1) \<Rightarrow>
     (case intern_now H CLAIM_UNRECORDED (ed_child e) m1 of
        None \<Rightarrow> None
      | Some (Inl err, m) \<Rightarrow> Some (Inl (BuildFrame err))
      | Some (Inr child, m2) \<Rightarrow>
     (case decl_record b par child running_off (ed_kind e) of (rec, off') \<Rightarrow>
     (case declare_edge (bt_arena t) (i + 1) rec of
        (Inl err, a) \<Rightarrow> Some (Inl (BuildTopology err))
      | (Inr _, a) \<Rightarrow>
     (case set_parent child par (i + 1) (ar_topology a) of
        (Inl err, v) \<Rightarrow> Some (Inl (BuildTopology err))
      | (Inr _, v) \<Rightarrow> declare_all H b (i + 1) off' es (t\<lparr>bt_arena := a\<lparr>ar_topology := v\<rparr>, bt_frames := m2\<rparr>))))))"

definition build_with :: "(name \<Rightarrow> nat) \<Rightarrow> nat \<Rightarrow> nat \<Rightarrow> u8 list \<Rightarrow> u8 list \<Rightarrow> tree_builder \<Rightarrow> (build_error + built) option" where
  "build_with H pid start boot uuid b =
     (let names = declared_names b
      in case duplicate_child {} (tb_edges b) of
           Some c \<Rightarrow> Some (Inl (DuplicateEdge (of_nat (H c))))
         | None \<Rightarrow>
      (let mf = length names + 1 + tb_frame_headroom b; me = length (tb_edges b) + 1 + tb_edge_headroom b
       in if mf > u32_max then Some (Inl TooManyFrames)
          else if me > u32_max then Some (Inl TooManyEdges)
          else case arena_layout_new mf me (fill_caps 0 (tb_edges b) (replicate me 0)) of
            Inl e \<Rightarrow> Some (Inl (BuildLayout e))
          | Inr l \<Rightarrow>
      (let h = write_header_at (layout_total_size l) l pid start boot uuid;
           t = \<lparr>bt_arena = fresh_arena h, bt_frames = intern_table_new (hash_slots h) (h_max_frames h - 1),
                bt_edge_count = length (tb_edges b) + 1\<rparr>
       in case intern_all H CLAIM_UNRECORDED names (bt_frames t) of
            None \<Rightarrow> None
          | Some (Inl e, m) \<Rightarrow> Some (Inl (BuildFrame e))
          | Some (Inr _, m) \<Rightarrow> declare_all H b 0 0 (tb_edges b) (t\<lparr>bt_frames := m\<rparr>))))"

subsection \<open>Names and their ids\<close>

definition name_id :: "name list \<Rightarrow> name \<Rightarrow> frame_id" where
  "name_id ns nm = length (takeWhile (\<lambda>x. x \<noteq> nm) ns) + 1"

lemma first_seen_props:
  "distinct names \<Longrightarrow> distinct (first_seen names xs) \<and> set (first_seen names xs) = set names \<union> set xs"
  by (induction names xs rule: first_seen.induct) auto

lemma declared_names_props:
  "distinct (declared_names b)"
  "set (declared_names b) = set (tb_frames b) \<union> ed_parent ` set (tb_edges b) \<union> ed_child ` set (tb_edges b)"
  using first_seen_props [of "[]" "tb_frames b @ concat (map (\<lambda>e. [ed_parent e, ed_child e]) (tb_edges b))"]
  by (auto simp: declared_names_def)

lemma name_id_nth:
  assumes "nm \<in> set ns"
  shows "name_id ns nm - 1 < length ns" "ns ! (name_id ns nm - 1) = nm" "0 < name_id ns nm" "name_id ns nm \<le> length ns"
proof -
  obtain us vs where ns: "ns = us @ nm # vs" "nm \<notin> set us" using assms by (meson split_list_first)
  have tw: "takeWhile (\<lambda>x. x \<noteq> nm) ns = us"
    by (subst ns(1), subst takeWhile_append2) (use ns(2) in auto)
  then show "name_id ns nm - 1 < length ns" "ns ! (name_id ns nm - 1) = nm" "0 < name_id ns nm" "name_id ns nm \<le> length ns"
    by (simp_all add: name_id_def ns)
qed

lemma name_id_inj: "a \<in> set ns \<Longrightarrow> b \<in> set ns \<Longrightarrow> name_id ns a = name_id ns b \<longleftrightarrow> a = b"
  by (metis name_id_nth(2))

lemma intern_declared:
  assumes "quiet H ns m" "nm \<in> set ns" "0 < H nm"
  shows "intern_now H me nm m = Some (Inr (name_id ns nm), m)"
  using intern_known [OF assms(1) name_id_nth(1) [OF assms(2)], of nm me] name_id_nth [OF assms(2)] assms(3) by simp

lemma duplicate_child_None:
  "duplicate_child seen es = None \<longleftrightarrow> distinct (map ed_child es) \<and> seen \<inter> ed_child ` set es = {}"
  by (induction seen es rule: duplicate_child.induct) (auto simp: image_iff)

subsection \<open>The declared relation\<close>

definition declared_rel :: "edge_decl list \<Rightarrow> (name \<times> name) set" where
  "declared_rel es = (\<lambda>e. (ed_child e, ed_parent e)) ` set es"

text \<open>The parent array of some declarations.\<close>

definition wired :: "name list \<Rightarrow> nat \<Rightarrow> edge_decl list \<Rightarrow> nat list \<Rightarrow> bool" where
  "wired ns mf es par \<longleftrightarrow> length par = mf \<and>
     (\<forall>e \<in> set es. par ! name_id ns (ed_child e) = name_id ns (ed_parent e)) \<and>
     (\<forall>f < mf. f \<notin> (\<lambda>e. name_id ns (ed_child e)) ` set es \<longrightarrow> par ! f = 0)"

lemma wired_nil: "wired ns mf [] (replicate mf 0)"
  by (simp add: wired_def)

lemma wired_snoc:
  assumes "wired ns mf es par" "ed_child e \<in> set ns" "length ns < mf" "ed_child e \<notin> ed_child ` set es"
    and "ed_child ` set es \<subseteq> set ns"
  shows "wired ns mf (es @ [e]) (par[name_id ns (ed_child e) := name_id ns (ed_parent e)])"
proof -
  let ?c = "name_id ns (ed_child e)"
  have len: "length par = mf" "?c < mf"
    using assms(1) name_id_nth(4) [OF assms(2)] assms(3) by (simp_all add: wired_def)
  have other: "name_id ns (ed_child x) \<noteq> ?c" if "x \<in> set es" for x
  proof -
    have "ed_child x \<in> set ns" "ed_child x \<noteq> ed_child e" using that assms(4,5) by (auto simp: image_iff)
    then show ?thesis using name_id_inj [OF _ assms(2)] by blast
  qed
  have "par[?c := name_id ns (ed_parent e)] ! name_id ns (ed_child x) = name_id ns (ed_parent x)" if "x \<in> set (es @ [e])" for x
  proof (cases "x = e")
    case True
    then show ?thesis using len by simp
  next
    case False
    then have x: "x \<in> set es" using that by simp
    then have "par ! name_id ns (ed_child x) = name_id ns (ed_parent x)" using assms(1) unfolding wired_def by blast
    then show ?thesis using other [OF x] by simp
  qed
  moreover have "par[?c := name_id ns (ed_parent e)] ! f = 0"
    if "f < mf" "f \<notin> (\<lambda>e. name_id ns (ed_child e)) ` set (es @ [e])" for f
  proof -
    have "f \<notin> (\<lambda>e. name_id ns (ed_child e)) ` set es" "f \<noteq> ?c" using that(2) by auto
    moreover from this(1) have "par ! f = 0" using assms(1) that(1) unfolding wired_def by blast
    ultimately show ?thesis by simp
  qed
  ultimately show ?thesis using len unfolding wired_def by simp
qed

lemma ancestor_declared:
  assumes w: "wired ns mf es par" and ns: "length ns < mf" "ed_child ` set es \<union> ed_parent ` set es \<subseteq> set ns"
    and p: "p \<in> set ns" and c: "c \<in> set ns"
  shows "ancestor par (name_id ns c) (name_id ns p) \<longleftrightarrow> (p, c) \<in> (declared_rel es)\<^sup>*"
proof
  have "0 \<notin> (\<lambda>e. name_id ns (ed_child e)) ` set es" by (auto simp: name_id_def)
  then have par0: "par ! 0 = 0" using w ns(1) by (simp add: wired_def)
  assume "ancestor par (name_id ns c) (name_id ns p)"
  then obtain k where "up par k (name_id ns p) = name_id ns c" by (auto simp: ancestor_def)
  then show "(p, c) \<in> (declared_rel es)\<^sup>*" using p
  proof (induction k arbitrary: p)
    case 0
    then show ?case using name_id_inj [OF 0(2) c] by simp
  next
    case (Suc k)
    show ?case
    proof (cases "\<exists>e \<in> set es. ed_child e = p")
      case True
      then obtain e where e: "e \<in> set es" "ed_child e = p" by blast
      then have "par ! name_id ns p = name_id ns (ed_parent e)" using w by (auto simp: wired_def)
      moreover have "ed_parent e \<in> set ns" using e ns(2) by auto
      ultimately have "(ed_parent e, c) \<in> (declared_rel es)\<^sup>*" using Suc.IH [of "ed_parent e"] Suc.prems by (simp add: up_Suc)
      moreover have "(p, ed_parent e) \<in> declared_rel es" using e by (auto simp: declared_rel_def)
      ultimately show ?thesis by (rule converse_rtrancl_into_rtrancl [rotated])
    next
      case False
      then have "name_id ns p \<notin> (\<lambda>e. name_id ns (ed_child e)) ` set es"
        using name_id_inj [OF Suc.prems(2)] ns(2) by fastforce
      moreover have "name_id ns p < mf" using name_id_nth(4) [OF Suc.prems(2)] ns(1) by simp
      ultimately have "par ! name_id ns p = 0" using w by (simp add: wired_def)
      then have "up par (Suc k) (name_id ns p) = 0" using up_stays_0 [OF par0] by (simp add: up_Suc)
      then show ?thesis using Suc.prems(1) name_id_nth(3) [OF c] by simp
    qed
  qed
next
  assume "(p, c) \<in> (declared_rel es)\<^sup>*"
  then show "ancestor par (name_id ns c) (name_id ns p)"
  proof (induction rule: converse_rtrancl_induct)
    case base
    then show ?case by simp
  next
    case (step y z)
    then obtain e where e: "e \<in> set es" "y = ed_child e" "z = ed_parent e" by (auto simp: declared_rel_def)
    then have "par ! name_id ns y = name_id ns z" using w by (auto simp: wired_def)
    then show ?case using step.IH by (cases "name_id ns y = name_id ns c") (simp_all add: ancestor_step)
  qed
qed

subsection \<open>The loop over the edges\<close>

definition decl_capacity :: "edge_decl \<Rightarrow> nat" where
  "decl_capacity e = (case ed_kind e of StaticDecl x \<Rightarrow> 0 | DynamicDecl cfg \<Rightarrow> cfg_capacity cfg)"

definition ring_start :: "edge_decl list \<Rightarrow> nat \<Rightarrow> nat" where
  "ring_start es k = sum_list (map decl_capacity (take k es))"

text \<open>The record declared for the \<open>k\<close>th edge.\<close>

definition record_of :: "tree_builder \<Rightarrow> name list \<Rightarrow> edge_decl list \<Rightarrow> nat \<Rightarrow> edge_record" where
  "record_of b ns es k =
     (let e = es ! k
      in fst (decl_record b (name_id ns (ed_parent e)) (name_id ns (ed_child e)) (ring_start es k) (ed_kind e)))"

definition edges_wired :: "name list \<Rightarrow> edge_decl list \<Rightarrow> nat list \<Rightarrow> bool" where
  "edges_wired ns es eoc \<longleftrightarrow> (\<forall>k < length es. eoc ! name_id ns (ed_child (es ! k)) = k + 1)"

definition records_declared :: "tree_builder \<Rightarrow> name list \<Rightarrow> edge_decl list \<Rightarrow> nat \<Rightarrow> edge_record list \<Rightarrow> bool" where
  "records_declared b ns es k recs \<longleftrightarrow> (\<forall>j < length recs. recs ! j = (if 0 < j \<and> j \<le> k then record_of b ns es (j - 1) else edge_record_zero))"

definition declared_state :: "(name \<Rightarrow> nat) \<Rightarrow> tree_builder \<Rightarrow> arena_header \<Rightarrow> edge_decl list \<Rightarrow> nat \<Rightarrow>
    intern_table \<Rightarrow> topology_view \<Rightarrow> edge_record list \<Rightarrow> bool" where
  "declared_state H b h es k m v recs \<longleftrightarrow>
     (let ns = declared_names b
      in quiet H ns m \<and> length recs = h_max_edges h \<and> records_declared b ns es k recs \<and>
         view_ok v \<and> tv_max_frames v = h_max_frames h \<and> unat (generation v) = k mod 2 ^ 56 \<and>
         wired ns (h_max_frames h) (take k es) (parent (published v)) \<and>
         edges_wired ns (take k es) (edge_of_child (published v)) \<and> acyclic (declared_rel (take k es)))"

definition declared_upto :: "(name \<Rightarrow> nat) \<Rightarrow> tree_builder \<Rightarrow> arena_header \<Rightarrow> edge_decl list \<Rightarrow> nat \<Rightarrow> built \<Rightarrow> bool" where
  "declared_upto H b h es k t \<longleftrightarrow> (\<exists>v recs. bt_arena t = (fresh_arena h)\<lparr>ar_topology := v, ar_edges := recs\<rparr> \<and>
     declared_state H b h es k (bt_frames t) v recs)"

lemma decl_record_next: "snd (decl_record b p c off (ed_kind e)) = off + decl_capacity e"
  by (simp add: decl_record_def decl_capacity_def Let_def split: edge_decl_kind.split)

lemma ring_start_Suc: "k < length es \<Longrightarrow> ring_start es (Suc k) = ring_start es k + decl_capacity (es ! k)"
  by (simp add: ring_start_def take_Suc_conv_app_nth)

lemma declared_rel_snoc: "declared_rel (es @ [e]) = insert (ed_child e, ed_parent e) (declared_rel es)"
  by (simp add: declared_rel_def)

lemma edges_wired_snoc:
  assumes "edges_wired ns es eoc" "length eoc = mf" "ed_child e \<in> set ns" "length ns < mf"
    and "ed_child e \<notin> ed_child ` set es" "ed_child ` set es \<subseteq> set ns"
  shows "edges_wired ns (es @ [e]) (eoc[name_id ns (ed_child e) := length es + 1])"
proof -
  let ?c = "name_id ns (ed_child e)"
  have c: "?c < mf" using name_id_nth(4) [OF assms(3)] assms(4) by simp
  have neq: "?c \<noteq> name_id ns (ed_child (es ! k))" if "k < length es" for k
  proof -
    have "es ! k \<in> set es" using that by simp
    then have "ed_child (es ! k) \<in> set ns" "ed_child (es ! k) \<noteq> ed_child e" using assms(5,6) by (auto simp: image_iff)
    then show ?thesis using name_id_inj [OF _ assms(3)] by metis
  qed
  have "eoc[?c := length es + 1] ! name_id ns (ed_child (es ! k)) = k + 1" if "k < length es" for k
    using assms(1) that neq [OF that] by (simp add: edges_wired_def)
  then show ?thesis using assms(2) c by (simp add: edges_wired_def nth_append less_Suc_eq)
qed

lemma distinct_nth_take: "distinct xs \<Longrightarrow> k < length xs \<Longrightarrow> xs ! k \<notin> set (take k xs)"
  by (auto simp: in_set_conv_nth nth_eq_iff_index_eq)

lemma set_parent_generation:
  assumes "view_ok v" "0 < c" "set_parent c p e v = (Inr (), v')"
  shows "unat (generation v') = (unat (generation v) + 1) mod 2 ^ 56"
  using mutations_generation [of v "[(c, p, e)]"] assms by simp

lemma records_declared_Suc:
  assumes "records_declared b ns es k recs" "k + 1 < length recs"
  shows "records_declared b ns es (Suc k) (recs[k + 1 := record_of b ns es k])"
  using assms by (auto simp: records_declared_def nth_list_update)

lemma declare_step:
  assumes D: "declared_upto H b h es k t" and k: "k < length es" and es: "es = tb_edges b" "distinct (map ed_child es)"
    and room: "length (declared_names b) < h_max_frames h" "length es < h_max_edges h"
    and H: "\<forall>nm \<in> set (declared_names b). 0 < H nm"
  shows "if (ed_parent (es ! k), ed_child (es ! k)) \<in> (declared_rel (take k es))\<^sup>*
    then declare_all H b k (ring_start es k) (es ! k # rest) t =
      Some (Inl (BuildTopology (WouldCreateCycle (name_id (declared_names b) (ed_child (es ! k))))))
    else \<exists>t'. declare_all H b k (ring_start es k) (es ! k # rest) t = declare_all H b (Suc k) (ring_start es (Suc k)) rest t' \<and>
      declared_upto H b h es (Suc k) t' \<and> bt_edge_count t' = bt_edge_count t"
proof -
  let ?ns = "declared_names b" and ?e = "es ! k" and ?done = "take k es"
  let ?c = "name_id ?ns (ed_child ?e)" and ?p = "name_id ?ns (ed_parent ?e)" and ?rec = "record_of b ?ns es k"
  obtain v recs where a: "bt_arena t = (fresh_arena h)\<lparr>ar_topology := v, ar_edges := recs\<rparr>"
    and S: "declared_state H b h es k (bt_frames t) v recs"
    using D by (auto simp: declared_upto_def)
  have q: "quiet H ?ns (bt_frames t)" and v: "view_ok v" "tv_max_frames v = h_max_frames h"
    and recs: "length recs = h_max_edges h" "records_declared b ?ns es k recs" and gen: "unat (generation v) = k mod 2 ^ 56"
    and w: "wired ?ns (h_max_frames h) ?done (parent (published v))"
    and eo: "edges_wired ?ns ?done (edge_of_child (published v))" and ac: "acyclic (declared_rel ?done)"
    using S unfolding declared_state_def Let_def by blast+
  have mem: "ed_child x \<in> set ?ns" "ed_parent x \<in> set ?ns" if "x \<in> set es" for x
    using declared_names_props(2) [of b] es(1) that by auto
  have e: "?e \<in> set es" using k by simp
  have sub: "set ?done \<subseteq> set es" by (rule set_take_subset)
  have lt: "0 < ?c" "?c < tv_max_frames v" "?p < tv_max_frames v"
    using name_id_nth [OF mem(1) [OF e]] name_id_nth(4) [OF mem(2) [OF e]] room(1) v(2) by simp_all
  have anc: "ancestor (parent (published v)) ?c ?p \<longleftrightarrow> (ed_parent ?e, ed_child ?e) \<in> (declared_rel ?done)\<^sup>*"
    by (rule ancestor_declared [OF w room(1)]) (use mem sub e in auto)
  have interns: "intern_now H CLAIM_UNRECORDED (ed_parent ?e) (bt_frames t) = Some (Inr ?p, bt_frames t)"
      "intern_now H CLAIM_UNRECORDED (ed_child ?e) (bt_frames t) = Some (Inr ?c, bt_frames t)"
    using intern_declared [OF q] mem [OF e] H by blast+
  have dr: "decl_record b ?p ?c (ring_start es k) (ed_kind ?e) = (?rec, ring_start es (Suc k))"
    using decl_record_next [of b ?p ?c "ring_start es k" ?e] ring_start_Suc [OF k]
    by (cases "decl_record b ?p ?c (ring_start es k) (ed_kind ?e)") (simp add: record_of_def Let_def)
  have de: "declare_edge ((fresh_arena h)\<lparr>ar_topology := v, ar_edges := recs\<rparr>) (Suc k) ?rec =
      (Inr (), (fresh_arena h)\<lparr>ar_topology := v, ar_edges := recs[Suc k := ?rec]\<rparr>)"
    using k room(2) by (simp add: declare_edge_def edge_slot_off_def fresh_arena_def)
  let ?t = "\<lambda>v'. t\<lparr>bt_arena := (fresh_arena h)\<lparr>ar_topology := v', ar_edges := recs[Suc k := ?rec]\<rparr>\<rparr>"
  have same: "t\<lparr>bt_arena := x, bt_frames := bt_frames t\<rparr> = t\<lparr>bt_arena := x\<rparr>" for x by (cases t) simp
  have shift: "a\<lparr>ar_topology := x, ar_edges := y, ar_topology := z\<rparr> = a\<lparr>ar_topology := z, ar_edges := y\<rparr>"
    for a :: arena and x y z by (cases a) simp
  have run: "declare_all H b k (ring_start es k) (?e # rest) t =
      (case set_parent ?c ?p (Suc k) v of
        (Inl err, v') \<Rightarrow> Some (Inl (BuildTopology err))
      | (Inr _, v') \<Rightarrow> declare_all H b (Suc k) (ring_start es (Suc k)) rest (?t v'))"
    by (simp add: interns dr a de same shift split: prod.split sum.split)
  show ?thesis
  proof (cases "ancestor (parent (published v)) ?c ?p")
    case True
    then have "fst (set_parent ?c ?p (Suc k) v) = Inl (WouldCreateCycle ?c)"
      using set_parent_Inl(3) [OF v(1) lt(1)] lt by simp
    then show ?thesis using True run anc by (auto split: prod.splits)
  next
    case False
    note s = set_parent_Inr [OF v(1) lt False, of "Suc k"]
    define v' where "v' = snd (set_parent ?c ?p (Suc k) v)"
    have sp: "set_parent ?c ?p (Suc k) v = (Inr (), v')" using s(1) by (metis v'_def prod.collapse)
    have new: "ed_child ?e \<notin> ed_child ` set ?done"
      using distinct_nth_take [OF es(2), of k] k by (simp add: take_map)
    have snoc: "take (Suc k) es = ?done @ [?e]" using k by (rule take_Suc_conv_app_nth)
    have kids: "ed_child ` set ?done \<subseteq> set ?ns" using mem sub by auto
    have len: "length (edge_of_child (published v)) = h_max_frames h" using v by (simp add: view_ok_def published_def block_ok_def)
    have wired': "wired ?ns (h_max_frames h) (take (Suc k) es) (parent (published v'))"
      unfolding snoc v'_def s(3) by (rule wired_snoc [OF w mem(1) [OF e] room(1) new kids])
    have eo': "edges_wired ?ns (take (Suc k) es) (edge_of_child (published v'))"
      using edges_wired_snoc [OF eo len mem(1) [OF e] room(1) new kids] k unfolding snoc v'_def s(4) by simp
    have ac': "acyclic (declared_rel (take (Suc k) es))"
      using ac anc False unfolding snoc declared_rel_snoc acyclic_insert by blast
    have "unat (generation v') = Suc k mod 2 ^ 56"
      using set_parent_generation [OF v(1) lt(1) sp] gen by (simp add: mod_Suc_eq)
    then have "declared_state H b h es (Suc k) (bt_frames t) v' (recs[Suc k := ?rec])"
      using q recs wired' eo' ac' s(2,6) v(2) records_declared_Suc [OF recs(2)] k room(2)
      unfolding declared_state_def Let_def v'_def by simp
    then have "declared_upto H b h es (Suc k) (?t v')" unfolding declared_upto_def by auto
    then show ?thesis using run sp anc False by auto
  qed
qed

lemma declared_rel_take: "declared_rel (take k es) \<subseteq> declared_rel es"
  using set_take_subset [of k es] by (auto simp: declared_rel_def)

lemma declare_run:
  assumes "declared_upto H b h es k t" "k \<le> length es" and es: "es = tb_edges b" "distinct (map ed_child es)"
    and room: "length (declared_names b) < h_max_frames h" "length es < h_max_edges h"
    and H: "\<forall>nm \<in> set (declared_names b). 0 < H nm"
  shows "if acyclic (declared_rel es)
    then \<exists>t'. declare_all H b k (ring_start es k) (drop k es) t = Some (Inr t') \<and> declared_upto H b h es (length es) t' \<and>
      bt_edge_count t' = bt_edge_count t
    else \<exists>c. declare_all H b k (ring_start es k) (drop k es) t = Some (Inl (BuildTopology (WouldCreateCycle c)))"
  using assms(1,2)
proof (induction "length es - k" arbitrary: k t)
  case 0
  then have "k = length es" by simp
  then show ?case using 0(2) by (auto simp: declared_upto_def declared_state_def Let_def)
next
  case (Suc n)
  then have k: "k < length es" by simp
  note step = declare_step [OF Suc.prems(1) k es room H, of "drop (Suc k) es"]
  have d: "drop k es = es ! k # drop (Suc k) es" using k by (rule Cons_nth_drop_Suc [symmetric])
  show ?case
  proof (cases "(ed_parent (es ! k), ed_child (es ! k)) \<in> (declared_rel (take k es))\<^sup>*")
    case True
    have "declared_rel (take (Suc k) es) = insert (ed_child (es ! k), ed_parent (es ! k)) (declared_rel (take k es))"
      using k by (simp add: take_Suc_conv_app_nth declared_rel_snoc)
    then have "\<not> acyclic (declared_rel (take (Suc k) es))" using True by (simp add: acyclic_insert)
    then have "\<not> acyclic (declared_rel es)" using acyclic_subset [OF _ declared_rel_take] by blast
    then show ?thesis using step True d by auto
  next
    case False
    then obtain t' where t': "declare_all H b k (ring_start es k) (drop k es) t = declare_all H b (Suc k) (ring_start es (Suc k)) (drop (Suc k) es) t'"
      "declared_upto H b h es (Suc k) t'" "bt_edge_count t' = bt_edge_count t" using step d by auto
    have "n = length es - Suc k" "Suc k \<le> length es" using Suc.hyps(2) k by simp_all
    from Suc.hyps(1) [OF this(1) t'(2) this(2)] show ?thesis unfolding t'(1,3) .
  qed
qed

lemma fresh_view_ok:
  assumes "0 < mf"
  shows "view_ok (fresh_view mf)" "parent (published (fresh_view mf)) = replicate mf 0" "tv_max_frames (fresh_view mf) = mf"
    "generation (fresh_view mf) = 0"
proof -
  have p: "published (fresh_view mf) = \<lparr>parent = replicate mf 0, edge_of_child = replicate mf 0, depth = replicate mf 0\<rparr>"
    using blocks_lt(1) [of "fresh_view mf"] by (simp add: published_def) (simp add: fresh_view_def)
  then show "parent (published (fresh_view mf)) = replicate mf 0" by simp
  have up1: "up (replicate mf 0) 1 f = 0" if "f < mf" for f using that by (simp add: up_def)
  have "forest mf (replicate mf 0)"
    unfolding forest_iff
  proof (intro conjI allI impI)
    fix f assume f: "f < mf"
    show "\<exists>k < mf. up (replicate mf 0) k f = 0"
    proof (cases "f = 0")
      case True
      then show ?thesis using assms by (intro exI [of _ 0]) simp
    next
      case False
      then show ?thesis using up1 [OF f] f by (intro exI [of _ 1]) simp
    qed
  qed (use assms in simp_all)
  then show "view_ok (fresh_view mf)"
    by (simp add: view_ok_def p depths_ok_def) (simp add: fresh_view_def TOPO_BLOCKS_def block_ok_def)
  show "tv_max_frames (fresh_view mf) = mf" by (simp add: fresh_view_def)
  show "generation (fresh_view mf) = 0" by (simp add: generation_def fresh_view_def unpack_topo_def)
qed

lemma declared_fresh:
  assumes "quiet H (declared_names b) m" "0 < h_max_frames h"
  shows "declared_upto H b h es 0 \<lparr>bt_arena = fresh_arena h, bt_frames = m, bt_edge_count = n\<rparr>"
proof -
  have "declared_state H b h es 0 m (fresh_view (h_max_frames h)) (replicate (h_max_edges h) edge_record_zero)"
    using assms(1) fresh_view_ok [OF assms(2)]
    by (simp add: declared_state_def Let_def records_declared_def wired_nil edges_wired_def declared_rel_def acyclic_def)
  moreover have "fresh_arena h = (fresh_arena h)\<lparr>ar_topology := fresh_view (h_max_frames h),
      ar_edges := replicate (h_max_edges h) edge_record_zero\<rparr>" by (simp add: fresh_arena_def)
  ultimately show ?thesis by (auto simp: declared_upto_def)
qed

subsection \<open>The rings of a fresh tree\<close>

lemma fill_caps_eq:
  "length xs = i + 1 \<Longrightarrow> length es \<le> r \<Longrightarrow>
    fill_caps i es (xs @ replicate r 0) = xs @ map decl_capacity es @ replicate (r - length es) 0"
proof (induction i es "xs @ replicate r (0 :: nat)" arbitrary: xs r rule: fill_caps.induct)
  case (1 i)
  then show ?case by simp
next
  case (2 i e es)
  obtain q where r: "r = Suc q" using 2(3) by (cases r) auto
  have eq: "(case ed_kind e of DynamicDecl cfg \<Rightarrow> (xs @ replicate r 0)[i + 1 := cfg_capacity cfg] | StaticDecl x \<Rightarrow> xs @ replicate r 0) =
      (xs @ [decl_capacity e]) @ replicate q 0"
    using 2(2) by (simp add: decl_capacity_def r list_update_append split: edge_decl_kind.split)
  show ?case
    unfolding fill_caps.simps(2) eq using 2(1) [of "xs @ [decl_capacity e]" q] 2(2,3) r
    by (simp add: decl_capacity_def list_update_append split: edge_decl_kind.split)
qed

lemma fill_caps_replicate:
  "length es < me \<Longrightarrow> fill_caps 0 es (replicate me 0) = 0 # map decl_capacity es @ replicate (me - 1 - length es) 0"
  using fill_caps_eq [of "[0]" 0 es "me - 1"] by (cases me) simp_all

lemma ring_start_le:
  assumes "k < length es"
  shows "ring_start es k + decl_capacity (es ! k) \<le> sum_list (map decl_capacity es)"
proof -
  have "sum_list (map decl_capacity es) =
      sum_list (map decl_capacity (take (Suc k) es)) + sum_list (map decl_capacity (drop (Suc k) es))"
    by (simp flip: sum_list_append map_append)
  then show ?thesis using ring_start_Suc [OF assms] by (simp add: ring_start_def)
qed

lemma ring_start_mono: "j < k \<Longrightarrow> k \<le> length es \<Longrightarrow> ring_start es j + decl_capacity (es ! j) \<le> ring_start es k"
proof -
  assume jk: "j < k" "k \<le> length es"
  then have "ring_start (take k es) j + decl_capacity (take k es ! j) \<le> sum_list (map decl_capacity (take k es))"
    by (intro ring_start_le) simp
  then show ?thesis using jk by (simp add: ring_start_def take_map min_def)
qed

lemma record_of_fields:
  "er_capacity (record_of b ns es k) = decl_capacity (es ! k)"
  "decl_capacity (es ! k) \<noteq> 0 \<Longrightarrow> er_stamp_off (record_of b ns es k) = ring_start es k"
  "decl_capacity (es ! k) \<noteq> 0 \<Longrightarrow> er_pose_off (record_of b ns es k) = ring_start es k"
  "er_head (record_of b ns es k) = 0"
  by (auto simp: record_of_def decl_record_def decl_capacity_def Let_def edge_record_static_def edge_record_dynamic_def
      split: edge_decl_kind.splits)

lemma records_apart:
  assumes "j < length es" "k < length es" "j \<noteq> k" "decl_capacity (es ! j) \<noteq> 0" "decl_capacity (es ! k) \<noteq> 0"
  shows "rings_apart (record_of b ns es j) (record_of b ns es k)"
  using assms ring_start_mono [of j k es] ring_start_mono [of k j es]
  by (cases "j < k") (simp_all add: rings_apart_def record_of_fields)

subsection \<open>What a built tree is\<close>

definition built_as :: "(name \<Rightarrow> nat) \<Rightarrow> tree_builder \<Rightarrow> built \<Rightarrow> bool" where
  "built_as H b t \<longleftrightarrow>
     (let ns = declared_names b; es = tb_edges b; a = bt_arena t; v = ar_topology a
      in (\<forall>nm \<in> set ns. intern_now H CLAIM_UNRECORDED nm (bt_frames t) = Some (Inr (name_id ns nm), bt_frames t)) \<and>
         view_ok v \<and> tv_max_frames v = length ns + 1 + tb_frame_headroom b \<and>
         wired ns (tv_max_frames v) es (parent (published v)) \<and> edges_wired ns es (edge_of_child (published v)) \<and>
         arena_ok a \<and> h_max_edges (ar_header a) = length es + 1 + tb_edge_headroom b \<and>
         (\<forall>e < h_max_edges (ar_header a). e = 0 \<or> length es < e \<longrightarrow> arena_edge a e = Some edge_record_zero) \<and>
         (\<forall>k < length es. arena_edge a (k + 1) = Some (record_of b ns es k) \<and>
            arena_ring a (k + 1) =
              (if decl_capacity (es ! k) = 0 then None else Some (ring_new (k + 1) (decl_capacity (es ! k)))) \<and>
            (\<forall>j < length es. j \<noteq> k \<and> decl_capacity (es ! j) \<noteq> 0 \<and> decl_capacity (es ! k) \<noteq> 0 \<longrightarrow>
               rings_apart (record_of b ns es j) (record_of b ns es k))))"

lemma header_of_layout:
  assumes l: "arena_layout_new mf me caps = Inr l"
  shows "h_max_frames (write_header_at n l pid start boot uuid) = mf" "h_max_edges (write_header_at n l pid start boot uuid) = me"
    "stamp_slots (write_header_at n l pid start boot uuid) = sum_list caps"
    "pose_slots (write_header_at n l pid start boot uuid) = sum_list caps" "sum_list caps < 2 ^ 32"
    "\<forall>c \<in> set caps. c = 0 \<or> is_power_of_two c"
proof -
  have l: "l = \<lparr>max_frames = mf, max_edges = me, max_participants = DEFAULT_MAX_PARTICIPANTS,
          edge_capacities = caps, computed = compute mf me DEFAULT_MAX_PARTICIPANTS caps\<rparr>"
    "layout_total_size l \<le> u32_max" "\<forall>c \<in> set caps. c = 0 \<or> is_power_of_two c"
    using assms unfolding arena_layout_new_Inr find_bad_capacity_None by blast+
  show "sum_list caps < 2 ^ 32"
    using l(2) compute_slots_le [of mf me DEFAULT_MAX_PARTICIPANTS caps]
    by (simp add: l(1) layout_total_size_def u32_max_def)
  then show "h_max_frames (write_header_at n l pid start boot uuid) = mf" "h_max_edges (write_header_at n l pid start boot uuid) = me"
    "stamp_slots (write_header_at n l pid start boot uuid) = sum_list caps"
    "pose_slots (write_header_at n l pid start boot uuid) = sum_list caps"
    by (simp_all add: write_header_at_def l(1) layout_stamp_slots_def layout_pose_slots_def)
  show "\<forall>c \<in> set caps. c = 0 \<or> is_power_of_two c" by (rule l(3))
qed

lemma built_as_declared:
  assumes D: "declared_upto H b h (tb_edges b) (length (tb_edges b)) t"
    and H: "\<forall>nm \<in> set (declared_names b). 0 < H nm"
    and h: "h_max_frames h = length (declared_names b) + 1 + tb_frame_headroom b"
      "h_max_edges h = length (tb_edges b) + 1 + tb_edge_headroom b"
      "stamp_slots h = sum_list (map decl_capacity (tb_edges b))" "pose_slots h = stamp_slots h" "stamp_slots h < 2 ^ 32"
      "\<forall>e \<in> set (tb_edges b). decl_capacity e = 0 \<or> is_power_of_two (decl_capacity e)"
  shows "built_as H b t"
proof -
  let ?ns = "declared_names b" and ?es = "tb_edges b"
  obtain v recs where a: "bt_arena t = (fresh_arena h)\<lparr>ar_topology := v, ar_edges := recs\<rparr>"
    and S: "declared_state H b h ?es (length ?es) (bt_frames t) v recs"
    using D by (auto simp: declared_upto_def)
  have q: "quiet H ?ns (bt_frames t)" and v: "view_ok v" "tv_max_frames v = h_max_frames h"
    and recs: "length recs = h_max_edges h" "records_declared b ?ns ?es (length ?es) recs"
    and w: "wired ?ns (h_max_frames h) ?es (parent (published v))" "edges_wired ?ns ?es (edge_of_child (published v))"
    using S by (simp_all add: declared_state_def Let_def)
  have sel: "ar_topology (bt_arena t) = v" "ar_edges (bt_arena t) = recs" "ar_header (bt_arena t) = h"
    "ar_stamps (bt_arena t) = replicate (stamp_slots h) 0" "ar_poses (bt_arena t) = replicate (pose_slots h) pose_slot_new"
    "ar_claims (bt_arena t) = replicate (h_max_edges h) claim_record_new"
    by (simp_all add: a fresh_arena_def)
  have rec: "recs ! (k + 1) = record_of b ?ns ?es k" if "k < length ?es" for k
    using recs that h(2) by (simp add: records_declared_def)
  have "arena_ring (bt_arena t) (k + 1) =
      (if decl_capacity (?es ! k) = 0 then None else Some (ring_new (k + 1) (decl_capacity (?es ! k))))" if k: "k < length ?es" for k
  proof -
    have "?es ! k \<in> set ?es" using k by simp
    then have c: "decl_capacity (?es ! k) = 0 \<or> is_power_of_two (decl_capacity (?es ! k))" using h(6) by blast
    have "ring_start ?es k + decl_capacity (?es ! k) \<le> stamp_slots h" using ring_start_le [OF k] h(3) by simp
    then show ?thesis
      using c k h(2,4) rec [OF k] record_of_fields [where b = b and ns = ?ns and es = ?es and k = k]
      by (auto simp: arena_ring_def arena_edge_def arena_claim_def ring_of_def ring_bytes_def sel Let_def ring_new_def
          claim_record_new_def)
  qed
  moreover have "arena_ok (bt_arena t)" using recs(1) h(4,5) by (simp add: arena_ok_def sel pose_slot_new_def)
  moreover have "arena_edge (bt_arena t) (k + 1) = Some (record_of b ?ns ?es k)" if "k < length ?es" for k
    using rec [OF that] h(2) that by (simp add: arena_edge_def sel)
  moreover have "\<forall>e < h_max_edges h. e = 0 \<or> length ?es < e \<longrightarrow> arena_edge (bt_arena t) e = Some edge_record_zero"
    using recs by (auto simp: arena_edge_def sel records_declared_def)
  ultimately show ?thesis
    using intern_declared [OF q] H v w h(1,2) sel(3) records_apart [where es = ?es and b = b and ns = ?ns] unfolding built_as_def Let_def sel(1) by simp
qed

lemma build_with_cases:
  assumes "inj_on H (set (declared_names b))" "\<forall>nm \<in> set (declared_names b). 0 < H nm"
  defines "es \<equiv> tb_edges b"
  defines "mf \<equiv> length (declared_names b) + 1 + tb_frame_headroom b" and "me \<equiv> length es + 1 + tb_edge_headroom b"
  defines "layout \<equiv> arena_layout_new mf me (0 # map decl_capacity es @ replicate (tb_edge_headroom b) 0)"
  shows "case build_with H pid start boot uuid b of
      None \<Rightarrow> False
    | Some (Inr t) \<Rightarrow> distinct (map ed_child es) \<and> mf \<le> u32_max \<and> me \<le> u32_max \<and> (\<exists>l. layout = Inr l) \<and>
        acyclic (declared_rel es) \<and> built_as H b t
    | Some (Inl e) \<Rightarrow> (case e of
        DuplicateEdge h \<Rightarrow> \<not> distinct (map ed_child es)
      | TooManyFrames \<Rightarrow> u32_max < mf
      | TooManyEdges \<Rightarrow> u32_max < me
      | BuildLayout x \<Rightarrow> layout = Inl x
      | BuildTopology x \<Rightarrow> (\<exists>c. x = WouldCreateCycle c) \<and> \<not> acyclic (declared_rel es)
      | _ \<Rightarrow> False)"
proof (cases "duplicate_child {} es = None \<and> mf \<le> u32_max \<and> me \<le> u32_max \<and> (\<exists>l. layout = Inr l)")
  case False
  then show ?thesis
    using duplicate_child_None [of "{}" es] fill_caps_replicate [of es me]
    by (auto simp: build_with_def Let_def not_le layout_def es_def mf_def me_def split: option.splits sum.splits)
next
  case True
  then obtain l where l: "layout = Inr l" and d: "distinct (map ed_child es)" using duplicate_child_None [of "{}" es] by auto
  let ?h = "write_header_at (layout_total_size l) l pid start boot uuid" and ?ns = "declared_names b"
  note h = header_of_layout [OF l [unfolded layout_def]]
  have caps: "sum_list (0 # map decl_capacity es @ replicate (tb_edge_headroom b) 0) = sum_list (map decl_capacity es)" by simp
  let ?m = "intern_table_new (hash_slots ?h) (mf - 1)"
  have "mf < hash_slots ?h" using next_pow2_ge [of "2 * mf"] mf_def by (simp add: hash_slots_def h(1))
  then have "quiet H [] ?m" using True by (intro quiet_new) (auto simp: hash_slots_def u32_max_def ID_FAILED_def mf_def)
  then obtain m where m: "intern_all H CLAIM_UNRECORDED ?ns ?m = Some (Inr (), m)" "quiet H ?ns m"
    using intern_all_new [of H "[]" ?m ?ns CLAIM_UNRECORDED] assms(1,2) declared_names_props(1) [of b]
    by (auto simp: intern_table_new_def mf_def)
  let ?t = "\<lparr>bt_arena = fresh_arena ?h, bt_frames = m, bt_edge_count = length es + 1\<rparr>"
  have build: "build_with H pid start boot uuid b = declare_all H b 0 0 es ?t"
    using True l m(1) fill_caps_replicate [of es me]
    by (simp add: build_with_def Let_def layout_def es_def mf_def me_def h(1))
  have room: "length ?ns < h_max_frames ?h" "length es < h_max_edges ?h" "0 < h_max_frames ?h"
    by (simp_all add: h mf_def me_def)
  have run: "if acyclic (declared_rel es)
    then \<exists>t'. declare_all H b 0 0 es ?t = Some (Inr t') \<and> declared_upto H b ?h es (length es) t'
    else \<exists>c. declare_all H b 0 0 es ?t = Some (Inl (BuildTopology (WouldCreateCycle c)))"
    using declare_run [OF declared_fresh [OF m(2) room(3), of es "length es + 1"] _ es_def [THEN meta_eq_to_obj_eq] d room(1,2) assms(2)]
    by (fastforce simp: ring_start_def split: if_splits)
  have "built_as H b t'" if "declared_upto H b ?h es (length es) t'" for t'
    by (rule built_as_declared [OF that [unfolded es_def] assms(2)])
      (use h caps room in \<open>simp_all add: mf_def me_def es_def\<close>)
  then show ?thesis using run build True d l by (auto split: if_splits)
qed

lemma build_with_built:
  assumes "inj_on H (set (declared_names b))" "\<forall>nm \<in> set (declared_names b). 0 < H nm"
    and "build_with H pid start boot uuid b = Some (Inr t)"
  shows "built_as H b t"
  using build_with_cases [OF assms(1,2), of pid start boot uuid] assms(3) by simp

text \<open>C31: \<open>TreeBuilder::build\<close> builds exactly what was declared. If the name hashes are non-zero and do not
  collide it always returns. It refuses a second edge to a child, frames or edges beyond \<open>u32\<close>, a layout
  that does not fit, and a cycle among the declared edges, and nothing else. Otherwise every name is
  interned under its position, the published tree has exactly the declared edges and correct depths,
  every edge has its record, and every dynamic edge an empty ring of its capacity that overlaps no other.\<close>

theorem tree_build:
  assumes "inj_on H (set (declared_names b))" "\<forall>nm \<in> set (declared_names b). 0 < H nm"
  defines "es \<equiv> tb_edges b"
  defines "mf \<equiv> length (declared_names b) + 1 + tb_frame_headroom b" and "me \<equiv> length es + 1 + tb_edge_headroom b"
  defines "layout \<equiv> arena_layout_new mf me (0 # map decl_capacity es @ replicate (tb_edge_headroom b) 0)"
  shows "case build_with H pid start boot uuid b of
      None \<Rightarrow> False
    | Some (Inr t) \<Rightarrow> distinct (map ed_child es) \<and> mf \<le> u32_max \<and> me \<le> u32_max \<and> (\<exists>l. layout = Inr l) \<and>
        acyclic (declared_rel es) \<and> built_as H b t
    | Some (Inl e) \<Rightarrow> (case e of
        DuplicateEdge h \<Rightarrow> \<not> distinct (map ed_child es)
      | TooManyFrames \<Rightarrow> u32_max < mf
      | TooManyEdges \<Rightarrow> u32_max < me
      | BuildLayout x \<Rightarrow> layout = Inl x
      | BuildTopology x \<Rightarrow> (\<exists>c. x = WouldCreateCycle c) \<and> \<not> acyclic (declared_rel es)
      | _ \<Rightarrow> False)"
  using build_with_cases [OF assms(1,2), of pid start boot uuid] unfolding es_def mf_def me_def layout_def .

text \<open>A camera on a base that moves in the odometry frame.\<close>

definition example_builder :: tree_builder where
  "example_builder = static_edge [2] [3, 4, 5] half_turn (dynamic_edge [1, 1] [2] (edge_cfg_new (capacity_slots 5)) builder_new)"

lemma example_declared:
  "declared_names example_builder = [[1, 1], [2], [3, 4, 5]]" "inj_on length_hash (set (declared_names example_builder))"
  by (simp_all add: example_builder_def static_edge_def dynamic_edge_def builder_new_def declared_names_def length_hash_def)

lemma capacity_example: "capacity_slots 5 = 8"
  by (simp add: capacity_slots_def next_pow2_u32_def next_pow2_def next_pow2_loop.simps Let_def u32_max_def)

lemma example_edges: "map decl_capacity (tb_edges example_builder) = [8, 0]" "length (tb_edges example_builder) = 2"
  "map ed_child (tb_edges example_builder) = [[2], [3, 4, 5]]" "tb_frame_headroom example_builder = 0"
  "tb_edge_headroom example_builder = 0" "acyclic (declared_rel (tb_edges example_builder))"
proof -
  show "map decl_capacity (tb_edges example_builder) = [8, 0]" "length (tb_edges example_builder) = 2"
    "map ed_child (tb_edges example_builder) = [[2], [3, 4, 5]]" "tb_frame_headroom example_builder = 0"
    "tb_edge_headroom example_builder = 0"
    by (simp_all add: example_builder_def static_edge_def dynamic_edge_def builder_new_def decl_capacity_def edge_cfg_new_def
        capacity_example)
  have "(declared_rel (tb_edges example_builder))\<inverse> \<subseteq> measure (\<lambda>nm. unat (hd nm))"
    by (auto simp: declared_rel_def example_builder_def static_edge_def dynamic_edge_def builder_new_def)
  then have "acyclic ((declared_rel (tb_edges example_builder))\<inverse>)"
    using acyclic_subset wf_acyclic wf_measure by blast
  then show "acyclic (declared_rel (tb_edges example_builder))" by simp
qed

lemma example_layout: "\<exists>l. arena_layout_new 4 3 [0, 8, 0] = Inr l"
proof -
  have "case arena_layout_new 4 3 [0, 8, 0] of Inl e \<Rightarrow> False | Inr l \<Rightarrow> True" by code_simp
  then show ?thesis by (simp split: sum.splits)
qed

lemma example_hash: "\<forall>nm \<in> set (declared_names example_builder). 0 < length_hash nm"
  by (simp add: length_hash_def)

lemma example_build: "\<exists>t. build_with length_hash 7 9 [] [] example_builder = Some (Inr t)"
proof -
  note build_with_cases [OF example_declared(2) example_hash, of 7 9 "[]" "[]"]
  moreover have "length (declared_names example_builder) + 1 + tb_frame_headroom example_builder = 4"
    "length (tb_edges example_builder) + 1 + tb_edge_headroom example_builder = 3"
    "0 # map decl_capacity (tb_edges example_builder) @ replicate (tb_edge_headroom example_builder) 0 = [0, 8, 0]"
    "4 \<le> u32_max" "3 \<le> u32_max" "distinct (map ed_child (tb_edges example_builder))"
    by (simp_all add: example_edges example_declared(1) u32_max_def)
  moreover obtain l where "arena_layout_new 4 3 [0, 8, 0] = Inr l" using example_layout by blast
  ultimately show ?thesis using example_edges(6)
    by (cases "build_with length_hash 7 9 [] [] example_builder") (auto simp only: option.case split: sum.splits build_error.splits)
qed

theorem tree_build_witness:
  "\<exists>t. build_with length_hash 7 9 [] [] example_builder = Some (Inr t) \<and> built_as length_hash example_builder t"
  using tree_build [OF example_declared(2) example_hash, of 7 9 "[]" "[]"] example_build by auto

end
