(* ===== verification/Plan_Cache.thy ===== *)
theory Plan_Cache
  imports Plan_Lookup
begin

unbundle bit_operations_syntax

text \<open>
  The per-thread cache of compiled plans, \<open>tf_tree/src/cache.rs\<close>, and the lookups by name of
  \<open>tf_tree/src/tree.rs\<close> that go through it. One cache serves every tree of the thread; trees are told apart by
  their scope. What \<open>Tree::plan\<close> answers on a miss is an argument, so that mutations of other
  participants can land while it compiles.
\<close>

subsection \<open>The cache\<close>

definition SLOTS :: nat where "SLOTS = 16"
definition MIX :: u64 where "MIX = 0x9E3779B97F4A7C15"

record cache_key =
  ck_scope :: u64
  ck_target :: frame_id
  ck_source :: frame_id
  ck_generation :: u64

record cache_entry =
  ce_key :: cache_key
  ce_result :: "lookup_error + plan"

type_synonym plan_cache = "cache_entry option list"

definition cache_new :: plan_cache where
  "cache_new = replicate SLOTS None"

definition cache_index :: "cache_key \<Rightarrow> nat" where
  "cache_index key =
     (let h = ck_scope key;
          h = (h * MIX) XOR of_nat (ck_target key);
          h = (h * MIX) XOR of_nat (ck_source key);
          h = (h * MIX) XOR ck_generation key
      in unat h AND (SLOTS - 1))"

definition store_refusal :: "u64 \<Rightarrow> cache_key \<Rightarrow> lookup_error \<Rightarrow> bool" where
  "store_refusal stable_gen key refusal \<longleftrightarrow> refusal \<noteq> LookupChildDetached \<and> stable_gen = ck_generation key"

text \<open>\<open>compiled\<close> is what \<open>Tree::plan\<close> answers on a miss, \<open>stable_gen\<close> the generation \<open>store_refusal\<close> loads after
  it.\<close>

definition with_plan ::
  "u64 \<Rightarrow> (lookup_error + plan) \<Rightarrow> u64 \<Rightarrow> frame_id \<Rightarrow> frame_id \<Rightarrow> u64 \<Rightarrow> (plan \<Rightarrow> 'r) \<Rightarrow> plan_cache \<Rightarrow>
     ((lookup_error + 'r) \<times> bool) \<times> plan_cache" where
  "with_plan scope compiled stable_gen target source gen f cache =
     (let key = \<lparr>ck_scope = scope, ck_target = target, ck_source = source, ck_generation = gen\<rparr>;
          idx = cache_index key;
          miss = (case compiled of
              Inr p \<Rightarrow> ((Inr (f p), False), cache[idx := Some \<lparr>ce_key = key, ce_result = Inr p\<rparr>])
            | Inl e \<Rightarrow> ((Inl e, False),
                if store_refusal stable_gen key e then cache[idx := Some \<lparr>ce_key = key, ce_result = Inl e\<rparr>] else cache))
      in case cache ! idx of
           Some entry \<Rightarrow>
             if ce_key entry = key
             then (case ce_result entry of Inr p \<Rightarrow> ((Inr (f p), True), cache) | Inl e \<Rightarrow> ((Inl e, True), cache))
             else miss
         | None \<Rightarrow> miss)"

subsection \<open>Lookups by name\<close>

text \<open>\<open>find\<close> over the result of \<open>find_frame\<close>.\<close>

definition find_id :: "u64 \<Rightarrow> (frame_error + nat option) \<Rightarrow> lookup_error + frame_id" where
  "find_id hash found = (case found of Inr (Some i) \<Rightarrow> Inr i | _ \<Rightarrow> Inl (UnknownFrame hash))"

text \<open>\<open>Tree::plan\<close> when no mutation is under way.\<close>

definition tree_plan :: "bool \<Rightarrow> (edge_id \<Rightarrow> edge_meta option) \<Rightarrow> topology_view \<Rightarrow> frame_id \<Rightarrow> frame_id \<Rightarrow> lookup_error + plan" where
  "tree_plan detached edge_meta v target source =
     (if detached then Inl LookupChildDetached
      else the (compile 1 (stable_generation v) edge_meta target source (\<lambda>_. (generation v, rest_reads v, generation v))))"

definition lookup_tagged ::
  "bool \<Rightarrow> u64 \<Rightarrow> arena \<Rightarrow> view_ctx \<Rightarrow> (frame_error + nat option) \<Rightarrow> u64 \<Rightarrow> (frame_error + nat option) \<Rightarrow> u64 \<Rightarrow>
     int \<Rightarrow> nat \<Rightarrow> plan_cache \<Rightarrow> (lookup_error + iso3) \<times> plan_cache" where
  "lookup_tagged detached scope a w t_found t_hash s_found s_hash nanos dmn cache =
     (if detached then (Inl LookupChildDetached, cache)
      else case find_id t_hash t_found of
        Inl e \<Rightarrow> (Inl e, cache)
      | Inr t \<Rightarrow> (case find_id s_hash s_found of
          Inl e \<Rightarrow> (Inl e, cache)
        | Inr s \<Rightarrow>
            (let gen = stable_generation (ar_topology a);
                 ((r, hit), cache') = with_plan scope (tree_plan detached (arena_edge_meta a) (ar_topology a) t s) gen t s gen
                   (\<lambda>p. fst (at_tagged p nanos dmn (guard_new a w))) cache
             in (rbind r (\<lambda>x. x), cache'))))"

subsection \<open>What the cache holds\<close>

lemma cache_index_less: "cache_index key < SLOTS"
proof -
  have "is_power_of_two SLOTS" by (simp add: SLOTS_def is_power_of_two.simps)
  then have "x AND (SLOTS - 1) = x mod SLOTS" for x by (rule mask_eq_mod)
  then show ?thesis by (simp add: cache_index_def Let_def SLOTS_def)
qed

text \<open>The cache never depends on what is done with a plan.\<close>

lemma with_plan_cases:
  assumes "with_plan scope r stable_gen t s gen f cache = ((res, hit), cache')"
  obtains (hit) entry where "cache ! cache_index \<lparr>ck_scope = scope, ck_target = t, ck_source = s, ck_generation = gen\<rparr> = Some entry"
      "ce_key entry = \<lparr>ck_scope = scope, ck_target = t, ck_source = s, ck_generation = gen\<rparr>"
      "hit" "res = map_sum (\<lambda>e. e) f (ce_result entry)" "cache' = cache"
  | (miss) "\<not> hit" "res = map_sum (\<lambda>e. e) f r"
      "cache' = cache \<or> (\<forall>e. r = Inl e \<longrightarrow> e \<noteq> LookupChildDetached \<and> stable_gen = gen) \<and>
         cache' = cache[cache_index \<lparr>ck_scope = scope, ck_target = t, ck_source = s, ck_generation = gen\<rparr> :=
           Some \<lparr>ce_key = \<lparr>ck_scope = scope, ck_target = t, ck_source = s, ck_generation = gen\<rparr>, ce_result = r\<rparr>]"
  using assms
  by (fastforce simp: with_plan_def Let_def store_refusal_def split: option.splits if_splits sum.splits)

text \<open>Two views that publish the same tree compile alike.\<close>

lemma tree_plan_cong:
  assumes "published v' = published v" "generation v' = generation v" "tv_max_frames v' = tv_max_frames v"
  shows "tree_plan d m v' t s = tree_plan d m v t s"
proof -
  have "rest_reads v' = rest_reads v" by (intro ext) (simp add: rest_reads_def read_frame_rest assms)
  then show ?thesis by (simp add: tree_plan_def stable_generation_def assms)
qed

lemma mutations_still:
  assumes "view_ok v" "\<forall>m \<in> set ms. 0 < fst m" "mutations ms v = (0, v')"
  shows "published v' = published v \<and> generation v' = generation v \<and> tv_max_frames v' = tv_max_frames v"
  using assms
proof (induction ms arbitrary: v)
  case Nil
  then show ?case by simp
next
  case (Cons m ms)
  obtain c p e where m: "m = (c, p, e)" by (cases m)
  then have c: "0 < c" using Cons.prems(2) by simp
  from Cons.prems(1) c show ?case
  proof (cases rule: set_parent_cases [of v c p e])
    case (unknown f)
    then show ?thesis using Cons m by simp
  next
    case (cycle w)
    then have "view_ok w" using view_ok_touches Cons.prems(1) by blast
    then show ?thesis using Cons.IH [of w] Cons.prems(2,3) cycle touches_scratch [OF cycle(5)] m by simp
  next
    case (ok w)
    then show ?thesis using Cons.prems(3) m by (simp split: prod.splits)
  qed
qed

subsection \<open>Trees and their cache in motion\<close>

text \<open>Every tree with its published topology, and the cache of one thread. A lookup loads the generation, lets
  any mutations land while it compiles and before the load of \<open>store_refusal\<close>, and stores what it got; what
  it compiles is only known when nothing was published meanwhile. Generations do not wrap around.\<close>

definition compiled_meanwhile :: "(edge_id \<Rightarrow> edge_meta option) \<Rightarrow> topology_view \<Rightarrow> nat \<Rightarrow> frame_id \<Rightarrow> frame_id \<Rightarrow>
    lookup_error + plan \<Rightarrow> bool" where
  "compiled_meanwhile m v n t s r \<longleftrightarrow> (n = 0 \<longrightarrow> r = tree_plan False m v t s \<or> r = Inl LookupChildDetached)"

definition room_to_mutate :: "topology_view \<Rightarrow> nat \<Rightarrow> (frame_id \<times> frame_id \<times> edge_id) list \<Rightarrow> bool" where
  "room_to_mutate v n ms \<longleftrightarrow> unat (generation v) + n < 2 ^ 56 \<and> (\<forall>m \<in> set ms. 0 < fst m)"

inductive kstep :: "(u64 \<Rightarrow> edge_id \<Rightarrow> edge_meta option) \<Rightarrow> (u64 \<Rightarrow> topology_view) \<times> plan_cache \<Rightarrow>
    (u64 \<Rightarrow> topology_view) \<times> plan_cache \<Rightarrow> bool" for meta where
  kmutate: "mutations ms (W k) = (n, v') \<Longrightarrow> room_to_mutate (W k) n ms \<Longrightarrow> kstep meta (W, c) (W(k := v'), c)"
| klookup: "mutations ms (W k) = (n, v1) \<Longrightarrow> room_to_mutate (W k) n ms \<Longrightarrow>
    mutations ms' v1 = (n', v2) \<Longrightarrow> room_to_mutate v1 n' ms' \<Longrightarrow>
    compiled_meanwhile (meta k) (W k) n t s r \<Longrightarrow>
    kstep meta (W, c) (W(k := v2), snd (with_plan k r (generation v2) t s (generation (W k)) (\<lambda>p. p) c))"

text \<open>No entry is newer than its tree, and one of the current generation holds what compiling now would
  answer.\<close>

definition entry_ok :: "(u64 \<Rightarrow> edge_id \<Rightarrow> edge_meta option) \<Rightarrow> (u64 \<Rightarrow> topology_view) \<Rightarrow> cache_entry \<Rightarrow> bool" where
  "entry_ok meta W x \<longleftrightarrow>
     (let k = ck_scope (ce_key x); v = W k
      in unat (ck_generation (ce_key x)) \<le> unat (generation v) \<and>
         (ck_generation (ce_key x) = generation v \<longrightarrow>
            ce_result x = tree_plan False (meta k) v (ck_target (ce_key x)) (ck_source (ce_key x))))"

definition cache_ok :: "(u64 \<Rightarrow> edge_id \<Rightarrow> edge_meta option) \<Rightarrow> (u64 \<Rightarrow> topology_view) \<Rightarrow> plan_cache \<Rightarrow> bool" where
  "cache_ok meta W c \<longleftrightarrow> length c = SLOTS \<and> (\<forall>k. view_ok (W k)) \<and> (\<forall>x. Some x \<in> set c \<longrightarrow> entry_ok meta W x)"

lemma mutations_room:
  assumes "view_ok v" "mutations ms v = (n, v')" "room_to_mutate v n ms"
  shows "view_ok v'" "unat (generation v') = unat (generation v) + n"
  using mutations_generation [of v ms] assms by (auto simp: room_to_mutate_def)

lemma entry_ok_mutations:
  assumes "view_ok (W k)" "mutations ms (W k) = (n, v')" "room_to_mutate (W k) n ms" "entry_ok meta W x"
  shows "entry_ok meta (W(k := v')) x"
proof (cases "n = 0")
  case True
  then show ?thesis
    using assms(4) mutations_still [of "W k" ms v'] assms(1-3) tree_plan_cong [of v' "W k"]
    by (auto simp: entry_ok_def room_to_mutate_def Let_def)
next
  case False
  then have "unat (generation (W k)) < unat (generation v')" using mutations_room(2) [OF assms(1-3)] by simp
  then show ?thesis using assms(4) by (auto simp: entry_ok_def Let_def)
qed

lemma cache_ok_mutations:
  "cache_ok meta W c \<Longrightarrow> mutations ms (W k) = (n, v') \<Longrightarrow> room_to_mutate (W k) n ms \<Longrightarrow> cache_ok meta (W(k := v')) c"
  using entry_ok_mutations [of W k ms n v'] mutations_room(1) [of "W k" ms n v'] by (simp add: cache_ok_def)

lemma cache_ok_step:
  assumes "cache_ok meta W c" "kstep meta (W, c) (W', c')"
  shows "cache_ok meta W' c'"
  using assms(2)
proof cases
  case (kmutate ms k n v')
  then show ?thesis using cache_ok_mutations assms(1) by simp
next
  case (klookup ms k n v1 ms' n' v2 t s r)
  let ?key = "\<lparr>ck_scope = k, ck_target = t, ck_source = s, ck_generation = generation (W k)\<rparr>"
  obtain res hit where w: "with_plan k r (generation v2) t s (generation (W k)) (\<lambda>p. p) c = ((res, hit), c')"
    using klookup(2) by (metis prod.collapse)
  have one: "cache_ok meta (W(k := v1)) c" using cache_ok_mutations [OF assms(1)] klookup by simp
  have two: "cache_ok meta W' c"
    using cache_ok_mutations [OF one, of ms' k n' v2] klookup by simp
  have v: "view_ok (W k)" using assms(1) by (simp add: cache_ok_def)
  have v1: "view_ok v1" using mutations_room(1) [OF v klookup(3,4)] .
  have gen: "unat (generation v2) = unat (generation (W k)) + n + n'"
    using mutations_room(2) [OF v klookup(3,4)] mutations_room(2) [OF v1 klookup(5,6)] by simp
  have "entry_ok meta W' \<lparr>ce_key = ?key, ce_result = r\<rparr>"
    if "\<forall>e. r = Inl e \<longrightarrow> e \<noteq> LookupChildDetached \<and> generation v2 = generation (W k)"
  proof (cases "n = 0 \<and> n' = 0")
    case True
    then have "tree_plan False (meta k) v2 t s = tree_plan False (meta k) (W k) t s"
      using mutations_still [of "W k" ms v1] mutations_still [of v1 ms' v2] klookup v v1 tree_plan_cong [of v2 "W k"]
      by (simp add: room_to_mutate_def)
    then show ?thesis using klookup that True gen by (auto simp: entry_ok_def compiled_meanwhile_def)
  next
    case False
    then show ?thesis using gen klookup(1) by (auto simp: entry_ok_def)
  qed
  then show ?thesis using two w
    by (cases rule: with_plan_cases [OF w])
      (auto simp: cache_ok_def dest!: subsetD [OF set_update_subset_insert])
qed

lemma cache_ok_steps: "(kstep meta)\<^sup>*\<^sup>* (W, c) (W', c') \<Longrightarrow> cache_ok meta W c \<Longrightarrow> cache_ok meta W' c'"
  by (induction rule: rtranclp_induct2) (auto intro: cache_ok_step)

lemma cache_ok_new: "\<forall>k. view_ok (W k) \<Longrightarrow> cache_ok meta W cache_new"
  by (auto simp: cache_ok_def cache_new_def)

lemma cache_hit:
  assumes "cache_ok meta W c" "with_plan k r g' t s (generation (W k)) f c = ((res, True), c')"
  shows "res = map_sum (\<lambda>e. e) f (tree_plan False (meta k) (W k) t s)"
  using assms(2)
proof (cases rule: with_plan_cases)
  case (hit entry)
  then have "Some entry \<in> set c" using assms(1) cache_index_less by (metis cache_ok_def nth_mem)
  then show ?thesis using assms(1) hit by (auto simp: cache_ok_def entry_ok_def Let_def)
qed simp

lemma with_plan_answer:
  assumes "cache_ok meta W c" "with_plan k r g' t s (generation (W k)) f c = ((res, hit), c')"
  shows "res = map_sum (\<lambda>e. e) f (if hit then tree_plan False (meta k) (W k) t s else r)"
  using assms(2) cache_hit [OF assms(1), of k r g' t s f res c'] by (cases hit) (auto elim: with_plan_cases)

lemma with_plan_at_rest:
  assumes "cache_ok meta W c"
  shows "fst (fst (with_plan k (tree_plan False (meta k) (W k) t s) g' t s (generation (W k)) f c)) =
    map_sum (\<lambda>e. e) f (tree_plan False (meta k) (W k) t s)"
proof -
  obtain res hit c' where "with_plan k (tree_plan False (meta k) (W k) t s) g' t s (generation (W k)) f c = ((res, hit), c')"
    by (metis prod.collapse)
  then show ?thesis using with_plan_answer [OF assms] by fastforce
qed

lemma with_plan_again:
  assumes "length c = SLOTS" "r \<noteq> Inl LookupChildDetached"
  shows "snd (fst (with_plan k r' g' t s g f (snd (with_plan k r g t s g f' c))))"
  using assms cache_index_less
  by (auto simp: with_plan_def Let_def store_refusal_def split: option.splits sum.splits)

lemma map_sum_rbind: "rbind (map_sum (\<lambda>e. e) f r) (\<lambda>x. x) = rbind r f"
  by (cases r) simp_all

text \<open>C33: the plan cache does not show. In every state the trees of a thread and its cache can get into, with
  mutations of any tree landing between lookups and within them, a plan served from the cache is the one
  that compiling against the published tree of the loaded generation gives, its refusal included;
  whatever is not served is what compiling answered. So a lookup by name at rest returns what resolving the two names,
  compiling and evaluating returns without a cache; and the same query repeated before the next mutation
  is served from the cache.\<close>

theorem plan_cache_transparent:
  assumes "\<forall>k. view_ok (W0 k)" "(kstep meta)\<^sup>*\<^sup>* (W0, cache_new) (W, c)"
  shows "(with_plan k r g' t s (generation (W k)) f c = ((res, hit), c') \<longrightarrow>
      res = map_sum (\<lambda>e. e) f (if hit then tree_plan False (meta k) (W k) t s else r)) \<and>
    (ar_topology a = W k \<and> arena_edge_meta a = meta k \<longrightarrow>
      fst (lookup_tagged False k a w tf th sf sh nanos dmn c) =
        rbind (find_id th tf) (\<lambda>t. rbind (find_id sh sf) (\<lambda>s. rbind (tree_plan False (arena_edge_meta a) (ar_topology a) t s)
          (\<lambda>p. fst (at_tagged p nanos dmn (guard_new a w)))))) \<and>
    (tree_plan False (meta k) (W k) t s \<noteq> Inl LookupChildDetached \<longrightarrow>
      snd (fst (with_plan k r g' t s (generation (W k)) f
        (snd (with_plan k (tree_plan False (meta k) (W k) t s) (generation (W k)) t s (generation (W k)) f' c)))))"
proof (intro conjI impI)
  have ok: "cache_ok meta W c" using cache_ok_steps [OF assms(2) cache_ok_new [OF assms(1)]] .
  show "res = map_sum (\<lambda>e. e) f (if hit then tree_plan False (meta k) (W k) t s else r)"
    if "with_plan k r g' t s (generation (W k)) f c = ((res, hit), c')" using with_plan_answer [OF ok that] .
  show "snd (fst (with_plan k r g' t s (generation (W k)) f
        (snd (with_plan k (tree_plan False (meta k) (W k) t s) (generation (W k)) t s (generation (W k)) f' c))))"
    if "tree_plan False (meta k) (W k) t s \<noteq> Inl LookupChildDetached"
    by (rule with_plan_again) (use ok that in \<open>simp_all add: cache_ok_def\<close>)
  show "fst (lookup_tagged False k a w tf th sf sh nanos dmn c) =
        rbind (find_id th tf) (\<lambda>t. rbind (find_id sh sf) (\<lambda>s. rbind (tree_plan False (arena_edge_meta a) (ar_topology a) t s)
          (\<lambda>p. fst (at_tagged p nanos dmn (guard_new a w)))))"
    if "ar_topology a = W k \<and> arena_edge_meta a = meta k"
    using that with_plan_at_rest [OF ok, where f = "\<lambda>p. fst (at_tagged p nanos dmn (guard_new a w))"]
    by (simp add: lookup_tagged_def stable_generation_def Let_def map_sum_rbind case_prod_unfold split: sum.split)
qed

theorem plan_cache_transparent_witness:
  "\<exists>c. c \<noteq> cache_new \<and>
     fst (lookup_tagged False 5 linked_arena arena_view_new (Inr (Some 1)) 11 (Inr (Some 2)) 12 20 0 c) =
       rbind (tree_plan False (arena_edge_meta linked_arena) linked_topology 1 2)
         (\<lambda>p. fst (at_tagged p 20 0 (guard_new linked_arena arena_view_new)))"
proof -
  let ?W = "\<lambda>_ :: u64. linked_topology" and ?meta = "\<lambda>_ :: u64. arena_edge_meta linked_arena"
  let ?r = "tree_plan False (arena_edge_meta linked_arena) linked_topology 1 2"
  define c where "c = snd (with_plan 5 ?r (generation linked_topology) 1 2 (generation linked_topology) (\<lambda>p. p) cache_new)"
  have room: "room_to_mutate linked_topology 0 []"
    by (simp add: room_to_mutate_def linked_topology_ok)
  have W: "?W(5 := linked_topology) = ?W" by auto
  have "kstep ?meta (?W, cache_new) (?W(5 := linked_topology), c)"
    unfolding c_def by (rule klookup [where W = ?W and k = 5 and ms = "[]" and n = 0 and ms' = "[]" and n' = 0 and ?v1.0 = linked_topology and ?v2.0 = linked_topology])
      (simp_all add: room compiled_meanwhile_def)
  then have steps: "(kstep ?meta)\<^sup>*\<^sup>* (?W, cache_new) (?W, c)" unfolding W by (rule r_into_rtranclp)
  have ok: "\<forall>k. view_ok (?W k)" by (simp add: linked_topology_ok)
  obtain q where q: "?r = Inr q" using linked_compiles by (auto simp: tree_plan_def stable_generation_def linked_topology_ok)
  have "\<not> snd (fst (with_plan 5 (Inr q) 0 1 2 (generation linked_topology) (\<lambda>p. p) cache_new))"
    using cache_index_less by (simp add: with_plan_def Let_def cache_new_def)
  moreover have "snd (fst (with_plan 5 (Inr q) 0 1 2 (generation linked_topology) (\<lambda>p. p) c))"
    unfolding c_def q by (rule with_plan_again) (simp_all add: cache_new_def)
  ultimately have "c \<noteq> cache_new" by metis
  then show ?thesis
    using plan_cache_transparent [where k = 5 and a = linked_arena and tf = "Inr (Some 1)" and sf = "Inr (Some 2)" and
        w = arena_view_new and th = 11 and sh = 12 and nanos = 20 and dmn = 0, OF ok steps, THEN conjunct2, THEN conjunct1]
    by (intro exI [of _ c]) (simp add: find_id_def linked_arena_def)
qed

end
