(* ===== verification/Tree_Lookup.thy ===== *)
theory Tree_Lookup
  imports Tree_Build Plan_Cache
begin

text \<open>
  From the declaration of a tree to the answer of a lookup: the tree \<open>TreeBuilder::build\<close> returns, queried
  through \<open>Tree::plan\<close> and \<open>Plan::at\<close>.
\<close>

subsection \<open>Poses along declared edges\<close>

lemma pose_in_root_0: "forest mf (parent (published v)) \<Longrightarrow> pose_in_root P v 0 = iso3_IDENTITY"
  using level_0_iff [of mf "parent (published v)" 0] forestD(1) by (simp add: pose_in_root_def edges_to_def)

lemma pose_in_root_step:
  assumes F: "forest mf (parent (published v))" and f: "f < mf" "f \<noteq> 0" and P: "\<forall>e. unit_iso (P e)"
  shows "pose_in_root P v f =
    iso3_mul (pose_in_root P v (parent (published v) ! f)) (P (edge_of_child (published v) ! f))"
proof -
  let ?p = "parent (published v)" and ?e = "edge_of_child (published v)"
  have "edges_to v (Suc n) f = ?e ! f # edges_to v n (?p ! f)" for n
    by (simp add: edges_to_def up_Suc upt_conv_Cons del: upt_Suc flip: map_Suc_upt)
  then have "edges_to v (level ?p f) f = ?e ! f # edges_to v (level ?p (?p ! f)) (?p ! f)"
    using level_pos [OF F f] by simp
  then show ?thesis using P by (simp add: pose_in_root_def iso.prod_append iso.prod_Cons)
qed

text \<open>A placement of the named frames that agrees with every declared edge.\<close>

definition places :: "(name \<Rightarrow> iso3) \<Rightarrow> (edge_id \<Rightarrow> iso3) \<Rightarrow> edge_decl list \<Rightarrow> bool" where
  "places Q P es \<longleftrightarrow> (\<forall>k < length es. Q (ed_child (es ! k)) = iso3_mul (Q (ed_parent (es ! k))) (P (k + 1)))"

lemma wired_cases:
  assumes "wired ns mf es par" "edges_wired ns es eoc" "f < mf"
  obtains (child) k where "k < length es" "f = name_id ns (ed_child (es ! k))" "par ! f = name_id ns (ed_parent (es ! k))" "eoc ! f = k + 1"
  | (root) "par ! f = 0"
proof (cases "f \<in> (\<lambda>e. name_id ns (ed_child e)) ` set es")
  case True
  then obtain k where "k < length es" "f = name_id ns (ed_child (es ! k))" by (auto simp: in_set_conv_nth)
  then show thesis using child assms(1,2) by (simp add: wired_def edges_wired_def)
next
  case False
  then show thesis using root assms(1,3) by (simp add: wired_def)
qed

lemma offset_constant:
  fixes v es ns P Q
  defines "C \<equiv> \<lambda>nm. iso3_mul (pose_in_root P v (name_id ns nm)) (iso3_inverse (Q nm))"
  assumes F: "forest mf (parent (published v))" and w: "wired ns mf es (parent (published v))" "edges_wired ns es (edge_of_child (published v))"
    and ns: "length ns < mf" "ed_child ` set es \<union> ed_parent ` set es \<subseteq> set ns"
    and P: "\<forall>e. unit_iso (P e)" "\<forall>nm. unit_iso (Q nm)" "places Q P es"
    and x: "up (parent (published v)) i (name_id ns nm) = x" "x \<noteq> 0" "nm \<in> set ns"
  shows "\<exists>nx \<in> set ns. name_id ns nx = x \<and> C nx = C nm"
  using x
proof (induction i arbitrary: nm)
  case 0
  then show ?case by auto
next
  case (Suc i)
  let ?p = "parent (published v)" and ?f = "name_id ns nm"
  have f: "?f < mf" "?f \<noteq> 0" using name_id_nth(3,4) [OF Suc.prems(3)] ns(1) by simp_all
  from w f(1) show ?case
  proof (cases rule: wired_cases)
    case (child k)
    then have e: "ed_parent (es ! k) \<in> set ns" "ed_child (es ! k) \<in> set ns" using ns(2) by auto
    then have nm: "nm = ed_child (es ! k)" using name_id_inj [OF Suc.prems(3) e(2)] child(2) by simp
    let ?q = "ed_parent (es ! k)" and ?R = "pose_in_root P v (name_id ns (ed_parent (es ! k)))"
    have u: "unit_iso ?R" using P(1) by (simp add: pose_in_root_def)
    have "pose_in_root P v ?f = iso3_mul ?R (P (k + 1))" using pose_in_root_step [OF F f P(1)] child(3,4) by simp
    moreover have "Q nm = iso3_mul (Q ?q) (P (k + 1))" using P(3) child(1) nm by (simp add: places_def)
    ultimately have "C nm = iso3_mul (iso3_mul ?R (P (k + 1))) (iso3_mul (iso3_inverse (P (k + 1))) (iso3_inverse (Q ?q)))"
      using P(1,2) by (simp add: C_def iso.inv_mul_distrib)
    also have "\<dots> = iso3_mul ?R (iso3_mul (P (k + 1)) (iso3_mul (iso3_inverse (P (k + 1))) (iso3_inverse (Q ?q))))"
      using P(1,2) u by (simp add: iso.mul_assoc)
    also have "\<dots> = C ?q" using P(1,2) by (simp add: C_def iso.mul_cancel_left)
    finally have "C nm = C ?q" .
    moreover have "up ?p i (name_id ns ?q) = x" using Suc.prems(1) child(3) by (simp add: up_Suc)
    ultimately show ?thesis using Suc.IH [of ?q] Suc.prems(2) e(1) by auto
  next
    case root
    then have "up ?p (Suc i) ?f = 0" using up_stays_0 [OF forestD(3) [OF F]] by (simp add: up_Suc)
    then show ?thesis using Suc.prems by simp
  qed
qed

lemma path_edges_declared:
  assumes F: "forest mf (parent (published v))" and w: "wired ns mf es (parent (published v))" "edges_wired ns es (edge_of_child (published v))"
    and ab: "a < mf" "b < mf" "same_tree (parent (published v)) a b" and e: "e \<in> set (path_up v a b)"
  shows "\<exists>k < length es. e = k + 1"
proof -
  let ?p = "parent (published v)" and ?m = "meet_level (parent (published v)) a b"
  obtain k where k: "k < level ?p a - ?m" "e = edge_of_child (published v) ! up ?p k a"
    using e by (auto simp: path_up_def edges_to_def Let_def)
  let ?g = "up ?p k a"
  have m: "0 < ?m" using same_tree_iff [OF F ab(1,2)] ab(3) by simp
  have g: "?g < mf" using up_range [OF F ab(1)] .
  have "Suc k < level ?p a" using k(1) m by simp
  then have "up ?p (Suc k) a \<noteq> 0" using up_nonzero_iff [OF F ab(1)] by blast
  then have "?p ! ?g \<noteq> 0" by (simp add: up_Suc')
  with w g show ?thesis by (cases rule: wired_cases) (use k(2) in auto)
qed

lemma tree_plan_Inr:
  assumes v: "view_ok v" "tv_max_frames v \<le> 2 ^ 16" "0 < x" "0 < y" and q: "tree_plan False m v x y = Inr q"
  shows "compile (Suc 0) (stable_generation v) m x y (\<lambda>_. (generation v, rest_reads v, generation v)) = Some (Inr q)"
    "x \<noteq> y \<Longrightarrow> path_ok v x y \<and> x < tv_max_frames v \<and> y < tv_max_frames v"
proof -
  show c: "compile (Suc 0) (stable_generation v) m x y (\<lambda>_. (generation v, rest_reads v, generation v)) = Some (Inr q)"
    using q compile_attempt_total [OF v, of m]
    by (auto simp: tree_plan_def compile_def split: if_splits outcome.splits)
  assume "x \<noteq> y"
  then have att: "compile_attempt m x y (generation v, rest_reads v, generation v) = Done (Inr q)"
    using c compile_attempt_total [OF v, of m] by (simp add: compile_def split: outcome.splits)
  then have r: "\<not> (tv_max_frames v \<le> x \<or> x < tv_max_frames v \<and> tv_max_frames v \<le> y)"
    using compile_attempt_range [of v x y m] by auto
  then have "walkable v x y" using v by (auto simp: walkable_def)
  then show "path_ok v x y \<and> x < tv_max_frames v \<and> y < tv_max_frames v"
    using compile_attempt_rest [of v x y m] att r by (auto split: if_splits)
qed

text \<open>What a declared edge stands for at a stamp: its pose, or what its ring interpolates to.\<close>

definition edges_stand :: "tree_builder \<Rightarrow> arena \<Rightarrow> int \<Rightarrow> (edge_id \<Rightarrow> iso3) \<Rightarrow> edge_id list \<Rightarrow> bool" where
  "edges_stand b a nanos P path \<longleftrightarrow> (\<forall>k < length (tb_edges b). k + 1 \<in> set path \<longrightarrow> (case ed_kind (tb_edges b ! k) of
     StaticDecl x \<Rightarrow> P (k + 1) = x
   | DynamicDecl cfg \<Rightarrow> guard_sample a (k + 1) nanos ErrorPolicy = Inr (P (k + 1))))"

lemma edge_at_declared:
  assumes "built_as H b t" "arena_edge_meta a = arena_edge_meta (bt_arena t)" "edges_stand b a nanos P path" "k < length (tb_edges b)"
    and "k + 1 \<in> set path"
  shows "edge_at a nanos (k + 1) = Inr (P (k + 1))"
proof -
  have "arena_edge (bt_arena t) (k + 1) = Some (record_of b (declared_names b) (tb_edges b) k)"
    using assms(1,4) by (simp add: built_as_def Let_def)
  moreover have "case ed_kind (tb_edges b ! k) of StaticDecl x \<Rightarrow> P (k + 1) = x
      | DynamicDecl cfg \<Rightarrow> guard_sample a (k + 1) nanos ErrorPolicy = Inr (P (k + 1))"
    using assms(3-5) unfolding edges_stand_def by blast
  ultimately show ?thesis
    by (cases "ed_kind (tb_edges b ! k)")
      (simp_all add: edge_at_def edge_pose_def assms(2) arena_edge_meta_def record_of_def decl_record_def Let_def
        edge_record_static_def edge_record_dynamic_def edge_kind_from_u8_def)
qed

lemma declared_evaluates:
  assumes B: "built_as H b t" and size: "length (declared_names b) + 1 + tb_frame_headroom b \<le> 2 ^ 16"
    and a: "ar_topology a = ar_topology (bt_arena t)" "arena_edge_meta a = arena_edge_meta (bt_arena t)" "rings_ok a"
    and S: "unit_sampler (\<lambda>e. guard_sample a e nanos ErrorPolicy)" "unit_metas (arena_edge_meta a)"
    and P: "\<forall>e. unit_iso (P e)" "\<forall>nm. unit_iso (Q nm)" "places Q P (tb_edges b)"
    and x: "x \<in> set (declared_names b)" "y \<in> set (declared_names b)"
    and q: "tree_plan False (arena_edge_meta a) (ar_topology a) (name_id (declared_names b) x) (name_id (declared_names b) y) = Inr q"
      "has_dynamic q \<longrightarrow> plan_domain q = dmn"
    and E: "edges_stand b a nanos P (path_up (ar_topology a) (name_id (declared_names b) x) (name_id (declared_names b) y) @
      path_up (ar_topology a) (name_id (declared_names b) y) (name_id (declared_names b) x))"
  shows "fst (at_tagged q nanos dmn (guard_new a w)) = Inr (iso3_mul (iso3_inverse (Q x)) (Q y))"
proof -
  let ?ns = "declared_names b" and ?es = "tb_edges b" and ?v = "ar_topology a"
  let ?x = "name_id ?ns x" and ?y = "name_id ?ns y" and ?p = "parent (published ?v)"
  have v: "view_ok ?v" "tv_max_frames ?v \<le> 2 ^ 16" "length ?ns < tv_max_frames ?v"
    and w: "wired ?ns (tv_max_frames ?v) ?es ?p" "edges_wired ?ns ?es (edge_of_child (published ?v))"
    using B size unfolding built_as_def Let_def a(1) by auto
  have F: "forest (tv_max_frames ?v) ?p" using v(1) by (simp add: view_ok_def)
  have ns: "ed_child ` set ?es \<union> ed_parent ` set ?es \<subseteq> set ?ns" using declared_names_props(2) [of b] by auto
  have pos: "0 < ?x" "0 < ?y" using name_id_nth(3) x by auto
  note plan = tree_plan_Inr [OF v(1,2) pos q(1)]
  have same: "same_tree ?p ?x ?y"
    using plan(2) pos unfolding path_ok_def Let_def by (cases "?x = ?y") (auto simp: same_tree_def intro!: exI [of _ ?x])
  have lt: "?x < tv_max_frames ?v" "?y < tv_max_frames ?v" using name_id_nth(4) x v(3) by fastforce+
  have "edge_at a nanos e = Inr (P e)" if mem: "e \<in> set (path_up ?v ?x ?y) \<union> set (path_up ?v ?y ?x)" for e
  proof -
    have "same_tree ?p ?y ?x" using same by (auto simp: same_tree_def)
    then obtain k where k: "k < length ?es" "e = k + 1"
      using mem path_edges_declared [OF F w lt same, of e] path_edges_declared [OF F w lt(2,1), of e] by blast
    then show ?thesis using edge_at_declared [OF B a(2) E k(1)] mem k(2) by simp
  qed
  then have ev: "fst (at_tagged q nanos dmn (guard_new a w)) =
      Inr (iso3_mul (iso3_inverse (pose_in_root P ?v ?x)) (pose_in_root P ?v ?y))"
    using lookup_evaluates [OF v(1,2) pos plan(1) a(3) S P(1) _ q(2)] by blast
  let ?C = "\<lambda>nm. iso3_mul (pose_in_root P ?v (name_id ?ns nm)) (iso3_inverse (Q nm))"
  obtain r i j where r: "r \<noteq> 0" "up ?p i ?x = r" "up ?p j ?y = r" using same by (auto simp: same_tree_def ancestor_def)
  note C = offset_constant [OF F w v(3) ns P(1,2,3)]
  obtain nx where nx: "nx \<in> set ?ns" "name_id ?ns nx = r" "?C nx = ?C x" using C [OF r(2,1) x(1)] by blast
  obtain ny where ny: "ny \<in> set ?ns" "name_id ?ns ny = r" "?C ny = ?C y" using C [OF r(3,1) x(2)] by blast
  have "nx = ny" using name_id_inj [OF nx(1) ny(1)] nx(2) ny(2) by simp
  then have c: "?C x = ?C y" using nx(3) ny(3) by simp
  have u: "unit_iso (pose_in_root P ?v f)" for f using P(1) by (simp add: pose_in_root_def)
  have pose: "pose_in_root P ?v (name_id ?ns nm) = iso3_mul (?C nm) (Q nm)" for nm
    using u P(2) by (simp add: iso.mul_assoc)
  have "unit_iso (?C y)" using u P(2) by simp
  then have "iso3_mul (iso3_inverse (iso3_mul (?C y) (Q x))) (iso3_mul (?C y) (Q y)) = iso3_mul (iso3_inverse (Q x)) (Q y)"
    using P(2) by (simp add: iso.inv_mul_distrib iso.mul_assoc iso.mul_cancel_left')
  then show ?thesis using ev pose [of x] pose [of y] c by simp
qed

subsection \<open>A fresh tree\<close>

lemma fresh_rings:
  assumes B: "built_as H b t" and r: "arena_ring (bt_arena t) e = Some r"
  shows "\<exists>cap. r = ring_new e cap \<and> is_power_of_two cap \<and> cap < 2 ^ 32"
proof -
  let ?a = "bt_arena t" and ?es = "tb_edges b"
  have e: "e < h_max_edges (ar_header ?a)" using r by (simp add: arena_ring_eq)
  have ok: "arena_ok ?a" and z: "e = 0 \<or> length ?es < e \<Longrightarrow> arena_edge ?a e = Some edge_record_zero"
    using B e unfolding built_as_def Let_def by blast+
  have "\<not> (e = 0 \<or> length ?es < e)"
  proof
    assume "e = 0 \<or> length ?es < e"
    then have "ar_edges ?a ! e = edge_record_zero" using z e by (simp add: arena_edge_def)
    then show False using r e by (simp add: arena_ring_eq ring_of_def ring_bytes_def edge_record_zero_def)
  qed
  then obtain k where k: "e = k + 1" "k < length ?es" by (cases e) auto
  then have "r = ring_new e (decl_capacity (?es ! k))"
    using B r unfolding built_as_def Let_def by (auto split: if_splits)
  moreover have "ring_of ?a e (ar_edges ?a ! e) (ar_claims ?a ! e) = Some r" using r by (simp add: arena_ring_eq)
  note ring_of_SomeD [OF ok this]
  ultimately show ?thesis
    using ok by (auto simp: ring_new_def arena_ok_def capacity_def intro!: exI [of _ "decl_capacity (?es ! k)"])
qed

lemma fresh_samples:
  assumes "built_as H b t"
  shows "rings_ok (bt_arena t)" "unit_sampler (\<lambda>e. guard_sample (bt_arena t) e nanos ErrorPolicy)"
proof -
  show "rings_ok (bt_arena t)"
    unfolding rings_ok_def using fresh_rings [OF assms] ring_new_ok ring_new_in_range by fastforce
  have "guard_sample (bt_arena t) e nanos ErrorPolicy \<noteq> Inr p" for e p
    using fresh_rings [OF assms, of e]
    by (auto simp: guard_sample_def sampler_eq ok_or_Inr_iff rbind_Inr_iff sample_def ring_new_def split: option.splits)
  then show "unit_sampler (\<lambda>e. guard_sample (bt_arena t) e nanos ErrorPolicy)" by (simp add: unit_sampler_def)
qed

lemma fresh_metas:
  assumes B: "built_as H b t" and u: "\<forall>e \<in> set (tb_edges b). \<forall>x. ed_kind e = StaticDecl x \<longrightarrow> unit_iso x"
  shows "unit_metas (arena_edge_meta (bt_arena t))"
  unfolding unit_metas_def
proof (intro allI impI, elim conjE)
  fix e meta assume m: "arena_edge_meta (bt_arena t) e = Some meta" "em_kind meta = Static"
  let ?a = "bt_arena t" and ?es = "tb_edges b"
  have e: "e < h_max_edges (ar_header ?a)" using m(1) by (simp add: arena_edge_meta_def arena_edge_def split: if_splits)
  show "unit_iso (em_static_pose meta)"
  proof (cases "e = 0 \<or> length ?es < e")
    case True
    then have "arena_edge ?a e = Some edge_record_zero" using B e unfolding built_as_def Let_def by blast
    then show ?thesis using m by (auto simp: arena_edge_meta_def edge_record_zero_def edge_kind_from_u8_def)
  next
    case False
    then obtain k where k: "e = k + 1" "k < length ?es" by (cases e) auto
    then have "arena_edge ?a e = Some (record_of b (declared_names b) ?es k)" using B unfolding built_as_def Let_def by blast
    then show ?thesis
      using m u nth_mem [OF k(2)]
      by (cases "ed_kind (?es ! k)") (auto simp: arena_edge_meta_def record_of_def decl_record_def Let_def
          edge_record_static_def edge_record_dynamic_def edge_kind_from_u8_def)
  qed
qed

subsection \<open>Looking up in a declared tree\<close>

lemma lookup_tagged_miss:
  "fst (lookup_tagged False k a w (Inr (Some i)) hi (Inr (Some j)) hj nanos dmn cache_new) =
     (case tree_plan False (arena_edge_meta a) (ar_topology a) i j of
        Inl e \<Rightarrow> Inl e
      | Inr q \<Rightarrow> fst (at_tagged q nanos dmn (guard_new a w)))"
  by (cases "tree_plan False (arena_edge_meta a) (ar_topology a) i j")
    (simp_all add: lookup_tagged_def find_id_def with_plan_def Let_def cache_new_def cache_index_less)


text \<open>The camera of \<open>example_builder\<close>, looked up in the base it is mounted on.\<close>

definition example_places :: "name \<Rightarrow> iso3" where
  "example_places nm = (if length nm = 1 then half_turn else if length nm = 3 then iso3_mul half_turn half_turn else iso3_IDENTITY)"

lemma example_tree:
  assumes "built_as H example_builder t"
  defines "v \<equiv> ar_topology (bt_arena t)"
  shows "view_ok v" "tv_max_frames v = 4" "parent (published v) ! 1 = 0" "parent (published v) ! 2 = 1" "parent (published v) ! 3 = 2"
    "edge_of_child (published v) ! 3 = 2"
    "arena_edge_meta (bt_arena t) 2 = Some \<lparr>em_kind = Static, em_domain = 0, em_static_pose = half_turn\<rparr>"
proof -
  let ?ns = "[[1, 1], [2], [3, 4, 5]] :: name list" and ?es = "tb_edges example_builder"
  have es: "?es ! 0 = \<lparr>ed_parent = [1, 1], ed_child = [2], ed_kind = DynamicDecl (edge_cfg_new 8)\<rparr>"
    "?es ! 1 = \<lparr>ed_parent = [2], ed_child = [3, 4, 5], ed_kind = StaticDecl half_turn\<rparr>"
    "set ?es = {?es ! 0, ?es ! 1}" "tb_domain example_builder = 0"
    by (simp_all add: example_builder_def static_edge_def dynamic_edge_def builder_new_def capacity_example SystemDomain_TAG_def)
  have nid: "name_id ?ns [1, 1] = 1" "name_id ?ns [2] = 2" "name_id ?ns [3, 4, 5] = 3" by (simp_all add: name_id_def)
  note b = assms(1) [unfolded built_as_def Let_def example_declared(1) example_edges(2) example_edges(4)]
  have mf: "tv_max_frames v = 4" using b by (simp add: v_def)
  have "wired ?ns (tv_max_frames v) ?es (parent (published v))" using b unfolding v_def by blast
  note wired = this [unfolded mf]
  have "\<forall>k < 2. arena_edge (bt_arena t) (k + 1) = Some (record_of example_builder ?ns ?es k)" using b by blast
  note spec [OF this, of 1]
  then have B: "view_ok v" "tv_max_frames v = 4" "wired ?ns 4 ?es (parent (published v))"
    "edges_wired ?ns ?es (edge_of_child (published v))"
    "arena_edge (bt_arena t) 2 = Some (record_of example_builder ?ns ?es 1)"
    using mf wired b by (simp_all only: v_def one_add_one refl)
  then show "view_ok v" "tv_max_frames v = 4" "parent (published v) ! 1 = 0" "parent (published v) ! 2 = 1"
    "parent (published v) ! 3 = 2" "edge_of_child (published v) ! 3 = 2"
    by (simp_all add: wired_def edges_wired_def es es(2) [unfolded One_nat_def] nid example_edges(2) numeral_2_eq_2 less_Suc_eq all_conj_distrib)
  show "arena_edge_meta (bt_arena t) 2 = Some \<lparr>em_kind = Static, em_domain = 0, em_static_pose = half_turn\<rparr>"
    using B(5) by (simp add: es(4) es(2) [unfolded One_nat_def] arena_edge_meta_def record_of_def decl_record_def edge_record_static_def edge_kind_from_u8_def Let_def)
qed

lemma example_paths:
  assumes v: "view_ok v" "tv_max_frames v = 4"
    and p: "parent (published v) ! 1 = 0" "parent (published v) ! 2 = 1" "parent (published v) ! 3 = 2" "edge_of_child (published v) ! 3 = 2"
  shows "path_up v 2 3 = []" "path_up v 3 2 = [2]" "path_ok v 2 3" "walkable v 2 3"
proof -
  let ?p = "parent (published v)"
  have F: "forest 4 ?p" using v by (simp add: view_ok_def)
  have l: "level ?p 1 = 1" "level ?p 2 = 2" "level ?p 3 = 3"
    using level_pos [OF F, of 1] level_pos [OF F, of 2] level_pos [OF F, of 3] p level_0_iff [OF F, of 0] by simp_all
  have "meets ?p 2 3 2" by (simp add: meets_def l up_Suc p)
  moreover have "meet_level ?p 2 3 \<le> 2" using meet_level_meets [OF F, of 2 3] l by (simp add: meets_def)
  ultimately have m: "meet_level ?p 2 3 = 2" using meet_level_greatest [of ?p 2 3 2] by linarith
  then have m': "meet_level ?p 3 2 = 2" using meet_level_commute by metis
  show "path_up v 2 3 = []" "path_up v 3 2 = [2]" by (simp_all add: path_up_def m m' l edges_to_def p Let_def)
  have "same_tree ?p 2 3" using same_tree_iff [OF F, of 2 3] m by simp
  then show "path_ok v 2 3" by (simp add: path_ok_def m l edges_to_def MAX_PATH_EDGES_def p Let_def)
  show "walkable v 2 3" using v by (simp add: walkable_def)
qed

lemma example_plan:
  assumes B: "built_as H example_builder t"
  shows "\<exists>q. tree_plan False (arena_edge_meta (bt_arena t)) (ar_topology (bt_arena t)) 2 3 = Inr q \<and> \<not> has_dynamic q"
proof -
  note T = example_tree [OF B] and P = example_paths [OF example_tree(1-6) [OF B]]
  obtain q where q: "fold_into (identity_plan (generation (ar_topology (bt_arena t)))) [] [2] (arena_edge_meta (bt_arena t)) = Inr q"
    "\<not> has_dynamic q"
    by (simp add: fold_into_def raw_path_def resolve_edge_def fold_start_def emit_step_def append_step_def MAX_DEPTH_def
        identity_plan_def T(7) has_dynamic_def)
  then have "compile_attempt (arena_edge_meta (bt_arena t)) 2 3 (generation (ar_topology (bt_arena t)), rest_reads (ar_topology (bt_arena t)),
      generation (ar_topology (bt_arena t))) = Done (Inr q)"
    using compile_attempt_rest [OF P(4), of "arena_edge_meta (bt_arena t)"] P by simp
  then show ?thesis using q(2) by (simp add: tree_plan_def compile_def)
qed


end
