(* ===== verification/Bridge_Index.thy ===== *)
theory Bridge_Index
  imports Interning
begin

unbundle bit_operations_syntax

text \<open>
  The two hash tables of the ingest bridge: \<open>EdgeIndex\<close> of \<open>tf_tree_bridge/src/edgeindex.rs\<close>, from a pair of
  frame names to a dense slot, and \<open>StrInterner\<close> of \<open>interner.rs\<close>, from a publisher's key to a dense id
  under a cap. Both probe a power-of-two array of buckets linearly. The probing loops of the code have no
  bound of their own: a probe is an option, \<open>None\<close> when it goes around the table without ending, and the
  lemmas show that a table under the invariant always ends it.
\<close>

subsection \<open>Hashing\<close>

definition HASH_K :: u64 where "HASH_K = 0x517cc1b727220a95"
definition EMPTY_ENTRY :: nat where "EMPTY_ENTRY = u32_max"

definition mix_word :: "u64 \<Rightarrow> u8 list \<Rightarrow> u64" where
  "mix_word h w = word_rotl 5 (h XOR of_nat (le_val w)) * HASH_K"

fun mix_chunks :: "u64 \<Rightarrow> u8 list \<Rightarrow> u64" where
  "mix_chunks h bytes =
     (if length bytes < 8 then mix_word h bytes else mix_chunks (mix_word h (take 8 bytes)) (drop 8 bytes))"

declare mix_chunks.simps [simp del]

definition mix :: "u64 \<Rightarrow> u8 list \<Rightarrow> u64" where
  "mix h bytes = (mix_chunks h bytes XOR of_nat (length bytes)) * HASH_K"

definition finish_hash :: "u64 \<Rightarrow> u64" where
  "finish_hash h = (let h = (h XOR drop_bit 32 h) * HASH_K in h XOR drop_bit 29 h)"

definition hash_pair :: "name \<times> name \<Rightarrow> u64" where
  "hash_pair key =
     (let h = mix 0xcbf29ce484222325 (fst key) XOR 0x9e3779b97f4a7c15
      in finish_hash (mix h (snd key)))"

definition str_hash :: "name \<Rightarrow> u64" where
  "str_hash s = finish_hash (mix 0xcbf29ce484222325 s)"

subsection \<open>Buckets\<close>

definition buckets_for :: "nat \<Rightarrow> nat" where
  "buckets_for n = max (next_pow2 (4 * n + 4)) 16"

record bucket =
  bk_hash :: u64
  bk_entry :: nat

definition bucket_empty :: bucket where
  "bucket_empty = \<lparr>bk_hash = 0, bk_entry = EMPTY_ENTRY\<rparr>"

text \<open>The loop of \<open>find\<close>: \<open>is_key e\<close> compares the key of entry \<open>e\<close> with the one looked for.\<close>

fun probe_find :: "nat \<Rightarrow> bucket list \<Rightarrow> nat \<Rightarrow> u64 \<Rightarrow> (nat \<Rightarrow> bool) \<Rightarrow> nat \<Rightarrow> nat option option" where
  "probe_find 0 bs msk h is_key i = None"
| "probe_find (Suc n) bs msk h is_key i =
     (if length bs \<le> i then Some None
      else if bk_entry (bs ! i) = EMPTY_ENTRY then Some None
      else if bk_hash (bs ! i) = h \<and> is_key (bk_entry (bs ! i)) then Some (Some (bk_entry (bs ! i)))
      else probe_find n bs msk h is_key ((i + 1) AND msk))"

text \<open>The loop of \<open>place\<close>: the first empty bucket from \<open>i\<close> on.\<close>

fun probe_place :: "nat \<Rightarrow> bucket list \<Rightarrow> nat \<Rightarrow> nat \<Rightarrow> nat option" where
  "probe_place 0 bs msk i = None"
| "probe_place (Suc n) bs msk i =
     (if bk_entry (bs ! i) = EMPTY_ENTRY then Some i else probe_place n bs msk ((i + 1) AND msk))"

definition bucket_find :: "('k \<Rightarrow> u64) \<Rightarrow> 'k list \<Rightarrow> bucket list \<Rightarrow> nat \<Rightarrow> 'k \<Rightarrow> nat option" where
  "bucket_find H keys bs msk k = the (probe_find (length bs + 1) bs msk (H k) (\<lambda>e. keys ! e = k) (unat (H k) AND msk))"

definition place :: "bucket list \<Rightarrow> nat \<Rightarrow> u64 \<Rightarrow> nat \<Rightarrow> bucket list" where
  "place bs msk h e = bs[the (probe_place (length bs + 1) bs msk (unat h AND msk)) := \<lparr>bk_hash = h, bk_entry = e\<rparr>]"

fun place_all :: "('k \<Rightarrow> u64) \<Rightarrow> nat \<Rightarrow> 'k list \<Rightarrow> bucket list \<Rightarrow> nat \<Rightarrow> bucket list" where
  "place_all H e [] bs msk = bs"
| "place_all H e (k # ks) bs msk = place_all H (e + 1) ks (place bs msk (H k) (e mod 2 ^ 32)) msk"

subsection \<open>\<open>EdgeIndex\<close>\<close>

record 'v edge_index =
  ei_buckets :: "bucket list"
  ei_mask :: nat
  ei_keys :: "(name \<times> name) list"
  ei_values :: "'v list"

definition edge_index_with_capacity :: "nat \<Rightarrow> 'v edge_index" where
  "edge_index_with_capacity n =
     \<lparr>ei_buckets = replicate (buckets_for n) bucket_empty, ei_mask = buckets_for n - 1, ei_keys = [], ei_values = []\<rparr>"

definition edge_find :: "'v edge_index \<Rightarrow> name \<times> name \<Rightarrow> nat option" where
  "edge_find x key = bucket_find hash_pair (ei_keys x) (ei_buckets x) (ei_mask x) key"

definition edge_rehash :: "'v edge_index \<Rightarrow> 'v edge_index" where
  "edge_rehash x =
     (let len = buckets_for (length (ei_keys x))
      in x\<lparr>ei_buckets := place_all hash_pair 0 (ei_keys x) (replicate len bucket_empty) (len - 1), ei_mask := len - 1\<rparr>)"

definition edge_insert :: "name \<times> name \<Rightarrow> 'v \<Rightarrow> 'v edge_index \<Rightarrow> nat \<times> 'v edge_index" where
  "edge_insert key v x =
     (case edge_find x key of
        Some e \<Rightarrow> (e, x\<lparr>ei_values := (ei_values x)[e := v]\<rparr>)
      | None \<Rightarrow>
          (let e = length (ei_keys x);
               x' = x\<lparr>ei_keys := ei_keys x @ [key], ei_values := ei_values x @ [v]\<rparr>
           in (e, if length (ei_buckets x') < buckets_for (length (ei_keys x')) then edge_rehash x'
                  else x'\<lparr>ei_buckets := place (ei_buckets x') (ei_mask x') (hash_pair key) (e mod 2 ^ 32)\<rparr>)))"

definition edge_len :: "'v edge_index \<Rightarrow> nat" where
  "edge_len x = length (ei_keys x)"

definition edge_key :: "'v edge_index \<Rightarrow> nat \<Rightarrow> name \<times> name" where
  "edge_key x e = ei_keys x ! e"

definition edge_get :: "'v edge_index \<Rightarrow> name \<times> name \<Rightarrow> 'v option" where
  "edge_get x key = map_option (\<lambda>e. ei_values x ! e) (edge_find x key)"

subsection \<open>\<open>StrInterner\<close>\<close>

record str_interner =
  si_buckets :: "bucket list"
  si_mask :: nat
  si_names :: "name list"
  si_cap :: nat

definition interner_with_cap :: "nat \<Rightarrow> str_interner" where
  "interner_with_cap cap =
     \<lparr>si_buckets = replicate (buckets_for cap) bucket_empty, si_mask = buckets_for cap - 1, si_names = [], si_cap = cap\<rparr>"

definition id_of :: "str_interner \<Rightarrow> name \<Rightarrow> nat option" where
  "id_of x s = (case bucket_find str_hash (si_names x) (si_buckets x) (si_mask x) s of
     Some e \<Rightarrow> if e \<le> u32_max then Some e else None | None \<Rightarrow> None)"

definition intern_key :: "name \<Rightarrow> str_interner \<Rightarrow> nat option \<times> str_interner" where
  "intern_key s x =
     (case id_of x s of
        Some e \<Rightarrow> (Some e, x)
      | None \<Rightarrow>
          if si_cap x \<le> length (si_names x) then (None, x)
          else if u32_max < length (si_names x) then (None, x)
          else (let e = length (si_names x)
                in (Some e, x\<lparr>si_names := si_names x @ [s], si_buckets := place (si_buckets x) (si_mask x) (str_hash s) e\<rparr>)))"

subsection \<open>The table invariant\<close>

definition slot_at :: "nat \<Rightarrow> u64 \<Rightarrow> nat \<Rightarrow> nat" where
  "slot_at len h j = (unat h + j) mod len"

definition occupied :: "bucket list \<Rightarrow> nat \<Rightarrow> bool" where
  "occupied bs i \<longleftrightarrow> bk_entry (bs ! i) \<noteq> EMPTY_ENTRY"

definition stored_at :: "('k \<Rightarrow> u64) \<Rightarrow> 'k list \<Rightarrow> bucket list \<Rightarrow> nat \<Rightarrow> nat \<Rightarrow> bool" where
  "stored_at H keys bs e j \<longleftrightarrow>
     (\<forall>i \<le> j. occupied bs (slot_at (length bs) (H (keys ! e)) i)) \<and> bk_entry (bs ! slot_at (length bs) (H (keys ! e)) j) = e"

definition table_ok :: "('k \<Rightarrow> u64) \<Rightarrow> 'k list \<Rightarrow> bucket list \<Rightarrow> nat \<Rightarrow> bool" where
  "table_ok H keys bs msk \<longleftrightarrow>
     is_power_of_two (length bs) \<and> msk = length bs - 1 \<and> distinct keys \<and> length keys < EMPTY_ENTRY \<and>
     card {i. i < length bs \<and> occupied bs i} \<le> length keys \<and>
     (\<forall>i < length bs. occupied bs i \<longrightarrow> bk_entry (bs ! i) < length keys \<and> bk_hash (bs ! i) = H (keys ! bk_entry (bs ! i))) \<and>
     (\<forall>e < length keys. \<exists>j. stored_at H keys bs e j)"

lemma EMPTY_ENTRY_less: "EMPTY_ENTRY < 2 ^ 32"
  by (simp add: EMPTY_ENTRY_def u32_max_def)

lemma slot_step:
  assumes "is_power_of_two (length bs)"
  shows "(slot_at (length bs) h j + 1) AND (length bs - 1) = slot_at (length bs) h (Suc j)"
    "unat h AND (length bs - 1) = slot_at (length bs) h 0"
  using mask_eq_mod [OF assms] by (simp_all add: slot_at_def mod_simps)

lemma slot_less [simp]: "is_power_of_two len \<Longrightarrow> slot_at len h j < len"
  using is_power_of_two_pos by (simp add: slot_at_def)

text \<open>A table that is not full has an empty bucket on every probe.\<close>

lemma empty_ahead:
  assumes p: "is_power_of_two (length bs)" and c: "card {i. i < length bs \<and> occupied bs i} < length bs"
  shows "\<exists>d \<le> length bs. \<not> occupied bs (slot_at (length bs) h d) \<and> (\<forall>j < d. occupied bs (slot_at (length bs) h j))"
proof -
  let ?n = "length bs" and ?s = "slot_at (length bs) h"
  define P where "P d \<longleftrightarrow> \<not> occupied bs (?s d)" for d
  have n: "0 < ?n" using is_power_of_two_pos [OF p] .
  have "{i. i < ?n \<and> occupied bs i} \<noteq> {..<?n}" using c by (metis card_lessThan less_irrefl)
  then obtain i where i: "i < ?n" "\<not> occupied bs i" by auto
  define r where "r = unat h mod ?n"
  have "?s (i + ?n - r) = (unat h + (i + (?n - r))) mod ?n" using n by (simp add: slot_at_def r_def)
  then have "?s (i + ?n - r) = (r + (i + (?n - r))) mod ?n" unfolding r_def by (simp add: mod_simps)
  moreover have "r < ?n" using n by (simp add: r_def)
  then have "r + (i + (?n - r)) = i + ?n" by simp
  ultimately have "?s (i + ?n - r) = i" using i(1) by simp
  then have s: "?s ((i + ?n - r) mod ?n) = i" by (simp add: slot_at_def mod_simps)
  then have P: "P ((i + ?n - r) mod ?n)" using i(2) by (simp add: P_def)
  have "(LEAST d. P d) \<le> (i + ?n - r) mod ?n" using P by (rule Least_le)
  also have "\<dots> < ?n" using n by simp
  finally have "(LEAST d. P d) \<le> ?n" by simp
  moreover have "P (LEAST d. P d)" using P by (rule LeastI)
  moreover have "\<forall>j < (LEAST d. P d). \<not> P j" using not_less_Least by blast
  ultimately show ?thesis unfolding P_def by blast
qed

lemma probe_place_run:
  assumes p: "is_power_of_two (length bs)"
  shows "\<not> occupied bs (slot_at (length bs) h d) \<Longrightarrow> \<forall>j < d. k \<le> j \<longrightarrow> occupied bs (slot_at (length bs) h j) \<Longrightarrow> k \<le> d \<Longrightarrow> d - k < n \<Longrightarrow>
    probe_place n bs (length bs - 1) (slot_at (length bs) h k) = Some (slot_at (length bs) h d)"
proof (induction n arbitrary: k)
  case 0
  then show ?case by simp
next
  case (Suc n)
  show ?case
  proof (cases "k = d")
    case True
    then show ?thesis using Suc.prems(1) by (simp add: occupied_def)
  next
    case False
    then have "occupied bs (slot_at (length bs) h k)" using Suc.prems(2,3) by simp
    then show ?thesis using Suc.IH [of "Suc k"] Suc.prems False slot_step(1) [OF p, of h k] by (simp add: occupied_def)
  qed
qed

lemma probe_find_run:
  assumes p: "is_power_of_two (length bs)"
  shows "\<forall>j < d. k \<le> j \<longrightarrow> occupied bs (slot_at (length bs) h j) \<and>
      \<not> (bk_hash (bs ! slot_at (length bs) h j) = h \<and> is_key (bk_entry (bs ! slot_at (length bs) h j))) \<Longrightarrow>
    \<not> occupied bs (slot_at (length bs) h d) \<or>
      bk_hash (bs ! slot_at (length bs) h d) = h \<and> is_key (bk_entry (bs ! slot_at (length bs) h d)) \<Longrightarrow>
    k \<le> d \<Longrightarrow> d - k < n \<Longrightarrow>
    probe_find n bs (length bs - 1) h is_key (slot_at (length bs) h k) =
      Some (if occupied bs (slot_at (length bs) h d) then Some (bk_entry (bs ! slot_at (length bs) h d)) else None)"
proof (induction n arbitrary: k)
  case 0
  then show ?case by simp
next
  case (Suc n)
  have lt: "\<not> length bs \<le> slot_at (length bs) h j" for j using slot_less [OF p] by (simp add: not_le)
  show ?case
  proof (cases "k = d")
    case True
    then show ?thesis using Suc.prems(2) lt by (auto simp: occupied_def)
  next
    case False
    then show ?thesis using Suc.IH [of "Suc k"] Suc.prems lt slot_step(1) [OF p, of h k] by (auto simp: occupied_def)
  qed
qed

lemma table_room:
  assumes "table_ok H keys bs msk" "length keys < length bs"
  shows "card {i. i < length bs \<and> occupied bs i} < length bs"
  using assms by (simp add: table_ok_def)

lemma bucket_find_correct:
  assumes t: "table_ok H keys bs msk" and room: "length keys < length bs"
  shows "probe_find (length bs + 1) bs msk (H k) (\<lambda>e. keys ! e = k) (unat (H k) AND msk) \<noteq> None"
    "bucket_find H keys bs msk k = Some e \<longleftrightarrow> e < length keys \<and> keys ! e = k"
proof -
  let ?s = "slot_at (length bs) (H k)"
  let ?stop = "\<lambda>d. \<not> occupied bs (?s d) \<or> bk_hash (bs ! ?s d) = H k \<and> keys ! bk_entry (bs ! ?s d) = k"
  have p: "is_power_of_two (length bs)" and msk: "msk = length bs - 1" and dk: "distinct keys"
    and held: "\<And>i. i < length bs \<Longrightarrow> occupied bs i \<Longrightarrow> bk_entry (bs ! i) < length keys \<and> bk_hash (bs ! i) = H (keys ! bk_entry (bs ! i))"
    and ex: "\<And>e. e < length keys \<Longrightarrow> \<exists>j. stored_at H keys bs e j"
    using t by (auto simp: table_ok_def)
  obtain d0 where d0: "d0 \<le> length bs" "\<not> occupied bs (?s d0)" using empty_ahead [OF p table_room [OF t room]] by blast
  define d where "d = (LEAST d. ?stop d)"
  have d: "?stop d" "d \<le> d0" and before: "\<And>j. j < d \<Longrightarrow> \<not> ?stop j"
    using d0(2) LeastI [of ?stop d0] Least_le [of ?stop d0] not_less_Least [of _ ?stop] unfolding d_def by blast+
  have run: "probe_find (length bs + 1) bs msk (H k) (\<lambda>e. keys ! e = k) (unat (H k) AND msk) =
      Some (if occupied bs (?s d) then Some (bk_entry (bs ! ?s d)) else None)"
    using probe_find_run [OF p, of d 0 "H k" "\<lambda>e. keys ! e = k" "length bs + 1"] d before d0(1)
    unfolding msk slot_step(2) [OF p] by auto
  then show "probe_find (length bs + 1) bs msk (H k) (\<lambda>e. keys ! e = k) (unat (H k) AND msk) \<noteq> None" by simp
  have found: "bucket_find H keys bs msk k = (if occupied bs (?s d) then Some (bk_entry (bs ! ?s d)) else None)"
    using run by (simp add: bucket_find_def)
  show "bucket_find H keys bs msk k = Some e \<longleftrightarrow> e < length keys \<and> keys ! e = k"
  proof
    assume "bucket_find H keys bs msk k = Some e"
    then have "occupied bs (?s d)" "bk_entry (bs ! ?s d) = e" using found by (auto split: if_splits)
    then show "e < length keys \<and> keys ! e = k" using d(1) held [OF slot_less [OF p], of "H k" d] by auto
  next
    assume e: "e < length keys \<and> keys ! e = k"
    then obtain j where j: "\<forall>i \<le> j. occupied bs (?s i)" "bk_entry (bs ! ?s j) = e" using ex by (auto simp: stored_at_def)
    then have "occupied bs (?s j)" by blast
    from held [OF slot_less [OF p] this] have "?stop j" using j(2) e by simp
    then have "d \<le> j" using before by (meson not_le)
    then have o: "occupied bs (?s d)" using j(1) by simp
    then have "keys ! bk_entry (bs ! ?s d) = k" "bk_entry (bs ! ?s d) < length keys"
      using d(1) held [OF slot_less [OF p] o] by simp_all
    then have "bk_entry (bs ! ?s d) = e" using e dk nth_eq_iff_index_eq by blast
    then show "bucket_find H keys bs msk k = Some e" using found o by simp
  qed
qed

lemma place_ok:
  assumes t: "table_ok H keys bs msk" and room: "length keys < length bs" and k: "k \<notin> set keys" "Suc (length keys) < EMPTY_ENTRY"
  shows "table_ok H (keys @ [k]) (place bs msk (H k) (length keys)) msk"
    "probe_place (length bs + 1) bs msk (unat (H k) AND msk) \<noteq> None"
    "length (place bs msk (H k) (length keys)) = length bs"
proof -
  let ?s = "slot_at (length bs)" and ?e = "length keys"
  have p: "is_power_of_two (length bs)" and msk: "msk = length bs - 1" and dk: "distinct keys"
    and held: "\<And>i. i < length bs \<Longrightarrow> occupied bs i \<Longrightarrow> bk_entry (bs ! i) < length keys \<and> bk_hash (bs ! i) = H (keys ! bk_entry (bs ! i))"
    and ex: "\<And>e. e < length keys \<Longrightarrow> \<exists>j. stored_at H keys bs e j"
    and crd: "card {i. i < length bs \<and> occupied bs i} \<le> length keys"
    using t by (auto simp: table_ok_def)
  obtain d where d: "d \<le> length bs" "\<not> occupied bs (?s (H k) d)" "\<forall>j < d. occupied bs (?s (H k) j)"
    using empty_ahead [OF p table_room [OF t room]] by blast
  let ?i = "?s (H k) d"
  have run: "probe_place (length bs + 1) bs msk (unat (H k) AND msk) = Some ?i"
    using probe_place_run [OF p d(2), of 0 "length bs + 1"] d unfolding msk slot_step(2) [OF p] by simp
  then show "probe_place (length bs + 1) bs msk (unat (H k) AND msk) \<noteq> None" by simp
  define bs' where "bs' = bs[?i := \<lparr>bk_hash = H k, bk_entry = ?e\<rparr>]"
  have eq: "place bs msk (H k) ?e = bs'" using run by (simp add: place_def bs'_def)
  have len: "length bs' = length bs" by (simp add: bs'_def)
  then show "length (place bs msk (H k) (length keys)) = length bs" by (simp add: eq)
  have i: "?i < length bs" using p by simp
  have nth: "j < length bs \<Longrightarrow> bs' ! j = (if j = ?i then \<lparr>bk_hash = H k, bk_entry = ?e\<rparr> else bs ! j)" for j
    using i by (simp add: bs'_def nth_list_update)
  have occ: "j < length bs \<Longrightarrow> occupied bs' j \<longleftrightarrow> j = ?i \<or> occupied bs j" for j
    using nth k(2) by (simp add: occupied_def)
  have "{j. j < length bs \<and> occupied bs' j} = insert ?i {j. j < length bs \<and> occupied bs j}"
    using occ i by blast
  then have card': "card {j. j < length bs' \<and> occupied bs' j} \<le> length (keys @ [k])"
    using crd by (simp add: len card_insert_if)
  have held': "bk_entry (bs' ! j) < length (keys @ [k]) \<and> bk_hash (bs' ! j) = H ((keys @ [k]) ! bk_entry (bs' ! j))"
    if "j < length bs'" "occupied bs' j" for j
  proof (cases "j = ?i")
    case True
    then show ?thesis using nth [OF i] by simp
  next
    case False
    then have "bs' ! j = bs ! j" "occupied bs j" "j < length bs" using that nth occ len by simp_all
    then show ?thesis using held [of j] by (simp add: nth_append)
  qed
  have stored: "\<exists>j. stored_at H (keys @ [k]) bs' e j" if e: "e < length (keys @ [k])" for e
  proof (cases "e = ?e")
    case True
    have "occupied bs' (?s (H k) j)" if "j \<le> d" for j using that d(3) occ p by (cases "j = d") auto
    then have "stored_at H (keys @ [k]) bs' e d" using True nth [OF i] by (simp add: stored_at_def len)
    then show ?thesis ..
  next
    case False
    then have lt: "e < length keys" using e by simp
    then obtain j where j: "\<forall>i \<le> j. occupied bs (?s (H (keys ! e)) i)" "bk_entry (bs ! ?s (H (keys ! e)) j) = e"
      using ex by (auto simp: stored_at_def)
    have "?s (H (keys ! e)) j \<noteq> ?i" using j(1) d(2) by auto
    then have "stored_at H (keys @ [k]) bs' e j" using j occ nth p lt by (simp add: stored_at_def len nth_append)
    then show ?thesis ..
  qed
  show "table_ok H (keys @ [k]) (place bs msk (H k) (length keys)) msk"
    unfolding eq table_ok_def using p msk dk k card' held' stored len by auto
qed

lemma table_fresh: "is_power_of_two n \<Longrightarrow> table_ok H [] (replicate n bucket_empty) (n - 1)"
  by (auto simp: table_ok_def occupied_def bucket_empty_def EMPTY_ENTRY_def u32_max_def)

lemma place_all_ok:
  assumes "table_ok H keys bs msk" "distinct (keys @ ks)" "length keys + length ks < length bs" "length keys + length ks < EMPTY_ENTRY"
  shows "table_ok H (keys @ ks) (place_all H (length keys) ks bs msk) msk \<and>
    length (place_all H (length keys) ks bs msk) = length bs"
  using assms
proof (induction ks arbitrary: keys bs)
  case Nil
  then show ?case by simp
next
  case (Cons k ks)
  have m: "length keys mod 2 ^ 32 = length keys" using Cons.prems(4) EMPTY_ENTRY_less by simp
  have "k \<notin> set keys" using Cons.prems(2) by simp
  note pl = place_ok [OF Cons.prems(1) _ this]
  have "table_ok H (keys @ [k]) (place bs msk (H k) (length keys)) msk" "length (place bs msk (H k) (length keys)) = length bs"
    using pl Cons.prems(3,4) by simp_all
  then show ?case using Cons.IH [of "keys @ [k]" "place bs msk (H k) (length keys)"] Cons.prems m by simp
qed

subsection \<open>The contract of a dense index\<close>

text \<open>What the tables of the bridge rely on: keys are numbered in the order of their first sight, an index
  finds exactly the number of a key, and numbers never move.\<close>

locale dense_index =
  fixes good :: "'s \<Rightarrow> bool" and keys :: "'s \<Rightarrow> 'k list" and find :: "'s \<Rightarrow> 'k \<Rightarrow> nat option"
  assumes find_iff: "good s \<Longrightarrow> find s k = Some e \<longleftrightarrow> e < length (keys s) \<and> keys s ! e = k"
    and keys_distinct: "good s \<Longrightarrow> distinct (keys s)"
begin

lemma find_None: "good s \<Longrightarrow> find s k = None \<longleftrightarrow> k \<notin> set (keys s)"
  by (metis find_iff in_set_conv_nth not_None_eq)

lemma find_less: "good s \<Longrightarrow> find s k = Some e \<Longrightarrow> e < length (keys s)"
  by (simp add: find_iff)

lemma find_inj: "good s \<Longrightarrow> find s k = Some e \<Longrightarrow> find s k' = Some e \<Longrightarrow> k = k'"
  by (auto simp: find_iff)

lemma find_key: "good s \<Longrightarrow> e < length (keys s) \<Longrightarrow> find s (keys s ! e) = Some e"
  by (simp add: find_iff)

end

locale growing_index = dense_index +
  fixes room :: "'s \<Rightarrow> bool" and add :: "'k \<Rightarrow> 's \<Rightarrow> nat option \<times> 's"
  assumes add_good: "good s \<Longrightarrow> room s \<or> k \<in> set (keys s) \<Longrightarrow> good (snd (add k s))"
    and add_keys: "good s \<Longrightarrow> room s \<Longrightarrow> keys (snd (add k s)) = (if k \<in> set (keys s) then keys s else keys s @ [k])"
    and add_known: "good s \<Longrightarrow> k \<in> set (keys s) \<Longrightarrow> keys (snd (add k s)) = keys s"
    and add_result: "good s \<Longrightarrow> room s \<or> k \<in> set (keys s) \<Longrightarrow> fst (add k s) = find (snd (add k s)) k"
begin

lemma add_found:
  assumes "good s" "room s"
  shows "\<exists>e. fst (add k s) = Some e \<and> find (snd (add k s)) k = Some e \<and> e < length (keys (snd (add k s)))"
proof -
  have g: "good (snd (add k s))" and r: "fst (add k s) = find (snd (add k s)) k" using assms add_good add_result by blast+
  have "k \<in> set (keys (snd (add k s)))" using add_keys [OF assms] by simp
  then show ?thesis using find_None [OF g] find_less [OF g] r by (metis not_None_eq)
qed

lemma add_keeps: "good s \<Longrightarrow> room s \<Longrightarrow> find s k' = Some e \<Longrightarrow> find (snd (add k s)) k' = Some e"
  using add_good [of s k] add_keys [of s k] by (auto simp: find_iff nth_append)

lemma add_new: "good s \<Longrightarrow> room s \<Longrightarrow> k \<notin> set (keys s) \<Longrightarrow> fst (add k s) = Some (length (keys s))"
  using add_good [of s k] add_keys [of s k] add_result [of s k] by (simp add: find_iff)

end

lemma buckets_for_pow [simp]: "is_power_of_two (buckets_for n)"
proof -
  have "is_power_of_two 16" by (simp add: is_power_of_two.simps)
  then show ?thesis using next_pow2_pow [of "4 * n + 4"] by (simp add: buckets_for_def max_def)
qed

lemma buckets_for_ge: "4 * n + 4 \<le> buckets_for n"
  using next_pow2_ge [of "4 * n + 4"] by (simp add: buckets_for_def)

definition edge_index_ok :: "'v edge_index \<Rightarrow> bool" where
  "edge_index_ok x \<longleftrightarrow> table_ok hash_pair (ei_keys x) (ei_buckets x) (ei_mask x) \<and>
     length (ei_values x) = length (ei_keys x) \<and> buckets_for (length (ei_keys x)) \<le> length (ei_buckets x)"

definition edge_index_room :: "'v edge_index \<Rightarrow> bool" where
  "edge_index_room x \<longleftrightarrow> Suc (length (ei_keys x)) < EMPTY_ENTRY"

definition interner_ok :: "str_interner \<Rightarrow> bool" where
  "interner_ok x \<longleftrightarrow> table_ok str_hash (si_names x) (si_buckets x) (si_mask x) \<and>
     length (si_names x) \<le> si_cap x \<and> si_cap x < EMPTY_ENTRY \<and> buckets_for (si_cap x) \<le> length (si_buckets x)"

lemma edge_index_sparse: "edge_index_ok x \<Longrightarrow> length (ei_keys x) < length (ei_buckets x)"
  using buckets_for_ge [of "length (ei_keys x)"] by (simp add: edge_index_ok_def)

lemma interner_sparse: "interner_ok x \<Longrightarrow> length (si_names x) < length (si_buckets x)"
  using buckets_for_ge [of "si_cap x"] by (simp add: interner_ok_def)

lemma edge_index_new_ok: "edge_index_ok (edge_index_with_capacity n)"
proof -
  have "buckets_for 0 = 16" by code_simp
  then have "buckets_for 0 \<le> buckets_for n" by (simp add: buckets_for_def)
  then show ?thesis using table_fresh [of "buckets_for n" hash_pair] by (simp add: edge_index_ok_def edge_index_with_capacity_def)
qed

lemma interner_new_ok: "cap < EMPTY_ENTRY \<Longrightarrow> interner_ok (interner_with_cap cap)"
  using table_fresh [of "buckets_for cap" str_hash] by (simp add: interner_ok_def interner_with_cap_def)

lemma edge_find_iff: "edge_index_ok x \<Longrightarrow> edge_find x k = Some e \<longleftrightarrow> e < length (ei_keys x) \<and> ei_keys x ! e = k"
  using bucket_find_correct(2) edge_index_sparse by (fastforce simp: edge_find_def edge_index_ok_def)

lemma edge_find_None: "edge_index_ok x \<Longrightarrow> edge_find x k = None \<longleftrightarrow> k \<notin> set (ei_keys x)"
  by (metis edge_find_iff in_set_conv_nth not_None_eq)

lemma edge_insert_known:
  assumes "edge_index_ok x" "edge_find x k = Some e"
  shows "edge_insert k v x = (e, x\<lparr>ei_values := (ei_values x)[e := v]\<rparr>)" "edge_index_ok (snd (edge_insert k v x))"
  using assms by (simp_all add: edge_insert_def edge_index_ok_def)

lemma edge_rehash_ok:
  assumes "distinct (ei_keys x)" "length (ei_keys x) < EMPTY_ENTRY" "length (ei_values x) = length (ei_keys x)"
  shows "edge_index_ok (edge_rehash x)"
proof -
  let ?n = "buckets_for (length (ei_keys x))"
  have "table_ok hash_pair ([] @ ei_keys x) (place_all hash_pair (length ([] :: (name \<times> name) list)) (ei_keys x) (replicate ?n bucket_empty) (?n - 1)) (?n - 1) \<and>
      length (place_all hash_pair (length ([] :: (name \<times> name) list)) (ei_keys x) (replicate ?n bucket_empty) (?n - 1)) = length (replicate ?n bucket_empty)"
    using assms buckets_for_ge [of "length (ei_keys x)"] by (intro place_all_ok table_fresh) simp_all
  then show ?thesis using assms by (simp add: edge_index_ok_def edge_rehash_def Let_def)
qed

lemma edge_insert_new:
  assumes x: "edge_index_ok x" and k: "edge_find x k = None" and room: "edge_index_room x"
  shows "fst (edge_insert k v x) = length (ei_keys x)" "edge_index_ok (snd (edge_insert k v x))"
    "ei_keys (snd (edge_insert k v x)) = ei_keys x @ [k]" "ei_values (snd (edge_insert k v x)) = ei_values x @ [v]"
proof -
  let ?e = "length (ei_keys x)"
  let ?x = "x\<lparr>ei_keys := ei_keys x @ [k], ei_values := ei_values x @ [v]\<rparr>"
  have k': "k \<notin> set (ei_keys x)" using edge_find_None [OF x] k by simp
  have t: "table_ok hash_pair (ei_keys x) (ei_buckets x) (ei_mask x)" "length (ei_values x) = ?e" "distinct (ei_keys x)"
    using x by (simp_all add: edge_index_ok_def table_ok_def)
  have r: "Suc ?e < EMPTY_ENTRY" using room by (simp add: edge_index_room_def)
  then have m: "?e mod 2 ^ 32 = ?e" using EMPTY_ENTRY_less by simp
  have "edge_insert k v x = (?e, if length (ei_buckets ?x) < buckets_for (length (ei_keys ?x)) then edge_rehash ?x
      else ?x\<lparr>ei_buckets := place (ei_buckets ?x) (ei_mask ?x) (hash_pair k) ?e\<rparr>)"
    using m by (simp add: edge_insert_def k Let_def)
  moreover have "edge_index_ok (edge_rehash ?x)" using t k' r by (intro edge_rehash_ok) simp_all
  moreover have "edge_index_ok (?x\<lparr>ei_buckets := place (ei_buckets ?x) (ei_mask ?x) (hash_pair k) ?e\<rparr>)"
    if "\<not> length (ei_buckets ?x) < buckets_for (length (ei_keys ?x))"
    using place_ok [OF t(1) edge_index_sparse [OF x] k' r] that t by (simp add: edge_index_ok_def)
  moreover have "ei_keys (edge_rehash ?x) = ei_keys x @ [k]" "ei_values (edge_rehash ?x) = ei_values x @ [v]"
    by (simp_all add: edge_rehash_def Let_def)
  ultimately show "fst (edge_insert k v x) = length (ei_keys x)" "edge_index_ok (snd (edge_insert k v x))"
    "ei_keys (snd (edge_insert k v x)) = ei_keys x @ [k]" "ei_values (snd (edge_insert k v x)) = ei_values x @ [v]"
    by simp_all
qed

lemma id_of_iff:
  assumes x: "interner_ok x"
  shows "id_of x s = Some e \<longleftrightarrow> e < length (si_names x) \<and> si_names x ! e = s"
proof -
  have "id_of x s = Some e \<longleftrightarrow> bucket_find str_hash (si_names x) (si_buckets x) (si_mask x) s = Some e \<and> e \<le> u32_max"
    by (auto simp: id_of_def split: option.splits if_splits)
  moreover have "table_ok str_hash (si_names x) (si_buckets x) (si_mask x)" "length (si_names x) \<le> u32_max"
    using x by (simp_all add: interner_ok_def EMPTY_ENTRY_def)
  ultimately show ?thesis using bucket_find_correct(2) [OF _ interner_sparse [OF x]] by auto
qed

lemma id_of_None: "interner_ok x \<Longrightarrow> id_of x s = None \<longleftrightarrow> s \<notin> set (si_names x)"
  by (metis id_of_iff in_set_conv_nth not_None_eq)

lemma intern_key_ok:
  assumes x: "interner_ok x"
  shows "interner_ok (snd (intern_key s x))" "si_cap (snd (intern_key s x)) = si_cap x"
    "si_names (snd (intern_key s x)) = (if s \<in> set (si_names x) \<or> si_cap x \<le> length (si_names x) then si_names x else si_names x @ [s])"
proof -
  have small: "length (si_names x) \<le> u32_max" using x by (simp add: interner_ok_def EMPTY_ENTRY_def)
  have eq: "intern_key s x = (if s \<in> set (si_names x) then (id_of x s, x) else if si_cap x \<le> length (si_names x) then (None, x)
      else (Some (length (si_names x)), x\<lparr>si_names := si_names x @ [s],
        si_buckets := place (si_buckets x) (si_mask x) (str_hash s) (length (si_names x))\<rparr>))"
    using id_of_None [OF x, of s] small by (auto simp: intern_key_def Let_def split: option.splits)
  have "s \<notin> set (si_names x) \<Longrightarrow> length (si_names x) < si_cap x \<Longrightarrow> interner_ok (x\<lparr>si_names := si_names x @ [s],
      si_buckets := place (si_buckets x) (si_mask x) (str_hash s) (length (si_names x))\<rparr>)"
    using x place_ok [of str_hash "si_names x" "si_buckets x" "si_mask x" s] interner_sparse [OF x] by (simp add: interner_ok_def)
  then show "interner_ok (snd (intern_key s x))" using x by (auto simp: eq)
  show "si_cap (snd (intern_key s x)) = si_cap x"
    "si_names (snd (intern_key s x)) = (if s \<in> set (si_names x) \<or> si_cap x \<le> length (si_names x) then si_names x else si_names x @ [s])"
    by (auto simp: eq)
qed

lemma intern_key_result:
  assumes x: "interner_ok x"
  shows "fst (intern_key s x) = id_of (snd (intern_key s x)) s"
proof (cases "id_of x s")
  case (Some e)
  then show ?thesis by (simp add: intern_key_def)
next
  case None
  have small: "\<not> u32_max < length (si_names x)" using x by (simp add: interner_ok_def EMPTY_ENTRY_def)
  show ?thesis
  proof (cases "si_cap x \<le> length (si_names x)")
    case True
    then show ?thesis using None by (simp add: intern_key_def)
  next
    case False
    have "s \<notin> set (si_names x)" using id_of_None [OF x] None by simp
    then have "id_of (snd (intern_key s x)) s = Some (length (si_names x))"
      using id_of_iff [OF intern_key_ok(1) [OF x]] intern_key_ok(3) [OF x, of s] False by simp
    then show ?thesis using None False small by (simp add: intern_key_def Let_def)
  qed
qed

interpretation edges: growing_index edge_index_ok ei_keys edge_find edge_index_room "\<lambda>k x. map_prod Some id (edge_insert k v x)"
  for v :: 'v
proof unfold_locales
  fix x :: "'v edge_index" and k e
  assume x: "edge_index_ok x"
  show "edge_find x k = Some e \<longleftrightarrow> e < length (ei_keys x) \<and> ei_keys x ! e = k" using edge_find_iff [OF x] .
  show "distinct (ei_keys x)" using x by (simp add: edge_index_ok_def table_ok_def)
next
  fix x :: "'v edge_index" and k
  let ?y = "map_prod Some id (edge_insert k v x)"
  assume x: "edge_index_ok x"
  show good: "edge_index_ok (snd ?y)" if "edge_index_room x \<or> k \<in> set (ei_keys x)"
  proof (cases "edge_find x k")
    case None
    then have "edge_index_room x" using that edge_find_None [OF x] by simp
    then show ?thesis using edge_insert_new(2) [OF x None] by simp
  next
    case (Some e)
    then show ?thesis using edge_insert_known(2) [OF x] by simp
  qed
  show "ei_keys (snd ?y) = (if k \<in> set (ei_keys x) then ei_keys x else ei_keys x @ [k])" if "edge_index_room x"
    using edge_insert_known(1) [OF x] edge_insert_new(3) [OF x _ that] edge_find_None [OF x, of k] by (cases "edge_find x k") auto
  show "ei_keys (snd ?y) = ei_keys x" if "k \<in> set (ei_keys x)"
    using edge_insert_known(1) [OF x] edge_find_None [OF x, of k] that by (cases "edge_find x k") auto
  show "fst ?y = edge_find (snd ?y) k" if r: "edge_index_room x \<or> k \<in> set (ei_keys x)"
  proof (cases "edge_find x k")
    case None
    then have "edge_index_room x" using r edge_find_None [OF x] by simp
    note new = edge_insert_new [OF x None this]
    then have "edge_find (snd ?y) k = Some (length (ei_keys x))" using edge_find_iff [OF good [OF r]] by simp
    then show ?thesis using new by simp
  next
    case (Some e)
    then have "edge_find (snd ?y) k = Some e"
      using edge_find_iff [OF good [OF r]] edge_insert_known(1) [OF x Some] edge_find_iff [OF x] by simp
    then show ?thesis using edge_insert_known(1) [OF x Some] by simp
  qed
qed

interpretation publishers: growing_index interner_ok si_names id_of "\<lambda>x. length (si_names x) < si_cap x" intern_key
proof unfold_locales
  show "distinct (si_names x)" if "interner_ok x" for x using that by (simp add: interner_ok_def table_ok_def)
qed (simp_all add: id_of_iff intern_key_ok intern_key_result)

end
