(* ===== verification/Bridge_Names.thy ===== *)
theory Bridge_Names
  imports Bridge_Index
begin

unbundle bit_operations_syntax

text \<open>
  The vocabulary of the ingest bridge: \<open>Sample\<close> and \<open>Publisher\<close> of \<open>tf_tree_bridge/src/lib.rs\<close>, the
  counters of \<open>stats.rs\<close>, and the frame-name normalizer of \<open>names.rs\<close>. Strings are their UTF-8 bytes. A
  component of a pose off the wire is an optional real: \<open>None\<close> stands for a value that is not finite.
\<close>

subsection \<open>Strings of the standard library\<close>

text \<open>The bytes of an ASCII literal.\<close>

definition utf8 :: "string \<Rightarrow> u8 list" where
  "utf8 s = map of_char s"

definition SLASH :: u8 where "SLASH = 0x2F"

text \<open>The characters \<open>str::trim\<close> removes (Unicode \<open>White_Space\<close>), encoded.\<close>

definition WHITESPACE :: "u8 list list" where
  "WHITESPACE = [[0x09], [0x0A], [0x0B], [0x0C], [0x0D], [0x20], [0xC2, 0x85], [0xC2, 0xA0], [0xE1, 0x9A, 0x80],
     [0xE2, 0x80, 0x80], [0xE2, 0x80, 0x81], [0xE2, 0x80, 0x82], [0xE2, 0x80, 0x83], [0xE2, 0x80, 0x84], [0xE2, 0x80, 0x85],
     [0xE2, 0x80, 0x86], [0xE2, 0x80, 0x87], [0xE2, 0x80, 0x88], [0xE2, 0x80, 0x89], [0xE2, 0x80, 0x8A],
     [0xE2, 0x80, 0xA8], [0xE2, 0x80, 0xA9], [0xE2, 0x80, 0xAF], [0xE2, 0x81, 0x9F], [0xE3, 0x80, 0x80]]"

function strip_any :: "u8 list list \<Rightarrow> u8 list \<Rightarrow> u8 list" where
  "strip_any ws s =
     (case find (\<lambda>w. w \<noteq> [] \<and> take (length w) s = w) ws of
        None \<Rightarrow> s
      | Some w \<Rightarrow> strip_any ws (drop (length w) s))"
  by pat_completeness auto
termination
proof (relation "measure (\<lambda>(ws, s). length s)")
  fix ws :: "u8 list list" and s w
  assume "find (\<lambda>w. w \<noteq> [] \<and> take (length w) s = w) ws = Some w"
  then have "w \<noteq> []" "take (length w) s = w" by (auto simp: find_Some_iff)
  then have "0 < length w" "length w \<le> length s" by (auto simp: take_all_iff dest: arg_cong [of _ _ length])
  then show "((ws, drop (length w) s), ws, s) \<in> measure (\<lambda>(ws, s). length s)" by (simp add: diff_less del: length_greater_0_conv)
qed simp

declare strip_any.simps [simp del]

definition trim_str :: "u8 list \<Rightarrow> u8 list" where
  "trim_str s = rev (strip_any (map rev WHITESPACE) (rev (strip_any WHITESPACE s)))"

definition trim_end_slashes :: "u8 list \<Rightarrow> u8 list" where
  "trim_end_slashes s = rev (dropWhile (\<lambda>c. c = SLASH) (rev s))"

subsection \<open>Publishers and samples\<close>

datatype bridge_publisher =
    GidPublisher name "name option"
  | TopicPublisher name
  | Unattributed
  | DeclaredPublisher

definition hex_digit :: "u8 \<Rightarrow> u8" where
  "hex_digit d = (if d < 10 then 0x30 + d else 0x61 + (d - 10))"

definition render_gid :: "u8 list \<Rightarrow> name" where
  "render_gid gid = utf8 ''<gid:'' @ concat (map (\<lambda>b. [hex_digit (drop_bit 4 b), hex_digit (b AND 15)]) gid) @ utf8 ''>''"

definition from_gid :: "u8 list \<Rightarrow> bridge_publisher" where
  "from_gid gid = GidPublisher (render_gid gid) None"

definition publisher_named :: "u8 list \<Rightarrow> name \<Rightarrow> bridge_publisher" where
  "publisher_named gid nm = GidPublisher (render_gid gid) (Some nm)"

fun set_name :: "name \<Rightarrow> bridge_publisher \<Rightarrow> bridge_publisher" where
  "set_name nm (GidPublisher i _) = GidPublisher i (Some nm)"
| "set_name nm p = p"

fun publisher_key :: "bridge_publisher \<Rightarrow> name" where
  "publisher_key (GidPublisher i _) = i"
| "publisher_key (TopicPublisher t) = t"
| "publisher_key Unattributed = utf8 ''<unattributed>''"
| "publisher_key DeclaredPublisher = utf8 ''<declared>''"

definition same_publisher :: "bridge_publisher \<Rightarrow> bridge_publisher \<Rightarrow> bool" where
  "same_publisher p q \<longleftrightarrow> publisher_key p = publisher_key q"

type_synonym wire_pose = "real option list"

definition STEADY_UNKNOWN :: int where "STEADY_UNKNOWN = 0"

record sample_msg =
  sm_frame_id :: name
  sm_child_frame_id :: name
  sm_stamp_nanos :: int
  sm_received :: int
  sm_pose :: wire_pose

definition sample_identity :: "name \<Rightarrow> name \<Rightarrow> int \<Rightarrow> sample_msg" where
  "sample_identity p c stamp = \<lparr>sm_frame_id = p, sm_child_frame_id = c, sm_stamp_nanos = stamp, sm_received = STEADY_UNKNOWN,
     sm_pose = map Some [1, 0, 0, 0, 0, 0, 0]\<rparr>"

definition received_at :: "int \<Rightarrow> sample_msg \<Rightarrow> sample_msg" where
  "received_at r s = s\<lparr>sm_received := r\<rparr>"

definition sample_edge :: "sample_msg \<Rightarrow> name \<times> name" where
  "sample_edge s = (sm_frame_id s, sm_child_frame_id s)"

subsection \<open>Counters\<close>

record bridge_stats =
  bs_messages :: nat
  bs_transforms :: nat
  bs_applied :: nat
  bs_static_verified :: nat
  bs_dropped_authority :: nat
  bs_dropped_non_monotonic :: nat
  bs_dropped_bad_name :: nat
  bs_dropped_kind_change :: nat
  bs_dropped_undeclared :: nat
  bs_clock_resets :: nat
  bs_static_conflicts :: nat
  bs_queue_high_water :: nat
  bs_queue_capacity :: nat

definition bridge_stats_default :: bridge_stats where
  "bridge_stats_default = \<lparr>bs_messages = 0, bs_transforms = 0, bs_applied = 0, bs_static_verified = 0,
     bs_dropped_authority = 0, bs_dropped_non_monotonic = 0, bs_dropped_bad_name = 0, bs_dropped_kind_change = 0,
     bs_dropped_undeclared = 0, bs_clock_resets = 0, bs_static_conflicts = 0, bs_queue_high_water = 0, bs_queue_capacity = 0\<rparr>"

definition balanced :: "bridge_stats \<Rightarrow> bool" where
  "balanced s \<longleftrightarrow>
     bs_applied s + bs_static_verified s + bs_dropped_authority s + bs_dropped_non_monotonic s + bs_dropped_bad_name s +
       bs_dropped_kind_change s + bs_dropped_undeclared s = bs_transforms s"

definition queue_saturated :: "bridge_stats \<Rightarrow> bool" where
  "queue_saturated s \<longleftrightarrow> 0 < bs_queue_capacity s \<and> bs_queue_capacity s \<le> bs_queue_high_water s"

subsection \<open>Frame-name normalization\<close>

datatype name_error = NameEmpty

record normalized =
  nz_name :: name
  nz_stripped_slash :: bool
  nz_prefixed :: bool
  nz_first_sight :: bool

definition MAX_TRACKED_NAMES :: nat where "MAX_TRACKED_NAMES = 8192"

record name_normalizer =
  nn_prefix :: "name option"
  nn_seen :: "name set"
  nn_remaps :: "(name \<times> name) list"
  nn_stripped :: nat

definition normalizer_new :: name_normalizer where
  "normalizer_new = \<lparr>nn_prefix = None, nn_seen = {}, nn_remaps = [], nn_stripped = 0\<rparr>"

definition normalizer_with_prefix :: "name \<Rightarrow> name_normalizer" where
  "normalizer_with_prefix prefix =
     (let p = trim_end_slashes (trim_str prefix)
      in normalizer_new\<lparr>nn_prefix := (if p = [] then None else Some p)\<rparr>)"

definition strip_slash :: "name \<Rightarrow> name \<times> bool" where
  "strip_slash raw = (case raw of c # rest \<Rightarrow> if c = SLASH then (rest, True) else (raw, False) | [] \<Rightarrow> (raw, False))"

definition normalize_name :: "name \<Rightarrow> name_normalizer \<Rightarrow> (name_error + normalized) \<times> name_normalizer" where
  "normalize_name raw nn =
     (if raw = [] then (Inl NameEmpty, nn)
      else (case strip_slash raw of (body, stripped_slash) \<Rightarrow>
        if body = [] then (Inl NameEmpty, nn)
        else
          (let nn1 = (if stripped_slash then nn\<lparr>nn_stripped := nn_stripped nn + 1\<rparr> else nn);
               (nm, prefixed) = (case nn_prefix nn1 of Some p \<Rightarrow> (p @ SLASH # body, True) | None \<Rightarrow> (body, False));
               first_sight = (\<not> (raw \<in> nn_seen nn1 \<or> MAX_TRACKED_NAMES \<le> card (nn_seen nn1)));
               nn2 = (if first_sight then nn1\<lparr>nn_seen := insert raw (nn_seen nn1)\<rparr> else nn1);
               nn3 = (if first_sight \<and> (stripped_slash \<or> prefixed) then nn2\<lparr>nn_remaps := nn_remaps nn2 @ [(raw, nm)]\<rparr> else nn2)
           in (Inr \<lparr>nz_name = nm, nz_stripped_slash = stripped_slash, nz_prefixed = prefixed, nz_first_sight = first_sight\<rparr>, nn3))))"

definition note_stripped :: "nat \<Rightarrow> name_normalizer \<Rightarrow> name_normalizer" where
  "note_stripped n nn = nn\<lparr>nn_stripped := nn_stripped nn + n\<rparr>"

text \<open>What a name becomes depends on the prefix alone, and two spellings become one name exactly when they
  differ by a leading slash.\<close>

definition wire_name :: "name option \<Rightarrow> name \<Rightarrow> name option" where
  "wire_name p raw = (case fst (strip_slash raw) of [] \<Rightarrow> None | body \<Rightarrow> Some (case p of Some q \<Rightarrow> q @ SLASH # body | None \<Rightarrow> body))"

lemma normalize_result: "map_sum (\<lambda>_. ()) nz_name (fst (normalize_name raw nn)) = (case wire_name (nn_prefix nn) raw of None \<Rightarrow> Inl () | Some n \<Rightarrow> Inr n)"
  by (auto simp: normalize_name_def wire_name_def strip_slash_def Let_def split: list.splits option.splits)

lemma normalize_Inr: "fst (normalize_name raw nn) = Inr n \<Longrightarrow> wire_name (nn_prefix nn) raw = Some (nz_name n)"
  using normalize_result [of raw nn] by (simp split: option.splits)

lemma normalize_Inl: "fst (normalize_name raw nn) = Inl e \<longleftrightarrow> wire_name (nn_prefix nn) raw = None"
proof -
  have "d = e" for d :: name_error by (cases d; cases e) simp
  then show ?thesis using normalize_result [of raw nn] by (cases "fst (normalize_name raw nn)") (auto split: option.splits)
qed

lemma normalize_prefix [simp]: "nn_prefix (snd (normalize_name raw nn)) = nn_prefix nn"
  by (auto simp: normalize_name_def Let_def split: prod.splits option.splits)

lemma note_stripped_prefix [simp]: "nn_prefix (note_stripped n nn) = nn_prefix nn"
  by (simp add: note_stripped_def)

lemma wire_name_eq:
  "wire_name p a = Some n \<Longrightarrow> wire_name p b = Some n \<longleftrightarrow> fst (strip_slash a) = fst (strip_slash b)"
  by (cases "fst (strip_slash a)"; cases "fst (strip_slash b)"; cases p) (auto simp: wire_name_def)

text \<open>The warn-once set is bounded, and every remap is of a name in it.\<close>

definition normalizer_ok :: "name_normalizer \<Rightarrow> bool" where
  "normalizer_ok nn \<longleftrightarrow> finite (nn_seen nn) \<and> card (nn_seen nn) \<le> MAX_TRACKED_NAMES \<and>
     distinct (map fst (nn_remaps nn)) \<and> fst ` set (nn_remaps nn) \<subseteq> nn_seen nn \<and>
     (\<forall>(raw, nm) \<in> set (nn_remaps nn). wire_name (nn_prefix nn) raw = Some nm)"

lemma normalizer_new_ok: "normalizer_ok normalizer_new" "normalizer_ok (normalizer_with_prefix p)"
  by (simp_all add: normalizer_ok_def normalizer_new_def normalizer_with_prefix_def Let_def)

lemma note_stripped_ok: "normalizer_ok nn \<Longrightarrow> normalizer_ok (note_stripped n nn)"
  by (simp add: normalizer_ok_def note_stripped_def)

lemma normalize_state:
  obtains (same) "snd (normalize_name raw nn) = nn"
  | (name) n :: normalized where "wire_name (nn_prefix nn) raw = Some (nz_name n)"
      "snd (normalize_name raw nn) = (if raw \<notin> nn_seen nn \<and> card (nn_seen nn) < MAX_TRACKED_NAMES
        then nn\<lparr>nn_seen := insert raw (nn_seen nn), nn_remaps := nn_remaps nn @ (if nz_stripped_slash n \<or> nz_prefixed n then [(raw, nz_name n)] else []),
          nn_stripped := nn_stripped nn + of_bool (nz_stripped_slash n)\<rparr>
        else nn\<lparr>nn_stripped := nn_stripped nn + of_bool (nz_stripped_slash n)\<rparr>)"
proof (cases "fst (normalize_name raw nn)")
  case (Inl e)
  then have "snd (normalize_name raw nn) = nn" by (auto simp: normalize_name_def Let_def split: prod.splits option.splits if_splits)
  then show thesis by (rule same)
next
  case (Inr n)
  then have "wire_name (nn_prefix nn) raw = Some (nz_name n)" by (rule normalize_Inr)
  then show thesis
    by (rule name [of n]) (use Inr in \<open>auto simp: normalize_name_def Let_def not_le split: prod.splits option.splits if_splits\<close>)
qed

lemma normalize_ok:
  assumes "normalizer_ok nn"
  shows "normalizer_ok (snd (normalize_name raw nn))"
proof (cases rule: normalize_state [of raw nn])
  case same
  then show ?thesis using assms by simp
next
  case (name n)
  show ?thesis unfolding name(2) using assms name(1) by (auto simp: normalizer_ok_def)
qed

end
