(* ===== verification/Bridge_Clock.thy ===== *)
theory Bridge_Clock
  imports Bridge_Names
begin

text \<open>
  Clock resets, \<open>tf_tree_bridge/src/clock.rs\<close>: the per-edge guard against stamps that run backwards, and the
  table of per-publisher offsets between stamp and receipt that tells one publisher's step from a step of
  the clock. Stamps and offsets are \<open>i64\<close> with the saturating arithmetic of the code.
\<close>

subsection \<open>Policies and verdicts\<close>

datatype on_clock_reset = ResetHalt | ResetRecreate

datatype clock_verdict =
    ClockForward
  | ClockJitter (cj_by: int)
  | ClockReset (cr_by: int) (cr_policy: on_clock_reset)

datatype jump_kind = ClockTypeChanged | JumpBackward | JumpForward

datatype clock_evidence =
    Reported jump_kind
  | CommonModeEvidence nat

definition DEFAULT_RESET_THRESHOLD_NANOS :: int where "DEFAULT_RESET_THRESHOLD_NANOS = 100000000"
definition MAX_TRACKED_PUBLISHERS :: nat where "MAX_TRACKED_PUBLISHERS = 64"
definition BASELINE_DIVISOR :: int where "BASELINE_DIVISOR = 8"

record clock_policy =
  cp_reset_threshold :: int
  cp_correlation_window :: int
  cp_tolerance_ratio :: real
  cp_tolerance_floor :: int
  cp_on_reset :: on_clock_reset

definition clock_policy_default :: clock_policy where
  "clock_policy_default = \<lparr>cp_reset_threshold = DEFAULT_RESET_THRESHOLD_NANOS, cp_correlation_window = 1000000000,
     cp_tolerance_ratio = 1 / 4, cp_tolerance_floor = 50000000, cp_on_reset = ResetHalt\<rparr>"

subsection \<open>\<open>ClockGuard\<close>\<close>

record clock_guard =
  cg_newest :: "int option"
  cg_threshold :: int
  cg_policy :: on_clock_reset
  cg_jitter_drops :: nat
  cg_resets :: nat

definition guard_with_threshold :: "on_clock_reset \<Rightarrow> int \<Rightarrow> clock_guard" where
  "guard_with_threshold policy threshold =
     \<lparr>cg_newest = None, cg_threshold = max threshold 0, cg_policy = policy, cg_jitter_drops = 0, cg_resets = 0\<rparr>"

definition clock_guard_new :: "on_clock_reset \<Rightarrow> clock_guard" where
  "clock_guard_new policy = guard_with_threshold policy DEFAULT_RESET_THRESHOLD_NANOS"

definition guard_observe :: "int \<Rightarrow> clock_guard \<Rightarrow> clock_verdict \<times> clock_guard" where
  "guard_observe stamp g =
     (case cg_newest g of
        None \<Rightarrow> (ClockForward, g\<lparr>cg_newest := Some stamp\<rparr>)
      | Some newest \<Rightarrow>
          if stamp \<ge> newest then (ClockForward, g\<lparr>cg_newest := Some stamp\<rparr>)
          else (let by_nanos = sat_i64 (newest - stamp)
                in if by_nanos < cg_threshold g then (ClockJitter by_nanos, g\<lparr>cg_jitter_drops := cg_jitter_drops g + 1\<rparr>)
                   else (ClockReset by_nanos (cg_policy g), g\<lparr>cg_resets := cg_resets g + 1\<rparr>)))"

definition accept_reset :: "int \<Rightarrow> clock_guard \<Rightarrow> clock_guard" where
  "accept_reset stamp g = g\<lparr>cg_newest := Some stamp\<rparr>"

definition guard_forget :: "clock_guard \<Rightarrow> clock_guard" where
  "guard_forget g = g\<lparr>cg_newest := None\<rparr>"

lemma guard_observe_cases:
  obtains (forward) "guard_observe stamp g = (ClockForward, g\<lparr>cg_newest := Some stamp\<rparr>)"
      "\<forall>n. cg_newest g = Some n \<longrightarrow> n \<le> stamp"
  | (behind) v g' n where "guard_observe stamp g = (v, g')" "v \<noteq> ClockForward" "cg_newest g = Some n" "stamp < n"
      "cg_newest g' = Some n" "cg_policy g' = cg_policy g" "cg_threshold g' = cg_threshold g"
  by (cases "cg_newest g") (force simp: guard_observe_def Let_def not_le split: if_splits)+

subsection \<open>\<open>OffsetTable\<close>\<close>

record offset_row =
  of_baseline :: int
  of_stepped_at :: "int option"
  of_step_delta :: int

record common_mode =
  cm_delta_nanos :: int
  cm_publishers :: nat

record offset_table =
  ot_ids :: str_interner
  ot_rows :: "offset_row option list"
  ot_policy :: clock_policy
  ot_steps :: nat
  ot_common_modes :: nat

definition offset_table_new :: "clock_policy \<Rightarrow> offset_table" where
  "offset_table_new policy = \<lparr>ot_ids = interner_with_cap MAX_TRACKED_PUBLISHERS, ot_rows = [], ot_policy = policy,
     ot_steps = 0, ot_common_modes = 0\<rparr>"

text \<open>\<open>as i64\<close> of a float truncates towards zero and saturates, the division of \<open>i64\<close> truncates.\<close>

definition trunc_i64 :: "real \<Rightarrow> int" where
  "trunc_i64 x = sat_i64 (if x < 0 then \<lceil>x\<rceil> else \<lfloor>x\<rfloor>)"

definition div_i64 :: "int \<Rightarrow> int \<Rightarrow> int" where
  "div_i64 a b = (if a < 0 then - (- a div b) else a div b)"

definition step_tolerance :: "clock_policy \<Rightarrow> int \<Rightarrow> int \<Rightarrow> int" where
  "step_tolerance policy a b =
     (let scale = max (sat_i64 \<bar>a\<bar>) (sat_i64 \<bar>b\<bar>);
          scaled = trunc_i64 (real_of_int scale * cp_tolerance_ratio policy)
      in max scaled (max (cp_tolerance_floor policy) 0))"

text \<open>Whether another row corroborates a step of size \<open>delta\<close> received now.\<close>

definition corroborates :: "clock_policy \<Rightarrow> int \<Rightarrow> int \<Rightarrow> offset_row option \<Rightarrow> bool" where
  "corroborates policy delta received row =
     (case row of
        None \<Rightarrow> False
      | Some other \<Rightarrow> (case of_stepped_at other of
          None \<Rightarrow> False
        | Some since \<Rightarrow>
            (let age = sat_i64 (received - since)
             in \<not> (age < 0 \<or> cp_correlation_window policy < age) \<and>
                sat_i64 \<bar>sat_i64 (delta - of_step_delta other)\<bar> \<le> step_tolerance policy delta (of_step_delta other))))"

fun count_steps :: "clock_policy \<Rightarrow> nat \<Rightarrow> int \<Rightarrow> int \<Rightarrow> nat \<Rightarrow> offset_row option list \<Rightarrow> nat \<Rightarrow> nat" where
  "count_steps policy me delta received i [] n = n"
| "count_steps policy me delta received i (row # rows) n =
     count_steps policy me delta received (i + 1) rows
       (if i \<noteq> me \<and> corroborates policy delta received row then sat_u32 (n + 1) else n)"

definition resize :: "nat \<Rightarrow> 'a \<Rightarrow> 'a list \<Rightarrow> 'a list" where
  "resize n x xs = take n xs @ replicate (n - length xs) x"

definition offset_observe :: "name \<Rightarrow> int \<Rightarrow> int \<Rightarrow> offset_table \<Rightarrow> common_mode option \<times> offset_table" where
  "offset_observe owner stamp received t =
     (if received = STEADY_UNKNOWN then (None, t)
      else
        (let offset = sat_i64 (stamp - received);
             (found, ids) = intern_key owner (ot_ids t);
             t1 = t\<lparr>ot_ids := ids\<rparr>
         in case found of
              None \<Rightarrow> (None, t1)
            | Some me \<Rightarrow>
                (let rows = (if length (ot_rows t1) \<le> me then resize (me + 1) None (ot_rows t1) else ot_rows t1)
                 in case rows ! me of
                      None \<Rightarrow> (None, t1\<lparr>ot_rows := rows[me := Some \<lparr>of_baseline = offset, of_stepped_at = None, of_step_delta = 0\<rparr>]\<rparr>)
                    | Some row \<Rightarrow>
                        (let residual = sat_i64 (offset - of_baseline row)
                         in if sat_i64 \<bar>residual\<bar> \<le> cp_reset_threshold (ot_policy t1)
                            then (None, t1\<lparr>ot_rows := rows[me := Some (row\<lparr>of_baseline := sat_i64 (of_baseline row + div_i64 residual (max BASELINE_DIVISOR 1))\<rparr>)]\<rparr>)
                            else
                              (let rows2 = rows[me := Some \<lparr>of_baseline = offset, of_stepped_at = Some received, of_step_delta = residual\<rparr>];
                                   t2 = t1\<lparr>ot_rows := rows2, ot_steps := ot_steps t1 + 1\<rparr>;
                                   publishers = count_steps (ot_policy t1) me residual received 0 rows2 1
                               in if publishers < 2 then (None, t2)
                                  else (Some \<lparr>cm_delta_nanos = residual, cm_publishers = publishers\<rparr>,
                                        t2\<lparr>ot_common_modes := ot_common_modes t2 + 1\<rparr>))))))"

definition offset_clear :: "offset_table \<Rightarrow> offset_table" where
  "offset_clear t = t\<lparr>ot_rows := map (\<lambda>_. None) (ot_rows t)\<rparr>"

definition offset_tracked :: "offset_table \<Rightarrow> nat" where
  "offset_tracked t = length (filter (\<lambda>r. r \<noteq> None) (ot_rows t))"

subsection \<open>The table under its invariant\<close>

definition offsets_ok :: "offset_table \<Rightarrow> bool" where
  "offsets_ok t \<longleftrightarrow> interner_ok (ot_ids t) \<and> si_cap (ot_ids t) = MAX_TRACKED_PUBLISHERS \<and>
     length (ot_rows t) \<le> length (si_names (ot_ids t))"

text \<open>The row of a publisher, by its key.\<close>

definition row_of :: "offset_table \<Rightarrow> name \<Rightarrow> offset_row option" where
  "row_of t k = (case id_of (ot_ids t) k of
     Some i \<Rightarrow> if i < length (ot_rows t) then ot_rows t ! i else None | None \<Rightarrow> None)"

lemma offset_table_new_ok: "offsets_ok (offset_table_new p)"
proof -
  have "interner_ok (interner_with_cap MAX_TRACKED_PUBLISHERS)"
    by (rule interner_new_ok) (simp add: MAX_TRACKED_PUBLISHERS_def EMPTY_ENTRY_def u32_max_def)
  then show ?thesis by (simp add: offsets_ok_def offset_table_new_def interner_with_cap_def)
qed

lemma offset_clear_ok: "offsets_ok t \<Longrightarrow> offsets_ok (offset_clear t)"
  by (simp add: offsets_ok_def offset_clear_def)

lemma row_of_clear: "row_of (offset_clear t) k = None"
  by (simp add: row_of_def offset_clear_def split: option.splits)

lemma length_resize: "length xs \<le> n \<Longrightarrow> length (resize n x xs) = n"
  by (simp add: resize_def)

lemma resize_nth: "length xs \<le> n \<Longrightarrow> i < n \<Longrightarrow> resize n x xs ! i = (if i < length xs then xs ! i else x)"
  by (simp add: resize_def nth_append)

lemma count_steps_le:
  "n + length rows \<le> u32_max \<Longrightarrow>
   count_steps p me d r i rows n = n + card {j. j < length rows \<and> i + j \<noteq> me \<and> corroborates p d r (rows ! j)}"
proof (induction rows arbitrary: i n)
  case Nil
  then show ?case by simp
next
  case (Cons row rows)
  let ?C = "{j. j < length rows \<and> Suc i + j \<noteq> me \<and> corroborates p d r (rows ! j)}"
  have split: "{j. j < length (row # rows) \<and> i + j \<noteq> me \<and> corroborates p d r ((row # rows) ! j)} =
      (if i \<noteq> me \<and> corroborates p d r row then {0} else {}) \<union> Suc ` ?C"
    by (auto simp: image_iff less_Suc_eq_0_disj split: if_splits)
  have "card (Suc ` ?C) = card ?C" by (simp add: card_image)
  then have "card {j. j < length (row # rows) \<and> i + j \<noteq> me \<and> corroborates p d r ((row # rows) ! j)} =
      (if i \<noteq> me \<and> corroborates p d r row then 1 else 0) + card ?C"
    unfolding split by (subst card_Un_disjoint) auto
  moreover have "sat_u32 (n + 1) = n + 1" using Cons.prems by (simp add: sat_u32_def u32_max_def)
  ultimately show ?case using Cons.IH [of n "Suc i"] Cons.IH [of "n + 1" "Suc i"] Cons.prems by simp
qed

text \<open>The publishers whose last step corroborates a step of \<open>me\<close>.\<close>

definition corroborators :: "offset_table \<Rightarrow> name \<Rightarrow> int \<Rightarrow> int \<Rightarrow> name set" where
  "corroborators t me delta received = {k. k \<noteq> me \<and> corroborates (ot_policy t) delta received (row_of t k)}"

lemma corroborators_card:
  assumes t: "offsets_ok t" and me: "id_of (ot_ids t) k = Some i"
  shows "card {j. j < length (ot_rows t) \<and> j \<noteq> i \<and> corroborates (ot_policy t) d r (ot_rows t ! j)} = card (corroborators t k d r)"
    "finite (corroborators t k d r)"
proof -
  have ids: "interner_ok (ot_ids t)" "length (ot_rows t) \<le> length (si_names (ot_ids t))" using t by (simp_all add: offsets_ok_def)
  let ?J = "{j. j < length (ot_rows t) \<and> j \<noteq> i \<and> corroborates (ot_policy t) d r (ot_rows t ! j)}"
  let ?name = "\<lambda>j. si_names (ot_ids t) ! j"
  have id: "id_of (ot_ids t) (?name j) = Some j" if "j < length (ot_rows t)" for j
    using that publishers.find_key [OF ids(1)] ids(2) by simp
  have none: "\<not> corroborates (ot_policy t) d r None" by (simp add: corroborates_def)
  have "corroborators t k d r = ?name ` ?J"
  proof (intro set_eqI iffI)
    fix x assume "x \<in> corroborators t k d r"
    then obtain j where j: "id_of (ot_ids t) x = Some j" "j < length (ot_rows t)" "corroborates (ot_policy t) d r (ot_rows t ! j)" "x \<noteq> k"
      using none by (auto simp: corroborators_def row_of_def split: option.splits if_splits)
    then have "x = ?name j" "j \<noteq> i" using me id_of_iff [OF ids(1)] by auto
    then show "x \<in> ?name ` ?J" using j by blast
  next
    fix x assume "x \<in> ?name ` ?J"
    then obtain j where j: "j < length (ot_rows t)" "j \<noteq> i" "corroborates (ot_policy t) d r (ot_rows t ! j)" "x = ?name j" by blast
    then show "x \<in> corroborators t k d r" using me id [of j] by (auto simp: corroborators_def row_of_def)
  qed
  moreover have "inj_on ?name ?J" using id by (intro inj_onI) (metis (mono_tags, lifting) mem_Collect_eq option.inject)
  moreover have "finite ?J" by simp
  ultimately show "card ?J = card (corroborators t k d r)" "finite (corroborators t k d r)" by (simp_all add: card_image)
qed

text \<open>The size of the step a sample makes against the baseline of its publisher.\<close>

definition step_size :: "int \<Rightarrow> int \<Rightarrow> offset_row \<Rightarrow> int" where
  "step_size stamp received row = sat_i64 (sat_i64 (stamp - received) - of_baseline row)"

definition baseline_row :: "int \<Rightarrow> offset_row" where
  "baseline_row base = \<lparr>of_baseline = base, of_stepped_at = None, of_step_delta = 0\<rparr>"

definition next_row :: "clock_policy \<Rightarrow> int \<Rightarrow> int \<Rightarrow> offset_row \<Rightarrow> offset_row" where
  "next_row policy stamp received row =
     (let d = step_size stamp received row
      in if sat_i64 \<bar>d\<bar> \<le> cp_reset_threshold policy then row\<lparr>of_baseline := sat_i64 (of_baseline row + div_i64 d (max BASELINE_DIVISOR 1))\<rparr>
         else \<lparr>of_baseline = sat_i64 (stamp - received), of_stepped_at = Some received, of_step_delta = d\<rparr>)"

lemma row_of_cong: "ot_ids a = ot_ids b \<Longrightarrow> ot_rows a = ot_rows b \<Longrightarrow> row_of a = row_of b"
  by (intro ext) (simp add: row_of_def split: option.split)

lemma row_of_update:
  assumes "interner_ok (ot_ids t)" "id_of (ot_ids t) k = Some i" "i < length (ot_rows t)"
  shows "row_of (t\<lparr>ot_rows := (ot_rows t)[i := r]\<rparr>) = (row_of t)(k := r)"
proof
  fix x
  show "row_of (t\<lparr>ot_rows := (ot_rows t)[i := r]\<rparr>) x = ((row_of t)(k := r)) x"
  proof (cases "x = k")
    case True
    then show ?thesis using assms(2,3) by (simp add: row_of_def)
  next
    case False
    then have "id_of (ot_ids t) x \<noteq> Some i" using publishers.find_inj [OF assms(1) assms(2)] by blast
    then show ?thesis using False by (cases "id_of (ot_ids t) x") (simp_all add: row_of_def)
  qed
qed

lemma offset_observe_known:
  fixes stamp received :: int
  assumes t: "offsets_ok t" and r: "received \<noteq> STEADY_UNKNOWN" and row: "row_of t k = Some row"
  defines "d \<equiv> step_size stamp received row"
  shows "fst (offset_observe k stamp received t) =
      (if sat_i64 \<bar>d\<bar> \<le> cp_reset_threshold (ot_policy t) \<or> corroborators t k d received = {} then None
       else Some \<lparr>cm_delta_nanos = d, cm_publishers = 1 + card (corroborators t k d received)\<rparr>)"
    "row_of (snd (offset_observe k stamp received t)) = (row_of t)(k \<mapsto> next_row (ot_policy t) stamp received row)"
    "offsets_ok (snd (offset_observe k stamp received t))" "ot_policy (snd (offset_observe k stamp received t)) = ot_policy t"
proof -
  obtain i where i: "id_of (ot_ids t) k = Some i" "i < length (ot_rows t)" "ot_rows t ! i = Some row"
    using row by (auto simp: row_of_def split: option.splits if_splits)
  have ids: "interner_ok (ot_ids t)" using t by (simp add: offsets_ok_def)
  have ik: "intern_key k (ot_ids t) = (Some i, ot_ids t)" using i(1) by (simp add: intern_key_def)
  let ?rows = "(ot_rows t)[i := Some \<lparr>of_baseline = sat_i64 (stamp - received), of_stepped_at = Some received, of_step_delta = d\<rparr>]"
  let ?J = "{j. j < length (ot_rows t) \<and> j \<noteq> i \<and> corroborates (ot_policy t) d received (ot_rows t ! j)}"
  have "length (ot_rows t) \<le> MAX_TRACKED_PUBLISHERS" using t by (auto simp: offsets_ok_def interner_ok_def)
  then have "count_steps (ot_policy t) i d received 0 ?rows 1 =
      1 + card {j. j < length ?rows \<and> 0 + j \<noteq> i \<and> corroborates (ot_policy t) d received (?rows ! j)}"
    by (intro count_steps_le) (simp add: u32_max_def MAX_TRACKED_PUBLISHERS_def)
  also have "{j. j < length ?rows \<and> 0 + j \<noteq> i \<and> corroborates (ot_policy t) d received (?rows ! j)} = ?J" by auto
  finally have n: "count_steps (ot_policy t) i d received 0 ?rows 1 = 1 + card (corroborators t k d received)"
    using corroborators_card(1) [OF t i(1)] by simp
  have e: "1 + card (corroborators t k d received) < 2 \<longleftrightarrow> corroborators t k d received = {}"
    using corroborators_card(2) [OF t i(1)] by (auto simp: card_eq_0_iff)
  show "fst (offset_observe k stamp received t) =
      (if sat_i64 \<bar>d\<bar> \<le> cp_reset_threshold (ot_policy t) \<or> corroborators t k d received = {} then None
       else Some \<lparr>cm_delta_nanos = d, cm_publishers = 1 + card (corroborators t k d received)\<rparr>)"
    using r i ik n e by (simp add: offset_observe_def Let_def step_size_def d_def)
  have t': "ot_rows (snd (offset_observe k stamp received t)) = (ot_rows t)[i := Some (next_row (ot_policy t) stamp received row)]"
    "ot_ids (snd (offset_observe k stamp received t)) = ot_ids t" "ot_policy (snd (offset_observe k stamp received t)) = ot_policy t"
    using r i ik by (auto simp: offset_observe_def Let_def next_row_def step_size_def)
  then show "ot_policy (snd (offset_observe k stamp received t)) = ot_policy t" "offsets_ok (snd (offset_observe k stamp received t))"
    using t by (simp_all add: offsets_ok_def)
  have "row_of (snd (offset_observe k stamp received t)) =
      row_of (t\<lparr>ot_rows := (ot_rows t)[i := Some (next_row (ot_policy t) stamp received row)]\<rparr>)"
    by (rule row_of_cong) (simp_all add: t')
  then show "row_of (snd (offset_observe k stamp received t)) = (row_of t)(k \<mapsto> next_row (ot_policy t) stamp received row)"
    using row_of_update [OF ids i(1,2)] by simp
qed

text \<open>Whether a publisher has, or can still get, a number.\<close>

definition can_track :: "offset_table \<Rightarrow> name \<Rightarrow> bool" where
  "can_track t k \<longleftrightarrow> k \<in> set (si_names (ot_ids t)) \<or> length (si_names (ot_ids t)) < MAX_TRACKED_PUBLISHERS"

lemma offset_observe_fresh:
  assumes t: "offsets_ok t" and r: "received \<noteq> STEADY_UNKNOWN" and row: "row_of t k = None"
  shows "fst (offset_observe k stamp received t) = None"
    "row_of (snd (offset_observe k stamp received t)) =
      (if can_track t k then (row_of t)(k \<mapsto> baseline_row (sat_i64 (stamp - received))) else row_of t)"
    "offsets_ok (snd (offset_observe k stamp received t))" "ot_policy (snd (offset_observe k stamp received t)) = ot_policy t"
proof -
  let ?ids = "snd (intern_key k (ot_ids t))" and ?found = "fst (intern_key k (ot_ids t))" and ?t = "snd (offset_observe k stamp received t)"
  let ?new = "Some (baseline_row (sat_i64 (stamp - received)))"
  have ids: "interner_ok (ot_ids t)" "si_cap (ot_ids t) = MAX_TRACKED_PUBLISHERS" "length (ot_rows t) \<le> length (si_names (ot_ids t))"
    using t by (simp_all add: offsets_ok_def)
  note ik = intern_key_ok [OF ids(1), of k] intern_key_result [OF ids(1), of k]
  have track: "can_track t k \<longleftrightarrow> ?found \<noteq> None"
    using ik(3,4) id_of_None [OF ik(1), of k] ids(2) by (auto simp: can_track_def split: if_splits)
  have result: "fst (offset_observe k stamp received t) = None \<and> ot_policy ?t = ot_policy t \<and> offsets_ok ?t \<and>
      row_of ?t = (if can_track t k then (row_of t)(k := ?new) else row_of t)"
  proof (cases ?found)
    case None
    then have same: "?ids = ot_ids t" by (auto simp: intern_key_def Let_def split: option.splits if_splits)
    then show ?thesis using None r t track by (cases "intern_key k (ot_ids t)") (auto simp: offset_observe_def Let_def)
  next
    case (Some i)
    then have i: "i < length (si_names ?ids)" "si_names ?ids ! i = k" "id_of ?ids k = Some i" using ik(4) id_of_iff [OF ik(1)] by auto
    have old: "id_of ?ids x = Some j \<longleftrightarrow> id_of (ot_ids t) x = Some j" if "j < length (ot_rows t)" for x j
      using that ids(3) ik(3) id_of_iff [OF ik(1)] id_of_iff [OF ids(1)] by (auto simp: nth_append)
    have none: "ot_rows t ! i = None" if "i < length (ot_rows t)"
      using row old [OF that, of k] i(3) that by (simp add: row_of_def)
    let ?rows = "if length (ot_rows t) \<le> i then resize (i + 1) None (ot_rows t) else ot_rows t"
    let ?u = "t\<lparr>ot_ids := ?ids, ot_rows := ?rows\<rparr>"
    have ri: "?rows ! i = None" "i < length ?rows" using none by (auto simp: resize_nth length_resize not_le)
    have t': "fst (offset_observe k stamp received t) = None" "?t = ?u\<lparr>ot_rows := (ot_rows ?u)[i := ?new]\<rparr>"
      using Some r ri by (cases "intern_key k (ot_ids t)"; force simp: offset_observe_def Let_def baseline_row_def)+
    have "row_of ?u x = row_of t x" for x
    proof (cases "id_of ?ids x")
      case None
      then have "id_of (ot_ids t) x \<noteq> Some j" if "j < length (ot_rows t)" for j using old [OF that, of x] by simp
      then show ?thesis using None by (auto simp: row_of_def split: option.splits)
    next
      case (Some j)
      then show ?thesis using old [of j x] old [of _ x] by (auto simp: row_of_def resize_nth length_resize split: option.splits)
    qed
    then have "row_of ?u = row_of t" ..
    moreover have "row_of ?t = (row_of ?u)(k := ?new)"
      unfolding t'(2) by (rule row_of_update) (use ik(1) i(3) ri in simp_all)
    moreover have "offsets_ok ?t" using ik(1,2) ids i(1) ri(2)
      by (auto simp: t'(2) offsets_ok_def length_resize ik(3))
    ultimately show ?thesis using t' track Some by simp
  qed
  then show "fst (offset_observe k stamp received t) = None"
    "row_of ?t = (if can_track t k then (row_of t)(k \<mapsto> baseline_row (sat_i64 (stamp - received))) else row_of t)"
    "offsets_ok ?t" "ot_policy ?t = ot_policy t" by simp_all
qed

lemma offset_observe_ok:
  assumes t: "offsets_ok t"
  shows "offsets_ok (snd (offset_observe k stamp received t))" "ot_policy (snd (offset_observe k stamp received t)) = ot_policy t"
proof -
  have "offsets_ok (snd (offset_observe k stamp received t)) \<and> ot_policy (snd (offset_observe k stamp received t)) = ot_policy t"
  proof (cases "received = STEADY_UNKNOWN")
    case True
    then show ?thesis using t by (simp add: offset_observe_def)
  next
    case False
    then show ?thesis
      using offset_observe_fresh(3,4) [OF t False, of k stamp] offset_observe_known(3,4) [OF t False, of k _ stamp]
      by (cases "row_of t k") auto
  qed
  then show "offsets_ok (snd (offset_observe k stamp received t))" "ot_policy (snd (offset_observe k stamp received t)) = ot_policy t" by auto
qed

text \<open>The rule on a map from publishers to their baselines.\<close>

definition offset_spec :: "clock_policy \<Rightarrow> bool \<Rightarrow> name \<Rightarrow> int \<Rightarrow> int \<Rightarrow> (name \<Rightarrow> offset_row option) \<Rightarrow>
    common_mode option \<times> (name \<Rightarrow> offset_row option)" where
  "offset_spec policy room k stamp received rows =
     (if received = STEADY_UNKNOWN then (None, rows)
      else case rows k of
        None \<Rightarrow> (None, if room then rows(k \<mapsto> baseline_row (sat_i64 (stamp - received))) else rows)
      | Some row \<Rightarrow>
          (let d = step_size stamp received row; others = {q. q \<noteq> k \<and> corroborates policy d received (rows q)}
           in (if sat_i64 \<bar>d\<bar> \<le> cp_reset_threshold policy \<or> others = {} then None
               else Some \<lparr>cm_delta_nanos = d, cm_publishers = 1 + card others\<rparr>,
               rows(k \<mapsto> next_row policy stamp received row))))"

text \<open>C37: the common-mode rule. On the map from publishers to their baselines, a sample reports a step of the clock
  exactly when it has a receipt time, its publisher has a baseline, its offset moved by more than the threshold, and
  some other publisher's last step lies inside the correlation window and agrees in size; the verdict counts those
  publishers and itself, so it never rests on fewer than two. A new publisher only gets a baseline, and beyond 64
  publishers not even that.\<close>

theorem common_mode_rule:
  assumes "offsets_ok t"
  shows "offsets_ok (snd (offset_observe k stamp received t)) \<and>
    (fst (offset_observe k stamp received t), row_of (snd (offset_observe k stamp received t))) =
      offset_spec (ot_policy t) (can_track t k) k stamp received (row_of t)"
proof (cases "received = STEADY_UNKNOWN")
  case True
  then show ?thesis using assms by (simp add: offset_observe_def offset_spec_def)
next
  case False
  then show ?thesis
    using offset_observe_fresh [OF assms False, of k stamp] offset_observe_known [OF assms False, of k _ stamp]
    by (cases "row_of t k") (simp_all add: offset_spec_def Let_def corroborators_def)
qed

text \<open>Two publishers, one of which jumped ahead by ten seconds a millisecond ago.\<close>

definition two_publishers :: offset_table where
  "two_publishers = \<lparr>ot_ids = snd (intern_key [2] (snd (intern_key [1] (interner_with_cap MAX_TRACKED_PUBLISHERS)))),
     ot_rows = [Some \<lparr>of_baseline = 10000000000, of_stepped_at = Some 2000000, of_step_delta = 10000000000\<rparr>, Some (baseline_row 0)],
     ot_policy = clock_policy_default, ot_steps = 1, ot_common_modes = 0\<rparr>"

lemma two_publishers_ok: "offsets_ok two_publishers" "si_names (ot_ids two_publishers) = [[1], [2]]"
proof -
  let ?i = "interner_with_cap MAX_TRACKED_PUBLISHERS"
  have i: "interner_ok ?i"
    by (rule interner_new_ok) (simp add: MAX_TRACKED_PUBLISHERS_def EMPTY_ENTRY_def u32_max_def)
  have c: "si_names ?i = []" "si_cap ?i = MAX_TRACKED_PUBLISHERS" by (simp_all add: interner_with_cap_def)
  have m: "MAX_TRACKED_PUBLISHERS \<noteq> 0" "\<not> MAX_TRACKED_PUBLISHERS \<le> Suc 0" by (simp_all add: MAX_TRACKED_PUBLISHERS_def)
  note k1 = intern_key_ok [OF i, of "[1]"]
  note k2 = intern_key_ok [OF k1(1), of "[2]"]
  show n: "si_names (ot_ids two_publishers) = [[1], [2]]" using k1(3) k2(3) by (simp add: two_publishers_def c k1(2) m)
  show "offsets_ok two_publishers"
    using k1(2) k2(1,2) n by (simp add: offsets_ok_def) (simp add: two_publishers_def c)
qed

lemma two_publishers_rows:
  "row_of two_publishers = [[1] \<mapsto> \<lparr>of_baseline = 10000000000, of_stepped_at = Some 2000000, of_step_delta = 10000000000\<rparr>,
     [2] \<mapsto> baseline_row 0]"
proof -
  have ids: "interner_ok (ot_ids two_publishers)" using two_publishers_ok(1) by (simp add: offsets_ok_def)
  have "id_of (ot_ids two_publishers) [1] = Some 0" "id_of (ot_ids two_publishers) [2] = Some 1"
    using id_of_iff [OF ids] by (simp_all add: two_publishers_ok(2))
  moreover have "id_of (ot_ids two_publishers) x = None" if "x \<noteq> [1]" "x \<noteq> [2]" for x
    using id_of_None [OF ids] that by (simp add: two_publishers_ok(2))
  ultimately show ?thesis
    by (intro ext) (simp add: row_of_def two_publishers_def [THEN arg_cong [of _ _ ot_rows]] baseline_row_def)
qed

theorem common_mode_rule_witness:
  "fst (offset_observe [2] 10003000000 3000000 two_publishers) = Some \<lparr>cm_delta_nanos = 10000000000, cm_publishers = 2\<rparr>"
proof -
  let ?rows = "row_of two_publishers"
  have p: "ot_policy two_publishers = clock_policy_default" by (simp add: two_publishers_def)
  have d: "step_size 10003000000 3000000 (baseline_row 0) = 10000000000"
    by (simp add: step_size_def baseline_row_def sat_i64_def i64_min_def i64_max_def)
  have "step_tolerance clock_policy_default 10000000000 10000000000 = 2500000000"
    by (simp add: step_tolerance_def clock_policy_default_def trunc_i64_def Let_def sat_i64_def i64_min_def i64_max_def)
  then have others: "{q. q \<noteq> [2] \<and> corroborates clock_policy_default 10000000000 3000000 (?rows q)} = {[1]}"
    by (auto simp: two_publishers_rows corroborates_def Let_def clock_policy_default_def sat_i64_def i64_min_def i64_max_def
        split: if_splits)
  have "?rows [2] = Some (baseline_row 0)" by (simp add: two_publishers_rows)
  moreover have "\<not> sat_i64 \<bar>10000000000\<bar> \<le> cp_reset_threshold clock_policy_default" "3000000 \<noteq> STEADY_UNKNOWN"
    by (simp_all add: clock_policy_default_def DEFAULT_RESET_THRESHOLD_NANOS_def sat_i64_def i64_min_def i64_max_def STEADY_UNKNOWN_def)
  ultimately have "fst (offset_spec clock_policy_default room [2] 10003000000 3000000 ?rows) =
      Some \<lparr>cm_delta_nanos = 10000000000, cm_publishers = 2\<rparr>" for room
    unfolding offset_spec_def by (simp only: option.case d others Let_def) simp
  then show ?thesis using common_mode_rule [OF two_publishers_ok(1), of "[2]" 10003000000 3000000] p by (metis fst_conv)
qed

end
