(* ===== verification/Bridge_Config.thy ===== *)
theory Bridge_Config
  imports Bridge_Names Tree_Build
begin

unbundle bit_operations_syntax

text \<open>
  The topology config of the bridge, \<open>tf_tree_bridge/src/config.rs\<close>: the declarations, what makes a parsed
  file one (\<open>build_config\<close>, over the tables of keys and values the file contains), the checks before start, the
  rewriting of names, and the \<open>TreeBuilder\<close> that carries the topology. The text layer of the parser,
  from characters to tables, is not modelled.
\<close>

subsection \<open>Declarations\<close>

datatype ring_size =
    RingSlots nat
  | RingHistory (rh_rate: real) (rh_secs: real)

fun ring_capacity :: "ring_size \<Rightarrow> nat" where
  "ring_capacity (RingSlots n) = capacity_slots n"
| "ring_capacity (RingHistory rate_hz secs) = capacity_history rate_hz secs"

datatype edge_shape =
    ShapeStatic wire_pose
  | ShapeDynamic ring_size

record edge_config =
  ec_parent :: name
  ec_child :: name
  ec_shape :: edge_shape
  ec_interp :: "interp_policy option"
  ec_domain :: "nat option"

definition ec_key :: "edge_config \<Rightarrow> name \<times> name" where
  "ec_key e = (ec_parent e, ec_child e)"

record topology_config =
  tc_frames :: "name list"
  tc_frame_headroom :: nat
  tc_default_interp :: interp_policy
  tc_default_domain :: nat
  tc_edges :: "edge_config list"

definition topology_config_default :: topology_config where
  "topology_config_default = \<lparr>tc_frames = [], tc_frame_headroom = 0, tc_default_interp = ScLerp,
     tc_default_domain = SystemDomain_TAG, tc_edges = []\<rparr>"

definition config_edge :: "name \<Rightarrow> name \<Rightarrow> topology_config \<Rightarrow> edge_config option" where
  "config_edge p c cfg = find (\<lambda>e. ec_parent e = p \<and> ec_child e = c) (tc_edges cfg)"

definition domain_of :: "topology_config \<Rightarrow> edge_config \<Rightarrow> nat" where
  "domain_of cfg e = (case ec_domain e of Some d \<Rightarrow> d | None \<Rightarrow> tc_default_domain cfg)"

record domain_mismatch =
  dm_parent :: name
  dm_child :: name
  dm_declared :: nat
  dm_bridge :: nat

fun check_domain_loop :: "topology_config \<Rightarrow> nat \<Rightarrow> edge_config list \<Rightarrow> domain_mismatch + unit" where
  "check_domain_loop cfg bridge [] = Inr ()"
| "check_domain_loop cfg bridge (e # es) =
     (case ec_shape e of
        ShapeStatic _ \<Rightarrow> check_domain_loop cfg bridge es
      | ShapeDynamic _ \<Rightarrow>
          (let declared = domain_of cfg e
           in if declared \<noteq> bridge
              then Inl \<lparr>dm_parent = ec_parent e, dm_child = ec_child e, dm_declared = declared, dm_bridge = bridge\<rparr>
              else check_domain_loop cfg bridge es))"

definition check_domain :: "nat \<Rightarrow> topology_config \<Rightarrow> domain_mismatch + unit" where
  "check_domain bridge cfg = check_domain_loop cfg bridge (tc_edges cfg)"

text \<open>The inner loop of \<open>cycle_child\<close> visits a frame at most once, so \<open>n + 2\<close> rounds for \<open>n\<close> edges are enough.\<close>

fun cycle_walk :: "nat \<Rightarrow> (name \<Rightarrow> name option) \<Rightarrow> name set \<Rightarrow> name \<Rightarrow> name option option" where
  "cycle_walk 0 parent_of seen cur = None"
| "cycle_walk (Suc n) parent_of seen cur =
     (case parent_of cur of
        None \<Rightarrow> Some None
      | Some p \<Rightarrow> if cur \<in> seen then Some (Some cur) else cycle_walk n parent_of (insert cur seen) p)"

definition config_parents :: "topology_config \<Rightarrow> name \<Rightarrow> name option" where
  "config_parents cfg = map_of (rev (map (\<lambda>e. (ec_child e, ec_parent e)) (tc_edges cfg)))"

fun cycle_child_loop :: "nat \<Rightarrow> (name \<Rightarrow> name option) \<Rightarrow> edge_config list \<Rightarrow> name option option" where
  "cycle_child_loop n parent_of [] = Some None"
| "cycle_child_loop n parent_of (e # es) =
     (case cycle_walk n parent_of {} (ec_child e) of
        None \<Rightarrow> None
      | Some (Some c) \<Rightarrow> Some (Some c)
      | Some None \<Rightarrow> cycle_child_loop n parent_of es)"

definition cycle_child :: "topology_config \<Rightarrow> name option option" where
  "cycle_child cfg = cycle_child_loop (length (tc_edges cfg) + 2) (config_parents cfg) (tc_edges cfg)"

definition rename_frame :: "name \<Rightarrow> name_normalizer \<Rightarrow> name \<times> name_normalizer" where
  "rename_frame s nn = (case normalize_name s nn of (Inl _, nn') \<Rightarrow> (s, nn') | (Inr n, nn') \<Rightarrow> (nz_name n, nn'))"

fun rename_frames :: "name list \<Rightarrow> name_normalizer \<Rightarrow> name list \<times> name_normalizer" where
  "rename_frames [] nn = ([], nn)"
| "rename_frames (f # fs) nn =
     (let (f', nn1) = rename_frame f nn; (fs', nn2) = rename_frames fs nn1 in (f' # fs', nn2))"

fun rename_edges :: "edge_config list \<Rightarrow> name_normalizer \<Rightarrow> edge_config list \<times> name_normalizer" where
  "rename_edges [] nn = ([], nn)"
| "rename_edges (e # es) nn =
     (let (p, nn1) = rename_frame (ec_parent e) nn; (c, nn2) = rename_frame (ec_child e) nn1; (es', nn3) = rename_edges es nn2
      in (e\<lparr>ec_parent := p, ec_child := c\<rparr> # es', nn3))"

definition rewritten :: "topology_config \<Rightarrow> name_normalizer \<Rightarrow> topology_config \<times> name_normalizer" where
  "rewritten cfg nn =
     (let (frames, nn1) = rename_frames (tc_frames cfg) nn; (edges, nn2) = rename_edges (tc_edges cfg) nn1
      in (cfg\<lparr>tc_frames := frames, tc_edges := edges\<rparr>, nn2))"

definition iso_of :: "wire_pose \<Rightarrow> iso3" where
  "iso_of p = iso3_new (quat_new (the (p ! 0)) (the (p ! 1)) (the (p ! 2)) (the (p ! 3))) (vec3_new (the (p ! 4)) (the (p ! 5)) (the (p ! 6)))"

definition edge_into_builder :: "edge_config \<Rightarrow> tree_builder \<Rightarrow> tree_builder" where
  "edge_into_builder e b =
     (case ec_shape e of
        ShapeStatic pose \<Rightarrow> static_edge (ec_parent e) (ec_child e) (iso_of pose) b
      | ShapeDynamic ring \<Rightarrow>
          (let cfg = (edge_cfg_new (ring_capacity ring))\<lparr>cfg_interp := ec_interp e, cfg_domain := ec_domain e\<rparr>;
               cfg = (case ring of RingHistory rate_hz _ \<Rightarrow> nominal_rate_hz rate_hz cfg | RingSlots _ \<Rightarrow> cfg)
           in dynamic_edge (ec_parent e) (ec_child e) cfg b))"

definition config_builder :: "topology_config \<Rightarrow> tree_builder" where
  "config_builder cfg =
     (let b = frame_headroom (tc_frame_headroom cfg) (default_domain (tc_default_domain cfg)
           (default_interp (tc_default_interp cfg) builder_new));
          b = fold builder_frame (tc_frames cfg) b
      in fold edge_into_builder (tc_edges cfg) b)"

subsection \<open>From tables to a config\<close>

datatype config_error_kind =
    CfgUnsupported | CfgUnknownTable | CfgUnknownKey | CfgDuplicateKey | CfgNotAKeyValue | CfgNoTable | CfgBadValue
  | CfgMissingKey | CfgBadKind | CfgBadInterp | CfgBadDomain | CfgBadFrameName | CfgSelfEdge | CfgDuplicateChild
  | CfgBadPose | CfgNonUnitQuaternion | CfgKeyWrongForKind | CfgConflictingRingSize | CfgRedundantFrame

record config_error =
  cx_line :: nat
  cx_kind :: config_error_kind
  cx_at :: name

abbreviation cfg_err :: "nat \<Rightarrow> config_error_kind \<Rightarrow> name \<Rightarrow> config_error + 'a" where
  "cfg_err l k x \<equiv> Inl \<lparr>cx_line = l, cx_kind = k, cx_at = x\<rparr>"

datatype cfg_value =
    VStr name
  | VInt int
  | VFloat real
  | VArray "cfg_value list"

type_synonym cfg_table = "(name \<times> cfg_value \<times> nat) list"

definition POSE_UNIT_EPS :: real where "POSE_UNIT_EPS = 1 / 10 ^ 9"

definition get_key :: "cfg_table \<Rightarrow> string \<Rightarrow> (cfg_value \<times> nat) option" where
  "get_key t key = map_option snd (find (\<lambda>(k, _). k = utf8 key) t)"

fun reject_unknown :: "cfg_table \<Rightarrow> name list \<Rightarrow> config_error + unit" where
  "reject_unknown [] allowed = Inr ()"
| "reject_unknown ((k, _, line) # t) allowed =
     (if k \<notin> set allowed then cfg_err line CfgUnknownKey k else reject_unknown t allowed)"

definition as_str :: "cfg_value \<Rightarrow> nat \<Rightarrow> name \<Rightarrow> config_error + name" where
  "as_str v line x = (case v of VStr s \<Rightarrow> Inr s | _ \<Rightarrow> cfg_err line CfgBadValue x)"

definition as_f64 :: "cfg_value \<Rightarrow> nat \<Rightarrow> name \<Rightarrow> config_error + real" where
  "as_f64 v line x = (case v of VFloat f \<Rightarrow> Inr f | VInt i \<Rightarrow> Inr (real_of_int i) | _ \<Rightarrow> cfg_err line CfgBadValue x)"

definition cfg_as_u32 :: "cfg_value \<Rightarrow> nat \<Rightarrow> name \<Rightarrow> config_error + nat" where
  "cfg_as_u32 v line x =
     (case v of VInt i \<Rightarrow> if 0 \<le> i \<and> i \<le> int u32_max then Inr (nat i) else cfg_err line CfgBadValue x
      | _ \<Rightarrow> cfg_err line CfgBadValue x)"

definition parse_interp :: "cfg_value \<Rightarrow> nat \<Rightarrow> config_error + interp_policy" where
  "parse_interp v line =
     rbind (as_str v line (utf8 ''interp'')) (\<lambda>s.
       if s = utf8 ''sclerp'' then Inr ScLerp
       else if s = utf8 ''lerpslerp'' then Inr LerpSlerp
       else cfg_err line CfgBadInterp s)"

definition parse_domain :: "cfg_value \<Rightarrow> nat \<Rightarrow> config_error + nat" where
  "parse_domain v line =
     (case v of
        VStr s \<Rightarrow>
          if s = utf8 ''system'' then Inr SystemDomain_TAG
          else if s = utf8 ''sensor'' then Inr SensorDomain_TAG
          else if s = utf8 ''sim'' then Inr SimDomain_TAG
          else if s = utf8 ''steady'' then Inr SteadyDomain_TAG
          else cfg_err line CfgBadDomain s
      | VInt i \<Rightarrow> if 0 \<le> i \<and> i \<le> 255 then Inr (nat i) else cfg_err line CfgBadDomain (utf8 ''domain'')
      | _ \<Rightarrow> cfg_err line CfgBadDomain (utf8 ''domain''))"

text \<open>\<open>char::is_control\<close>: below \<open>0x20\<close>, \<open>0x7F\<close>, and \<open>0x80\<close> to \<open>0x9F\<close>, which UTF-8 writes as \<open>C2 80\<close> to \<open>C2 9F\<close>.\<close>

fun has_unwritable :: "name \<Rightarrow> bool" where
  "has_unwritable [] = False"
| "has_unwritable (c # cs) =
     (c < 0x20 \<or> c = 0x7F \<or> c = 0x22 \<or> c = 0x5C \<or>
      c = 0xC2 \<and> (case cs of d # _ \<Rightarrow> 0x80 \<le> d \<and> d \<le> 0x9F | [] \<Rightarrow> False) \<or> has_unwritable cs)"

definition frame_name_ok :: "name \<Rightarrow> bool" where
  "frame_name_ok nm \<longleftrightarrow> nm \<noteq> [] \<and> \<not> has_unwritable nm"

definition check_frame_name :: "name \<Rightarrow> nat \<Rightarrow> config_error + name" where
  "check_frame_name nm line = (if \<not> frame_name_ok nm then cfg_err line CfgBadFrameName nm else Inr nm)"

definition TOPOLOGY_KEYS :: "name list" where
  "TOPOLOGY_KEYS = map utf8 [''interp'', ''domain'', ''frames'', ''frame_headroom'']"

definition EDGE_KEYS :: "name list" where
  "EDGE_KEYS = map utf8 [''parent'', ''child'', ''kind'', ''pose'', ''capacity'', ''rate_hz'', ''history_secs'', ''interp'', ''domain'']"

fun map_result :: "('a \<Rightarrow> 'e + 'b) \<Rightarrow> 'a list \<Rightarrow> 'e + 'b list" where
  "map_result f [] = Inr []"
| "map_result f (x # xs) = rbind (f x) (\<lambda>y. rbind (map_result f xs) (\<lambda>ys. Inr (y # ys)))"

definition parse_pose :: "cfg_value \<Rightarrow> nat \<Rightarrow> name \<Rightarrow> config_error + real list" where
  "parse_pose v line x =
     (case v of
        VArray items \<Rightarrow>
          if length items \<noteq> 7 then cfg_err line CfgBadPose x
          else rbind (map_result (\<lambda>i. as_f64 i line x) items) (\<lambda>pose.
            (let n2 = pose ! 0 * pose ! 0 + (pose ! 1 * pose ! 1 + (pose ! 2 * pose ! 2 + pose ! 3 * pose ! 3))
             in if 2 * POSE_UNIT_EPS < \<bar>n2 - 1\<bar> then cfg_err line CfgNonUnitQuaternion x else Inr pose))
      | _ \<Rightarrow> cfg_err line CfgBadPose x)"

fun first_present :: "cfg_table \<Rightarrow> string list \<Rightarrow> nat option" where
  "first_present t [] = None"
| "first_present t (k # ks) = (case get_key t k of Some (_, l) \<Rightarrow> Some l | None \<Rightarrow> first_present t ks)"

definition static_shape :: "cfg_table \<Rightarrow> nat \<Rightarrow> name \<Rightarrow> config_error + edge_shape" where
  "static_shape t kl child =
     (case first_present t [''capacity'', ''rate_hz'', ''history_secs''] of
        Some l \<Rightarrow> cfg_err l CfgKeyWrongForKind child
      | None \<Rightarrow> (case get_key t ''pose'' of
          None \<Rightarrow> cfg_err kl CfgMissingKey (utf8 ''pose'')
        | Some (pv, pl) \<Rightarrow> rbind (parse_pose pv pl child) (\<lambda>pose. Inr (ShapeStatic (map Some pose)))))"

definition dynamic_shape :: "cfg_table \<Rightarrow> nat \<Rightarrow> name \<Rightarrow> config_error + edge_shape" where
  "dynamic_shape t kl child =
     (case get_key t ''pose'' of
        Some (_, l) \<Rightarrow> cfg_err l CfgKeyWrongForKind child
      | None \<Rightarrow> (case (get_key t ''capacity'', get_key t ''rate_hz'', get_key t ''history_secs'') of
          (Some (v, l), None, None) \<Rightarrow>
            rbind (cfg_as_u32 v l child) (\<lambda>n. if n = 0 then cfg_err l CfgBadValue child else Inr (ShapeDynamic (RingSlots n)))
        | (None, Some (rv, rl), Some (sv, sl)) \<Rightarrow>
            rbind (as_f64 rv rl child) (\<lambda>rate_hz. rbind (as_f64 sv sl child) (\<lambda>secs.
              if \<not> (0 < rate_hz \<and> 0 < secs) then cfg_err rl CfgBadValue child
              else Inr (ShapeDynamic (RingHistory rate_hz secs))))
        | (None, None, None) \<Rightarrow> cfg_err kl CfgMissingKey child
        | _ \<Rightarrow> cfg_err kl CfgConflictingRingSize child))"

definition optional_key :: "cfg_table \<Rightarrow> string \<Rightarrow> (cfg_value \<Rightarrow> nat \<Rightarrow> config_error + 'a) \<Rightarrow> config_error + 'a option" where
  "optional_key t key f = (case get_key t key of Some (v, l) \<Rightarrow> rbind (f v l) (\<lambda>x. Inr (Some x)) | None \<Rightarrow> Inr None)"

text \<open>One round of the loop over the edge tables: the declaration, and the children and endpoints so far.\<close>

definition build_edge :: "cfg_table \<Rightarrow> name set \<times> name set \<Rightarrow> config_error + edge_config \<times> name set \<times> name set" where
  "build_edge t seen =
     (case seen of (children, endpoints) \<Rightarrow>
      rbind (reject_unknown t EDGE_KEYS) (\<lambda>_.
      rbind (ok_or (get_key t ''parent'') \<lparr>cx_line = (case t of (_, _, l) # _ \<Rightarrow> l | [] \<Rightarrow> 0), cx_kind = CfgMissingKey, cx_at = utf8 ''parent''\<rparr>) (\<lambda>(pv, pl).
      rbind (rbind (as_str pv pl (utf8 ''parent'')) (\<lambda>s. check_frame_name s pl)) (\<lambda>parent.
      rbind (ok_or (get_key t ''child'') \<lparr>cx_line = pl, cx_kind = CfgMissingKey, cx_at = utf8 ''child''\<rparr>) (\<lambda>(cv, cl).
      rbind (rbind (as_str cv cl (utf8 ''child'')) (\<lambda>s. check_frame_name s cl)) (\<lambda>child.
        if parent = child then cfg_err cl CfgSelfEdge child
        else if child \<in> children then cfg_err cl CfgDuplicateChild child
        else
      rbind (ok_or (get_key t ''kind'') \<lparr>cx_line = cl, cx_kind = CfgMissingKey, cx_at = utf8 ''kind''\<rparr>) (\<lambda>(kv, kl).
      rbind (as_str kv kl (utf8 ''kind'')) (\<lambda>kind.
      rbind (if kind = utf8 ''static'' then static_shape t kl child
             else if kind = utf8 ''dynamic'' then dynamic_shape t kl child
             else cfg_err kl CfgBadKind kind) (\<lambda>shape.
      rbind (optional_key t ''interp'' parse_interp) (\<lambda>interp.
      rbind (optional_key t ''domain'' parse_domain) (\<lambda>dmn.
        Inr (\<lparr>ec_parent = parent, ec_child = child, ec_shape = shape, ec_interp = interp, ec_domain = dmn\<rparr>,
             insert child children, insert child (insert parent endpoints)))))))))))))"

fun build_edges :: "cfg_table list \<Rightarrow> name set \<times> name set \<Rightarrow> config_error + edge_config list \<times> name set" where
  "build_edges [] seen = Inr ([], snd seen)"
| "build_edges (t # ts) seen =
     rbind (build_edge t seen) (\<lambda>(e, seen'). rbind (build_edges ts seen') (\<lambda>(es, endpoints). Inr (e # es, endpoints)))"

definition listed_frames :: "cfg_table \<Rightarrow> config_error + (name \<times> nat) list" where
  "listed_frames topology =
     (case get_key topology ''frames'' of
        None \<Rightarrow> Inr []
      | Some (v, line) \<Rightarrow> (case v of
          VArray items \<Rightarrow>
            map_result (\<lambda>item. rbind (as_str item line (utf8 ''frames'')) (\<lambda>s. rbind (check_frame_name s line) (\<lambda>nm. Inr (nm, line)))) items
        | _ \<Rightarrow> cfg_err line CfgBadValue (utf8 ''frames'')))"

definition build_config :: "cfg_table \<Rightarrow> cfg_table list \<Rightarrow> config_error + topology_config" where
  "build_config topology edges =
     rbind (reject_unknown topology TOPOLOGY_KEYS) (\<lambda>_.
     rbind (optional_key topology ''interp'' parse_interp) (\<lambda>interp.
     rbind (optional_key topology ''domain'' parse_domain) (\<lambda>dmn.
     rbind (optional_key topology ''frame_headroom'' (\<lambda>v l. cfg_as_u32 v l (utf8 ''frame_headroom''))) (\<lambda>headroom.
     rbind (listed_frames topology) (\<lambda>listed.
     rbind (build_edges edges ({}, {})) (\<lambda>(es, endpoints).
     rbind (map_result (\<lambda>(nm, line). if nm \<in> endpoints then cfg_err line CfgRedundantFrame nm else Inr nm) listed) (\<lambda>frames.
       Inr \<lparr>tc_frames = frames,
            tc_frame_headroom = (case headroom of Some n \<Rightarrow> n | None \<Rightarrow> 0),
            tc_default_interp = (case interp of Some i \<Rightarrow> i | None \<Rightarrow> ScLerp),
            tc_default_domain = (case dmn of Some d \<Rightarrow> d | None \<Rightarrow> SystemDomain_TAG),
            tc_edges = es\<rparr>)))))))"

subsection \<open>What an accepted config is\<close>

definition pose_ok :: "wire_pose \<Rightarrow> bool" where
  "pose_ok p \<longleftrightarrow> length p = 7 \<and> None \<notin> set p \<and>
     \<bar>(the (p ! 0))\<^sup>2 + (the (p ! 1))\<^sup>2 + (the (p ! 2))\<^sup>2 + (the (p ! 3))\<^sup>2 - 1\<bar> \<le> 2 * POSE_UNIT_EPS"

fun edge_shape_ok :: "edge_shape \<Rightarrow> bool" where
  "edge_shape_ok (ShapeStatic pose) = pose_ok pose"
| "edge_shape_ok (ShapeDynamic (RingSlots n)) = (0 < n \<and> n \<le> u32_max)"
| "edge_shape_ok (ShapeDynamic (RingHistory rate secs)) = (0 < rate \<and> 0 < secs)"

definition edge_config_ok :: "edge_config \<Rightarrow> bool" where
  "edge_config_ok e \<longleftrightarrow> frame_name_ok (ec_parent e) \<and> frame_name_ok (ec_child e) \<and> ec_parent e \<noteq> ec_child e \<and>
     edge_shape_ok (ec_shape e) \<and> (\<forall>d. ec_domain e = Some d \<longrightarrow> d < 256)"

definition config_ok :: "topology_config \<Rightarrow> bool" where
  "config_ok cfg \<longleftrightarrow> (\<forall>e \<in> set (tc_edges cfg). edge_config_ok e) \<and> distinct (map ec_child (tc_edges cfg)) \<and>
     (\<forall>f \<in> set (tc_frames cfg). frame_name_ok f \<and> f \<notin> ec_parent ` set (tc_edges cfg) \<union> ec_child ` set (tc_edges cfg)) \<and>
     tc_default_domain cfg < 256 \<and> tc_frame_headroom cfg \<le> u32_max"

named_theorems cfg_results \<open>what the steps of the parser return\<close>

lemma check_frame_name_Inr [cfg_results]: "check_frame_name s l = Inr nm \<longleftrightarrow> nm = s \<and> frame_name_ok s"
  by (auto simp: check_frame_name_def)

lemma as_u32_Inr [cfg_results]: "cfg_as_u32 v l x = Inr n \<longleftrightarrow> v = VInt (int n) \<and> n \<le> u32_max"
  by (auto simp: cfg_as_u32_def split: cfg_value.splits)

lemma as_f64_Inr [cfg_results]: "as_f64 v l x = Inr r \<longleftrightarrow> v = VFloat r \<or> (\<exists>i. v = VInt i \<and> r = real_of_int i)"
  by (auto simp: as_f64_def split: cfg_value.splits)

lemma as_str_Inr [cfg_results]: "as_str v l x = Inr s \<longleftrightarrow> v = VStr s"
  by (auto simp: as_str_def split: cfg_value.splits)

lemma parse_domain_Inr: "parse_domain v l = Inr d \<Longrightarrow> d < 256"
  by (auto simp: parse_domain_def SystemDomain_TAG_def SensorDomain_TAG_def SimDomain_TAG_def SteadyDomain_TAG_def
      split: cfg_value.splits if_splits)

lemma map_result_Inr: "map_result f xs = Inr ys \<longleftrightarrow> list_all2 (\<lambda>x y. f x = Inr y) xs ys"
  by (induction xs arbitrary: ys) (auto simp: rbind_iffs list_all2_Cons1)

lemma map_result_set:
  "map_result f xs = Inr ys \<Longrightarrow> (\<forall>y \<in> set ys. \<exists>x \<in> set xs. f x = Inr y) \<and> (\<forall>x \<in> set xs. \<exists>y \<in> set ys. f x = Inr y)"
proof (induction xs arbitrary: ys)
  case Nil
  then show ?case by simp
next
  case (Cons x xs)
  then obtain y ys' where "f x = Inr y" "map_result f xs = Inr ys'" "ys = y # ys'" by (auto simp: rbind_iffs)
  then show ?case using Cons.IH [of ys'] by (metis list.set_intros set_ConsD)
qed

lemma optional_key_Inr: "optional_key t k f = Inr r \<Longrightarrow> r = Some x \<Longrightarrow> \<exists>v l. f v l = Inr x"
  by (cases "get_key t k") (auto simp: optional_key_def rbind_iffs intro!: exI)

lemma parse_pose_Inr: "parse_pose v l x = Inr p \<Longrightarrow> pose_ok (map Some p)"
  by (auto simp: parse_pose_def rbind_iffs map_result_Inr Let_def pose_ok_def power2_eq_square not_less add.assoc
      dest: list_all2_lengthD split: cfg_value.splits if_splits)

lemma static_shape_Inr: "static_shape t kl child = Inr s \<Longrightarrow> edge_shape_ok s"
  by (auto simp: static_shape_def rbind_iffs parse_pose_Inr split: option.splits)

lemma dynamic_shape_Inr: "dynamic_shape t kl child = Inr s \<Longrightarrow> edge_shape_ok s"
  by (auto simp: dynamic_shape_def rbind_iffs cfg_results split: option.splits if_splits)

lemma build_edge_Inr:
  assumes "build_edge t (children, endpoints) = Inr (e, seen')"
  shows "edge_config_ok e" "ec_child e \<notin> children" "seen' = (insert (ec_child e) children, insert (ec_child e) (insert (ec_parent e) endpoints))"
proof -
  have "edge_config_ok e \<and> ec_child e \<notin> children \<and>
      seen' = (insert (ec_child e) children, insert (ec_child e) (insert (ec_parent e) endpoints))"
    using assms
    by (auto simp: build_edge_def rbind_iffs cfg_results edge_config_ok_def split: if_splits
        dest: static_shape_Inr dynamic_shape_Inr optional_key_Inr [where f = parse_domain] parse_domain_Inr)
  then show "edge_config_ok e" "ec_child e \<notin> children" "seen' = (insert (ec_child e) children, insert (ec_child e) (insert (ec_parent e) endpoints))"
    by auto
qed

lemma build_edges_Inr:
  "build_edges ts (children, endpoints) = Inr (es, endpoints') \<Longrightarrow>
    length es = length ts \<and> (\<forall>e \<in> set es. edge_config_ok e) \<and> distinct (map ec_child es) \<and> children \<inter> ec_child ` set es = {} \<and>
    endpoints' = endpoints \<union> ec_parent ` set es \<union> ec_child ` set es"
proof (induction ts arbitrary: children endpoints es)
  case Nil
  then show ?case by auto
next
  case (Cons t ts)
  then obtain e seen' es' where e: "build_edge t (children, endpoints) = Inr (e, seen')" "build_edges ts seen' = Inr (es', endpoints')" "es = e # es'"
    by (auto simp: rbind_iffs)
  note E = build_edge_Inr [OF e(1)]
  show ?case using Cons.IH [OF e(2) [unfolded E(3)]] E(1,2) e(3) by auto
qed

text \<open>C39: what the config parser accepts is well typed: every frame name survives a round trip through the file,
  no edge is a loop, no frame has two parents, no listed frame is an endpoint of an edge, every static pose has
  seven finite components and a unit quaternion, every ring a positive size, every domain fits its byte; and there
  is one declaration per edge table.\<close>

theorem accepted_config_typed:
  assumes "build_config topology edges = Inr cfg"
  shows "config_ok cfg \<and> length (tc_edges cfg) = length edges"
proof -
  obtain interp dmn headroom listed es endpoints frames where c:
    "optional_key topology ''domain'' parse_domain = Inr dmn"
    "optional_key topology ''frame_headroom'' (\<lambda>v l. cfg_as_u32 v l (utf8 ''frame_headroom'')) = Inr headroom"
    "listed_frames topology = Inr listed" "build_edges edges ({}, {}) = Inr (es, endpoints)"
    "map_result (\<lambda>(nm, line). if nm \<in> endpoints then cfg_err line CfgRedundantFrame nm else Inr nm) listed = Inr frames"
    "cfg = \<lparr>tc_frames = frames, tc_frame_headroom = (case headroom of Some n \<Rightarrow> n | None \<Rightarrow> 0),
            tc_default_interp = (case interp of Some i \<Rightarrow> i | None \<Rightarrow> ScLerp),
            tc_default_domain = (case dmn of Some d \<Rightarrow> d | None \<Rightarrow> SystemDomain_TAG), tc_edges = es\<rparr>"
    using assms by (auto simp: build_config_def rbind_iffs)
  note E = build_edges_Inr [OF c(4)]
  have "\<forall>(nm, l) \<in> set listed. frame_name_ok nm"
    using c(3) by (fastforce simp: listed_frames_def rbind_iffs cfg_results split: option.splits cfg_value.splits dest!: map_result_set)
  moreover have "set frames = fst ` set listed" "\<forall>f \<in> set frames. f \<notin> endpoints"
    using map_result_set [OF c(5)] by (force simp: image_iff split: if_splits)+
  moreover have "(case dmn of Some d \<Rightarrow> d | None \<Rightarrow> SystemDomain_TAG) < 256"
    using optional_key_Inr [OF c(1)] parse_domain_Inr by (fastforce simp: SystemDomain_TAG_def split: option.splits)
  moreover have "(case headroom of Some n \<Rightarrow> n | None \<Rightarrow> 0) \<le> u32_max"
    using optional_key_Inr [OF c(2)] by (auto simp: cfg_results split: option.splits)
  ultimately show ?thesis using E by (auto simp: config_ok_def c(6))
qed

definition example_table :: cfg_table where
  "example_table = [(utf8 ''parent'', VStr (utf8 ''odom''), 2), (utf8 ''child'', VStr (utf8 ''base_link''), 3),
     (utf8 ''kind'', VStr (utf8 ''dynamic''), 4), (utf8 ''capacity'', VInt 8, 5)]"

definition example_config :: topology_config where
  "example_config = topology_config_default\<lparr>tc_edges := [\<lparr>ec_parent = utf8 ''odom'', ec_child = utf8 ''base_link'',
     ec_shape = ShapeDynamic (RingSlots 8), ec_interp = None, ec_domain = None\<rparr>]\<rparr>"

lemma example_config_built: "build_config [] [example_table] = Inr example_config"
  by code_simp

theorem accepted_config_typed_witness: "config_ok example_config \<and> length (tc_edges example_config) = 1"
  using accepted_config_typed [OF example_config_built] by simp

subsection \<open>Cycles\<close>

definition config_rel :: "topology_config \<Rightarrow> (name \<times> name) set" where
  "config_rel cfg = (\<lambda>e. (ec_parent e, ec_child e)) ` set (tc_edges cfg)"

lemma config_parents_Some: "config_parents cfg c = Some p \<Longrightarrow> (p, c) \<in> config_rel cfg"
  by (auto simp: config_parents_def config_rel_def image_iff dest!: map_of_SomeD)

lemma config_parents_iff:
  assumes "distinct (map ec_child (tc_edges cfg))"
  shows "config_parents cfg c = Some p \<longleftrightarrow> (p, c) \<in> config_rel cfg"
proof -
  have "distinct (map fst (rev (map (\<lambda>e. (ec_child e, ec_parent e)) (tc_edges cfg))))"
    using assms by (simp add: rev_map [symmetric] comp_def)
  then show ?thesis by (auto simp: config_parents_def config_rel_def map_of_eq_Some_iff)
qed

lemma config_parents_dom: "finite (dom (config_parents cfg))" "card (dom (config_parents cfg)) \<le> length (tc_edges cfg)"
proof -
  have d: "dom (config_parents cfg) = ec_child ` set (tc_edges cfg)"
    by (auto simp: config_parents_def dom_map_of_conv_image_fst image_image)
  then show "finite (dom (config_parents cfg))" by simp
  have "card (ec_child ` set (tc_edges cfg)) \<le> card (set (tc_edges cfg))" by (rule card_image_le) simp
  then show "card (dom (config_parents cfg)) \<le> length (tc_edges cfg)" unfolding d using card_length le_trans by blast
qed

lemma cycle_walk_ends:
  assumes "finite (dom par)" "seen \<subseteq> dom par" "card (dom par) + 1 < n + card seen"
  shows "cycle_walk n par seen cur \<noteq> None"
  using assms
proof (induction n arbitrary: seen cur)
  case 0
  then show ?case using card_mono [OF 0(1,2)] by simp
next
  case (Suc n)
  have fin: "finite seen" using Suc.prems(1,2) finite_subset by blast
  show ?case
  proof (cases "par cur = None \<or> cur \<in> seen")
    case True
    then show ?thesis by (auto split: option.splits)
  next
    case False
    then obtain p where p: "par cur = Some p" "cur \<notin> seen" by auto
    then have "insert cur seen \<subseteq> dom par" "card (dom par) + 1 < n + card (insert cur seen)" using Suc.prems(2,3) fin by auto
    then show ?thesis using Suc.IH [OF Suc.prems(1)] p by simp
  qed
qed

lemma cycle_walk_found:
  assumes "\<And>c p. par c = Some p \<Longrightarrow> (p, c) \<in> R" "\<forall>s \<in> seen. (cur, s) \<in> R\<^sup>+" "cycle_walk n par seen cur = Some (Some c)"
  shows "(c, c) \<in> R\<^sup>+"
  using assms(2,3)
proof (induction n arbitrary: seen cur)
  case 0
  then show ?case by simp
next
  case (Suc n)
  then obtain p where p: "par cur = Some p" by (auto split: option.splits)
  then have e: "(p, cur) \<in> R" by (rule assms(1))
  show ?case
  proof (cases "cur \<in> seen")
    case True
    then show ?thesis using Suc.prems p by auto
  next
    case False
    have "\<forall>s \<in> insert cur seen. (p, s) \<in> R\<^sup>+" using e Suc.prems(1) by (auto intro: trancl_into_trancl2)
    then show ?thesis by (rule Suc.IH) (use Suc.prems(2) p False in simp)
  qed
qed

lemma cycle_walk_stays:
  assumes "\<And>y. (y, y) \<in> R\<^sup>+ \<Longrightarrow> \<exists>p. par y = Some p \<and> (p, p) \<in> R\<^sup>+" "(cur, cur) \<in> R\<^sup>+"
  shows "cycle_walk n par seen cur \<noteq> Some None"
  using assms(2)
proof (induction n arbitrary: seen cur)
  case 0
  then show ?case by simp
next
  case (Suc n)
  then obtain p where "par cur = Some p" "(p, p) \<in> R\<^sup>+" using assms(1) by blast
  then show ?case using Suc.IH by simp
qed

lemma cycle_child_loop_None:
  "\<forall>e \<in> set es. cycle_walk n par {} (ec_child e) \<noteq> None \<Longrightarrow>
    (cycle_child_loop n par es = Some None \<longleftrightarrow> (\<forall>e \<in> set es. cycle_walk n par {} (ec_child e) = Some None)) \<and>
    cycle_child_loop n par es \<noteq> None"
  by (induction es) (auto split: option.splits)

lemma cycle_child_correct:
  assumes d: "distinct (map ec_child (tc_edges cfg))"
  shows "cycle_child cfg \<noteq> None" "cycle_child cfg = Some None \<longleftrightarrow> acyclic (config_rel cfg)"
proof -
  let ?n = "length (tc_edges cfg) + 2" and ?par = "config_parents cfg" and ?R = "config_rel cfg"
  have ends: "cycle_walk ?n ?par {} x \<noteq> None" for x
    using config_parents_dom [of cfg] by (intro cycle_walk_ends) auto
  then have L: "cycle_child cfg = Some None \<longleftrightarrow> (\<forall>e \<in> set (tc_edges cfg). cycle_walk ?n ?par {} (ec_child e) = Some None)"
      "cycle_child cfg \<noteq> None"
    using cycle_child_loop_None [of "tc_edges cfg" ?n ?par] by (simp_all add: cycle_child_def)
  then show "cycle_child cfg \<noteq> None" by simp
  note par = config_parents_iff [OF d]
  have up: "\<exists>p. ?par y = Some p \<and> (p, p) \<in> ?R\<^sup>+" if cyc: "(y, y) \<in> ?R\<^sup>+" for y
  proof -
    obtain p where p: "(y, p) \<in> ?R\<^sup>*" "(p, y) \<in> ?R" using tranclD2 [OF cyc] by blast
    then have "(p, p) \<in> ?R\<^sup>+" by (meson rtrancl_into_trancl2)
    then show ?thesis using p(2) par by blast
  qed
  show "cycle_child cfg = Some None \<longleftrightarrow> acyclic ?R"
  proof
    assume none: "cycle_child cfg = Some None"
    show "acyclic ?R"
    proof (rule acyclicI, intro allI notI)
      fix y assume y: "(y, y) \<in> ?R\<^sup>+"
      then obtain p where "?par y = Some p" using up by blast
      then have "(p, y) \<in> ?R" using par by simp
      then obtain e where "e \<in> set (tc_edges cfg)" "ec_child e = y" by (auto simp: config_rel_def)
      then have "cycle_walk ?n ?par {} y = Some None" using none L(1) by auto
      then show False using cycle_walk_stays [of ?R ?par y ?n "{}", OF up y] by simp
    qed
  next
    assume a: "acyclic ?R"
    have "cycle_walk ?n ?par {} x = Some None" for x
    proof (cases "cycle_walk ?n ?par {} x")
      case (Some r)
      then show ?thesis using cycle_walk_found [of ?par ?R "{}" x ?n] config_parents_Some a by (cases r) (auto simp: acyclic_def)
    qed (use ends in blast)
    then show "cycle_child cfg = Some None" using L(1) by simp
  qed
qed

subsection \<open>From the config to the tree\<close>

definition config_decl :: "edge_config \<Rightarrow> edge_decl" where
  "config_decl e = last (tb_edges (edge_into_builder e builder_new))"

lemma config_decl_names [simp]: "ed_parent (config_decl e) = ec_parent e" "ed_child (config_decl e) = ec_child e"
  by (simp_all add: config_decl_def edge_into_builder_def static_edge_def dynamic_edge_def Let_def split: edge_shape.split)

lemma edge_into_builder_sel:
  "tb_edges (edge_into_builder e b) = tb_edges b @ [config_decl e]" "tb_frames (edge_into_builder e b) = tb_frames b"
  "tb_frame_headroom (edge_into_builder e b) = tb_frame_headroom b" "tb_edge_headroom (edge_into_builder e b) = tb_edge_headroom b"
  by (simp_all add: config_decl_def edge_into_builder_def static_edge_def dynamic_edge_def Let_def builder_new_def split: edge_shape.split)

lemma fold_edges_sel:
  "tb_edges (fold edge_into_builder es b) = tb_edges b @ map config_decl es" "tb_frames (fold edge_into_builder es b) = tb_frames b"
  "tb_frame_headroom (fold edge_into_builder es b) = tb_frame_headroom b" "tb_edge_headroom (fold edge_into_builder es b) = tb_edge_headroom b"
  by (induction es arbitrary: b) (simp_all add: edge_into_builder_sel)

lemma fold_frames_sel:
  "tb_edges (fold builder_frame fs b) = tb_edges b" "tb_frames (fold builder_frame fs b) = tb_frames b @ fs"
  "tb_frame_headroom (fold builder_frame fs b) = tb_frame_headroom b" "tb_edge_headroom (fold builder_frame fs b) = tb_edge_headroom b"
  by (induction fs arbitrary: b) (simp_all add: builder_frame_def)

lemma config_builder_sel:
  "tb_edges (config_builder cfg) = map config_decl (tc_edges cfg)" "tb_frames (config_builder cfg) = tc_frames cfg"
  "tb_frame_headroom (config_builder cfg) = tc_frame_headroom cfg" "tb_edge_headroom (config_builder cfg) = 0"
  by (simp_all add: config_builder_def Let_def fold_edges_sel fold_frames_sel frame_headroom_def default_domain_def
      default_interp_def builder_new_def)

fun shape_slots :: "edge_shape \<Rightarrow> nat" where
  "shape_slots (ShapeStatic _) = 0"
| "shape_slots (ShapeDynamic ring) = ring_capacity ring"

lemma config_decl_capacity: "decl_capacity (config_decl e) = shape_slots (ec_shape e)"
  by (cases "ec_shape e")
    (auto simp: config_decl_def edge_into_builder_def static_edge_def dynamic_edge_def Let_def builder_new_def decl_capacity_def
      edge_cfg_new_def nominal_rate_hz_def split: ring_size.split)

lemma config_builder_rel: "declared_rel (tb_edges (config_builder cfg)) = (config_rel cfg)\<inverse>"
  by (auto simp: declared_rel_def config_builder_sel config_rel_def image_iff)

text \<open>C40: from the config file to the arena. The cycle check always answers. The tree of an accepted config is built
  exactly as declared if the check finds no cycle and the sizes fit; a build fails only for a cycle the
  check has found, or for frames, edges or a layout beyond the limits.\<close>

theorem config_builds:
  assumes "build_config topology edges = Inr cfg"
    and "inj_on H (set (declared_names (config_builder cfg)))" "\<forall>nm \<in> set (declared_names (config_builder cfg)). 0 < H nm"
  shows "cycle_child cfg \<noteq> None \<and>
    (case build_with H pid start boot uuid (config_builder cfg) of
       None \<Rightarrow> False
     | Some (Inr t) \<Rightarrow> cycle_child cfg = Some None \<and> built_as H (config_builder cfg) t
     | Some (Inl e) \<Rightarrow> (case e of
         TooManyFrames \<Rightarrow> u32_max < length (declared_names (config_builder cfg)) + 1 + tc_frame_headroom cfg
       | TooManyEdges \<Rightarrow> u32_max < length (tc_edges cfg) + 1
       | BuildLayout x \<Rightarrow>
           arena_layout_new (length (declared_names (config_builder cfg)) + 1 + tc_frame_headroom cfg) (length (tc_edges cfg) + 1)
             (0 # map (\<lambda>e. shape_slots (ec_shape e)) (tc_edges cfg)) = Inl x
       | BuildTopology x \<Rightarrow> (\<exists>c. x = WouldCreateCycle c) \<and> cycle_child cfg \<noteq> Some None
       | _ \<Rightarrow> False))"
proof -
  have "build_edges edges ({}, {}) = Inr (tc_edges cfg, ec_parent ` set (tc_edges cfg) \<union> ec_child ` set (tc_edges cfg))"
    using assms(1) build_edges_Inr [of edges "{}" "{}"] by (fastforce simp: build_config_def rbind_iffs)
  then have d: "distinct (map ec_child (tc_edges cfg))" using build_edges_Inr by blast
  have d': "distinct (map ed_child (tb_edges (config_builder cfg)))"
    using d by (simp add: config_builder_sel comp_def)
  show ?thesis
    using build_with_cases [OF assms(2,3), of pid start boot uuid] cycle_child_correct [OF d] d'
    unfolding config_builder_rel config_builder_sel(3,4)
    by (auto simp: config_builder_sel(1) config_decl_capacity comp_def simp del: One_nat_def split: option.splits sum.splits build_error.splits)
qed

lemma example_config_names: "declared_names (config_builder example_config) = [utf8 ''odom'', utf8 ''base_link'']"
  by code_simp

theorem config_builds_witness:
  "\<exists>t. build_with length_hash 7 9 [] [] (config_builder example_config) = Some (Inr t) \<and> built_as length_hash (config_builder example_config) t"
proof -
  let ?b = "config_builder example_config"
  have names: "declared_names ?b = [utf8 ''odom'', utf8 ''base_link'']" by (rule example_config_names)
  have H: "inj_on length_hash (set (declared_names ?b))" "\<forall>nm \<in> set (declared_names ?b). 0 < length_hash nm"
    by (simp_all add: names length_hash_def utf8_def)
  have edges: "tc_edges example_config = [\<lparr>ec_parent = utf8 ''odom'', ec_child = utf8 ''base_link'', ec_shape = ShapeDynamic (RingSlots 8),
      ec_interp = None, ec_domain = None\<rparr>]" "tc_frame_headroom example_config = 0"
    by (simp_all add: example_config_def topology_config_default_def)
  have acyc: "cycle_child example_config = Some None" by code_simp
  have "case arena_layout_new 3 2 [0, capacity_slots 8] of Inl e \<Rightarrow> False | Inr l \<Rightarrow> True" by code_simp
  then obtain l where l: "arena_layout_new 3 2 [0, capacity_slots 8] = Inr l" by (auto split: sum.splits)
  have "\<not> u32_max < Suc (Suc (Suc 0))" "\<not> u32_max < Suc (Suc 0)" by (simp_all add: u32_max_def)
  then show ?thesis
    using config_builds [OF example_config_built H, of 7 9 "[]" "[]"] acyc l
    by (cases "build_with length_hash 7 9 [] [] ?b")
      (auto simp: names edges numeral_2_eq_2 numeral_3_eq_3 split: sum.splits build_error.splits)
qed

end
