(* ===== verification/Bridge_Tables.thy ===== *)
theory Bridge_Tables
  imports Bridge_Clock Bridge_Config "HOL-Library.Product_Lexorder" "HOL-Library.AList"
begin

text \<open>
  The two tables of the bridge that decide per declared edge: \<open>StaticStore\<close> of
  \<open>tf_tree_bridge/src/statics.rs\<close>, the kind and the value of every edge, and \<open>Authority\<close> of \<open>authority.rs\<close>, its
  owner. Both number the declared edges in the order of their first declaration.
\<close>

subsection \<open>Static transforms\<close>

datatype static_kind = KindStatic | KindDynamic

datatype static_verdict =
    StaticDeclare
  | StaticIdempotent
  | StaticConflictVerdict (sv_owner: bridge_publisher) (sv_intruder: bridge_publisher) (sv_existing: wire_pose) (sv_offered: wire_pose) (sv_first: bool)
  | StaticKindChanged static_kind

definition STATIC_EPS :: real where "STATIC_EPS = 1 / 10 ^ 12"

record static_store =
  ss_index :: "nat edge_index"
  ss_kinds :: "static_kind list"
  ss_values :: "(wire_pose \<times> bridge_publisher) option list"
  ss_reported :: "nat list"
  ss_first_intruder :: "bridge_publisher option list"
  ss_conflicts :: nat

definition same_pose :: "wire_pose \<Rightarrow> wire_pose \<Rightarrow> bool" where
  "same_pose a b \<longleftrightarrow>
     (if \<not> list_all (\<lambda>v. v \<noteq> None) (a @ b) then False
      else (let x = (\<lambda>i. the (a ! i)); y = (\<lambda>i. the (b ! i));
                dot = sum_list (map (\<lambda>i. x i * y i) [0..<4]);
                sign = (if dot < 0 then -1 else 1)
            in list_all (\<lambda>i. \<bar>x i - sign * y i\<bar> \<le> STATIC_EPS) [0..<4] \<and> list_all (\<lambda>i. \<bar>x i - y i\<bar> \<le> STATIC_EPS) [4..<7]))"

definition slot_number :: "'v edge_index \<Rightarrow> nat" where
  "slot_number x = (if edge_len x \<le> u32_max then edge_len x else u32_max)"

definition static_store_new :: static_store where
  "static_store_new = \<lparr>ss_index = edge_index_with_capacity 0, ss_kinds = [], ss_values = [], ss_reported = [],
     ss_first_intruder = [], ss_conflicts = 0\<rparr>"

definition static_slot_or_insert :: "name \<times> name \<Rightarrow> static_kind \<Rightarrow> static_store \<Rightarrow> nat \<times> static_store" where
  "static_slot_or_insert key kind s =
     (case edge_get (ss_index s) key of
        Some slot \<Rightarrow> (slot, s)
      | None \<Rightarrow>
          (let slot = slot_number (ss_index s)
           in (slot, \<lparr>ss_index = snd (edge_insert key slot (ss_index s)), ss_kinds = ss_kinds s @ [kind], ss_values = ss_values s @ [None],
                ss_reported = ss_reported s @ [0], ss_first_intruder = ss_first_intruder s @ [None], ss_conflicts = ss_conflicts s\<rparr>)))"

definition seed_static :: "edge_config \<Rightarrow> static_store \<Rightarrow> static_store" where
  "seed_static e s =
     (case ec_shape e of
        ShapeStatic pose \<Rightarrow>
          (let (slot, s) = static_slot_or_insert (ec_key e) KindStatic s
           in s\<lparr>ss_kinds := (ss_kinds s)[slot := KindStatic], ss_values := (ss_values s)[slot := Some (pose, DeclaredPublisher)]\<rparr>)
      | ShapeDynamic _ \<Rightarrow>
          (let (slot, s) = static_slot_or_insert (ec_key e) KindDynamic s
           in s\<lparr>ss_kinds := (ss_kinds s)[slot := KindDynamic]\<rparr>))"

definition statics_seeded :: "topology_config \<Rightarrow> static_store" where
  "statics_seeded cfg = fold seed_static (tc_edges cfg)
     (static_store_new\<lparr>ss_index := edge_index_with_capacity (length (tc_edges cfg))\<rparr>)"

definition is_declared :: "name \<times> name \<Rightarrow> static_store \<Rightarrow> bool" where
  "is_declared key s \<longleftrightarrow> edge_get (ss_index s) key \<noteq> None"

definition observe_dynamic :: "name \<times> name \<Rightarrow> static_store \<Rightarrow> (static_kind + unit) \<times> static_store" where
  "observe_dynamic key s =
     (case edge_get (ss_index s) key of
        Some slot \<Rightarrow> if ss_kinds s ! slot = KindStatic then (Inl KindStatic, s) else (Inr (), s)
      | None \<Rightarrow> (Inr (), snd (static_slot_or_insert key KindDynamic s)))"

definition observe_static_at :: "nat \<Rightarrow> wire_pose \<Rightarrow> bridge_publisher \<Rightarrow> static_store \<Rightarrow> static_verdict \<times> static_store" where
  "observe_static_at slot pose pub s =
     (if ss_kinds s ! slot = KindDynamic then (StaticKindChanged KindDynamic, s)
      else case ss_values s ! slot of
        None \<Rightarrow> (StaticDeclare, s\<lparr>ss_kinds := (ss_kinds s)[slot := KindStatic], ss_values := (ss_values s)[slot := Some (pose, pub)]\<rparr>)
      | Some (existing, owner) \<Rightarrow>
          if same_pose existing pose then (StaticIdempotent, s)
          else (let first_time = (ss_reported s ! slot = 0)
                in (StaticConflictVerdict owner pub existing pose first_time,
                    s\<lparr>ss_reported := (ss_reported s)[slot := ss_reported s ! slot + 1],
                      ss_first_intruder := (if first_time then (ss_first_intruder s)[slot := Some pub] else ss_first_intruder s),
                      ss_conflicts := ss_conflicts s + 1\<rparr>)))"

definition observe_static :: "name \<times> name \<Rightarrow> wire_pose \<Rightarrow> bridge_publisher \<Rightarrow> static_store \<Rightarrow> static_verdict \<times> static_store" where
  "observe_static key pose pub s =
     (let (slot, s) = static_slot_or_insert key KindStatic s in observe_static_at slot pose pub s)"

definition statics_resolve :: "name \<times> name \<Rightarrow> static_store \<Rightarrow> nat option" where
  "statics_resolve key s = edge_get (ss_index s) key"

definition names_of :: "static_store \<Rightarrow> nat \<Rightarrow> name \<times> name" where
  "names_of s slot = edge_key (ss_index s) slot"

definition static_slots :: "static_store \<Rightarrow> nat" where
  "static_slots s = length (ss_kinds s)"

definition kind_of :: "name \<times> name \<Rightarrow> static_store \<Rightarrow> static_kind option" where
  "kind_of key s = map_option (\<lambda>slot. ss_kinds s ! slot) (edge_get (ss_index s) key)"

definition conflicts_by_edge :: "static_store \<Rightarrow> (name \<times> name \<times> bridge_publisher \<times> bridge_publisher \<times> nat) list" where
  "conflicts_by_edge s =
     List.map_filter (\<lambda>(slot, intruder). case intruder of
         None \<Rightarrow> None
       | Some q \<Rightarrow> (case ss_values s ! slot of
           None \<Rightarrow> None
         | Some (_, owner) \<Rightarrow> (let (p, c) = edge_key (ss_index s) slot in Some (p, c, owner, q, ss_reported s ! slot))))
       (List.enumerate 0 (ss_first_intruder s))"

subsection \<open>Authority\<close>

datatype authority_policy = FirstWriterWins | LastWriterWins | Strict

datatype verdict =
    Accept
  | Reject bridge_publisher bridge_publisher bool
  | Fatal bridge_publisher bridge_publisher bool

record authority =
  au_policy :: authority_policy
  au_index :: "nat edge_index"
  au_owners :: "bridge_publisher option list"
  au_ids :: str_interner
  au_pubs :: "bridge_publisher list"
  au_reported :: "((nat \<times> nat \<times> nat) \<times> nat) list"
  au_dropped :: nat

definition authority_new :: "authority_policy \<Rightarrow> authority" where
  "authority_new policy = \<lparr>au_policy = policy, au_index = edge_index_with_capacity 0, au_owners = [],
     au_ids = interner_with_cap MAX_TRACKED_PUBLISHERS, au_pubs = [], au_reported = [], au_dropped = 0\<rparr>"

definition authority_slot_or_insert :: "name \<times> name \<Rightarrow> authority \<Rightarrow> nat \<times> authority" where
  "authority_slot_or_insert key a =
     (case edge_get (au_index a) key of
        Some slot \<Rightarrow> (slot, a)
      | None \<Rightarrow>
          (let slot = slot_number (au_index a)
           in (slot, a\<lparr>au_index := snd (edge_insert key slot (au_index a)), au_owners := au_owners a @ [None]\<rparr>)))"

definition authority_seeded :: "authority_policy \<Rightarrow> topology_config \<Rightarrow> authority" where
  "authority_seeded policy cfg =
     fold (\<lambda>e a. snd (authority_slot_or_insert (ec_key e) a)) (tc_edges cfg)
       ((authority_new policy)\<lparr>au_index := edge_index_with_capacity (length (tc_edges cfg))\<rparr>)"

definition id_for :: "bridge_publisher \<Rightarrow> authority \<Rightarrow> nat \<times> authority" where
  "id_for p a =
     (let (found, ids) = intern_key (publisher_key p) (au_ids a); a = a\<lparr>au_ids := ids\<rparr>
      in case found of
           Some i \<Rightarrow> (i, if length (au_pubs a) \<le> i then a\<lparr>au_pubs := (resize (i + 1) Unattributed (au_pubs a))[i := p]\<rparr> else a)
         | None \<Rightarrow> (u32_max, a))"

definition record_conflict :: "nat \<Rightarrow> bridge_publisher \<Rightarrow> bridge_publisher \<Rightarrow> authority \<Rightarrow> bool \<times> authority" where
  "record_conflict slot owner intruder a =
     (let (o_id, a) = id_for owner a; (i_id, a) = id_for intruder a;
          seen = (case map_of (au_reported a) (slot, o_id, i_id) of None \<Rightarrow> 0 | Some n \<Rightarrow> n)
      in (seen = 0, a\<lparr>au_reported := AList.update (slot, o_id, i_id) (seen + 1) (au_reported a), au_dropped := au_dropped a + 1\<rparr>))"

definition admit_at :: "nat \<Rightarrow> bridge_publisher \<Rightarrow> authority \<Rightarrow> verdict \<times> authority" where
  "admit_at slot pub a =
     (case au_owners a ! slot of
        None \<Rightarrow> (Accept, a\<lparr>au_owners := (au_owners a)[slot := Some pub]\<rparr>)
      | Some owner \<Rightarrow>
          if same_publisher owner pub then (Accept, a)
          else (case au_policy a of
              LastWriterWins \<Rightarrow> (Accept, a\<lparr>au_owners := (au_owners a)[slot := Some pub]\<rparr>)
            | Strict \<Rightarrow> (let (first_time, a) = record_conflict slot owner pub a in (Fatal owner pub first_time, a))
            | FirstWriterWins \<Rightarrow> (let (first_time, a) = record_conflict slot owner pub a in (Reject owner pub first_time, a))))"

definition admit :: "name \<times> name \<Rightarrow> bridge_publisher \<Rightarrow> authority \<Rightarrow> verdict \<times> authority" where
  "admit key pub a = (let (slot, a) = authority_slot_or_insert key a in admit_at slot pub a)"

text \<open>\<open>conflicts\<close> indexes the publishers by the recorded numbers: \<open>None\<close> when an index is out of range, where the code
  panics.\<close>

definition conflict_row :: "authority \<Rightarrow> nat \<times> nat \<times> nat \<Rightarrow> (name \<times> name \<times> bridge_publisher \<times> bridge_publisher \<times> nat) option" where
  "conflict_row a key =
     (case key of (slot, o_id, i_id) \<Rightarrow>
        if slot < edge_len (au_index a) \<and> o_id < length (au_pubs a) \<and> i_id < length (au_pubs a)
        then (let (p, c) = edge_key (au_index a) slot
              in Some (p, c, au_pubs a ! o_id, au_pubs a ! i_id, the (map_of (au_reported a) key)))
        else None)"

definition authority_conflicts :: "authority \<Rightarrow> (name \<times> name \<times> bridge_publisher \<times> bridge_publisher \<times> nat) list option" where
  "authority_conflicts a = those (map (conflict_row a) (sort (map fst (au_reported a))))"

definition owner_of :: "name \<times> name \<Rightarrow> authority \<Rightarrow> bridge_publisher option" where
  "owner_of key a = Option.bind (edge_get (au_index a) key) (\<lambda>slot. au_owners a ! slot)"

subsection \<open>Slots\<close>

definition slots_ok :: "nat edge_index \<Rightarrow> bool" where
  "slots_ok x \<longleftrightarrow> edge_index_ok x \<and> ei_values x = [0..<length (ei_keys x)]"

text \<open>The declared edges in the order of their first declaration.\<close>

fun first_keys :: "(name \<times> name) list \<Rightarrow> (name \<times> name) list \<Rightarrow> (name \<times> name) list" where
  "first_keys ks [] = ks"
| "first_keys ks (k # rest) = first_keys (if k \<in> set ks then ks else ks @ [k]) rest"

definition declared_keys :: "topology_config \<Rightarrow> (name \<times> name) list" where
  "declared_keys cfg = first_keys [] (map ec_key (tc_edges cfg))"

lemma first_keys_props: "distinct ks \<Longrightarrow> distinct (first_keys ks xs) \<and> set (first_keys ks xs) = set ks \<union> set xs \<and>
    length (first_keys ks xs) \<le> length ks + length xs \<and> (\<exists>zs. first_keys ks xs = ks @ zs)"
proof (induction ks xs rule: first_keys.induct)
  case (1 ks)
  then show ?case by simp
next
  case (2 ks k rest)
  then show ?case by (cases "k \<in> set ks") (auto simp: le_Suc_eq)
qed

lemma declared_keys_props: "distinct (declared_keys cfg)" "set (declared_keys cfg) = ec_key ` set (tc_edges cfg)"
  "length (declared_keys cfg) \<le> length (tc_edges cfg)"
  using first_keys_props [of "[]" "map ec_key (tc_edges cfg)"] by (simp_all add: declared_keys_def)

lemma slots_new: "slots_ok (edge_index_with_capacity n)"
proof -
  have "ei_keys (edge_index_with_capacity n :: nat edge_index) = []" "ei_values (edge_index_with_capacity n :: nat edge_index) = []"
    by (simp_all add: edge_index_with_capacity_def)
  then show ?thesis unfolding slots_ok_def by (simp add: edge_index_new_ok)
qed

lemma edge_get_slot: "slots_ok x \<Longrightarrow> edge_get x k = Some e \<longleftrightarrow> e < length (ei_keys x) \<and> ei_keys x ! e = k"
  using edge_find_iff [of x k e] edges.find_less [of x k] by (cases "edge_find x k") (auto simp: slots_ok_def edge_get_def)

lemma edge_get_None: "slots_ok x \<Longrightarrow> edge_get x k = None \<longleftrightarrow> k \<notin> set (ei_keys x)"
  by (simp add: slots_ok_def edge_get_def edge_find_None)

lemma slots_insert:
  assumes "slots_ok x" "edge_index_room x" "edge_get x k = None"
  shows "slots_ok (snd (edge_insert k (slot_number x) x))" "ei_keys (snd (edge_insert k (slot_number x) x)) = ei_keys x @ [k]"
    "slot_number x = length (ei_keys x)"
proof -
  have x: "edge_index_ok x" "edge_find x k = None" using assms by (simp_all add: slots_ok_def edge_get_def)
  show n: "slot_number x = length (ei_keys x)" using assms(2) by (simp add: slot_number_def edge_len_def edge_index_room_def EMPTY_ENTRY_def)
  note new = edge_insert_new [OF x assms(2), of "slot_number x"]
  show "ei_keys (snd (edge_insert k (slot_number x) x)) = ei_keys x @ [k]" by (rule new(3))
  show "slots_ok (snd (edge_insert k (slot_number x) x))" using new assms(1) by (simp add: slots_ok_def n)
qed

subsection \<open>The store under its invariant\<close>

definition statics_ok :: "(name \<times> name) list \<Rightarrow> static_store \<Rightarrow> bool" where
  "statics_ok keys s \<longleftrightarrow> slots_ok (ss_index s) \<and> ei_keys (ss_index s) = keys \<and> length (ss_kinds s) = length keys \<and>
     length (ss_values s) = length keys \<and> length (ss_reported s) = length keys \<and> length (ss_first_intruder s) = length keys \<and>
     (\<forall>i < length keys. (ss_kinds s ! i = KindStatic \<longrightarrow> ss_values s ! i \<noteq> None) \<and>
        (ss_reported s ! i = 0 \<longleftrightarrow> ss_first_intruder s ! i = None) \<and>
        (ss_first_intruder s ! i \<noteq> None \<longrightarrow> ss_values s ! i \<noteq> None))"

definition keys_room :: "(name \<times> name) list \<Rightarrow> bool" where
  "keys_room ks \<longleftrightarrow> Suc (length ks) < EMPTY_ENTRY"

lemma static_slot_or_insert_sel:
  fixes key kind
  assumes "slots_ok (ss_index s)" "keys_room (ei_keys (ss_index s))"
  defines "keys \<equiv> ei_keys (ss_index s)" and "s' \<equiv> snd (static_slot_or_insert key kind s)"
  shows "key \<in> set keys \<Longrightarrow> s' = s"
    "key \<notin> set keys \<Longrightarrow> fst (static_slot_or_insert key kind s) = length keys \<and> slots_ok (ss_index s') \<and> ei_keys (ss_index s') = keys @ [key] \<and>
       ss_kinds s' = ss_kinds s @ [kind] \<and> ss_values s' = ss_values s @ [None] \<and> ss_reported s' = ss_reported s @ [0] \<and>
       ss_first_intruder s' = ss_first_intruder s @ [None]"
    "fst (static_slot_or_insert key kind s) < length (ei_keys (ss_index s')) \<and> ei_keys (ss_index s') ! fst (static_slot_or_insert key kind s) = key"
proof -
  have room: "edge_index_room (ss_index s)" using assms(2) by (simp add: keys_room_def edge_index_room_def)
  show "key \<in> set keys \<Longrightarrow> s' = s"
    using edge_get_None [OF assms(1), of key] by (auto simp: keys_def s'_def static_slot_or_insert_def split: option.splits)
  show "key \<notin> set keys \<Longrightarrow> fst (static_slot_or_insert key kind s) = length keys \<and> slots_ok (ss_index s') \<and> ei_keys (ss_index s') = keys @ [key] \<and>
       ss_kinds s' = ss_kinds s @ [kind] \<and> ss_values s' = ss_values s @ [None] \<and> ss_reported s' = ss_reported s @ [0] \<and>
       ss_first_intruder s' = ss_first_intruder s @ [None]"
    using edge_get_None [OF assms(1), of key] slots_insert [OF assms(1) room, of key]
    by (simp add: keys_def s'_def static_slot_or_insert_def Let_def)
  show "fst (static_slot_or_insert key kind s) < length (ei_keys (ss_index s')) \<and> ei_keys (ss_index s') ! fst (static_slot_or_insert key kind s) = key"
    using edge_get_slot [OF assms(1), of key] edge_get_None [OF assms(1), of key] slots_insert [OF assms(1) room, of key]
    by (cases "edge_get (ss_index s) key") (auto simp: s'_def static_slot_or_insert_def Let_def)
qed

text \<open>While seeding, the only edge without a value may be the one just inserted.\<close>

lemma seed_static_ok:
  assumes s: "statics_ok keys s" and room: "keys_room keys"
  shows "statics_ok (if ec_key e \<in> set keys then keys else keys @ [ec_key e]) (seed_static e s)"
proof -
  have x: "slots_ok (ss_index s)" "ei_keys (ss_index s) = keys" using s by (simp_all add: statics_ok_def)
  let ?kind = "case ec_shape e of ShapeStatic _ \<Rightarrow> KindStatic | ShapeDynamic _ \<Rightarrow> KindDynamic"
  let ?r = "static_slot_or_insert (ec_key e) ?kind s"
  let ?keys = "if ec_key e \<in> set keys then keys else keys @ [ec_key e]"
  note sel = static_slot_or_insert_sel [OF x(1), unfolded x(2), OF room, of "ec_key e" ?kind]
  have eq: "seed_static e s = (case ec_shape e of
      ShapeStatic pose \<Rightarrow> (snd ?r)\<lparr>ss_kinds := (ss_kinds (snd ?r))[fst ?r := KindStatic], ss_values := (ss_values (snd ?r))[fst ?r := Some (pose, DeclaredPublisher)]\<rparr>
    | ShapeDynamic _ \<Rightarrow> (snd ?r)\<lparr>ss_kinds := (ss_kinds (snd ?r))[fst ?r := KindDynamic]\<rparr>)"
    by (simp add: seed_static_def Let_def split: edge_shape.split prod.split)
  have keys: "ei_keys (ss_index (snd ?r)) = ?keys" "slots_ok (ss_index (snd ?r))" "fst ?r < length ?keys"
    using sel x by (cases "ec_key e \<in> set keys"; simp)+
  have lens: "length (ss_kinds (snd ?r)) = length ?keys" "length (ss_values (snd ?r)) = length ?keys"
      "length (ss_reported (snd ?r)) = length ?keys" "length (ss_first_intruder (snd ?r)) = length ?keys"
    using sel s by (cases "ec_key e \<in> set keys"; simp add: statics_ok_def)+
  have old: "(i \<noteq> fst ?r \<and> ss_kinds (snd ?r) ! i = KindStatic \<longrightarrow> ss_values (snd ?r) ! i \<noteq> None) \<and>
      (ss_reported (snd ?r) ! i = 0 \<longleftrightarrow> ss_first_intruder (snd ?r) ! i = None) \<and>
      (ss_first_intruder (snd ?r) ! i \<noteq> None \<longrightarrow> ss_values (snd ?r) ! i \<noteq> None)" if "i < length ?keys" for i
  proof (cases "ec_key e \<in> set keys")
    case True
    then show ?thesis using sel(1) s that by (simp add: statics_ok_def)
  next
    case False
    then show ?thesis using sel(2) s that by (auto simp: statics_ok_def nth_append less_Suc_eq split: if_splits)
  qed
  show ?thesis
    unfolding eq statics_ok_def using keys lens old
    by (cases "ec_shape e") (auto simp: nth_list_update split: if_splits)
qed

lemma seed_statics_ok:
  assumes "statics_ok keys s" "length keys + length es + 1 < EMPTY_ENTRY"
  shows "statics_ok (first_keys keys (map ec_key es)) (fold seed_static es s)"
  using assms
proof (induction es arbitrary: keys s)
  case Nil
  then show ?case by simp
next
  case (Cons e es)
  have "keys_room keys" using Cons.prems(2) by (simp add: keys_room_def)
  from seed_static_ok [OF Cons.prems(1) this, of e] show ?case
    using Cons.IH [of "if ec_key e \<in> set keys then keys else keys @ [ec_key e]" "seed_static e s"] Cons.prems(2) by simp
qed

lemma statics_new_ok: "statics_ok [] (static_store_new\<lparr>ss_index := edge_index_with_capacity n\<rparr>)"
proof -
  have "ei_keys (edge_index_with_capacity n :: nat edge_index) = []" by (simp add: edge_index_with_capacity_def)
  then show ?thesis by (simp add: statics_ok_def static_store_new_def slots_new)
qed

lemma statics_seeded_ok: "length (tc_edges cfg) + 1 < EMPTY_ENTRY \<Longrightarrow> statics_ok (declared_keys cfg) (statics_seeded cfg)"
  unfolding statics_seeded_def declared_keys_def by (intro seed_statics_ok statics_new_ok) simp

text \<open>Values on file never change, and neither do kinds.\<close>

lemma observe_static_at_ok:
  assumes s: "statics_ok keys s" and i: "slot < length keys"
  shows "statics_ok keys (snd (observe_static_at slot pose pub s))"
    "ss_kinds (snd (observe_static_at slot pose pub s)) = ss_kinds s" "ss_values (snd (observe_static_at slot pose pub s)) = ss_values s"
    "ss_index (snd (observe_static_at slot pose pub s)) = ss_index s" "fst (observe_static_at slot pose pub s) \<noteq> StaticDeclare"
proof -
  obtain v where v: "ss_kinds s ! slot = KindStatic \<Longrightarrow> ss_values s ! slot = Some v" using s i by (auto simp: statics_ok_def)
  have eq: "observe_static_at slot pose pub s = (if ss_kinds s ! slot = KindDynamic then (StaticKindChanged KindDynamic, s)
      else if same_pose (fst v) pose then (StaticIdempotent, s)
      else (StaticConflictVerdict (snd v) pub (fst v) pose (ss_reported s ! slot = 0),
        s\<lparr>ss_reported := (ss_reported s)[slot := ss_reported s ! slot + 1],
          ss_first_intruder := (if ss_reported s ! slot = 0 then (ss_first_intruder s)[slot := Some pub] else ss_first_intruder s),
          ss_conflicts := ss_conflicts s + 1\<rparr>))"
    using v by (cases "ss_kinds s ! slot") (auto simp: observe_static_at_def Let_def split: prod.split)
  show "ss_kinds (snd (observe_static_at slot pose pub s)) = ss_kinds s" "ss_values (snd (observe_static_at slot pose pub s)) = ss_values s"
    "ss_index (snd (observe_static_at slot pose pub s)) = ss_index s" "fst (observe_static_at slot pose pub s) \<noteq> StaticDeclare"
    by (simp_all add: eq)
  show "statics_ok keys (snd (observe_static_at slot pose pub s))"
    using s i v by (auto simp: eq statics_ok_def nth_list_update static_kind.exhaust split: if_splits) (metis static_kind.exhaust option.distinct(1))+
qed

subsection \<open>The authority under its invariant\<close>

definition id_known :: "authority \<Rightarrow> nat \<Rightarrow> bool" where
  "id_known a i \<longleftrightarrow> i < length (au_pubs a)"

definition reported_at :: "authority \<Rightarrow> nat \<times> nat \<times> nat \<Rightarrow> nat option" where
  "reported_at a = map_of (au_reported a)"

lemma reported_at_sel [simp]:
  "reported_at (a\<lparr>au_ids := x\<rparr>) = reported_at a" "reported_at (a\<lparr>au_pubs := y\<rparr>) = reported_at a"
  "reported_at (a\<lparr>au_owners := z\<rparr>) = reported_at a" "reported_at (a\<lparr>au_index := v\<rparr>) = reported_at a"
  "reported_at (a\<lparr>au_dropped := n\<rparr>) = reported_at a"
  "reported_at (a\<lparr>au_reported := AList.update k w (au_reported b)\<rparr>) = (reported_at b)(k \<mapsto> w)"
  by (simp_all add: reported_at_def AList.update_conv')

definition authority_ok :: "(name \<times> name) list \<Rightarrow> authority \<Rightarrow> bool" where
  "authority_ok keys a \<longleftrightarrow> slots_ok (au_index a) \<and> ei_keys (au_index a) = keys \<and> length (au_owners a) = length keys \<and>
     interner_ok (au_ids a) \<and> si_cap (au_ids a) = MAX_TRACKED_PUBLISHERS \<and> map publisher_key (au_pubs a) = si_names (au_ids a) \<and>
     distinct (map fst (au_reported a)) \<and>
     (\<forall>slot o_id i_id. reported_at a (slot, o_id, i_id) \<noteq> None \<longrightarrow>
        slot < length keys \<and> (id_known a o_id \<or> o_id = u32_max) \<and> (id_known a i_id \<or> i_id = u32_max))"

lemma authority_seeded_ok:
  assumes "length (tc_edges cfg) + 1 < EMPTY_ENTRY"
  shows "authority_ok (declared_keys cfg) (authority_seeded policy cfg)" "au_policy (authority_seeded policy cfg) = policy"
    "au_owners (authority_seeded policy cfg) = replicate (length (declared_keys cfg)) None"
    "au_reported (authority_seeded policy cfg) = []" "si_names (au_ids (authority_seeded policy cfg)) = []"
proof -
  let ?step = "\<lambda>e a. snd (authority_slot_or_insert (ec_key e) a)"
  define fine where "fine keys a \<longleftrightarrow> authority_ok keys a \<and> au_policy a = policy \<and> au_owners a = replicate (length keys) None \<and>
      au_reported a = [] \<and> si_names (au_ids a) = []" for keys a
  have step: "fine (if ec_key e \<in> set keys then keys else keys @ [ec_key e]) (?step e a)" if "fine keys a" "keys_room keys" for e keys a
  proof -
    have x: "slots_ok (au_index a)" "ei_keys (au_index a) = keys" "edge_index_room (au_index a)"
      using that by (simp_all add: fine_def authority_ok_def keys_room_def edge_index_room_def)
    show ?thesis
      using that(1) edge_get_None [OF x(1), of "ec_key e"] slots_insert [OF x(1,3), of "ec_key e"] x(2)
      by (cases "edge_get (au_index a) (ec_key e)")
        (auto simp: fine_def authority_ok_def authority_slot_or_insert_def Let_def id_known_def replicate_append_same reported_at_def)
  qed
  have "fine (first_keys keys (map ec_key es)) (fold ?step es a)" if "fine keys a" "length keys + length es + 1 < EMPTY_ENTRY" for keys a es
    using that
  proof (induction es arbitrary: keys a)
    case (Cons e es)
    have "keys_room keys" using Cons.prems(2) by (simp add: keys_room_def)
    from step [OF Cons.prems(1) this, of e] show ?case
      using Cons.IH [of "if ec_key e \<in> set keys then keys else keys @ [ec_key e]" "?step e a"] Cons.prems(2) by simp
  qed simp
  moreover have "fine [] ((authority_new policy)\<lparr>au_index := edge_index_with_capacity (length (tc_edges cfg))\<rparr>)"
  proof -
    have "ei_keys (edge_index_with_capacity (length (tc_edges cfg)) :: nat edge_index) = []" by (simp add: edge_index_with_capacity_def)
    moreover have "interner_ok (interner_with_cap MAX_TRACKED_PUBLISHERS)"
      by (rule interner_new_ok) (simp add: MAX_TRACKED_PUBLISHERS_def EMPTY_ENTRY_def u32_max_def)
    ultimately show ?thesis by (simp add: fine_def authority_ok_def authority_new_def slots_new interner_with_cap_def reported_at_def)
  qed
  ultimately have "fine (declared_keys cfg) (authority_seeded policy cfg)"
    using assms unfolding authority_seeded_def declared_keys_def by simp
  then show "authority_ok (declared_keys cfg) (authority_seeded policy cfg)" "au_policy (authority_seeded policy cfg) = policy"
    "au_owners (authority_seeded policy cfg) = replicate (length (declared_keys cfg)) None"
    "au_reported (authority_seeded policy cfg) = []" "si_names (au_ids (authority_seeded policy cfg)) = []"
    by (simp_all add: fine_def)
qed

lemma id_for_ok:
  assumes a: "authority_ok keys a"
  shows "authority_ok keys (snd (id_for p a))" "au_policy (snd (id_for p a)) = au_policy a" "au_owners (snd (id_for p a)) = au_owners a"
    "au_reported (snd (id_for p a)) = au_reported a" "au_index (snd (id_for p a)) = au_index a"
    "fst (id_for p a) = u32_max \<or> id_known (snd (id_for p a)) (fst (id_for p a))"
    "id_known a i \<Longrightarrow> id_known (snd (id_for p a)) i"
    "si_names (au_ids (snd (id_for p a))) = (if publisher_key p \<in> set (si_names (au_ids a)) \<or> MAX_TRACKED_PUBLISHERS \<le> length (si_names (au_ids a))
       then si_names (au_ids a) else si_names (au_ids a) @ [publisher_key p])"
    "fst (id_for p a) = u32_max \<longleftrightarrow> publisher_key p \<notin> set (si_names (au_ids (snd (id_for p a))))"
proof -
  let ?k = "publisher_key p" and ?ids = "au_ids a"
  have ids: "interner_ok ?ids" "si_cap ?ids = MAX_TRACKED_PUBLISHERS" "map publisher_key (au_pubs a) = si_names ?ids"
    using a by (simp_all add: authority_ok_def)
  then have len: "length (au_pubs a) = length (si_names ?ids)" by (metis length_map)
  note ik = intern_key_ok [OF ids(1), of ?k] intern_key_result [OF ids(1), of ?k]
  have small: "length (si_names (snd (intern_key ?k ?ids))) \<le> 64" using ik(1,2) ids(2) by (simp add: interner_ok_def MAX_TRACKED_PUBLISHERS_def)
  have facts: "authority_ok keys (snd (id_for p a)) \<and> au_policy (snd (id_for p a)) = au_policy a \<and> au_owners (snd (id_for p a)) = au_owners a \<and>
      au_reported (snd (id_for p a)) = au_reported a \<and> au_index (snd (id_for p a)) = au_index a \<and>
      au_ids (snd (id_for p a)) = snd (intern_key ?k ?ids) \<and> length (au_pubs a) \<le> length (au_pubs (snd (id_for p a))) \<and>
      (fst (id_for p a) = u32_max \<longleftrightarrow> ?k \<notin> set (si_names (snd (intern_key ?k ?ids)))) \<and>
      (fst (id_for p a) = u32_max \<or> id_known (snd (id_for p a)) (fst (id_for p a)))"
  proof (cases "fst (intern_key ?k ?ids)")
    case None
    then have none: "?k \<notin> set (si_names (snd (intern_key ?k ?ids)))" using ik(4) id_of_None [OF ik(1)] by simp
    then have names: "si_names (snd (intern_key ?k ?ids)) = si_names ?ids" using ik(3) by (auto split: if_splits)
    have eq: "id_for p a = (u32_max, a\<lparr>au_ids := snd (intern_key ?k ?ids)\<rparr>)" using None by (simp add: id_for_def Let_def case_prod_beta)
    show ?thesis unfolding eq using a ik(1,2) ids none names by (simp add: authority_ok_def id_known_def)
  next
    case (Some i)
    then have i: "i < length (si_names (snd (intern_key ?k ?ids)))" "si_names (snd (intern_key ?k ?ids)) ! i = ?k"
      using ik(4) id_of_iff [OF ik(1)] by auto
    then have there: "?k \<in> set (si_names (snd (intern_key ?k ?ids)))" "i \<noteq> u32_max" using small nth_mem [OF i(1)] by (auto simp: u32_max_def)
    define b where "b = a\<lparr>au_ids := snd (intern_key ?k ?ids)\<rparr>"
    have eq: "id_for p a = (i, if length (au_pubs a) \<le> i then b\<lparr>au_pubs := (resize (i + 1) Unattributed (au_pubs a))[i := p]\<rparr> else b)"
      using Some by (simp add: id_for_def Let_def b_def case_prod_beta)
    show ?thesis
    proof (cases "length (au_pubs a) \<le> i")
      case True
      then have new: "i = length (au_pubs a)" "si_names (snd (intern_key ?k ?ids)) = si_names ?ids @ [?k]"
        using i(1) ik(3) len by (auto split: if_splits)
      have "(resize (i + 1) Unattributed (au_pubs a))[i := p] = au_pubs a @ [p]" by (simp add: resize_def new(1))
      then have eq: "id_for p a = (i, b\<lparr>au_pubs := au_pubs a @ [p]\<rparr>)" using eq True by simp
      show ?thesis unfolding eq using a ik(1,2) ids there new by (auto simp: authority_ok_def id_known_def b_def less_Suc_eq)
    next
      case False
      then have names: "si_names (snd (intern_key ?k ?ids)) = si_names ?ids"
        using i ik(3) len in_set_conv_nth [of ?k "si_names ?ids"] by (auto simp: nth_append split: if_splits)
      have eq: "id_for p a = (i, b)" using eq False by simp
      show ?thesis unfolding eq using a ik(1,2) ids there names False by (simp add: authority_ok_def id_known_def b_def)
    qed
  qed
  then show "authority_ok keys (snd (id_for p a))" "au_policy (snd (id_for p a)) = au_policy a" "au_owners (snd (id_for p a)) = au_owners a"
    "au_reported (snd (id_for p a)) = au_reported a" "au_index (snd (id_for p a)) = au_index a"
    "fst (id_for p a) = u32_max \<or> id_known (snd (id_for p a)) (fst (id_for p a))"
    "id_known a i \<Longrightarrow> id_known (snd (id_for p a)) i"
    "si_names (au_ids (snd (id_for p a))) = (if publisher_key p \<in> set (si_names (au_ids a)) \<or> MAX_TRACKED_PUBLISHERS \<le> length (si_names (au_ids a))
       then si_names (au_ids a) else si_names (au_ids a) @ [publisher_key p])"
    "fst (id_for p a) = u32_max \<longleftrightarrow> publisher_key p \<notin> set (si_names (au_ids (snd (id_for p a))))"
    using ik(3) ids(2) by (auto simp: id_known_def)
qed

lemma record_conflict_ok:
  fixes p q :: bridge_publisher and a :: authority
  assumes a: "authority_ok keys a" and slot: "slot < length keys"
  defines "a1 \<equiv> snd (id_for p a)" and "o_id \<equiv> fst (id_for p a)"
  defines "a2 \<equiv> snd (id_for q a1)" and "i_id \<equiv> fst (id_for q a1)"
  shows "authority_ok keys (snd (record_conflict slot p q a))"
    "au_policy (snd (record_conflict slot p q a)) = au_policy a"
    "au_owners (snd (record_conflict slot p q a)) = au_owners a"
    "dom (reported_at (snd (record_conflict slot p q a))) = insert (slot, o_id, i_id) (dom (reported_at a))"
    "au_ids (snd (record_conflict slot p q a)) = au_ids a2" "au_pubs (snd (record_conflict slot p q a)) = au_pubs a2"
proof -
  note one = id_for_ok [OF a, where p = p, folded a1_def o_id_def]
  note two = id_for_ok [OF one(1), where p = q, folded a2_def i_id_def]
  let ?seen = "case map_of (au_reported a) (slot, o_id, i_id) of None \<Rightarrow> 0 | Some n \<Rightarrow> n"
  have eq: "snd (record_conflict slot p q a) =
      a2\<lparr>au_reported := AList.update (slot, o_id, i_id) (?seen + 1) (au_reported a2), au_dropped := au_dropped a2 + 1\<rparr>"
    using one(4) two(4) by (simp add: record_conflict_def Let_def a2_def a1_def o_id_def i_id_def case_prod_beta)
  have ids: "o_id = u32_max \<or> id_known a2 o_id" "i_id = u32_max \<or> id_known a2 i_id"
    "\<And>i. id_known a i \<Longrightarrow> id_known a2 i" using one(6,7) two(6,7) by blast+
  have k: "id_known (a2\<lparr>au_reported := r, au_dropped := d\<rparr>) = id_known a2" for r d by (simp add: id_known_def fun_eq_iff)
  show "authority_ok keys (snd (record_conflict slot p q a))"
    using two(1) ids slot unfolding authority_ok_def eq by (auto simp: k distinct_update)
  show "au_policy (snd (record_conflict slot p q a)) = au_policy a"
    "au_owners (snd (record_conflict slot p q a)) = au_owners a"
    "dom (reported_at (snd (record_conflict slot p q a))) = insert (slot, o_id, i_id) (dom (reported_at a))"
    "au_ids (snd (record_conflict slot p q a)) = au_ids a2" "au_pubs (snd (record_conflict slot p q a)) = au_pubs a2"
    using one(2,3,4) two(2,3,4) by (simp_all add: eq)
qed

text \<open>What \<open>admit_at\<close> decides: the owner stays, except that the first publisher becomes it and, under
  \<open>LastWriterWins\<close>, every new one does.\<close>

lemma admit_at_cases:
  assumes a: "authority_ok keys a" and slot: "slot < length keys"
  obtains (first) "au_owners a ! slot = None" "admit_at slot pub a = (Accept, a\<lparr>au_owners := (au_owners a)[slot := Some pub]\<rparr>)"
  | (same) q where "au_owners a ! slot = Some q" "same_publisher q pub" "admit_at slot pub a = (Accept, a)"
  | (taken) q where "au_owners a ! slot = Some q" "\<not> same_publisher q pub" "au_policy a = LastWriterWins"
      "admit_at slot pub a = (Accept, a\<lparr>au_owners := (au_owners a)[slot := Some pub]\<rparr>)"
  | (conflict) q v where "au_owners a ! slot = Some q" "\<not> same_publisher q pub" "au_policy a \<noteq> LastWriterWins"
      "v = Reject q pub (fst (record_conflict slot q pub a)) \<or> v = Fatal q pub (fst (record_conflict slot q pub a))"
      "admit_at slot pub a = (v, snd (record_conflict slot q pub a))"
proof (cases "au_owners a ! slot")
  case None
  then show thesis using first by (simp add: admit_at_def)
next
  case (Some q)
  then show thesis using same [of q] taken [of q] conflict [of q]
    by (cases "same_publisher q pub"; cases "au_policy a") (simp_all add: admit_at_def case_prod_beta)
qed

lemma admit_at_ok:
  assumes a: "authority_ok keys a" and slot: "slot < length keys"
  shows "authority_ok keys (snd (admit_at slot pub a))" "au_policy (snd (admit_at slot pub a)) = au_policy a"
    "fst (admit_at slot pub a) = Accept \<Longrightarrow> \<exists>q. au_owners (snd (admit_at slot pub a)) ! slot = Some q \<and> same_publisher q pub"
    "i \<noteq> slot \<Longrightarrow> au_owners (snd (admit_at slot pub a)) ! i = au_owners a ! i"
    "au_policy a \<noteq> LastWriterWins \<Longrightarrow> au_owners a ! slot = Some q \<Longrightarrow> au_owners (snd (admit_at slot pub a)) ! slot = Some q"
    "au_owners a ! slot = Some q \<Longrightarrow> au_policy a \<noteq> LastWriterWins \<Longrightarrow> fst (admit_at slot pub a) = Accept \<longleftrightarrow> same_publisher q pub"
proof -
  have upd: "authority_ok keys (a\<lparr>au_owners := (au_owners a)[slot := Some pub]\<rparr>)"
    using a by (simp add: authority_ok_def id_known_def)
  have len: "length (au_owners a) = length keys" using a by (simp add: authority_ok_def)
  have "authority_ok keys (snd (admit_at slot pub a)) \<and> au_policy (snd (admit_at slot pub a)) = au_policy a \<and>
    (fst (admit_at slot pub a) = Accept \<longrightarrow> (\<exists>q. au_owners (snd (admit_at slot pub a)) ! slot = Some q \<and> same_publisher q pub)) \<and>
    (i \<noteq> slot \<longrightarrow> au_owners (snd (admit_at slot pub a)) ! i = au_owners a ! i) \<and>
    (au_policy a \<noteq> LastWriterWins \<longrightarrow> au_owners a ! slot = Some q \<longrightarrow> au_owners (snd (admit_at slot pub a)) ! slot = Some q) \<and>
    (au_owners a ! slot = Some q \<longrightarrow> au_policy a \<noteq> LastWriterWins \<longrightarrow> (fst (admit_at slot pub a) = Accept \<longleftrightarrow> same_publisher q pub))"
    using a slot
  proof (cases rule: admit_at_cases [where pub = pub])
    case first
    then show ?thesis using upd slot len by (simp add: same_publisher_def)
  next
    case (same q)
    then show ?thesis using a by auto
  next
    case (taken q)
    then show ?thesis using upd slot len by (simp add: same_publisher_def)
  next
    case (conflict q v)
    then show ?thesis using record_conflict_ok [OF a slot, where p = q and q = pub] by auto
  qed
  then show "authority_ok keys (snd (admit_at slot pub a))" "au_policy (snd (admit_at slot pub a)) = au_policy a"
    "fst (admit_at slot pub a) = Accept \<Longrightarrow> \<exists>q. au_owners (snd (admit_at slot pub a)) ! slot = Some q \<and> same_publisher q pub"
    "i \<noteq> slot \<Longrightarrow> au_owners (snd (admit_at slot pub a)) ! i = au_owners a ! i"
    "au_policy a \<noteq> LastWriterWins \<Longrightarrow> au_owners a ! slot = Some q \<Longrightarrow> au_owners (snd (admit_at slot pub a)) ! slot = Some q"
    "au_owners a ! slot = Some q \<Longrightarrow> au_policy a \<noteq> LastWriterWins \<Longrightarrow> fst (admit_at slot pub a) = Accept \<longleftrightarrow> same_publisher q pub"
    by simp_all
qed

subsection \<open>The conflict report\<close>

lemma those_None: "those xs = None \<longleftrightarrow> None \<in> set xs"
  by (induction xs) (auto split: option.split)

text \<open>A conflict one side of which got no number.\<close>

definition unnumbered :: "authority \<Rightarrow> bool" where
  "unnumbered a \<longleftrightarrow> (\<exists>slot o_id i_id. reported_at a (slot, o_id, i_id) \<noteq> None \<and> (o_id = u32_max \<or> i_id = u32_max))"

lemma conflicts_panic:
  assumes "authority_ok keys a"
  shows "authority_conflicts a = None \<longleftrightarrow> unnumbered a"
proof -
  have p: "length (au_pubs a) = length (si_names (au_ids a))" "length (si_names (au_ids a)) \<le> 64"
    using assms by (auto simp: authority_ok_def interner_ok_def MAX_TRACKED_PUBLISHERS_def dest: arg_cong [of _ _ length])
  have "authority_conflicts a = None \<longleftrightarrow> (\<exists>key \<in> dom (reported_at a). conflict_row a key = None)"
    by (force simp: authority_conflicts_def those_None reported_at_def dom_map_of_conv_image_fst)
  also have "\<dots> \<longleftrightarrow> unnumbered a"
  proof
    assume "\<exists>key \<in> dom (reported_at a). conflict_row a key = None"
    then obtain slot o_id i_id where k: "reported_at a (slot, o_id, i_id) \<noteq> None" "conflict_row a (slot, o_id, i_id) = None" by auto
    have "slot < edge_len (au_index a) \<and> (o_id < length (au_pubs a) \<or> o_id = u32_max) \<and> (i_id < length (au_pubs a) \<or> i_id = u32_max)"
    proof -
      have "slot < length (ei_keys (au_index a)) \<and> (id_known a o_id \<or> o_id = u32_max) \<and> (id_known a i_id \<or> i_id = u32_max)"
        using assms k(1) unfolding authority_ok_def by blast
      then show ?thesis by (simp add: id_known_def edge_len_def)
    qed
    then have "o_id = u32_max \<or> i_id = u32_max" using k(2) by (auto simp: conflict_row_def split: if_splits prod.splits)
    then show "unnumbered a" using k(1) unfolding unnumbered_def by blast
  next
    assume "unnumbered a"
    then show "\<exists>key \<in> dom (reported_at a). conflict_row a key = None"
    proof -
      obtain slot o_id i_id where k: "reported_at a (slot, o_id, i_id) \<noteq> None" "o_id = u32_max \<or> i_id = u32_max"
        using \<open>unnumbered a\<close> unfolding unnumbered_def by blast
      then have "conflict_row a (slot, o_id, i_id) = None" using p by (auto simp: conflict_row_def u32_max_def)
      then show ?thesis using k(1) by blast
    qed
  qed
  finally show ?thesis .
qed

text \<open>The publishers that have a number, after one more asks for one.\<close>

definition numbered :: "name \<Rightarrow> name list \<Rightarrow> name list" where
  "numbered k ks = (if k \<in> set ks \<or> MAX_TRACKED_PUBLISHERS \<le> length ks then ks else ks @ [k])"

lemma record_conflict_numbers:
  assumes a: "authority_ok keys a" and slot: "slot < length keys"
  defines "ks \<equiv> si_names (au_ids a)" and "b \<equiv> \<lambda>p q. snd (record_conflict slot p q a)"
  shows "si_names (au_ids (b p q)) = numbered (publisher_key q) (numbered (publisher_key p) ks)"
    "unnumbered (b p q) \<longleftrightarrow> unnumbered a \<or> publisher_key p \<notin> set (numbered (publisher_key p) ks) \<or>
       publisher_key q \<notin> set (numbered (publisher_key q) (numbered (publisher_key p) ks))"
proof -
  note one = id_for_ok [OF a, where p = p]
  note two = id_for_ok [OF one(1), where p = q]
  note rec = record_conflict_ok [OF a slot, where p = p and q = q]
  have n1: "si_names (au_ids (snd (id_for p a))) = numbered (publisher_key p) ks" using one(8) by (simp add: numbered_def ks_def)
  have n2: "si_names (au_ids (snd (id_for q (snd (id_for p a))))) = numbered (publisher_key q) (numbered (publisher_key p) ks)"
    using two(8) n1 by (simp add: numbered_def)
  show "si_names (au_ids (b p q)) = numbered (publisher_key q) (numbered (publisher_key p) ks)" using rec(5) n2 by (simp add: b_def)
  let ?o = "fst (id_for p a)" and ?i = "fst (id_for q (snd (id_for p a)))"
  have "unnumbered (b p q) \<longleftrightarrow> (\<exists>slot' o' i'. (slot', o', i') \<in> dom (reported_at (b p q)) \<and> (o' = u32_max \<or> i' = u32_max))"
    by (auto simp: unnumbered_def)
  also have "\<dots> \<longleftrightarrow> unnumbered a \<or> ?o = u32_max \<or> ?i = u32_max" unfolding b_def rec(4) by (auto simp: unnumbered_def)
  also have "\<dots> \<longleftrightarrow> unnumbered a \<or> publisher_key p \<notin> set (numbered (publisher_key p) ks) \<or>
       publisher_key q \<notin> set (numbered (publisher_key q) (numbered (publisher_key p) ks))"
    using one(9) two(9) n1 n2 by simp
  finally show "unnumbered (b p q) \<longleftrightarrow> \<dots>" .
qed

lemma contenders_run:
  assumes "authority_ok keys a" "slot < length keys" "au_policy a \<noteq> LastWriterWins" "au_owners a ! slot = None"
    "si_names (au_ids a) = []" "au_reported a = []" "distinct (map publisher_key ps)"
  defines "run \<equiv> \<lambda>ps. fold (\<lambda>p a. snd (admit_at slot p a)) ps a"
  shows "authority_ok keys (run ps) \<and> au_policy (run ps) = au_policy a \<and> au_owners (run ps) ! slot = (case ps of [] \<Rightarrow> None | p # _ \<Rightarrow> Some p) \<and>
    si_names (au_ids (run ps)) = (if length ps \<le> 1 then [] else map publisher_key (take 64 ps)) \<and> (unnumbered (run ps) \<longleftrightarrow> 64 < length ps)"
  using assms(7)
proof (induction ps rule: rev_induct)
  case Nil
  then show ?case using assms by (simp add: run_def unnumbered_def reported_at_def)
next
  case (snoc q ps)
  then have IH: "authority_ok keys (run ps)" "au_policy (run ps) = au_policy a" "au_owners (run ps) ! slot = (case ps of [] \<Rightarrow> None | p # _ \<Rightarrow> Some p)"
    "si_names (au_ids (run ps)) = (if length ps \<le> 1 then [] else map publisher_key (take 64 ps))" "unnumbered (run ps) \<longleftrightarrow> 64 < length ps"
    by simp_all
  have step: "run (ps @ [q]) = snd (admit_at slot q (run ps))" by (simp add: run_def)
  note ok = admit_at_ok(1,2) [OF IH(1) assms(2), of q]
  show ?case
  proof (cases ps)
    case Nil
    then show ?thesis using IH ok step assms(2) by (simp add: admit_at_def unnumbered_def authority_ok_def)
  next
    case (Cons p rest)
    then have differ: "\<not> same_publisher p q" and q: "publisher_key q \<notin> set (map publisher_key ps)" using snoc.prems by (auto simp: same_publisher_def)
    have b: "snd (admit_at slot q (run ps)) = snd (record_conflict slot p q (run ps))"
      using IH(2,3) Cons differ assms(3) by (cases "au_policy a") (simp_all add: admit_at_def case_prod_beta)
    note num = record_conflict_numbers [OF IH(1) assms(2), of p q, folded b, folded step]
    have own: "au_owners (run (ps @ [q])) = au_owners (run ps)" using record_conflict_ok(3) [OF IH(1) assms(2), where p = p and q = q] by (simp add: step b)
    have first: "numbered (publisher_key p) (si_names (au_ids (run ps))) = map publisher_key (take 64 ps)"
      using IH(4) Cons by (cases rest) (auto simp: numbered_def MAX_TRACKED_PUBLISHERS_def)
    have q64: "publisher_key q \<notin> set (map publisher_key (take 64 ps))" using q set_take_subset [of 64 ps] by auto
    have second: "numbered (publisher_key q) (map publisher_key (take 64 ps)) = map publisher_key (take 64 (ps @ [q]))"
      using q64 by (auto simp: numbered_def MAX_TRACKED_PUBLISHERS_def)
    have there: "publisher_key p \<in> set (map publisher_key (take 64 ps))" using Cons by simp
    have last: "publisher_key q \<in> set (map publisher_key (take 64 (ps @ [q]))) \<longleftrightarrow> length ps < 64"
      using q64 by (auto simp: take_Cons')
    have names: "si_names (au_ids (run (ps @ [q]))) = map publisher_key (take 64 (ps @ [q]))" using num(1) first second by simp
    have "unnumbered (run (ps @ [q])) \<longleftrightarrow> unnumbered (run ps) \<or> \<not> length ps < 64" using num(2) unfolding first second last using there by simp
    then have "unnumbered (run (ps @ [q])) \<longleftrightarrow> 64 < length (ps @ [q])" using IH(5) by auto
    moreover have "au_owners (run (ps @ [q])) ! slot = Some p" using own IH(3) Cons by simp
    ultimately show ?thesis using ok IH(2) names Cons unfolding step by simp
  qed
qed


definition contested_config :: topology_config where
  "contested_config = topology_config_default\<lparr>tc_edges := [\<lparr>ec_parent = utf8 ''map'', ec_child = utf8 ''odom'',
     ec_shape = ShapeDynamic (RingSlots 16), ec_interp = None, ec_domain = None\<rparr>]\<rparr>"


end
