(* ===== verification/Bridge_Ingest.thy ===== *)
theory Bridge_Ingest
  imports Bridge_Tables "HOL-Library.List_Lexorder"
begin

text \<open>
  The decision pipeline of \<open>tf_tree_bridge/src/ingest.rs\<close>: every table of the bridge and the counters in one state,
  and \<open>offer\<close>, which pushes one transform through them in the order startup window, names, declared, kind, static
  value, authority, clock. A call that would panic is \<open>None\<close>.
\<close>

subsection \<open>Actions\<close>

datatype topic = TopicTf | TopicTfStatic

datatype drop_reason =
    DropBadName
  | DropNonMonotonic int
  | DropKindChange

datatype halt_reason =
    HaltAuthorityConflict bridge_publisher bridge_publisher
  | HaltClockReset int clock_evidence
  | HaltStartupConflicts nat nat

datatype action =
    ActPublish name name int wire_pose
  | ActStaticVerified name name
  | ActUndeclaredEdge name name bool
  | ActAuthorityConflict name name bridge_publisher bridge_publisher bool
  | ActStaticConflict name name bridge_publisher bridge_publisher wire_pose wire_pose bool
  | ActDrop drop_reason
  | ActHalt halt_reason
  | ActRecreateArena int clock_evidence

datatype resolved =
    ResDeclared nat
  | ResUndeclared name name
  | ResBadName

subsection \<open>Undeclared edges\<close>

type_synonym 'a by_edge = "(name \<times> (name \<times> 'a) list) list"

definition MAX_UNDECLARED_PARENTS :: nat where "MAX_UNDECLARED_PARENTS = 256"
definition MAX_UNDECLARED_CHILDREN :: nat where "MAX_UNDECLARED_CHILDREN = 256"
definition STARTUP_WINDOW_TRANSFORMS :: nat where "STARTUP_WINDOW_TRANSFORMS = 4096"

definition lookup_by_edge :: "'a by_edge \<Rightarrow> name \<Rightarrow> name \<Rightarrow> 'a option" where
  "lookup_by_edge m p c = Option.bind (map_of m p) (\<lambda>cs. map_of cs c)"

definition insert_by_edge :: "name \<Rightarrow> name \<Rightarrow> 'a \<Rightarrow> 'a by_edge \<Rightarrow> 'a by_edge" where
  "insert_by_edge p c v m = AList.update p (AList.update c v (case map_of m p of Some cs \<Rightarrow> cs | None \<Rightarrow> [])) m"

definition iter_by_edge :: "'a by_edge \<Rightarrow> (name \<times> name \<times> 'a) list" where
  "iter_by_edge m = concat (map (\<lambda>(p, cs). map (\<lambda>(c, v). (p, c, v)) (sort_key fst cs)) (sort_key fst m))"

subsection \<open>The pipeline\<close>

record ingest =
  in_names :: name_normalizer
  in_raw :: "nat edge_index"
  in_declared :: topology_config
  in_statics :: static_store
  in_authority :: authority
  in_clocks :: "clock_guard list"
  in_clock :: clock_policy
  in_offsets :: offset_table
  in_window_open :: bool
  in_stats :: bridge_stats
  in_undeclared :: "nat by_edge"

definition ingest_with_policies :: "topology_config \<Rightarrow> authority_policy \<Rightarrow> clock_policy \<Rightarrow> name option \<Rightarrow> ingest" where
  "ingest_with_policies cfg policy clock tf_prefix =
     (let nn = (case tf_prefix of None \<Rightarrow> normalizer_new | Some p \<Rightarrow> normalizer_with_prefix p);
          (declared, nn) = rewritten cfg nn;
          statics = statics_seeded declared;
          clocks = map (\<lambda>_. guard_with_threshold (cp_on_reset clock) (cp_reset_threshold clock)) [0..<static_slots statics]
      in \<lparr>in_names = nn, in_raw = edge_index_with_capacity (4 * static_slots statics), in_declared = declared, in_statics = statics,
          in_authority = authority_seeded policy declared, in_clocks = clocks, in_clock = clock,
          in_offsets = offset_table_new clock, in_window_open = True,
          in_stats = bridge_stats_default\<lparr>bs_queue_capacity := 100\<rparr>, in_undeclared = []\<rparr>)"

definition ingest_with :: "topology_config \<Rightarrow> authority_policy \<Rightarrow> on_clock_reset \<Rightarrow> name option \<Rightarrow> ingest" where
  "ingest_with cfg policy on_reset tf_prefix =
     ingest_with_policies cfg policy (clock_policy_default\<lparr>cp_on_reset := on_reset\<rparr>) tf_prefix"

definition ingest_new :: "topology_config \<Rightarrow> ingest" where
  "ingest_new cfg = ingest_with cfg FirstWriterWins ResetHalt None"

definition edge_names :: "nat \<Rightarrow> ingest \<Rightarrow> name \<times> name" where
  "edge_names slot s = names_of (in_statics s) slot"

definition starts_with_slash :: "name \<Rightarrow> nat" where
  "starts_with_slash n = (case n of c # _ \<Rightarrow> of_bool (c = SLASH) | [] \<Rightarrow> 0)"

definition resolve_names :: "sample_msg \<Rightarrow> ingest \<Rightarrow> resolved \<times> ingest" where
  "resolve_names m s =
     (let rp = sm_frame_id m; rc = sm_child_frame_id m
      in case edge_get (in_raw s) (rp, rc) of
           Some slot \<Rightarrow> (ResDeclared slot, s\<lparr>in_names := note_stripped (starts_with_slash rp + starts_with_slash rc) (in_names s)\<rparr>)
         | None \<Rightarrow>
             (let (np, nn) = normalize_name rp (in_names s); (nc, nn) = normalize_name rc nn; s = s\<lparr>in_names := nn\<rparr>
              in case (np, nc) of
                   (Inr p, Inr c) \<Rightarrow>
                     (case statics_resolve (nz_name p, nz_name c) (in_statics s) of
                        Some slot \<Rightarrow> (ResDeclared slot, s\<lparr>in_raw := snd (edge_insert (rp, rc) slot (in_raw s))\<rparr>)
                      | None \<Rightarrow> (ResUndeclared (nz_name p) (nz_name c), s))
                 | _ \<Rightarrow> (ResBadName, s)))"

definition count_undeclared :: "name \<Rightarrow> name \<Rightarrow> ingest \<Rightarrow> bool \<times> ingest" where
  "count_undeclared p c s =
     (let m = in_undeclared s;
          at_cap = (MAX_UNDECLARED_PARENTS \<le> length m \<or> (case map_of m p of Some cs \<Rightarrow> MAX_UNDECLARED_CHILDREN \<le> length cs | None \<Rightarrow> False))
      in case lookup_by_edge m p c of
           Some n \<Rightarrow> (False, s\<lparr>in_undeclared := insert_by_edge p c (n + 1) m\<rparr>)
         | None \<Rightarrow> if at_cap then (False, s) else (True, s\<lparr>in_undeclared := insert_by_edge p c 1 m\<rparr>))"

definition undeclared_edges :: "ingest \<Rightarrow> (name \<times> name \<times> nat) list" where
  "undeclared_edges s = iter_by_edge (in_undeclared s)"

definition forget_the_old_recording :: "ingest \<Rightarrow> ingest" where
  "forget_the_old_recording s = s\<lparr>in_clocks := map guard_forget (in_clocks s), in_offsets := offset_clear (in_offsets s)\<rparr>"

definition bump_stats :: "(bridge_stats \<Rightarrow> bridge_stats) \<Rightarrow> ingest \<Rightarrow> ingest" where
  "bump_stats f s = s\<lparr>in_stats := f (in_stats s)\<rparr>"

definition apply_clock_reset :: "int \<Rightarrow> clock_evidence \<Rightarrow> ingest \<Rightarrow> action \<times> ingest" where
  "apply_clock_reset delta evidence s =
     (let s = bump_stats (\<lambda>b. b\<lparr>bs_clock_resets := bs_clock_resets b + 1\<rparr>) s
      in case cp_on_reset (in_clock s) of
           ResetHalt \<Rightarrow> (ActHalt (HaltClockReset delta evidence), s)
         | ResetRecreate \<Rightarrow> (ActRecreateArena delta evidence, forget_the_old_recording s))"

definition note_time_jump :: "int \<Rightarrow> jump_kind \<Rightarrow> ingest \<Rightarrow> action \<times> ingest" where
  "note_time_jump delta kind s = apply_clock_reset delta (Reported kind) s"

definition close_startup_window :: "ingest \<Rightarrow> (action option \<times> ingest) option" where
  "close_startup_window s =
     (if \<not> in_window_open s then Some (None, s)
      else (let s = s\<lparr>in_window_open := False\<rparr>
            in if au_policy (in_authority s) \<noteq> Strict then Some (None, s)
               else (case authority_conflicts (in_authority s) of
                   None \<Rightarrow> None
                 | Some rows \<Rightarrow>
                     (let n_authority = min (length rows) u32_max; n_statics = min (length (conflicts_by_edge (in_statics s))) u32_max
                      in if n_authority = 0 \<and> n_statics = 0 then Some (None, s)
                         else Some (Some (ActHalt (HaltStartupConflicts n_authority n_statics)), s)))))"

definition note_message :: "ingest \<Rightarrow> ingest" where
  "note_message s = bump_stats (\<lambda>b. b\<lparr>bs_messages := bs_messages b + 1\<rparr>) s"

definition note_queue_depth :: "nat \<Rightarrow> ingest \<Rightarrow> ingest" where
  "note_queue_depth queued s = bump_stats (\<lambda>b. b\<lparr>bs_queue_high_water := max (bs_queue_high_water b) queued\<rparr>) s"

text \<open>\<open>offer\<close> from the clock on, from authority on, on a declared edge, and whole.\<close>

definition offer_clock :: "nat \<Rightarrow> sample_msg \<Rightarrow> bridge_publisher \<Rightarrow> ingest \<Rightarrow> action \<times> ingest" where
  "offer_clock slot m pub s =
     (let (common, offsets) = offset_observe (publisher_key pub) (sm_stamp_nanos m) (sm_received m) (in_offsets s);
          s = s\<lparr>in_offsets := offsets\<rparr>
      in case common of
           Some cm \<Rightarrow> apply_clock_reset (cm_delta_nanos cm) (CommonModeEvidence (cm_publishers cm))
                        (bump_stats (\<lambda>b. b\<lparr>bs_dropped_non_monotonic := bs_dropped_non_monotonic b + 1\<rparr>) s)
         | None \<Rightarrow>
             (let (verdict, guard) = guard_observe (sm_stamp_nanos m) (in_clocks s ! slot);
                  s = s\<lparr>in_clocks := (in_clocks s)[slot := guard]\<rparr>
              in case verdict of
                   ClockForward \<Rightarrow>
                     (let s = bump_stats (\<lambda>b. b\<lparr>bs_applied := bs_applied b + 1\<rparr>) s; (p, c) = edge_names slot s
                      in (ActPublish p c (sm_stamp_nanos m) (sm_pose m), s))
                 | ClockJitter by_nanos \<Rightarrow> (ActDrop (DropNonMonotonic by_nanos), bump_stats (\<lambda>b. b\<lparr>bs_dropped_non_monotonic := bs_dropped_non_monotonic b + 1\<rparr>) s)
                 | ClockReset by_nanos _ \<Rightarrow> (ActDrop (DropNonMonotonic by_nanos), bump_stats (\<lambda>b. b\<lparr>bs_dropped_non_monotonic := bs_dropped_non_monotonic b + 1\<rparr>) s)))"

definition offer_authority :: "nat \<Rightarrow> sample_msg \<Rightarrow> bridge_publisher \<Rightarrow> ingest \<Rightarrow> action \<times> ingest" where
  "offer_authority slot m pub s =
     (let (p, c) = edge_names slot s; (verdict, authority) = admit_at slot pub (in_authority s); s = s\<lparr>in_authority := authority\<rparr>;
          refused = (\<lambda>owner intruder first_time. (ActAuthorityConflict p c owner intruder first_time,
            bump_stats (\<lambda>b. b\<lparr>bs_dropped_authority := bs_dropped_authority b + 1\<rparr>) s))
      in case verdict of
           Accept \<Rightarrow> offer_clock slot m pub s
         | Reject owner intruder first_time \<Rightarrow> refused owner intruder first_time
         | Fatal owner intruder first_time \<Rightarrow> refused owner intruder first_time)"

definition offer_static :: "nat \<Rightarrow> sample_msg \<Rightarrow> bridge_publisher \<Rightarrow> ingest \<Rightarrow> action \<times> ingest" where
  "offer_static slot m pub s =
     (let (verdict, statics) = observe_static_at slot (sm_pose m) pub (in_statics s); s = s\<lparr>in_statics := statics\<rparr>; (p, c) = edge_names slot s;
          verified = (ActStaticVerified p c, bump_stats (\<lambda>b. b\<lparr>bs_static_verified := bs_static_verified b + 1\<rparr>) s)
      in case verdict of
           StaticIdempotent \<Rightarrow> verified
         | StaticDeclare \<Rightarrow> verified
         | StaticKindChanged _ \<Rightarrow> (ActDrop DropKindChange, bump_stats (\<lambda>b. b\<lparr>bs_dropped_kind_change := bs_dropped_kind_change b + 1\<rparr>) s)
         | StaticConflictVerdict owner intruder existing offered first_time \<Rightarrow>
             (ActStaticConflict p c owner intruder existing offered first_time,
              bump_stats (\<lambda>b. b\<lparr>bs_static_conflicts := bs_static_conflicts b + 1, bs_dropped_authority := bs_dropped_authority b + 1\<rparr>) s))"

definition offer_declared :: "topic \<Rightarrow> nat \<Rightarrow> sample_msg \<Rightarrow> bridge_publisher \<Rightarrow> ingest \<Rightarrow> action \<times> ingest" where
  "offer_declared topic slot m pub s =
     (if topic = TopicTf \<and> ss_kinds (in_statics s) ! slot = KindStatic
      then (ActDrop DropKindChange, bump_stats (\<lambda>b. b\<lparr>bs_dropped_kind_change := bs_dropped_kind_change b + 1\<rparr>) s)
      else if topic = TopicTfStatic then offer_static slot m pub s else offer_authority slot m pub s)"

definition offer_counted :: "topic \<Rightarrow> sample_msg \<Rightarrow> bridge_publisher \<Rightarrow> ingest \<Rightarrow> action \<times> ingest" where
  "offer_counted topic m pub s =
     (let s = bump_stats (\<lambda>b. b\<lparr>bs_transforms := bs_transforms b + 1\<rparr>) s; (r, s) = resolve_names m s
      in case r of
           ResDeclared slot \<Rightarrow> offer_declared topic slot m pub s
         | ResBadName \<Rightarrow> (ActDrop DropBadName, bump_stats (\<lambda>b. b\<lparr>bs_dropped_bad_name := bs_dropped_bad_name b + 1\<rparr>) s)
         | ResUndeclared p c \<Rightarrow>
             (let (first_time, s) = count_undeclared p c s
              in (ActUndeclaredEdge p c first_time, bump_stats (\<lambda>b. b\<lparr>bs_dropped_undeclared := bs_dropped_undeclared b + 1\<rparr>) s)))"

definition offer :: "topic \<Rightarrow> sample_msg \<Rightarrow> bridge_publisher \<Rightarrow> ingest \<Rightarrow> (action \<times> ingest) option" where
  "offer topic m pub s =
     (case (if in_window_open s \<and> STARTUP_WINDOW_TRANSFORMS \<le> bs_transforms (in_stats s) then close_startup_window s else Some (None, s)) of
        None \<Rightarrow> None
      | Some (Some halt, s) \<Rightarrow> Some (halt, s)
      | Some (None, s) \<Rightarrow> Some (offer_counted topic m pub s))"

subsection \<open>Runs\<close>

datatype ingest_event =
    EvOffer topic sample_msg bridge_publisher
  | EvTimeJump int jump_kind
  | EvCloseWindow
  | EvMessage
  | EvQueueDepth nat

fun ingest_step :: "ingest_event \<Rightarrow> ingest \<Rightarrow> (action option \<times> ingest) option" where
  "ingest_step (EvOffer topic m pub) s = map_option (map_prod Some id) (offer topic m pub s)"
| "ingest_step (EvTimeJump delta kind) s = Some (map_prod Some id (note_time_jump delta kind s))"
| "ingest_step EvCloseWindow s = close_startup_window s"
| "ingest_step EvMessage s = Some (None, note_message s)"
| "ingest_step (EvQueueDepth queued) s = Some (None, note_queue_depth queued s)"

text \<open>A run lists what happened with what was answered.\<close>

fun ingest_run :: "ingest_event list \<Rightarrow> ingest \<Rightarrow> ((ingest_event \<times> action option) list \<times> ingest) option" where
  "ingest_run [] s = Some ([], s)"
| "ingest_run (e # es) s =
     (case ingest_step e s of
        None \<Rightarrow> None
      | Some (a, s') \<Rightarrow> map_option (map_prod ((#) (e, a)) id) (ingest_run es s'))"

subsection \<open>Spellings\<close>

text \<open>The wire names that normalize to one frame, the declared edge a pair of wire names means, and the cache of
  pairs already resolved.\<close>

definition spellings :: "name option \<Rightarrow> name \<Rightarrow> name set" where
  "spellings p n = {raw. wire_name p raw = Some n}"

lemma spellings_few: "finite (spellings p n)" "card (spellings p n) \<le> 2"
proof -
  have "\<exists>b. spellings p n \<subseteq> {b, SLASH # b}"
  proof (cases "spellings p n = {}")
    case False
    then obtain raw where raw: "wire_name p raw = Some n" by (auto simp: spellings_def)
    have "r = fst (strip_slash raw) \<or> r = SLASH # fst (strip_slash raw)" if "wire_name p r = Some n" for r
      using wire_name_eq [OF raw, of r] that by (cases r) (auto simp: strip_slash_def split: if_splits)
    then show ?thesis by (auto simp: spellings_def)
  qed simp
  then obtain b where b: "spellings p n \<subseteq> {b, SLASH # b}" ..
  then show "finite (spellings p n)" by (rule finite_subset) simp
  have "card (spellings p n) \<le> card {b, SLASH # b}" using b by (intro card_mono) simp_all
  then show "card (spellings p n) \<le> 2" by (simp add: card_insert_if split: if_splits)
qed

definition wire_edge :: "name option \<Rightarrow> name \<times> name \<Rightarrow> (name \<times> name) option" where
  "wire_edge p raw = (case (wire_name p (fst raw), wire_name p (snd raw)) of (Some a, Some b) \<Rightarrow> Some (a, b) | _ \<Rightarrow> None)"

lemma wire_edges_few:
  assumes "distinct raws" "\<forall>raw \<in> set raws. \<exists>k \<in> set keys. wire_edge p raw = Some k"
  shows "length raws \<le> 4 * length keys"
proof -
  let ?S = "\<lambda>k. spellings p (fst k) \<times> spellings p (snd k)"
  have one: "finite (?S k) \<and> card (?S k) \<le> 4" for k
  proof -
    have "card (?S k) \<le> 2 * 2"
      unfolding card_cartesian_product by (rule mult_le_mono [OF spellings_few(2) spellings_few(2)])
    then show ?thesis by (simp add: spellings_few(1))
  qed
  have "set raws \<subseteq> (\<Union>k \<in> set keys. ?S k)"
  proof
    fix r assume "r \<in> set raws"
    then obtain k where "k \<in> set keys" "wire_edge p r = Some k" using assms(2) by blast
    then show "r \<in> (\<Union>k \<in> set keys. ?S k)"
      by (intro UN_I [of k]) (auto simp: wire_edge_def spellings_def mem_Times_iff split: option.splits)
  qed
  then have "card (set raws) \<le> card (\<Union>k \<in> set keys. ?S k)" using one by (intro card_mono) auto
  also have "\<dots> \<le> (\<Sum>k \<in> set keys. card (?S k))" by (rule card_UN_le) simp
  also have "\<dots> \<le> (\<Sum>k \<in> set keys. 4)" using one by (intro sum_mono) simp
  also have "\<dots> \<le> 4 * length keys" by (simp add: card_length)
  finally show ?thesis using assms(1) by (simp add: distinct_card)
qed

subsection \<open>The state invariant\<close>

definition edge_keys :: "ingest \<Rightarrow> (name \<times> name) list" where
  "edge_keys s = ei_keys (ss_index (in_statics s))"

definition raw_ok :: "(name \<times> name) list \<Rightarrow> name option \<Rightarrow> nat edge_index \<Rightarrow> bool" where
  "raw_ok keys p x \<longleftrightarrow> edge_index_ok x \<and>
     (\<forall>i < length (ei_keys x). ei_values x ! i < length keys \<and> wire_edge p (ei_keys x ! i) = Some (keys ! (ei_values x ! i)))"

definition tables_ok :: "ingest \<Rightarrow> bool" where
  "tables_ok s \<longleftrightarrow> statics_ok (edge_keys s) (in_statics s) \<and> authority_ok (edge_keys s) (in_authority s) \<and>
     declared_keys (in_declared s) = edge_keys s \<and> 4 * length (edge_keys s) + 1 < EMPTY_ENTRY \<and>
     length (in_clocks s) = length (edge_keys s) \<and> offsets_ok (in_offsets s) \<and> ot_policy (in_offsets s) = in_clock s \<and>
     normalizer_ok (in_names s) \<and> raw_ok (edge_keys s) (nn_prefix (in_names s)) (in_raw s)"

definition ingest_ok :: "ingest \<Rightarrow> bool" where
  "ingest_ok s \<longleftrightarrow> tables_ok s \<and> balanced (in_stats s)"

text \<open>The state between counting a transform and charging it to an outcome.\<close>

definition uncharged :: "bridge_stats \<Rightarrow> bool" where
  "uncharged b \<longleftrightarrow>
     bs_applied b + bs_static_verified b + bs_dropped_authority b + bs_dropped_non_monotonic b + bs_dropped_bad_name b +
       bs_dropped_kind_change b + bs_dropped_undeclared b + 1 = bs_transforms b"

lemma bump_stats_sel [simp]:
  "in_names (bump_stats f s) = in_names s" "in_raw (bump_stats f s) = in_raw s" "in_declared (bump_stats f s) = in_declared s"
  "in_statics (bump_stats f s) = in_statics s" "in_authority (bump_stats f s) = in_authority s" "in_clocks (bump_stats f s) = in_clocks s"
  "in_clock (bump_stats f s) = in_clock s" "in_offsets (bump_stats f s) = in_offsets s" "in_window_open (bump_stats f s) = in_window_open s"
  "in_stats (bump_stats f s) = f (in_stats s)" "in_undeclared (bump_stats f s) = in_undeclared s"
  "edge_keys (bump_stats f s) = edge_keys s" "edge_names slot (bump_stats f s) = edge_names slot s"
  by (simp_all add: bump_stats_def edge_keys_def edge_names_def)

lemma tables_bump [simp]: "tables_ok (bump_stats f s) = tables_ok s"
  by (simp add: tables_ok_def)

lemma edge_get_at: "edge_index_ok x \<Longrightarrow> edge_get x k = Some v \<longleftrightarrow> (\<exists>i < length (ei_keys x). ei_keys x ! i = k \<and> ei_values x ! i = v)"
  by (auto simp: edge_get_def edge_find_iff)

lemma raw_get:
  assumes "raw_ok keys p x" "edge_get x raw = Some slot"
  shows "slot < length keys" "wire_edge p raw = Some (keys ! slot)"
  using assms edge_get_at [of x raw slot] by (auto simp: raw_ok_def)

lemma raw_insert:
  assumes x: "raw_ok keys p x" and room: "4 * length keys + 1 < EMPTY_ENTRY" and new: "edge_get x raw = None"
    and slot: "slot < length keys" "wire_edge p raw = Some (keys ! slot)"
  shows "raw_ok keys p (snd (edge_insert raw slot x))"
proof -
  have ok: "edge_index_ok x" and none: "edge_find x raw = None" using x new by (simp_all add: raw_ok_def edge_get_def)
  have "distinct (ei_keys x)" using ok by (simp add: edge_index_ok_def table_ok_def)
  moreover have "\<forall>r \<in> set (ei_keys x). \<exists>k \<in> set keys. wire_edge p r = Some k"
    using x unfolding raw_ok_def by (metis in_set_conv_nth nth_mem)
  ultimately have "length (ei_keys x) \<le> 4 * length keys" by (rule wire_edges_few)
  then have r: "edge_index_room x" using room by (simp add: edge_index_room_def)
  have len: "length (ei_values x) = length (ei_keys x)" using ok by (simp add: edge_index_ok_def)
  show ?thesis using edge_insert_new [OF ok none r, of slot] x slot len by (auto simp: raw_ok_def nth_append less_Suc_eq)
qed

subsection \<open>Names and declared edges\<close>

text \<open>What resolving a sample's names gives, without the cache.\<close>

definition resolved_edge :: "name option \<Rightarrow> (name \<times> name) list \<Rightarrow> name \<times> name \<Rightarrow> resolved" where
  "resolved_edge p keys raw =
     (case wire_edge p raw of
        None \<Rightarrow> ResBadName
      | Some k \<Rightarrow> (case find (\<lambda>i. keys ! i = k) [0..<length keys] of Some slot \<Rightarrow> ResDeclared slot | None \<Rightarrow> ResUndeclared (fst k) (snd k)))"

lemma find_slot:
  assumes "distinct keys"
  shows "find (\<lambda>i. keys ! i = k) [0..<length keys] = Some slot \<longleftrightarrow> slot < length keys \<and> keys ! slot = k"
    "find (\<lambda>i. keys ! i = k) [0..<length keys] = None \<longleftrightarrow> k \<notin> set keys"
proof -
  have u: "i = j" if "i < length keys" "j < length keys" "keys ! i = keys ! j" for i j using that assms by (simp add: nth_eq_iff_index_eq)
  show none: "find (\<lambda>i. keys ! i = k) [0..<length keys] = None \<longleftrightarrow> k \<notin> set keys" by (auto simp: find_None_iff in_set_conv_nth)
  show "find (\<lambda>i. keys ! i = k) [0..<length keys] = Some slot \<longleftrightarrow> slot < length keys \<and> keys ! slot = k" (is "?l \<longleftrightarrow> ?r")
  proof
    assume ?l then show ?r by (auto simp: find_Some_iff)
  next
    assume r: ?r
    then obtain j where j: "find (\<lambda>i. keys ! i = k) [0..<length keys] = Some j" using none by (metis not_None_eq nth_mem)
    then have "j < length keys" "keys ! j = k" by (auto simp: find_Some_iff)
    then show ?l using j u [of j slot] r by simp
  qed
qed

lemma resolved_edge_declared:
  assumes "slots_ok x"
  shows "resolved_edge p (ei_keys x) raw = (case wire_edge p raw of
      None \<Rightarrow> ResBadName
    | Some k \<Rightarrow> (case edge_get x k of Some slot \<Rightarrow> ResDeclared slot | None \<Rightarrow> ResUndeclared (fst k) (snd k)))"
proof (cases "wire_edge p raw")
  case (Some k)
  have d: "distinct (ei_keys x)" using assms by (simp add: slots_ok_def edge_index_ok_def table_ok_def)
  then have "find (\<lambda>i. ei_keys x ! i = k) [0..<length (ei_keys x)] = edge_get x k"
    using find_slot [OF d, of k] edge_get_slot [OF assms, of k] edge_get_None [OF assms, of k] by (cases "edge_get x k") auto
  then show ?thesis using Some by (simp add: resolved_edge_def)
qed (simp add: resolved_edge_def)

lemma resolve_names_ok:
  assumes s: "tables_ok s"
  shows "fst (resolve_names m s) = resolved_edge (nn_prefix (in_names s)) (edge_keys s) (sample_edge m)"
    "\<exists>nn x. snd (resolve_names m s) = s\<lparr>in_names := nn, in_raw := x\<rparr> \<and> nn_prefix nn = nn_prefix (in_names s) \<and> normalizer_ok nn \<and>
       raw_ok (edge_keys s) (nn_prefix nn) x"
proof -
  let ?p = "nn_prefix (in_names s)" and ?raw = "(sm_frame_id m, sm_child_frame_id m)" and ?x = "ss_index (in_statics s)"
  let ?np = "normalize_name (sm_frame_id m) (in_names s)"
  let ?nc = "normalize_name (sm_child_frame_id m) (snd ?np)"
  have nn: "normalizer_ok (in_names s)" "raw_ok (edge_keys s) ?p (in_raw s)" "slots_ok ?x" "4 * length (edge_keys s) + 1 < EMPTY_ENTRY"
    using s unfolding tables_ok_def statics_ok_def by blast+
  note edge = resolved_edge_declared [OF nn(3), of ?p ?raw, folded edge_keys_def]
  have "fst (resolve_names m s) = resolved_edge ?p (edge_keys s) ?raw \<and>
    (\<exists>nn x. snd (resolve_names m s) = s\<lparr>in_names := nn, in_raw := x\<rparr> \<and> nn_prefix nn = ?p \<and> normalizer_ok nn \<and> raw_ok (edge_keys s) (nn_prefix nn) x)"
  proof (cases "edge_get (in_raw s) ?raw")
    case (Some slot)
    let ?nn = "note_stripped (starts_with_slash (sm_frame_id m) + starts_with_slash (sm_child_frame_id m)) (in_names s)"
    have eq: "resolve_names m s = (ResDeclared slot, s\<lparr>in_names := ?nn, in_raw := in_raw s\<rparr>)"
      using Some by (simp add: resolve_names_def Let_def)
    have "edge_get ?x (edge_keys s ! slot) = Some slot"
      using edge_get_slot [OF nn(3)] raw_get [OF nn(2) Some] by (simp add: edge_keys_def)
    then have "resolved_edge ?p (edge_keys s) ?raw = ResDeclared slot" using edge raw_get(2) [OF nn(2) Some] by simp
    moreover have "nn_prefix ?nn = ?p" "normalizer_ok ?nn" using nn(1) by (simp_all add: note_stripped_ok)
    ultimately show ?thesis unfolding eq using nn(2) by (metis fst_conv snd_conv)
  next
    case None
    let ?nn = "snd ?nc"
    have keep: "nn_prefix ?nn = ?p" "normalizer_ok ?nn" using nn(1) by (simp_all add: normalize_ok)
    have eq: "resolve_names m s = (let s' = s\<lparr>in_names := ?nn\<rparr> in case (fst ?np, fst ?nc) of
         (Inr p, Inr c) \<Rightarrow> (case edge_get ?x (nz_name p, nz_name c) of
              Some slot \<Rightarrow> (ResDeclared slot, s'\<lparr>in_raw := snd (edge_insert ?raw slot (in_raw s))\<rparr>)
            | None \<Rightarrow> (ResUndeclared (nz_name p) (nz_name c), s'))
       | _ \<Rightarrow> (ResBadName, s'))"
      using None by (simp add: resolve_names_def Let_def case_prod_beta statics_resolve_def split: sum.split option.split)
    show ?thesis
    proof (cases "\<exists>p c. fst ?np = Inr p \<and> fst ?nc = Inr c")
      case True
      then obtain p c :: normalized where pc: "fst ?np = Inr p" "fst ?nc = Inr c" by blast
      then have w: "wire_edge ?p ?raw = Some (nz_name p, nz_name c)"
        using normalize_Inr [OF pc(1)] normalize_Inr [OF pc(2)] by (simp add: wire_edge_def)
      show ?thesis
      proof (cases "edge_get ?x (nz_name p, nz_name c)")
        case n: None
        then have "resolve_names m s = (ResUndeclared (nz_name p) (nz_name c), s\<lparr>in_names := ?nn, in_raw := in_raw s\<rparr>)"
          using eq pc by (simp add: Let_def)
        moreover have "resolved_edge ?p (edge_keys s) ?raw = ResUndeclared (nz_name p) (nz_name c)" using edge w n by simp
        ultimately show ?thesis using keep nn(2) by (metis fst_conv snd_conv)
      next
        case slot: (Some slot)
        then have at: "slot < length (edge_keys s)" "edge_keys s ! slot = (nz_name p, nz_name c)"
          using edge_get_slot [OF nn(3)] by (simp_all add: edge_keys_def)
        let ?y = "snd (edge_insert ?raw slot (in_raw s))"
        have "raw_ok (edge_keys s) ?p ?y" using raw_insert [OF nn(2,4) None at(1)] w at(2) by simp
        moreover have "resolve_names m s = (ResDeclared slot, s\<lparr>in_names := ?nn, in_raw := ?y\<rparr>)" using eq pc slot by (simp add: Let_def)
        moreover have "resolved_edge ?p (edge_keys s) ?raw = ResDeclared slot" using edge w slot by simp
        ultimately show ?thesis using keep by (metis fst_conv snd_conv)
      qed
    next
      case False
      then obtain e where "fst ?np = Inl e \<or> fst ?nc = Inl e" by (metis sum.exhaust)
      then have "wire_name ?p (sm_frame_id m) = None \<or> wire_name ?p (sm_child_frame_id m) = None" by (simp add: normalize_Inl)
      then have "wire_edge ?p ?raw = None" by (auto simp: wire_edge_def split: option.split)
      moreover have "resolve_names m s = (ResBadName, s\<lparr>in_names := ?nn, in_raw := in_raw s\<rparr>)"
        unfolding eq using False by (auto simp: Let_def split: sum.splits)
      moreover have "resolved_edge ?p (edge_keys s) ?raw = ResBadName" using edge calculation(1) by simp
      ultimately show ?thesis using keep nn(2) by (metis fst_conv snd_conv)
    qed
  qed
  then show "fst (resolve_names m s) = resolved_edge ?p (edge_keys s) (sample_edge m)"
    "\<exists>nn x. snd (resolve_names m s) = s\<lparr>in_names := nn, in_raw := x\<rparr> \<and> nn_prefix nn = ?p \<and> normalizer_ok nn \<and> raw_ok (edge_keys s) (nn_prefix nn) x"
    by (simp_all add: sample_edge_def)
qed

subsection \<open>One step\<close>

text \<open>What no step changes, and the newest stamp and the owner of an edge.\<close>

definition fixed_part :: "ingest \<Rightarrow> topology_config \<times> clock_policy \<times> name option \<times> authority_policy \<times> static_kind list \<times> (name \<times> name) list" where
  "fixed_part s = (in_declared s, in_clock s, nn_prefix (in_names s), au_policy (in_authority s), ss_kinds (in_statics s), edge_keys s)"

definition newest :: "ingest \<Rightarrow> nat \<Rightarrow> int option" where
  "newest s slot = cg_newest (in_clocks s ! slot)"

definition owner_at :: "ingest \<Rightarrow> nat \<Rightarrow> bridge_publisher option" where
  "owner_at s slot = au_owners (in_authority s) ! slot"

definition owners_stay :: "ingest \<Rightarrow> ingest \<Rightarrow> bool" where
  "owners_stay s s' \<longleftrightarrow> (\<forall>i < length (edge_keys s). \<forall>q. au_policy (in_authority s) \<noteq> LastWriterWins \<longrightarrow> owner_at s i = Some q \<longrightarrow> owner_at s' i = Some q)"

definition clocks_grow :: "ingest \<Rightarrow> ingest \<Rightarrow> bool" where
  "clocks_grow s s' \<longleftrightarrow> (\<forall>i < length (edge_keys s). \<forall>x. newest s i = Some x \<longrightarrow> (\<exists>y \<ge> x. newest s' i = Some y))"

definition publishes_well :: "ingest \<Rightarrow> bridge_publisher \<Rightarrow> action \<Rightarrow> ingest \<Rightarrow> bool" where
  "publishes_well s pub a s' \<longleftrightarrow> (\<forall>p c stamp pose. a = ActPublish p c stamp pose \<longrightarrow>
     (\<exists>slot < length (edge_keys s). edge_keys s ! slot = (p, c) \<and> ss_kinds (in_statics s) ! slot = KindDynamic \<and>
        (\<forall>x. newest s slot = Some x \<longrightarrow> x \<le> stamp) \<and> newest s' slot = Some stamp \<and>
        (\<exists>q. owner_at s' slot = Some q \<and> same_publisher q pub)))"

definition step_fine :: "ingest \<Rightarrow> bridge_publisher \<Rightarrow> action \<Rightarrow> ingest \<Rightarrow> bool" where
  "step_fine s pub a s' \<longleftrightarrow> ingest_ok s' \<and> fixed_part s' = fixed_part s \<and> owners_stay s s' \<and>
     ((\<forall>d ev. a \<noteq> ActRecreateArena d ev) \<longrightarrow> clocks_grow s s') \<and> publishes_well s pub a s'"

lemma step_fine_after:
  assumes "step_fine s1 pub a s'" "fixed_part s1 = fixed_part s" "owners_stay s s1" "in_clocks s1 = in_clocks s"
  shows "step_fine s pub a s'"
proof -
  have fp: "edge_keys s1 = edge_keys s" "ss_kinds (in_statics s1) = ss_kinds (in_statics s)" "au_policy (in_authority s1) = au_policy (in_authority s)"
    using assms(2) by (simp_all add: fixed_part_def)
  have n: "newest s1 = newest s" using assms(4) by (simp add: newest_def fun_eq_iff)
  have "owners_stay s s'" using assms(1,3) fp unfolding step_fine_def owners_stay_def by metis
  then show ?thesis using assms(1,2) fp n by (simp add: step_fine_def clocks_grow_def publishes_well_def)
qed

text \<open>An answer that is not a publication, after which only tables other than the clocks changed.\<close>

lemma step_fine_quiet:
  assumes "ingest_ok s'" "fixed_part s' = fixed_part s" "owners_stay s s'" "in_clocks s' = in_clocks s"
    "\<And>p c stamp pose. a \<noteq> ActPublish p c stamp pose"
  shows "step_fine s pub a s'"
  using assms by (auto simp: step_fine_def clocks_grow_def publishes_well_def newest_def)

lemma owners_stay_refl [simp]: "owners_stay s s"
  by (simp add: owners_stay_def)

lemma owners_stay_same [simp]: "in_authority s' = in_authority s \<Longrightarrow> owners_stay s s'"
  by (simp add: owners_stay_def owner_at_def)

text \<open>Charging a counted transform.\<close>

lemma charged:
  assumes "uncharged b"
  shows "balanced (b\<lparr>bs_applied := bs_applied b + 1\<rparr>)" "balanced (b\<lparr>bs_static_verified := bs_static_verified b + 1\<rparr>)"
    "balanced (b\<lparr>bs_dropped_authority := bs_dropped_authority b + 1\<rparr>)"
    "balanced (b\<lparr>bs_dropped_non_monotonic := bs_dropped_non_monotonic b + 1\<rparr>)"
    "balanced (b\<lparr>bs_dropped_bad_name := bs_dropped_bad_name b + 1\<rparr>)" "balanced (b\<lparr>bs_dropped_kind_change := bs_dropped_kind_change b + 1\<rparr>)"
    "balanced (b\<lparr>bs_dropped_undeclared := bs_dropped_undeclared b + 1\<rparr>)"
    "balanced (b\<lparr>bs_static_conflicts := n, bs_dropped_authority := bs_dropped_authority b + 1\<rparr>)"
  using assms by (simp_all add: uncharged_def balanced_def)

lemma balanced_others [simp]:
  "balanced (b\<lparr>bs_clock_resets := n\<rparr>) = balanced b" "balanced (b\<lparr>bs_messages := n\<rparr>) = balanced b"
  "balanced (b\<lparr>bs_queue_high_water := n\<rparr>) = balanced b"
  by (simp_all add: balanced_def)

lemma forget_ok:
  assumes "tables_ok s"
  shows "tables_ok (forget_the_old_recording s)" "fixed_part (forget_the_old_recording s) = fixed_part s"
    "in_authority (forget_the_old_recording s) = in_authority s" "in_stats (forget_the_old_recording s) = in_stats s"
proof -
  have "ot_policy (offset_clear t) = ot_policy t" for t by (simp add: offset_clear_def)
  then show "tables_ok (forget_the_old_recording s)"
    using assms offset_clear_ok unfolding tables_ok_def by (simp add: forget_the_old_recording_def edge_keys_def)
qed (simp_all add: forget_the_old_recording_def fixed_part_def edge_keys_def)

lemma apply_clock_reset_ok:
  assumes "tables_ok s" "balanced (in_stats s)"
  shows "step_fine s pub (fst (apply_clock_reset delta ev s)) (snd (apply_clock_reset delta ev s))"
proof (cases "cp_on_reset (in_clock s)")
  case ResetHalt
  then show ?thesis using assms
    by (intro step_fine_quiet) (simp_all add: apply_clock_reset_def Let_def ingest_ok_def fixed_part_def)
next
  case ResetRecreate
  define s1 where "s1 = bump_stats (\<lambda>b. b\<lparr>bs_clock_resets := bs_clock_resets b + 1\<rparr>) s"
  have s1: "tables_ok s1" "balanced (in_stats s1)" "fixed_part s1 = fixed_part s" "in_authority s1 = in_authority s"
    using assms by (simp_all add: s1_def fixed_part_def)
  have eq: "apply_clock_reset delta ev s = (ActRecreateArena delta ev, forget_the_old_recording s1)"
    using ResetRecreate by (simp add: apply_clock_reset_def Let_def s1_def)
  show ?thesis using forget_ok [OF s1(1)] s1 by (simp add: eq step_fine_def ingest_ok_def publishes_well_def)
qed

lemma edge_names_at: "edge_names slot s = edge_keys s ! slot"
  by (simp add: edge_names_def names_of_def edge_key_def edge_keys_def)

lemma tables_offsets: "tables_ok s \<Longrightarrow> tables_ok (s\<lparr>in_offsets := snd (offset_observe k stamp received (in_offsets s))\<rparr>)"
  using offset_observe_ok [of "in_offsets s" k stamp received] unfolding tables_ok_def by (simp add: edge_keys_def)

lemma tables_clocks: "tables_ok s \<Longrightarrow> tables_ok (s\<lparr>in_clocks := (in_clocks s)[slot := g]\<rparr>)"
  unfolding tables_ok_def by (simp add: edge_keys_def)

lemma tables_authority:
  assumes "tables_ok s" "slot < length (edge_keys s)"
  shows "tables_ok (s\<lparr>in_authority := snd (admit_at slot pub (in_authority s))\<rparr>)"
  using assms admit_at_ok(1) [of "edge_keys s" "in_authority s" slot pub] unfolding tables_ok_def by (simp add: edge_keys_def)

lemma tables_statics:
  fixes pub :: bridge_publisher and pose :: wire_pose
  assumes "tables_ok s" "slot < length (edge_keys s)"
  defines "st \<equiv> snd (observe_static_at slot pose pub (in_statics s))"
  shows "tables_ok (s\<lparr>in_statics := st\<rparr>)" "fixed_part (s\<lparr>in_statics := st\<rparr>) = fixed_part s"
proof -
  have ok: "statics_ok (edge_keys s) (in_statics s)" using assms(1) by (simp add: tables_ok_def)
  note at = observe_static_at_ok [OF ok assms(2), of pose pub, folded st_def]
  have k: "edge_keys (s\<lparr>in_statics := st\<rparr>) = edge_keys s" using at(4) by (simp add: edge_keys_def)
  show "tables_ok (s\<lparr>in_statics := st\<rparr>)" using assms(1) at(1) k unfolding tables_ok_def by simp
  show "fixed_part (s\<lparr>in_statics := st\<rparr>) = fixed_part s" using at(2) k by (simp add: fixed_part_def)
qed

text \<open>The clock step: the offset rule first, then the guard of the edge.\<close>

lemma offer_clock_outcome:
  fixes m :: sample_msg and pub :: bridge_publisher
  assumes "tables_ok s" "slot < length (edge_keys s)"
  defines "observed \<equiv> offset_observe (publisher_key pub) (sm_stamp_nanos m) (sm_received m) (in_offsets s)"
  obtains (common) cm where "fst observed = Some cm"
      "offer_clock slot m pub s = apply_clock_reset (cm_delta_nanos cm) (CommonModeEvidence (cm_publishers cm))
         (bump_stats (\<lambda>b. b\<lparr>bs_dropped_non_monotonic := bs_dropped_non_monotonic b + 1\<rparr>) (s\<lparr>in_offsets := snd observed\<rparr>))"
  | (forward) g where "fst observed = None" "cg_newest g = Some (sm_stamp_nanos m)" "\<forall>x. newest s slot = Some x \<longrightarrow> x \<le> sm_stamp_nanos m"
      "offer_clock slot m pub s = (ActPublish (fst (edge_keys s ! slot)) (snd (edge_keys s ! slot)) (sm_stamp_nanos m) (sm_pose m),
         bump_stats (\<lambda>b. b\<lparr>bs_applied := bs_applied b + 1\<rparr>) (s\<lparr>in_offsets := snd observed, in_clocks := (in_clocks s)[slot := g]\<rparr>))"
  | (behind) g n by_nanos where "fst observed = None" "cg_newest g = Some n" "newest s slot = Some n" "sm_stamp_nanos m < n"
      "offer_clock slot m pub s = (ActDrop (DropNonMonotonic by_nanos),
         bump_stats (\<lambda>b. b\<lparr>bs_dropped_non_monotonic := bs_dropped_non_monotonic b + 1\<rparr>)
           (s\<lparr>in_offsets := snd observed, in_clocks := (in_clocks s)[slot := g]\<rparr>))"
proof (cases "fst observed")
  case (Some cm)
  then show thesis by (intro common [of cm]) (simp_all add: offer_clock_def Let_def case_prod_beta observed_def)
next
  case None
  let ?g = "in_clocks s ! slot"
  show thesis
  proof (cases rule: guard_observe_cases [of "sm_stamp_nanos m" ?g])
    case forward: forward
    show ?thesis
      by (rule that(2) [of "?g\<lparr>cg_newest := Some (sm_stamp_nanos m)\<rparr>"])
        (use None forward in \<open>simp_all add: offer_clock_def Let_def case_prod_beta newest_def edge_names_at edge_keys_def flip: observed_def\<close>)
  next
    case b: (behind v g n)
    then show ?thesis
      by (cases v) (auto intro!: that(3) [of g n] simp: None offer_clock_def Let_def case_prod_beta newest_def simp flip: observed_def)
  qed
qed

lemma offer_clock_ok:
  assumes s: "tables_ok s" "uncharged (in_stats s)" and slot: "slot < length (edge_keys s)" "ss_kinds (in_statics s) ! slot = KindDynamic"
    and own: "owner_at s slot = Some q" "same_publisher q pub"
  shows "step_fine s pub (fst (offer_clock slot m pub s)) (snd (offer_clock slot m pub s))"
proof -
  have len: "length (in_clocks s) = length (edge_keys s)" using s(1) by (simp add: tables_ok_def)
  note off = tables_offsets [OF s(1), of "publisher_key pub" "sm_stamp_nanos m" "sm_received m"]
  show ?thesis using s(1) slot(1)
  proof (cases rule: offer_clock_outcome [where pub = pub and m = m])
    case (common cm)
    show ?thesis unfolding common(2)
      by (rule step_fine_after [OF apply_clock_reset_ok]) (use off charged(4) [OF s(2)] in \<open>simp_all add: fixed_part_def edge_keys_def\<close>)
  next
    case (forward g)
    have "tables_ok (snd (offer_clock slot m pub s))" unfolding forward(4) using tables_clocks [OF off, of slot g] by simp
    then show ?thesis using charged(1) [OF s(2)] forward(2,3) slot own len
      by (auto simp: forward(4) step_fine_def ingest_ok_def fixed_part_def edge_keys_def clocks_grow_def publishes_well_def newest_def
          owner_at_def nth_list_update)
  next
    case (behind g n by_nanos)
    have "tables_ok (snd (offer_clock slot m pub s))" unfolding behind(5) using tables_clocks [OF off, of slot g] by simp
    then show ?thesis using charged(4) [OF s(2)] behind(2,3) slot len
      by (auto simp: behind(5) step_fine_def ingest_ok_def fixed_part_def edge_keys_def clocks_grow_def publishes_well_def newest_def
          nth_list_update)
  qed
qed

lemma offer_authority_ok:
  assumes s: "tables_ok s" "uncharged (in_stats s)" and slot: "slot < length (edge_keys s)" "ss_kinds (in_statics s) ! slot = KindDynamic"
  shows "step_fine s pub (fst (offer_authority slot m pub s)) (snd (offer_authority slot m pub s))"
proof -
  let ?r = "admit_at slot pub (in_authority s)"
  let ?s = "s\<lparr>in_authority := snd ?r\<rparr>"
  have a: "authority_ok (edge_keys s) (in_authority s)" using s(1) by (simp add: tables_ok_def)
  note at = admit_at_ok [OF a slot(1), where pub = pub]
  have tables: "tables_ok ?s" using s(1) slot(1) by (rule tables_authority)
  have fp: "fixed_part ?s = fixed_part s" "edge_keys ?s = edge_keys s" using at(2) by (simp_all add: fixed_part_def edge_keys_def)
  have own: "owners_stay s ?s"
    unfolding owners_stay_def owner_at_def
  proof clarify
    fix i q assume "au_policy (in_authority s) \<noteq> LastWriterWins" "au_owners (in_authority s) ! i = Some q"
    then show "au_owners (in_authority ?s) ! i = Some q" using at(4) [of i] at(5) [of q] by (cases "i = slot") simp_all
  qed
  show ?thesis
  proof (cases "fst ?r = Accept")
    case True
    then obtain q where q: "owner_at ?s slot = Some q" "same_publisher q pub" using at(3) by (auto simp: owner_at_def)
    have eq: "offer_authority slot m pub s = offer_clock slot m pub ?s"
      using True by (simp add: offer_authority_def Let_def case_prod_beta)
    have "step_fine ?s pub (fst (offer_clock slot m pub ?s)) (snd (offer_clock slot m pub ?s))"
      using offer_clock_ok [OF tables _ _ _ q] s(2) slot fp(2) by simp
    then show ?thesis unfolding eq using fp(1) own by (rule step_fine_after) simp
  next
    case False
    have "\<exists>owner first_time. offer_authority slot m pub s = (ActAuthorityConflict (fst (edge_names slot s)) (snd (edge_names slot s)) owner pub first_time,
        bump_stats (\<lambda>b. b\<lparr>bs_dropped_authority := bs_dropped_authority b + 1\<rparr>) ?s)"
      using a slot(1)
    proof (cases rule: admit_at_cases [where pub = pub])
      case (conflict q v)
      then show ?thesis by (auto simp: offer_authority_def Let_def case_prod_beta)
    qed (use False in simp_all)
    then obtain owner first_time where eq: "offer_authority slot m pub s =
        (ActAuthorityConflict (fst (edge_names slot s)) (snd (edge_names slot s)) owner pub first_time,
         bump_stats (\<lambda>b. b\<lparr>bs_dropped_authority := bs_dropped_authority b + 1\<rparr>) ?s)" by blast
    show ?thesis using tables charged(3) [OF s(2)] fp own
      by (intro step_fine_quiet) (simp_all add: eq ingest_ok_def fixed_part_def owners_stay_def owner_at_def)
  qed
qed

lemma offer_static_ok:
  assumes s: "tables_ok s" "uncharged (in_stats s)" and slot: "slot < length (edge_keys s)"
  shows "step_fine s pub (fst (offer_static slot m pub s)) (snd (offer_static slot m pub s))"
    "\<forall>p c stamp pose. fst (offer_static slot m pub s) \<noteq> ActPublish p c stamp pose"
proof -
  let ?r = "observe_static_at slot (sm_pose m) pub (in_statics s)"
  let ?s = "s\<lparr>in_statics := snd ?r\<rparr>"
  note st = tables_statics [OF s(1) slot, of "sm_pose m" pub]
  have out: "\<exists>f. snd (offer_static slot m pub s) = bump_stats f ?s \<and> balanced (f (in_stats s))"
    using charged(2,6) [OF s(2)] charged(8) [OF s(2)]
    by (cases "fst ?r") (auto simp: offer_static_def Let_def case_prod_beta)
  show quiet: "\<forall>p c stamp pose. fst (offer_static slot m pub s) \<noteq> ActPublish p c stamp pose"
    by (cases "fst ?r") (simp_all add: offer_static_def Let_def case_prod_beta)
  obtain f where f: "snd (offer_static slot m pub s) = bump_stats f ?s" "balanced (f (in_stats s))" using out by blast
  show "step_fine s pub (fst (offer_static slot m pub s)) (snd (offer_static slot m pub s))"
    using st f(2) quiet by (intro step_fine_quiet) (auto simp: f(1) ingest_ok_def fixed_part_def)
qed

lemma static_kind_neq: "k \<noteq> KindStatic \<longleftrightarrow> k = KindDynamic"
  by (cases k) simp_all

lemma offer_declared_ok:
  assumes s: "tables_ok s" "uncharged (in_stats s)" and slot: "slot < length (edge_keys s)"
  shows "step_fine s pub (fst (offer_declared topic slot m pub s)) (snd (offer_declared topic slot m pub s))"
proof (cases topic)
  case TopicTf
  show ?thesis
  proof (cases "ss_kinds (in_statics s) ! slot = KindStatic")
    case True
    then show ?thesis using s charged(6) [OF s(2)] TopicTf
      by (intro step_fine_quiet) (simp_all add: offer_declared_def ingest_ok_def fixed_part_def)
  next
    case False
    then show ?thesis using offer_authority_ok [OF s slot] TopicTf by (simp add: offer_declared_def static_kind_neq)
  qed
next
  case TopicTfStatic
  then show ?thesis using offer_static_ok(1) [OF s slot] by (simp add: offer_declared_def)
qed

lemma count_undeclared_same: "\<exists>u. snd (count_undeclared p c s) = s\<lparr>in_undeclared := u\<rparr>"
proof -
  have "\<exists>u. s = s\<lparr>in_undeclared := u\<rparr>" by (rule exI [of _ "in_undeclared s"]) simp
  then show ?thesis by (cases "lookup_by_edge (in_undeclared s) p c") (auto simp only: count_undeclared_def Let_def option.case snd_conv if_distrib split: if_split)
qed

lemma offer_counted_ok:
  assumes s: "ingest_ok s"
  shows "step_fine s pub (fst (offer_counted topic m pub s)) (snd (offer_counted topic m pub s))"
proof -
  define s1 where "s1 = bump_stats (\<lambda>b. b\<lparr>bs_transforms := bs_transforms b + 1\<rparr>) s"
  have s1: "tables_ok s1" "uncharged (in_stats s1)" "fixed_part s1 = fixed_part s"
    using s by (simp_all add: s1_def ingest_ok_def uncharged_def balanced_def fixed_part_def)
  obtain nn x where r: "snd (resolve_names m s1) = s1\<lparr>in_names := nn, in_raw := x\<rparr>" "nn_prefix nn = nn_prefix (in_names s1)"
    "normalizer_ok nn" "raw_ok (edge_keys s1) (nn_prefix nn) x" using resolve_names_ok(2) [OF s1(1), of m] by blast
  define s2 where "s2 = snd (resolve_names m s1)"
  have s2: "tables_ok s2" "uncharged (in_stats s2)" "fixed_part s2 = fixed_part s" "in_authority s2 = in_authority s" "in_clocks s2 = in_clocks s" "edge_keys s2 = edge_keys s1"
    using s1 r unfolding tables_ok_def by (simp_all add: s2_def s1_def fixed_part_def edge_keys_def)
  have eq: "offer_counted topic m pub s = (case fst (resolve_names m s1) of
       ResDeclared slot \<Rightarrow> offer_declared topic slot m pub s2
     | ResBadName \<Rightarrow> (ActDrop DropBadName, bump_stats (\<lambda>b. b\<lparr>bs_dropped_bad_name := bs_dropped_bad_name b + 1\<rparr>) s2)
     | ResUndeclared p c \<Rightarrow> (ActUndeclaredEdge p c (fst (count_undeclared p c s2)),
          bump_stats (\<lambda>b. b\<lparr>bs_dropped_undeclared := bs_dropped_undeclared b + 1\<rparr>) (snd (count_undeclared p c s2))))"
    by (simp add: offer_counted_def Let_def case_prod_beta s1_def s2_def split: resolved.split)
  show ?thesis
  proof (cases "fst (resolve_names m s1)")
    case (ResDeclared slot)
    then have "slot < length (edge_keys s2)"
      using resolve_names_ok(1) [OF s1(1), of m] by (auto simp: s2(6) resolved_edge_def find_Some_iff split: option.splits)
    then have "step_fine s2 pub (fst (offer_counted topic m pub s)) (snd (offer_counted topic m pub s))"
      using offer_declared_ok [OF s2(1,2)] ResDeclared by (simp add: eq)
    then show ?thesis by (rule step_fine_after) (simp_all add: s2)
  next
    case (ResUndeclared p c)
    obtain u where u: "snd (count_undeclared p c s2) = s2\<lparr>in_undeclared := u\<rparr>" using count_undeclared_same by blast
    have "tables_ok (s2\<lparr>in_undeclared := u\<rparr>)" "fixed_part (s2\<lparr>in_undeclared := u\<rparr>) = fixed_part s2"
      using s2(1) unfolding tables_ok_def by (simp_all add: edge_keys_def fixed_part_def)
    then show ?thesis using s2 charged(7) [OF s2(2)] ResUndeclared
      by (intro step_fine_quiet) (simp_all add: eq u ingest_ok_def fixed_part_def)
  next
    case ResBadName
    then show ?thesis using s2 charged(5) [OF s2(2)] by (intro step_fine_quiet) (simp_all add: eq ingest_ok_def fixed_part_def)
  qed
qed

text \<open>Closing the startup window.\<close>

lemma close_cases:
  assumes "tables_ok s"
  shows "close_startup_window s = None \<longleftrightarrow> in_window_open s \<and> au_policy (in_authority s) = Strict \<and> unnumbered (in_authority s)"
    "close_startup_window s = Some (a, s') \<Longrightarrow> s' = s\<lparr>in_window_open := False\<rparr> \<and> (\<forall>x. a = Some x \<longrightarrow> (\<exists>n k. x = ActHalt (HaltStartupConflicts n k)))"
proof -
  have a: "authority_ok (edge_keys s) (in_authority s)" using assms by (simp add: tables_ok_def)
  show "close_startup_window s = None \<longleftrightarrow> in_window_open s \<and> au_policy (in_authority s) = Strict \<and> unnumbered (in_authority s)"
    using conflicts_panic [OF a] by (auto simp: close_startup_window_def Let_def split: option.split)
  show "s' = s\<lparr>in_window_open := False\<rparr> \<and> (\<forall>x. a = Some x \<longrightarrow> (\<exists>n k. x = ActHalt (HaltStartupConflicts n k)))" if "close_startup_window s = Some (a, s')"
    using that by (auto simp: close_startup_window_def Let_def split: option.splits if_splits)
qed

lemma closed_fine:
  assumes "ingest_ok s"
  shows "ingest_ok (s\<lparr>in_window_open := w\<rparr>)" "fixed_part (s\<lparr>in_window_open := w\<rparr>) = fixed_part s"
  using assms by (simp_all add: ingest_ok_def tables_ok_def edge_keys_def fixed_part_def)

lemma offer_ok:
  assumes s: "ingest_ok s" and r: "offer topic m pub s = Some (a, s')"
  shows "step_fine s pub a s'"
proof (cases "in_window_open s \<and> STARTUP_WINDOW_TRANSFORMS \<le> bs_transforms (in_stats s)")
  case False
  then have "offer topic m pub s = Some (offer_counted topic m pub s)" unfolding offer_def by (simp only: if_False option.case prod.case)
  then have "a = fst (offer_counted topic m pub s)" "s' = snd (offer_counted topic m pub s)" using r by (simp_all add: prod_eq_iff)
  then show ?thesis using offer_counted_ok [OF s, of pub topic m] by simp
next
  case True
  then obtain h s1 where h: "close_startup_window s = Some (h, s1)" using r by (cases "close_startup_window s") (auto simp: offer_def)
  have "tables_ok s" using s by (simp add: ingest_ok_def)
  then have s1: "s1 = s\<lparr>in_window_open := False\<rparr>" "\<forall>x. h = Some x \<longrightarrow> (\<exists>n k. x = ActHalt (HaltStartupConflicts n k))"
    using close_cases(2) [OF _ h] by blast+
  note fine = closed_fine [OF s, of False, folded s1(1)]
  show ?thesis
  proof (cases h)
    case None
    then have "a = fst (offer_counted topic m pub s1)" "s' = snd (offer_counted topic m pub s1)"
      using r True h by (simp_all add: offer_def prod_eq_iff)
    then have "step_fine s1 pub a s'" using offer_counted_ok [OF fine(1), of pub topic m] by simp
    then show ?thesis by (rule step_fine_after) (simp_all add: fine(2), simp_all add: s1(1))
  next
    case (Some x)
    then have "a = x" "s' = s1" using r True h by (simp_all add: offer_def)
    then show ?thesis using s1(2) fine Some by (intro step_fine_quiet) (auto simp: s1(1))
  qed
qed

subsection \<open>Steps of a run\<close>

fun publication_of :: "ingest_event \<times> action option \<Rightarrow> ((name \<times> name) \<times> int \<times> bridge_publisher) option" where
  "publication_of (EvOffer topic m pub, Some (ActPublish p c stamp pose)) = Some ((p, c), stamp, pub)"
| "publication_of _ = None"

lemma ingest_step_fine:
  assumes s: "ingest_ok s" and r: "ingest_step e s = Some (a, s')"
  shows "ingest_ok s'" "fixed_part s' = fixed_part s" "owners_stay s s'"
    "(\<And>d ev. a \<noteq> Some (ActRecreateArena d ev)) \<Longrightarrow> clocks_grow s s'"
    "publication_of (e, a) = Some (k, stamp, pub) \<Longrightarrow>
       \<exists>slot < length (edge_keys s). edge_keys s ! slot = k \<and> ss_kinds (in_statics s) ! slot = KindDynamic \<and>
         (\<forall>x. newest s slot = Some x \<longrightarrow> x \<le> stamp) \<and> newest s' slot = Some stamp \<and> (\<exists>q. owner_at s' slot = Some q \<and> same_publisher q pub)"
proof -
  have t: "tables_ok s" "balanced (in_stats s)" using s by (simp_all add: ingest_ok_def)
  have "\<exists>pub a'. step_fine s pub a' s' \<and> (a = Some a' \<or> a = None \<and> in_clocks s' = in_clocks s) \<and> (\<forall>topic m p. e = EvOffer topic m p \<longrightarrow> p = pub)"
  proof (cases e)
    case (EvOffer topic m p)
    then show ?thesis using r offer_ok [OF s, of topic m p] by auto
  next
    case (EvTimeJump delta kind)
    then have "s' = snd (apply_clock_reset delta (Reported kind) s)" "a = Some (fst (apply_clock_reset delta (Reported kind) s))"
      using r by (simp_all add: note_time_jump_def prod_eq_iff)
    then show ?thesis using apply_clock_reset_ok [OF t] EvTimeJump by blast
  next
    case EvCloseWindow
    then have c: "close_startup_window s = Some (a, s')" using r by simp
    have "step_fine s pub (ActHalt (HaltStartupConflicts n k)) s'" for pub n k
      using close_cases(2) [OF t(1) c] closed_fine [OF s] by (intro step_fine_quiet) simp_all
    then show ?thesis using close_cases(2) [OF t(1) c] EvCloseWindow by (cases a) fastforce+
  next
    case EvMessage
    then have "s' = note_message s" "a = None" using r by simp_all
    then show ?thesis using t EvMessage
      by (intro exI [of _ Unattributed] exI [of _ "ActDrop DropBadName"] conjI step_fine_quiet) (simp_all add: note_message_def ingest_ok_def fixed_part_def)
  next
    case (EvQueueDepth queued)
    then have "s' = note_queue_depth queued s" "a = None" using r by simp_all
    then show ?thesis using t EvQueueDepth
      by (intro exI [of _ Unattributed] exI [of _ "ActDrop DropBadName"] conjI step_fine_quiet) (simp_all add: note_queue_depth_def ingest_ok_def fixed_part_def)
  qed
  then obtain pb a' where fine: "step_fine s pb a' s'" "a = Some a' \<or> a = None \<and> in_clocks s' = in_clocks s" "\<forall>topic m p. e = EvOffer topic m p \<longrightarrow> p = pb" by blast
  show "ingest_ok s'" "fixed_part s' = fixed_part s" "owners_stay s s'" using fine(1) by (simp_all add: step_fine_def)
  show "\<exists>slot < length (edge_keys s). edge_keys s ! slot = k \<and> ss_kinds (in_statics s) ! slot = KindDynamic \<and>
         (\<forall>x. newest s slot = Some x \<longrightarrow> x \<le> stamp) \<and> newest s' slot = Some stamp \<and> (\<exists>q. owner_at s' slot = Some q \<and> same_publisher q pub)"
    if "publication_of (e, a) = Some (k, stamp, pub)"
    using that fine unfolding step_fine_def publishes_well_def by (cases "(e, a)" rule: publication_of.cases) auto
  show "clocks_grow s s'" if no: "\<And>d ev. a \<noteq> Some (ActRecreateArena d ev)"
  proof (cases a)
    case None
    then show ?thesis using fine(2) by (simp add: clocks_grow_def newest_def)
  next
    case (Some x)
    then show ?thesis using fine no by (simp add: step_fine_def)
  qed
qed

text \<open>A condition on publications that every step keeps: what a state admits on an edge shrinks along a run, and a
  publication restricts what is admitted after it.\<close>

locale publication_monitor =
  fixes allowed :: "authority_policy \<Rightarrow> action option \<Rightarrow> bool"
    and admits :: "ingest \<Rightarrow> nat \<Rightarrow> int \<times> bridge_publisher \<Rightarrow> bool"
    and ordered :: "int \<times> bridge_publisher \<Rightarrow> int \<times> bridge_publisher \<Rightarrow> bool"
  assumes shrinks: "ingest_ok s \<Longrightarrow> ingest_step e s = Some (a, s') \<Longrightarrow> allowed (au_policy (in_authority s)) a \<Longrightarrow>
      slot < length (edge_keys s) \<Longrightarrow> admits s' slot x \<Longrightarrow> admits s slot x"
    and publication: "ingest_ok s \<Longrightarrow> ingest_step e s = Some (a, s') \<Longrightarrow> allowed (au_policy (in_authority s)) a \<Longrightarrow>
      publication_of (e, a) = Some (edge_keys s ! slot, x) \<Longrightarrow> slot < length (edge_keys s) \<Longrightarrow>
      admits s slot x \<and> (\<forall>y. admits s' slot y \<longrightarrow> ordered x y)"
begin

lemma run_ordered:
  assumes "ingest_ok s" "ingest_run es s = Some (t, s')" "\<forall>(e, a) \<in> set t. allowed (au_policy (in_authority s)) a"
  shows "sorted_wrt (\<lambda>p q. fst p = fst q \<longrightarrow> ordered (snd p) (snd q)) (List.map_filter publication_of t) \<and>
    (\<forall>p \<in> set (List.map_filter publication_of t). \<exists>slot < length (edge_keys s). edge_keys s ! slot = fst p \<and>
        ss_kinds (in_statics s) ! slot = KindDynamic \<and> admits s slot (snd p))"
  using assms
proof (induction es arbitrary: s t)
  case Nil
  then show ?case by (simp add: map_filter_simps)
next
  case (Cons e es)
  obtain a s1 where step: "ingest_step e s = Some (a, s1)" using Cons.prems(2) by (cases "ingest_step e s") auto
  obtain t1 where t1: "ingest_run es s1 = Some (t1, s')" "t = (e, a) # t1" using Cons.prems(2) step by (cases "ingest_run es s1") auto
  note fine = ingest_step_fine [OF Cons.prems(1) step]
  have same: "au_policy (in_authority s1) = au_policy (in_authority s)" "edge_keys s1 = edge_keys s"
    "ss_kinds (in_statics s1) = ss_kinds (in_statics s)"
    using fine(2) by (simp_all add: fixed_part_def)
  have al: "allowed (au_policy (in_authority s)) a" using Cons.prems(3) t1(2) by simp
  have IH: "sorted_wrt (\<lambda>p q. fst p = fst q \<longrightarrow> ordered (snd p) (snd q)) (List.map_filter publication_of t1)"
    "\<forall>p \<in> set (List.map_filter publication_of t1). \<exists>slot < length (edge_keys s). edge_keys s ! slot = fst p \<and>
       ss_kinds (in_statics s) ! slot = KindDynamic \<and> admits s1 slot (snd p)"
    using Cons.IH [OF fine(1) t1(1)] Cons.prems(3) t1(2) same by simp_all
  then have rest: "\<forall>p \<in> set (List.map_filter publication_of t1). \<exists>slot < length (edge_keys s). edge_keys s ! slot = fst p \<and>
       ss_kinds (in_statics s) ! slot = KindDynamic \<and> admits s slot (snd p)"
    using shrinks [OF Cons.prems(1) step al] by blast
  show ?case
  proof (cases "publication_of (e, a)")
    case None
    then show ?thesis using IH rest t1(2) by (simp add: map_filter_simps)
  next
    case (Some kx)
    obtain k stamp pub where kx: "kx = (k, stamp, pub)" by (cases kx)
    obtain slot where slot: "slot < length (edge_keys s)" "edge_keys s ! slot = k" "ss_kinds (in_statics s) ! slot = KindDynamic"
      using fine(5) Some kx by blast
    have "admits s slot (stamp, pub) \<and> (\<forall>y. admits s1 slot y \<longrightarrow> ordered (stamp, pub) y)"
      using Some kx slot by (intro publication [OF Cons.prems(1) step al]) simp_all
    then have new: "admits s slot (stamp, pub)" "\<And>y. admits s1 slot y \<Longrightarrow> ordered (stamp, pub) y" by blast+
    have d: "distinct (edge_keys s)"
      using Cons.prems(1) by (auto simp: ingest_ok_def tables_ok_def statics_ok_def slots_ok_def edge_index_ok_def table_ok_def)
    have "ordered (stamp, pub) (snd q)" if q: "q \<in> set (List.map_filter publication_of t1)" "fst q = k" for q
    proof -
      obtain slot' where "slot' < length (edge_keys s)" "edge_keys s ! slot' = k" "admits s1 slot' (snd q)" using IH(2) q by blast
      moreover have "slot' = slot" using calculation(1,2) slot d by (metis nth_eq_iff_index_eq)
      ultimately show ?thesis using new(2) [of "snd q"] by simp
    qed
    then show ?thesis using IH(1) rest new(1) slot t1(2) Some kx by (auto simp: map_filter_simps)
  qed
qed

end

interpretation stamps: publication_monitor "\<lambda>_ a. \<forall>d ev. a \<noteq> Some (ActRecreateArena d ev)"
  "\<lambda>s slot x. \<forall>n. newest s slot = Some n \<longrightarrow> n \<le> fst x" "\<lambda>x y. fst x \<le> fst y"
proof
  fix s e a s' slot and x :: "int \<times> bridge_publisher"
  assume s: "ingest_ok s" "ingest_step e s = Some (a, s')" "\<forall>d ev. a \<noteq> Some (ActRecreateArena d ev)" and slot: "slot < length (edge_keys s)"
  note fine = ingest_step_fine [OF s(1,2)]
  show "\<forall>n. newest s slot = Some n \<longrightarrow> n \<le> fst x" if "\<forall>n. newest s' slot = Some n \<longrightarrow> n \<le> fst x"
    using fine(4) s(3) slot that unfolding clocks_grow_def by fastforce
  show "(\<forall>n. newest s slot = Some n \<longrightarrow> n \<le> fst x) \<and> (\<forall>y :: int \<times> bridge_publisher. (\<forall>n. newest s' slot = Some n \<longrightarrow> n \<le> fst y) \<longrightarrow> fst x \<le> fst y)"
    if x: "publication_of (e, a) = Some (edge_keys s ! slot, x)"
  proof -
    have d: "distinct (edge_keys s)"
      using s(1) by (auto simp: ingest_ok_def tables_ok_def statics_ok_def slots_ok_def edge_index_ok_def table_ok_def)
    obtain slot' where "slot' < length (edge_keys s)" "edge_keys s ! slot' = edge_keys s ! slot" "\<forall>n. newest s slot' = Some n \<longrightarrow> n \<le> fst x"
      "newest s' slot' = Some (fst x)" using fine(5) [of "edge_keys s ! slot" "fst x" "snd x"] x by auto
    then show ?thesis using d slot by (simp add: nth_eq_iff_index_eq)
  qed
qed

interpretation owners: publication_monitor "\<lambda>policy _. policy \<noteq> LastWriterWins"
  "\<lambda>s slot x. \<forall>q. owner_at s slot = Some q \<longrightarrow> same_publisher q (snd x)" "\<lambda>x y. same_publisher (snd x) (snd y)"
proof
  fix s e a s' slot and x :: "int \<times> bridge_publisher"
  assume s: "ingest_ok s" "ingest_step e s = Some (a, s')" "au_policy (in_authority s) \<noteq> LastWriterWins" and slot: "slot < length (edge_keys s)"
  note fine = ingest_step_fine [OF s(1,2)]
  have stay: "owner_at s slot = Some q \<Longrightarrow> owner_at s' slot = Some q" for q using fine(3) s(3) slot by (simp add: owners_stay_def)
  show "\<forall>q. owner_at s slot = Some q \<longrightarrow> same_publisher q (snd x)" if "\<forall>q. owner_at s' slot = Some q \<longrightarrow> same_publisher q (snd x)"
    using stay that by blast
  show "(\<forall>q. owner_at s slot = Some q \<longrightarrow> same_publisher q (snd x)) \<and>
      (\<forall>y :: int \<times> bridge_publisher. (\<forall>q. owner_at s' slot = Some q \<longrightarrow> same_publisher q (snd y)) \<longrightarrow> same_publisher (snd x) (snd y))"
    if x: "publication_of (e, a) = Some (edge_keys s ! slot, x)"
  proof -
    have d: "distinct (edge_keys s)"
      using s(1) by (auto simp: ingest_ok_def tables_ok_def statics_ok_def slots_ok_def edge_index_ok_def table_ok_def)
    obtain slot' q where "slot' < length (edge_keys s)" "edge_keys s ! slot' = edge_keys s ! slot" "owner_at s' slot' = Some q" "same_publisher q (snd x)"
      using fine(5) [of "edge_keys s ! slot" "fst x" "snd x"] x by auto
    then have "owner_at s' slot = Some q" "same_publisher q (snd x)" using d slot by (simp_all add: nth_eq_iff_index_eq)
    then show ?thesis using stay by (auto simp: same_publisher_def)
  qed
qed

subsection \<open>The initial state\<close>

lemma rename_frame_ok: "normalizer_ok nn \<Longrightarrow> normalizer_ok (snd (rename_frame f nn))"
  using normalize_ok [of nn f] by (simp add: rename_frame_def case_prod_beta split: sum.split)

lemma rename_frames_ok: "normalizer_ok nn \<Longrightarrow> normalizer_ok (snd (rename_frames fs nn))"
  by (induction fs arbitrary: nn) (simp_all add: case_prod_beta Let_def rename_frame_ok)

lemma rename_edges_ok:
  "normalizer_ok nn \<Longrightarrow> normalizer_ok (snd (rename_edges es nn)) \<and> length (fst (rename_edges es nn)) = length es"
  by (induction es arbitrary: nn) (simp_all add: case_prod_beta Let_def rename_frame_ok)

lemma rewritten_ok:
  assumes "normalizer_ok nn"
  shows "normalizer_ok (snd (rewritten cfg nn))" "length (tc_edges (fst (rewritten cfg nn))) = length (tc_edges cfg)"
  using rename_edges_ok [OF rename_frames_ok [OF assms, of "tc_frames cfg"], of "tc_edges cfg"]
  by (simp_all add: rewritten_def case_prod_beta Let_def)

lemma ingest_start:
  assumes "4 * length (tc_edges cfg) + 1 < EMPTY_ENTRY"
  shows "ingest_ok (ingest_with_policies cfg policy clock tf_prefix)" "au_policy (in_authority (ingest_with_policies cfg policy clock tf_prefix)) = policy"
    "in_clock (ingest_with_policies cfg policy clock tf_prefix) = clock"
proof -
  define nn where "nn = (case tf_prefix of None \<Rightarrow> normalizer_new | Some p \<Rightarrow> normalizer_with_prefix p)"
  let ?s = "ingest_with_policies cfg policy clock tf_prefix" and ?d = "fst (rewritten cfg nn)"
  have "normalizer_ok nn" by (simp add: nn_def normalizer_new_ok split: option.split)
  note rw = rewritten_ok [OF this, of cfg]
  have small: "length (tc_edges ?d) + 1 < EMPTY_ENTRY" using rw(2) assms by simp
  note st = statics_seeded_ok [OF small] and au = authority_seeded_ok(1,2) [OF small, of policy]
  have sel: "in_names ?s = snd (rewritten cfg nn)" "in_raw ?s = edge_index_with_capacity (4 * static_slots (statics_seeded ?d))" "in_declared ?s = ?d"
    "in_statics ?s = statics_seeded ?d" "in_authority ?s = authority_seeded policy ?d"
    "in_clocks ?s = map (\<lambda>_. guard_with_threshold (cp_on_reset clock) (cp_reset_threshold clock)) [0..<static_slots (statics_seeded ?d)]"
    "in_clock ?s = clock" "in_offsets ?s = offset_table_new clock" "in_stats ?s = bridge_stats_default\<lparr>bs_queue_capacity := 100\<rparr>"
    by (simp_all add: ingest_with_policies_def Let_def case_prod_beta flip: nn_def)
  have keys: "edge_keys ?s = declared_keys ?d" using st by (simp add: edge_keys_def sel statics_ok_def)
  have "length (declared_keys ?d) \<le> length (tc_edges cfg)" using declared_keys_props(3) [of ?d] rw(2) by simp
  moreover have "static_slots (statics_seeded ?d) = length (declared_keys ?d)" using st by (simp add: static_slots_def statics_ok_def)
  moreover have "raw_ok ks p (edge_index_with_capacity n)" for ks p n
  proof -
    have "ei_keys (edge_index_with_capacity n :: nat edge_index) = []" by (simp add: edge_index_with_capacity_def)
    then show ?thesis by (simp add: raw_ok_def edge_index_new_ok)
  qed
  moreover have "ot_policy (offset_table_new clock) = clock" by (simp add: offset_table_new_def)
  ultimately have "tables_ok ?s" using rw(1) st au(1) assms unfolding tables_ok_def keys by (simp add: sel offset_table_new_ok)
  moreover have "balanced (in_stats ?s)" by (simp add: sel balanced_def bridge_stats_default_def)
  ultimately show "ingest_ok ?s" by (simp add: ingest_ok_def)
  show "au_policy (in_authority ?s) = policy" "in_clock ?s = clock" using au(2) by (simp_all add: sel)
qed

lemma run_fine:
  assumes "ingest_ok s" "ingest_run es s = Some (t, s')"
  shows "ingest_ok s' \<and> fixed_part s' = fixed_part s"
  using assms
proof (induction es arbitrary: s t)
  case (Cons e es)
  then obtain a s1 where step: "ingest_step e s = Some (a, s1)" by (cases "ingest_step e s") auto
  then obtain t1 where "ingest_run es s1 = Some (t1, s')" using Cons.prems(2) by (cases "ingest_run es s1") auto
  then show ?case using Cons.IH [of s1 t1] ingest_step_fine(1,2) [OF Cons.prems(1) step] by simp
qed simp

subsection \<open>When a transform is published\<close>

definition clock_admits :: "nat \<Rightarrow> sample_msg \<Rightarrow> bridge_publisher \<Rightarrow> ingest \<Rightarrow> bool" where
  "clock_admits slot m pub s \<longleftrightarrow>
     fst (offset_observe (publisher_key pub) (sm_stamp_nanos m) (sm_received m) (in_offsets s)) = None \<and>
     (\<forall>x. newest s slot = Some x \<longrightarrow> x \<le> sm_stamp_nanos m)"

definition owner_admits :: "nat \<Rightarrow> bridge_publisher \<Rightarrow> ingest \<Rightarrow> bool" where
  "owner_admits slot pub s \<longleftrightarrow> (\<forall>q. owner_at s slot = Some q \<longrightarrow> same_publisher q pub \<or> au_policy (in_authority s) = LastWriterWins)"

lemma clock_reset_answer: "fst (apply_clock_reset delta ev s) \<noteq> ActPublish p c stamp pose"
  by (simp add: apply_clock_reset_def Let_def split: on_clock_reset.split)

lemma offer_clock_publishes:
  assumes "tables_ok s" "slot < length (edge_keys s)"
  shows "fst (offer_clock slot m pub s) = ActPublish p c stamp pose \<longleftrightarrow>
    edge_keys s ! slot = (p, c) \<and> stamp = sm_stamp_nanos m \<and> pose = sm_pose m \<and> clock_admits slot m pub s"
  using assms
proof (cases rule: offer_clock_outcome [where pub = pub and m = m])
  case (common cm)
  then show ?thesis by (simp add: clock_admits_def clock_reset_answer)
next
  case (forward g)
  then show ?thesis by (cases "edge_keys s ! slot") (auto simp: clock_admits_def)
next
  case (behind g n by_nanos)
  then show ?thesis by (simp add: clock_admits_def)
qed

lemma offer_authority_publishes:
  assumes s: "tables_ok s" and slot: "slot < length (edge_keys s)"
  shows "fst (offer_authority slot m pub s) = ActPublish p c stamp pose \<longleftrightarrow>
    edge_keys s ! slot = (p, c) \<and> stamp = sm_stamp_nanos m \<and> pose = sm_pose m \<and> owner_admits slot pub s \<and> clock_admits slot m pub s"
proof -
  let ?r = "admit_at slot pub (in_authority s)"
  let ?s = "s\<lparr>in_authority := snd ?r\<rparr>"
  have a: "authority_ok (edge_keys s) (in_authority s)" using s by (simp add: tables_ok_def)
  have accept: "fst ?r = Accept \<longleftrightarrow> owner_admits slot pub s" using a slot
    by (cases rule: admit_at_cases [where pub = pub]) (auto simp: owner_admits_def owner_at_def)
  have "clock_admits slot m pub ?s = clock_admits slot m pub s" "edge_keys ?s = edge_keys s"
    by (simp_all add: clock_admits_def newest_def edge_keys_def)
  moreover have "fst (offer_authority slot m pub s) = (if fst ?r = Accept then fst (offer_clock slot m pub ?s) else fst (offer_authority slot m pub s))"
    by (simp add: offer_authority_def Let_def case_prod_beta)
  moreover have "fst ?r \<noteq> Accept \<Longrightarrow> fst (offer_authority slot m pub s) \<noteq> ActPublish p c stamp pose"
    by (cases "fst ?r") (simp_all add: offer_authority_def Let_def case_prod_beta)
  ultimately show ?thesis using accept offer_clock_publishes [OF tables_authority [OF s slot, of pub], of slot m pub p c stamp pose] slot by auto
qed

lemma offer_declared_publishes:
  assumes s: "tables_ok s" "uncharged (in_stats s)" and slot: "slot < length (edge_keys s)"
  shows "fst (offer_declared topic slot m pub s) = ActPublish p c stamp pose \<longleftrightarrow> topic = TopicTf \<and> ss_kinds (in_statics s) ! slot = KindDynamic \<and>
    edge_keys s ! slot = (p, c) \<and> stamp = sm_stamp_nanos m \<and> pose = sm_pose m \<and> owner_admits slot pub s \<and> clock_admits slot m pub s"
  using offer_authority_publishes [OF s(1) slot] offer_static_ok(2) [OF s slot]
  by (cases topic; cases "ss_kinds (in_statics s) ! slot") (simp_all add: offer_declared_def)

lemma offer_counted_publishes:
  assumes s: "ingest_ok s"
  shows "fst (offer_counted topic m pub s) = ActPublish p c stamp pose \<longleftrightarrow> topic = TopicTf \<and> stamp = sm_stamp_nanos m \<and> pose = sm_pose m \<and>
    (\<exists>slot < length (edge_keys s). edge_keys s ! slot = (p, c) \<and> wire_edge (nn_prefix (in_names s)) (sample_edge m) = Some (p, c) \<and>
       ss_kinds (in_statics s) ! slot = KindDynamic \<and> owner_admits slot pub s \<and> clock_admits slot m pub s)"
proof -
  define s1 where "s1 = bump_stats (\<lambda>b. b\<lparr>bs_transforms := bs_transforms b + 1\<rparr>) s"
  have s1: "tables_ok s1" "uncharged (in_stats s1)" using s by (simp_all add: s1_def ingest_ok_def uncharged_def balanced_def)
  define s2 where "s2 = snd (resolve_names m s1)"
  obtain nn x where r: "s2 = s1\<lparr>in_names := nn, in_raw := x\<rparr>" "nn_prefix nn = nn_prefix (in_names s1)"
    "normalizer_ok nn" "raw_ok (edge_keys s1) (nn_prefix nn) x" using resolve_names_ok(2) [OF s1(1), of m] by (auto simp: s2_def)
  have s2: "tables_ok s2" "uncharged (in_stats s2)" using s1 r unfolding tables_ok_def by (simp_all add: edge_keys_def)
  have same: "edge_keys s2 = edge_keys s" "ss_kinds (in_statics s2) = ss_kinds (in_statics s)" "owner_admits slot pub s2 = owner_admits slot pub s"
    "clock_admits slot m pub s2 = clock_admits slot m pub s" for slot
    by (simp_all add: r(1) s1_def owner_admits_def clock_admits_def owner_at_def newest_def edge_keys_def)
  have res: "fst (resolve_names m s1) = resolved_edge (nn_prefix (in_names s)) (edge_keys s) (sample_edge m)"
    using resolve_names_ok(1) [OF s1(1), of m] by (simp add: s1_def)
  have eq: "fst (offer_counted topic m pub s) = (case fst (resolve_names m s1) of ResDeclared slot \<Rightarrow> fst (offer_declared topic slot m pub s2)
     | ResBadName \<Rightarrow> ActDrop DropBadName | ResUndeclared p c \<Rightarrow> ActUndeclaredEdge p c (fst (count_undeclared p c s2)))"
    by (simp add: offer_counted_def Let_def case_prod_beta s1_def s2_def split: resolved.split)
  have d: "distinct (edge_keys s)"
    using s by (auto simp: ingest_ok_def tables_ok_def statics_ok_def slots_ok_def edge_index_ok_def table_ok_def)
  show ?thesis
  proof (cases "\<exists>slot < length (edge_keys s). wire_edge (nn_prefix (in_names s)) (sample_edge m) = Some (edge_keys s ! slot)")
    case True
    then obtain slot where slot: "slot < length (edge_keys s)" "wire_edge (nn_prefix (in_names s)) (sample_edge m) = Some (edge_keys s ! slot)" by blast
    then have "fst (resolve_names m s1) = ResDeclared slot" using find_slot(1) [OF d, of "edge_keys s ! slot" slot] by (simp add: res resolved_edge_def)
    then have "fst (offer_counted topic m pub s) = fst (offer_declared topic slot m pub s2)" by (simp add: eq)
    moreover have "slot' = slot" if "slot' < length (edge_keys s)" "edge_keys s ! slot' = edge_keys s ! slot" for slot'
      using that slot(1) d by (simp add: nth_eq_iff_index_eq)
    ultimately show ?thesis using offer_declared_publishes [OF s2, of slot topic m pub p c stamp pose] slot same by auto
  next
    case False
    then have "fst (resolve_names m s1) \<noteq> ResDeclared slot" for slot using find_slot(1) [OF d] by (auto simp: res resolved_edge_def split: option.splits)
    then show ?thesis using False by (cases "fst (resolve_names m s1)") (auto simp: eq)
  qed
qed

subsection \<open>The startup verdict\<close>

lemma those_length: "those xs = Some ys \<Longrightarrow> length ys = length xs"
  by (induction xs arbitrary: ys) (auto split: option.splits)

lemma conflict_rows:
  assumes "authority_ok keys a" "authority_conflicts a = Some rows"
  shows "length rows = card (dom (reported_at a))"
proof -
  have "length rows = length (au_reported a)" using those_length assms(2) by (fastforce simp: authority_conflicts_def)
  also have "\<dots> = card (fst ` set (au_reported a))" using assms(1) distinct_card [of "map fst (au_reported a)"] by (simp add: authority_ok_def)
  finally show ?thesis by (simp add: reported_at_def dom_map_of_conv_image_fst)
qed

lemma static_conflict_rows:
  assumes "statics_ok keys st"
  shows "length (conflicts_by_edge st) = card {i. i < length keys \<and> 0 < ss_reported st ! i}"
proof -
  let ?f = "\<lambda>(slot, intruder). case intruder of None \<Rightarrow> None | Some q \<Rightarrow> (case ss_values st ! slot of None \<Rightarrow> None
       | Some (_ :: wire_pose, owner :: bridge_publisher) \<Rightarrow> (let (p, c) = edge_key (ss_index st) slot in Some (p, c, owner, q, ss_reported st ! slot)))"
  have len: "length (ss_first_intruder st) = length keys" using assms by (simp add: statics_ok_def)
  have each: "?f (i, ss_first_intruder st ! i) \<noteq> None \<longleftrightarrow> 0 < ss_reported st ! i" if "i < length keys" for i
  proof -
    have "ss_reported st ! i = 0 \<longleftrightarrow> ss_first_intruder st ! i = None" "ss_first_intruder st ! i \<noteq> None \<longrightarrow> ss_values st ! i \<noteq> None"
      using assms that unfolding statics_ok_def by blast+
    then show ?thesis by (auto split: option.split prod.split)
  qed
  have "length (conflicts_by_edge st) = length (filter (\<lambda>x. ?f x \<noteq> None) (List.enumerate 0 (ss_first_intruder st)))"
    unfolding conflicts_by_edge_def List.map_filter_def by (simp only: length_map)
  also have "\<dots> = card {i. i < length (List.enumerate 0 (ss_first_intruder st)) \<and> ?f (List.enumerate 0 (ss_first_intruder st) ! i) \<noteq> None}"
    by (rule length_filter_conv_card)
  also have "{i. i < length (List.enumerate 0 (ss_first_intruder st)) \<and> ?f (List.enumerate 0 (ss_first_intruder st) ! i) \<noteq> None} =
      {i. i < length keys \<and> 0 < ss_reported st ! i}"
    using each by (intro Collect_cong conj_cong) (simp_all only: length_enumerate nth_enumerate_eq len add_0)
  finally show ?thesis .
qed

subsection \<open>A pipeline over one contested edge\<close>

definition contested_start :: ingest where
  "contested_start = ingest_with contested_config Strict ResetHalt None"

definition contested_sample :: sample_msg where
  "contested_sample = sample_identity (utf8 ''/map'') (utf8 ''odom'') 10"

abbreviation contested_edge :: "name \<times> name" where
  "contested_edge \<equiv> (utf8 ''map'', utf8 ''odom'')"

lemma utf8_eval: "utf8 ''map'' = [0x6D, 0x61, 0x70]" "utf8 ''/map'' = [0x2F, 0x6D, 0x61, 0x70]" "utf8 ''odom'' = [0x6F, 0x64, 0x6F, 0x6D]"
  by code_simp+

lemma contested_rewritten: "fst (rewritten contested_config normalizer_new) = contested_config"
  by (simp add: rewritten_def contested_config_def topology_config_default_def rename_frame_def normalize_name_def
      normalizer_new_def utf8_eval strip_slash_def SLASH_def MAX_TRACKED_NAMES_def case_prod_beta Let_def)

lemma contested_keys: "declared_keys contested_config = [contested_edge]"
  by (simp add: declared_keys_def contested_config_def ec_key_def)

lemma contested_statics:
  "ss_kinds (statics_seeded contested_config) = [KindDynamic]" "ss_reported (statics_seeded contested_config) = [0]"
proof -
  have e: "edge_get (edge_index_with_capacity n :: nat edge_index) k = None" for n k
    using edge_get_None [OF slots_new, of n k] by (simp add: edge_index_with_capacity_def)
  have "slot_number (edge_index_with_capacity n :: nat edge_index) = 0" for n
    by (simp add: slot_number_def edge_len_def edge_index_with_capacity_def)
  then show "ss_kinds (statics_seeded contested_config) = [KindDynamic]" "ss_reported (statics_seeded contested_config) = [0]"
    using e by (simp_all add: statics_seeded_def contested_config_def topology_config_default_def seed_static_def static_slot_or_insert_def
        static_store_new_def Let_def)
qed

lemma contested_small: "4 * length (tc_edges contested_config) + 1 < EMPTY_ENTRY"
  by (simp add: contested_config_def EMPTY_ENTRY_def u32_max_def)

lemma contested_start_facts:
  "ingest_ok contested_start" "edge_keys contested_start = [contested_edge]" "ss_kinds (in_statics contested_start) = [KindDynamic]"
  "ss_reported (in_statics contested_start) = [0]" "owner_at contested_start 0 = None" "newest contested_start 0 = None"
  "nn_prefix (in_names contested_start) = None" "au_policy (in_authority contested_start) = Strict" "in_window_open contested_start"
  "bs_transforms (in_stats contested_start) = 0" "au_reported (in_authority contested_start) = []"
proof -
  let ?c = "clock_policy_default\<lparr>cp_on_reset := ResetHalt\<rparr>"
  have eq: "contested_start = ingest_with_policies contested_config Strict ?c None" by (simp add: contested_start_def ingest_with_def)
  show ok: "ingest_ok contested_start" "au_policy (in_authority contested_start) = Strict"
    unfolding eq by (rule ingest_start [OF contested_small])+
  have sel: "in_statics contested_start = statics_seeded contested_config" "in_authority contested_start = authority_seeded Strict contested_config"
    "in_declared contested_start = contested_config" "in_window_open contested_start" "in_names contested_start = snd (rewritten contested_config normalizer_new)"
    "in_stats contested_start = bridge_stats_default\<lparr>bs_queue_capacity := 100\<rparr>"
    "in_clocks contested_start = map (\<lambda>_. guard_with_threshold ResetHalt (cp_reset_threshold ?c)) [0..<static_slots (statics_seeded contested_config)]"
    by (simp_all add: eq ingest_with_policies_def Let_def case_prod_beta contested_rewritten)
  show "edge_keys contested_start = [contested_edge]" using ok(1) contested_keys by (simp add: ingest_ok_def tables_ok_def sel)
  show "ss_kinds (in_statics contested_start) = [KindDynamic]" "ss_reported (in_statics contested_start) = [0]"
    by (simp_all add: sel contested_statics)
  have small: "length (tc_edges contested_config) + 1 < EMPTY_ENTRY" using contested_small by simp
  show "owner_at contested_start 0 = None" "au_reported (in_authority contested_start) = []"
    using authority_seeded_ok(3,4) [OF small, of Strict] by (simp_all add: owner_at_def sel contested_keys)
  show "newest contested_start 0 = None"
    using contested_statics(1) by (simp add: newest_def sel static_slots_def guard_with_threshold_def)
  show "in_window_open contested_start" "bs_transforms (in_stats contested_start) = 0" by (simp_all add: sel bridge_stats_default_def)
  have "nn_prefix (snd (rename_frame f nn)) = nn_prefix nn" for f nn by (simp add: rename_frame_def case_prod_beta split: sum.split)
  then show "nn_prefix (in_names contested_start) = None"
    by (simp add: sel rewritten_def contested_config_def topology_config_default_def case_prod_beta Let_def normalizer_new_def)
qed

lemma contested_offer:
  "\<exists>s'. offer TopicTf contested_sample pub contested_start = Some (ActPublish (utf8 ''map'') (utf8 ''odom'') 10 (map Some [1, 0, 0, 0, 0, 0, 0]), s')"
proof -
  have "wire_edge None (sample_edge contested_sample) = Some contested_edge"
    by (simp add: wire_edge_def sample_edge_def contested_sample_def sample_identity_def wire_name_def strip_slash_def utf8_eval SLASH_def)
  moreover have "clock_admits 0 contested_sample pub contested_start"
    by (simp add: clock_admits_def offset_observe_def contested_sample_def sample_identity_def contested_start_facts)
  moreover have "owner_admits 0 pub contested_start" by (simp add: owner_admits_def contested_start_facts)
  ultimately have "fst (offer_counted TopicTf contested_sample pub contested_start) = ActPublish (utf8 ''map'') (utf8 ''odom'') 10 (map Some [1, 0, 0, 0, 0, 0, 0])"
    using offer_counted_publishes [OF contested_start_facts(1)] by (simp add: contested_start_facts contested_sample_def sample_identity_def)
  moreover have "offer TopicTf contested_sample pub contested_start = Some (offer_counted TopicTf contested_sample pub contested_start)"
    by (simp add: offer_def contested_start_facts STARTUP_WINDOW_TRANSFORMS_def)
  ultimately show ?thesis by (metis prod.collapse)
qed

subsection \<open>Properties\<close>

text \<open>C35: the ledger and the tables. Through any run from the state a pipeline starts in, over transforms on both
  topics, reported jumps, the closing of the startup window, messages and queue depths, every transform counted is
  charged to exactly one outcome, the four tables stay consistent with the declared topology, and the configuration
  never changes.\<close>

theorem pipeline_invariant:
  assumes "4 * length (tc_edges cfg) + 1 < EMPTY_ENTRY"
    and "ingest_run es (ingest_with_policies cfg policy clock tf_prefix) = Some (t, s)"
  shows "balanced (in_stats s) \<and> tables_ok s \<and> fixed_part s = fixed_part (ingest_with_policies cfg policy clock tf_prefix)"
  using run_fine [OF ingest_start(1) [OF assms(1)] assms(2)] by (simp add: ingest_ok_def)

theorem pipeline_invariant_witness:
  "\<exists>t s. ingest_run [EvOffer TopicTf contested_sample Unattributed, EvMessage] contested_start = Some (t, s) \<and> balanced (in_stats s)"
proof -
  obtain s' where s': "offer TopicTf contested_sample Unattributed contested_start =
      Some (ActPublish (utf8 ''map'') (utf8 ''odom'') 10 (map Some [1, 0, 0, 0, 0, 0, 0]), s')" using contested_offer by blast
  then obtain t s where run: "ingest_run [EvOffer TopicTf contested_sample Unattributed, EvMessage] contested_start = Some (t, s)" by simp
  then show ?thesis
    using pipeline_invariant [OF contested_small] unfolding contested_start_def ingest_with_def by blast
qed

text \<open>C34: publications. Start a pipeline, let it run, and look at any stretch of its run during which it did not ask for a
  new arena. The stamps it publishes on one edge never go back, every edge it publishes on is a declared dynamic one, and
  unless the policy is \<open>LastWriterWins\<close>, everything it publishes on one edge during the stretch is from one
  publisher.\<close>

theorem publications_ordered:
  assumes "4 * length (tc_edges cfg) + 1 < EMPTY_ENTRY"
    and "ingest_run es (ingest_with_policies cfg policy clock tf_prefix) = Some (t0, s)" "ingest_run es' s = Some (t, s')"
    and "\<forall>(e, a) \<in> set t. \<forall>delta ev. a \<noteq> Some (ActRecreateArena delta ev)"
  shows "sorted_wrt (\<lambda>(k, stamp, pub) (k', stamp', pub'). k = k' \<longrightarrow>
      stamp \<le> stamp' \<and> (policy \<noteq> LastWriterWins \<longrightarrow> same_publisher pub pub')) (List.map_filter publication_of t) \<and>
    (\<forall>(k, stamp, pub) \<in> set (List.map_filter publication_of t). kind_of k (in_statics s) = Some KindDynamic)"
proof -
  note start = ingest_start(1,2) [OF assms(1), of policy clock tf_prefix]
  have s: "ingest_ok s" "au_policy (in_authority s) = policy" using run_fine [OF start(1) assms(2)] start(2) by (simp_all add: fixed_part_def)
  have "sorted_wrt (\<lambda>p q. fst p = fst q \<longrightarrow> fst (snd p) \<le> fst (snd q)) (List.map_filter publication_of t)"
    using stamps.run_ordered [OF s(1) assms(3,4)] by simp
  moreover have "sorted_wrt (\<lambda>p q. fst p = fst q \<longrightarrow> same_publisher (snd (snd p)) (snd (snd q))) (List.map_filter publication_of t)"
    if "policy \<noteq> LastWriterWins" using owners.run_ordered [OF s(1) assms(3)] s(2) that by simp
  moreover have "kind_of (fst p) (in_statics s) = Some KindDynamic" if "p \<in> set (List.map_filter publication_of t)" for p
  proof -
    have x: "slots_ok (ss_index (in_statics s))" using s(1) by (simp add: ingest_ok_def tables_ok_def statics_ok_def)
    show ?thesis using stamps.run_ordered [OF s(1) assms(3,4)] that edge_get_slot [OF x] by (fastforce simp: kind_of_def edge_keys_def)
  qed
  ultimately show ?thesis by (cases "policy = LastWriterWins") (auto simp: sorted_wrt_iff_nth_less case_prod_beta)
qed

theorem publications_ordered_witness:
  "\<exists>t s. ingest_run [EvOffer TopicTf contested_sample Unattributed] contested_start = Some (t, s) \<and>
     List.map_filter publication_of t = [(contested_edge, 10, Unattributed)] \<and> kind_of contested_edge (in_statics contested_start) = Some KindDynamic"
proof -
  obtain s where s: "offer TopicTf contested_sample Unattributed contested_start =
      Some (ActPublish (utf8 ''map'') (utf8 ''odom'') 10 (map Some [1, 0, 0, 0, 0, 0, 0]), s)" using contested_offer by blast
  let ?t = "[(EvOffer TopicTf contested_sample Unattributed, Some (ActPublish (utf8 ''map'') (utf8 ''odom'') 10 (map Some [1, 0, 0, 0, 0, 0, 0])))]"
  have run: "ingest_run [EvOffer TopicTf contested_sample Unattributed] contested_start = Some (?t, s)" using s by simp
  have pubs: "List.map_filter publication_of ?t = [(contested_edge, 10, Unattributed)]" by (simp add: map_filter_simps)
  have r0: "ingest_run [] (ingest_with_policies contested_config Strict (clock_policy_default\<lparr>cp_on_reset := ResetHalt\<rparr>) None) = Some ([], contested_start)"
    by (simp add: contested_start_def ingest_with_def)
  have no: "\<forall>(e, a) \<in> set ?t. \<forall>delta ev. a \<noteq> Some (ActRecreateArena delta ev)" by simp
  have "\<forall>(k, stamp, pub) \<in> set (List.map_filter publication_of ?t). kind_of k (in_statics contested_start) = Some KindDynamic"
    using publications_ordered [OF contested_small r0 run no] by blast
  then show ?thesis using run pubs by auto
qed

text \<open>C36: when a transform is published. While no startup halt is due, \<open>offer\<close> answers, and it publishes exactly
  when the sample came on \<open>/tf\<close>, both names normalize to a declared dynamic edge, the edge is free or owned by this
  publisher or handed over by \<open>LastWriterWins\<close>, the offset rule sees no step of the clock, and the stamp is not older
  than the newest on the edge; it then publishes the normalized names with the stamp and the pose as they came. The
  cache of resolved spellings never shows.\<close>

theorem offer_publishes:
  assumes "ingest_ok s" "in_window_open s \<longrightarrow> bs_transforms (in_stats s) < STARTUP_WINDOW_TRANSFORMS"
  shows "\<exists>a s'. offer topic m pub s = Some (a, s') \<and>
    (a = ActPublish p c stamp pose \<longleftrightarrow> topic = TopicTf \<and> stamp = sm_stamp_nanos m \<and> pose = sm_pose m \<and>
       (\<exists>slot < length (edge_keys s). edge_keys s ! slot = (p, c) \<and> wire_edge (nn_prefix (in_names s)) (sample_edge m) = Some (p, c) \<and>
          ss_kinds (in_statics s) ! slot = KindDynamic \<and> owner_admits slot pub s \<and> clock_admits slot m pub s))"
proof -
  have "\<not> (in_window_open s \<and> STARTUP_WINDOW_TRANSFORMS \<le> bs_transforms (in_stats s))" using assms(2) by auto
  then have "offer topic m pub s = Some (offer_counted topic m pub s)" unfolding offer_def by (simp only: if_False option.case prod.case)
  then show ?thesis
    using offer_counted_publishes [OF assms(1), of topic m pub p c stamp pose]
    by (intro exI [of _ "fst (offer_counted topic m pub s)"] exI [of _ "snd (offer_counted topic m pub s)"] conjI) simp_all
qed

theorem offer_publishes_witness:
  "\<exists>s'. offer TopicTf contested_sample Unattributed contested_start =
     Some (ActPublish (utf8 ''map'') (utf8 ''odom'') 10 (map Some [1, 0, 0, 0, 0, 0, 0]), s')"
proof -
  have "wire_edge None (sample_edge contested_sample) = Some contested_edge"
    by (simp add: wire_edge_def sample_edge_def contested_sample_def sample_identity_def wire_name_def strip_slash_def utf8_eval SLASH_def)
  moreover have "clock_admits 0 contested_sample Unattributed contested_start" "owner_admits 0 Unattributed contested_start"
    by (simp_all add: owner_admits_def clock_admits_def offset_observe_def contested_sample_def sample_identity_def contested_start_facts)
  ultimately show ?thesis
    using offer_publishes [OF contested_start_facts(1), of TopicTf contested_sample Unattributed "utf8 ''map''" "utf8 ''odom''" 10 "map Some [1, 0, 0, 0, 0, 0, 0]"]
    by (auto simp: contested_start_facts STARTUP_WINDOW_TRANSFORMS_def contested_sample_def sample_identity_def)
qed

text \<open>When an offer panics. Only the backstop of the startup window can: it counts the recorded conflicts, and under
  \<open>Strict\<close> that report panics once a conflict involves a publisher past the 64 that are numbered.\<close>

theorem offer_panics:
  assumes "ingest_ok s"
  shows "offer topic m pub s = None \<longleftrightarrow> in_window_open s \<and> STARTUP_WINDOW_TRANSFORMS \<le> bs_transforms (in_stats s) \<and>
    au_policy (in_authority s) = Strict \<and> unnumbered (in_authority s)"
proof -
  have "close_startup_window s = None \<longleftrightarrow> in_window_open s \<and> au_policy (in_authority s) = Strict \<and> unnumbered (in_authority s)"
    using assms by (intro close_cases(1)) (simp add: ingest_ok_def)
  then show ?thesis by (auto simp: offer_def split: option.split)
qed

theorem offer_panics_witness: "offer TopicTf contested_sample Unattributed contested_start \<noteq> None"
  using offer_panics [OF contested_start_facts(1)] by (simp add: contested_start_facts STARTUP_WINDOW_TRANSFORMS_def)

text \<open>The startup verdict. Closing the window, once, halts the bridge exactly under \<open>Strict\<close> with a conflict on
  record, and counts them: the recorded pairs of publishers per edge, and the static edges that were contradicted. When
  one of the publishers has no number it panics instead.\<close>

theorem startup_verdict:
  assumes "ingest_ok s" "in_window_open s"
  shows "close_startup_window s =
    (if au_policy (in_authority s) \<noteq> Strict then Some (None, s\<lparr>in_window_open := False\<rparr>)
     else if unnumbered (in_authority s) then None
     else (let n = card (dom (reported_at (in_authority s)));
               k = card {i. i < length (edge_keys s) \<and> 0 < ss_reported (in_statics s) ! i}
           in Some (if n = 0 \<and> k = 0 then None else Some (ActHalt (HaltStartupConflicts (min n u32_max) (min k u32_max))),
                    s\<lparr>in_window_open := False\<rparr>)))"
proof -
  have ok: "authority_ok (edge_keys s) (in_authority s)" "statics_ok (edge_keys s) (in_statics s)"
    using assms(1) by (simp_all add: ingest_ok_def tables_ok_def)
  have u: "min n u32_max = 0 \<longleftrightarrow> n = 0" for n by (simp add: min_def u32_max_def)
  show ?thesis
  proof (cases "authority_conflicts (in_authority s)")
    case None
    then show ?thesis using conflicts_panic [OF ok(1)] assms(2) by (simp add: close_startup_window_def Let_def)
  next
    case (Some rows)
    then show ?thesis using conflicts_panic [OF ok(1)] conflict_rows [OF ok(1) Some] static_conflict_rows [OF ok(2)] assms(2) u
      by (auto simp add: close_startup_window_def Let_def)
  qed
qed

theorem startup_verdict_witness: "close_startup_window contested_start = Some (None, contested_start\<lparr>in_window_open := False\<rparr>)"
  using startup_verdict [OF contested_start_facts(1,9)]
  by (simp add: contested_start_facts unnumbered_def reported_at_def)

end
