(* ===== verification/Spec2Isabelle.thy ===== *)
theory Spec2Isabelle
  imports Sample Seqlock Topo_Read Topo_Lock Arena_View Plan_Adaptive Interning_Live Tree_Lookup Bridge_Ingest
begin

text \<open>
  A verification development of \<open>tf_tree\<close>, a transform tree whose whole state lies in one flat arena, on the
  heap or in shared memory, that any number of processes read without locks. Paths below are relative to
  \<open>crates/\<close>.

  \<^bold>\<open>The program and its parts.\<close>
  The \<^emph>\<open>arena\<close> (\<open>tf_tree_arena\<close>) is a header followed by tables at offsets that the header's limits
  determine. The \<^emph>\<open>core\<close> (\<open>tf_tree_core\<close>) keeps in it the frames and their interning table, the frame tree, the
  edges with a sample ring each, the claims that make an edge's writer exclusive, the participants, and
  counters. A publisher claims an edge and pushes stamped poses to its ring; a mutator takes the topology
  lock and publishes a new frame tree with one store; a reader compiles the path between two frames to
  a plan once and evaluates it at stamps, each step by a search of one ring and an interpolation (\<open>tf_tree_math\<close>).
  The \<^emph>\<open>facade\<close> (\<open>tf_tree\<close>) declares trees, resolves names and caches plans per thread. The \<^emph>\<open>bridge\<close> (\<open>tf_tree_bridge\<close>)
  decides for every transform of a ROS stream whether it becomes a push, by names, declared edges, static
  values, ownership and clocks.

  \<^bold>\<open>Theories, in the order of their imports.\<close>
  \<^item> \<open>Prelude\<close>: the conventions, results, words, powers of two, little-endian bytes. \<open>Snapshot\<close>: the contract of
    optimistic reads. \<open>Core_Types\<close>: \<open>tf_tree_core/src/error.rs\<close>.
  \<^item> \<open>Arena_Layout\<close>: \<open>tf_tree_arena/src/layout.rs\<close>, \<open>header.rs\<close>, the header write of \<open>heap.rs\<close>, \<open>check.rs\<close>. The
    regions tile the arena; a header that was written validates; a header that validates places every table
    inside the mapping, aligned and apart from the others, whoever wrote it.
  \<^item> \<open>Pose\<close>: \<open>tf_tree_math/src/quat.rs\<close>, \<open>iso3.rs\<close>, \<open>twist.rs\<close>, \<open>dualquat.rs\<close>, \<open>interp.rs\<close>, \<open>reference.rs\<close> and the
    output layouts of \<open>tf_tree_core/src/layout.rs\<close>. The group of rigid transforms and the fused products.
  \<^item> \<open>Ring\<close> and \<open>Seqlock\<close>: \<open>tf_tree_core/src/buffer.rs\<close>. \<open>push\<close> as the list of its stores refines a bounded log and
    survives the writer's death between any two of them; a reader never gets a torn pose.
  \<^item> \<open>Sample\<close>: \<open>tf_tree_core/src/sample.rs\<close>. The bracket search against an abstract query on the retained samples,
    and the cursor-seeded reads against the plain ones.
  \<^item> \<open>Topology\<close>, \<open>Topo_Read\<close>, \<open>Topo_Lock\<close>: \<open>tf_tree_core/src/topology.rs\<close>. The tree stays a forest, a mutator that dies
    leaves no trace, reads are snapshots, at most one live participant holds the lock.
  \<^item> \<open>Claims\<close>: \<open>tf_tree_core/src/edge.rs\<close>. \<open>Participants\<close>: \<open>participant.rs\<close>. Fencing of superseded publishers, exclusive
    slots and stale reclaims, under interleaving and deaths.
  \<^item> \<open>Arena_View\<close>: \<open>tf_tree_core/src/arena_view.rs\<close> and the records of \<open>counters.rs\<close>. Bounds of every reference that
    is formed from an offset; a push to one ring leaves the others alone.
  \<^item> \<open>Interning\<close>, \<open>Interning_Live\<close>, \<open>Intern_Rest\<close>: \<open>tf_tree_core/src/frame.rs\<close>. One id per name under any
    interleaving, deaths and takeovers; progress; interning at rest as a function of the names before it.
  \<^item> \<open>Plan_Fold\<close>, \<open>Plan_Walk\<close>, \<open>Plan_Eval\<close>, \<open>Plan_Queries\<close>, \<open>Plan_Lookup\<close>, \<open>Plan_Adaptive\<close>:
    \<open>tf_tree_core/src/plan.rs\<close>. Folding against its reference on lists, compilation as the path through
    the lowest common ancestor, evaluation as the product along it, batches against single evaluations,
    refusal of stale plans, the knots of adaptive evaluation.
  \<^item> \<open>Plan_Cache\<close>: \<open>tf_tree/src/cache.rs\<close>. \<open>Tree_Build\<close> and \<open>Tree_Lookup\<close>: \<open>TreeBuilder\<close> and the lookups of
    \<open>tf_tree/src/tree.rs\<close>. The cache does not show; \<open>build\<close> returns the declared tree; a lookup by name answers the pose
    that the declared edges determine.
  \<^item> \<open>Bridge_Index\<close>: \<open>tf_tree_bridge/src/edgeindex.rs\<close>, \<open>interner.rs\<close>. \<open>Bridge_Names\<close>: \<open>names.rs\<close>, \<open>stats.rs\<close>, the types of
    \<open>lib.rs\<close>. \<open>Bridge_Clock\<close>: \<open>clock.rs\<close>. \<open>Bridge_Config\<close>: \<open>config.rs\<close>. \<open>Bridge_Tables\<close>: \<open>statics.rs\<close>, \<open>authority.rs\<close>.
    \<open>Bridge_Ingest\<close>: \<open>ingest.rs\<close>, \<open>edgemap.rs\<close>. The invariant of all the tables together with a balanced ledger,
    when a transform is published and in which order, and where a call panics.

  \<^bold>\<open>Interfaces.\<close> Where a client rests on a contract, the contract is a locale and the model of the code an
  interpretation of it.
  \<^item> \<open>versioned\<close> (\<open>Snapshot\<close>), a version that moves whenever a stable value does: \<open>slot\<close>, the sequence number of a pose
    slot, and \<open>topo\<close>, the topology word.
  \<^item> \<open>pose_group\<close> (\<open>Pose\<close>): \<open>iso\<close>, the unit transforms.
  \<^item> \<open>bounded_log\<close> (\<open>Ring\<close>), appending with a bounded memory: \<open>ring_log\<close>. \<open>stamp_window\<close> (\<open>Sample\<close>), sorted stamps between
    two logical indices: \<open>ring_window\<close>.
  \<^item> \<open>dense_index\<close> and its extension \<open>growing_index\<close> (\<open>Bridge_Index\<close>), keys numbered in the order of their
    insertion: \<open>edges\<close> and \<open>publishers\<close>.
  \<^item> \<open>publication_monitor\<close> (\<open>Bridge_Ingest\<close>), what a step may do to what later publications are admitted:
    \<open>stamps\<close>, the clock guard, and \<open>owners\<close>, the authority.

  \<^bold>\<open>How the code is read.\<close>
  \<^item> A \<open>Result\<close> is a sum, \<open>Inl\<close> the error; an \<open>Option\<close> an option. Where a call can panic or run for ever, \<open>None\<close> is that
    outcome, and the theorems say when it happens, mostly never.
  \<^item> \<open>u32\<close> and \<open>u64\<close> are words where the code packs, masks or wraps them. Sizes, offsets and event counters are
    \<open>nat\<close>; \<open>compute_no_overflow\<close> states when the sizes of the layout stay within 64 bits, and 2 to the 64 samples or
    transforms do not happen. Stamps are \<open>int\<close>, within \<open>i64\<close> where arithmetic saturates.
  \<^item> An \<open>f64\<close> is an exact real: rounding, infinities and NaN are not modelled, except that a component of a pose off
    the wire or of a config is an optional real, \<open>None\<close> what is not finite, where the code checks for it.
  \<^item> Strings are their UTF-8 bytes. The name hash is the third-party BLAKE3 and a parameter.
  \<^item> Concurrent code is the sequence of its atomic accesses, interleaved with those of any number of other
    processes that may die between any two of them. Memory is sequentially consistent: the orderings and fences of
    the code are what it relies on for that and are not modelled. A theorem that needs a version not to
    come round to the same value within one read says so as a hypothesis.

  \<^bold>\<open>Bounds and fuel.\<close> The retry limits are those of the code: \<open>SEQ_RETRY_LIMIT\<close> and \<open>TOPO_RETRY_LIMIT\<close>,
  \<open>TOPO_LOCK_SPIN_LIMIT\<close>, \<open>INTERN_SPIN_LIMIT\<close>, \<open>MAX_PATH_EDGES\<close>, \<open>MAX_DEPTH\<close>, \<open>MAX_KNOTS\<close> and \<open>MAX_ADAPTIVE_DEPTH\<close>. Fuel
  stands only for loops that have no limit in the code.
  \<^item> \<open>compile\<close> repeats an attempt that a mutation landed in; \<open>Plan_Walk\<close> ends with the proof that a number of rounds up
    to a quiet one is enough.
  \<^item> An interner at rest gets \<open>intern_fuel\<close>, 8 accesses per slot and 16 more; \<open>Interning_Live\<close> gives the bound of an
    interner among others, spins included.
  \<^item> A probe of a bridge table gets one round per bucket and one more; a table under the invariant has an empty bucket, so
    the probe ends.
  \<^item> The walk that looks for a cycle in a config gets two rounds more than there are edges; it visits a frame
    at most once.

  \<^bold>\<open>Not modelled.\<close>
  \<^item> \<open>tf_tree_ipc\<close>: the rendezvous of processes over lock files and sockets, and \<open>tf_tree/src/open.rs\<close>. System calls for
    the most part; their decision procedure and wire format are planned.
  \<^item> \<open>tf_tree_arena/src/mapped.rs\<close> and \<open>frozen.rs\<close>, \<open>tf_tree/src/frozen.rs\<close>, \<open>cbor.rs\<close>: mappings and files. What they accept is
    decided by the validation of \<open>check.rs\<close>, which is modelled.
  \<^item> The rest of \<open>tf_tree/src/tree.rs\<close>: publisher handles, reaping, and descriptions of a tree as text.
  \<^item> \<open>tf_tree_bridge/src/discover.rs\<close>, the text layer of the config parser, and the texts of all reports.
  \<^item> \<open>tf_tree_ingest\<close>: recordings to frozen arenas, mostly third-party formats and files.
  \<^item> The bindings (\<open>tf_tree_c\<close>, \<open>tf_tree_py\<close>, \<open>tf_tree_tf2_sys\<close>), the command line (\<open>tf_tree_cli\<close>), benchmarks and tests, and the
    backend \<open>helicoid_backend.rs\<close> of the math, which calls a third-party library.
\<close>

end
